(* ===== verification/FS_Prelude.thy ===== *)
theory FS_Prelude
  imports Main "HOL-Library.Word"
begin

text \<open>
  The vocabulary shared by the component theories: the faults a C program can run into, results
  that may be a fault, the status codes of \<^verbatim>\<open>switch_types.h\<close>, size arithmetic at the width of the
  target, bounds-checked memory access, flag words, and the generic lemmas on lists, options,
  results and words that the component proofs use.

  The repository cross-compiles FreeSWITCH 1.6.19 for \<^verbatim>\<open>armv7-a\<close> (\<^verbatim>\<open>env.sh\<close>):
  \<^verbatim>\<open>size_t\<close> has 32 bits there, and plain \<^verbatim>\<open>char\<close> is unsigned.
\<close>

unbundle bit_operations_syntax

section \<open>Types of the model\<close>

type_synonym byte = "8 word"
type_synonym uint16_t = "16 word"
type_synonym uint32_t = "32 word"

text \<open>What an execution of C code can do instead of returning: fail a \<^verbatim>\<open>switch_assert\<close>, follow a
  null pointer, access memory outside an object, follow a pointer that was never initialised, or
  call \<^verbatim>\<open>abort()\<close>.\<close>

datatype c_fault = Assert_Failed | Null_Access | Out_Of_Bounds | Wild_Access | Aborted

type_synonym 'a c_result = "c_fault + 'a"

datatype switch_status_t =
    SWITCH_STATUS_SUCCESS | SWITCH_STATUS_FALSE | SWITCH_STATUS_TIMEOUT | SWITCH_STATUS_RESTART
  | SWITCH_STATUS_INTR | SWITCH_STATUS_NOTIMPL | SWITCH_STATUS_MEMERR | SWITCH_STATUS_NOOP
  | SWITCH_STATUS_RESAMPLE | SWITCH_STATUS_GENERR | SWITCH_STATUS_INUSE | SWITCH_STATUS_BREAK
  | SWITCH_STATUS_SOCKERR | SWITCH_STATUS_MORE_DATA | SWITCH_STATUS_NOTFOUND
  | SWITCH_STATUS_UNLOAD | SWITCH_STATUS_NOUNLOAD | SWITCH_STATUS_IGNORE
  | SWITCH_STATUS_TOO_SMALL | SWITCH_STATUS_FOUND | SWITCH_STATUS_CONTINUE | SWITCH_STATUS_TERM
  | SWITCH_STATUS_NOT_INITALIZED | SWITCH_STATUS_TOO_LATE | SWITCH_STATUS_XBREAK
  | SWITCH_STATUS_WINBREAK

section \<open>Results\<close>

definition and_then :: "'a c_result \<Rightarrow> ('a \<Rightarrow> 'b c_result) \<Rightarrow> 'b c_result" where
  "and_then r k = (case r of Inl e \<Rightarrow> Inl e | Inr x \<Rightarrow> k x)"

section \<open>Sizes\<close>

text \<open>\<^verbatim>\<open>switch_size_t\<close> values are natural numbers below \<open>size_mod\<close>; addition and subtraction
  wrap, as unsigned arithmetic of C does.\<close>

definition size_mod :: nat where
  "size_mod = 2 ^ 32"

definition size_add :: "nat \<Rightarrow> nat \<Rightarrow> nat" where
  "size_add a b = (a + b) mod size_mod"

definition size_sub :: "nat \<Rightarrow> nat \<Rightarrow> nat" where
  "size_sub a b = (a + size_mod - b) mod size_mod"

section \<open>Memory objects\<close>

text \<open>An object in memory is the list of its cells. Reads and writes that leave the object are
  faults.\<close>

definition mem_read :: "'a list \<Rightarrow> nat \<Rightarrow> nat \<Rightarrow> 'a list c_result" where
  "mem_read m off n = (if off + n \<le> length m then Inr (take n (drop off m)) else Inl Out_Of_Bounds)"

definition mem_write :: "'a list \<Rightarrow> nat \<Rightarrow> 'a list \<Rightarrow> 'a list c_result" where
  "mem_write m off xs =
     (if off + length xs \<le> length m then Inr (take off m @ xs @ drop (off + length xs) m)
      else Inl Out_Of_Bounds)"

text \<open>\<^verbatim>\<open>realloc\<close> keeps the common prefix; the cells it adds have indeterminate values, given by
  \<open>junk\<close>.\<close>

definition mem_realloc :: "'a list \<Rightarrow> nat \<Rightarrow> (nat \<Rightarrow> 'a) \<Rightarrow> 'a list" where
  "mem_realloc m n junk = take n m @ map junk [length m..<n]"

section \<open>Flag words\<close>

definition test_flag :: "uint32_t \<Rightarrow> uint32_t \<Rightarrow> bool" where
  "test_flag fl f \<longleftrightarrow> fl AND f \<noteq> 0"

definition set_flag :: "uint32_t \<Rightarrow> uint32_t \<Rightarrow> uint32_t" where
  "set_flag fl f = fl OR f"

definition clear_flag :: "uint32_t \<Rightarrow> uint32_t \<Rightarrow> uint32_t" where
  "clear_flag fl f = fl AND NOT f"

section \<open>Shared lemmas\<close>

named_theorems fs_mem \<open>memory access inside an object\<close>

lemma and_then_simps [simp]:
  "and_then (Inl e) k = Inl e"
  "and_then (Inr x) k = k x"
  by (simp_all add: and_then_def)

lemma and_then_assoc: "and_then (and_then r f) g = and_then r (\<lambda>x. and_then (f x) g)"
  by (cases r) simp_all

lemma and_then_eq_Inr:
  "and_then r k = Inr y \<longleftrightarrow> (\<exists>x. r = Inr x \<and> k x = Inr y)"
  by (cases r) simp_all

lemma size_mod_pos [simp]: "0 < size_mod"
  by (simp add: size_mod_def)

lemma size_add_less [simp]: "size_add a b < size_mod"
  by (simp add: size_add_def)

lemma size_add_eq: "a + b < size_mod \<Longrightarrow> size_add a b = a + b"
  by (simp add: size_add_def)

lemma size_sub_eq:
  assumes "b \<le> a" and "a < size_mod"
  shows "size_sub a b = a - b"
proof -
  have "size_sub a b = ((a - b) + size_mod) mod size_mod"
    using assms(1) by (simp add: size_sub_def)
  also have "\<dots> = a - b" using assms(2) by simp
  finally show ?thesis .
qed

lemma size_sub_wrap: "a < b \<Longrightarrow> b \<le> size_mod \<Longrightarrow> size_sub a b = size_mod - (b - a)"
  by (simp add: size_sub_def)

lemma mem_read_ok [fs_mem]: "off + n \<le> length m \<Longrightarrow> mem_read m off n = Inr (take n (drop off m))"
  by (simp add: mem_read_def)

lemma mem_write_ok [fs_mem]:
  "off + length xs \<le> length m \<Longrightarrow>
   mem_write m off xs = Inr (take off m @ xs @ drop (off + length xs) m)"
  by (simp add: mem_write_def)

lemma mem_write_length: "mem_write m off xs = Inr m' \<Longrightarrow> length m' = length m"
  by (auto simp: mem_write_def split: if_splits)

lemma length_mem_realloc [simp]: "length (mem_realloc m n junk) = n"
  by (simp add: mem_realloc_def)

lemma take_mem_realloc: "k \<le> length m \<Longrightarrow> k \<le> n \<Longrightarrow> take k (mem_realloc m n junk) = take k m"
  by (simp add: mem_realloc_def min_def)

lemma test_flag_0 [simp]: "\<not> test_flag 0 f"
  by (simp add: test_flag_def)

lemma test_set_flag_self: "f \<noteq> 0 \<Longrightarrow> test_flag (set_flag fl f) f"
  by (simp add: test_flag_def set_flag_def bit_eq_iff bit_simps)

end
