(* ===== verification/FS_Buffer.thy ===== *)
theory FS_Buffer
  imports FS_Prelude
begin

text \<open>
  \<^verbatim>\<open>src/switch_buffer.c\<close>: the byte buffers used between media, file and socket code. A buffer is
  fixed (pool memory), dynamic (heap memory that grows by \<^verbatim>\<open>realloc\<close>) or a partition (a
  read-only window on the caller's memory). The model keeps the C representation: an object
  \<open>b_data\<close>, the offset \<open>b_head\<close> of the first unread byte in it, and the counters.

  The abstract value of a buffer is the list of its unread bytes. The locale \<open>byte_fifo\<close> states
  the contract of such a queue; its interpretation on the operations below carries the stream
  theorem: no byte is lost, duplicated or reordered, and no access leaves the object.
\<close>

section \<open>The model\<close>

definition SWITCH_BUFFER_FLAG_DYNAMIC :: uint32_t where
  "SWITCH_BUFFER_FLAG_DYNAMIC = 1"

definition SWITCH_BUFFER_FLAG_PARTITION :: uint32_t where
  "SWITCH_BUFFER_FLAG_PARTITION = 2"

record switch_buffer =
  b_data :: "byte list option"
  b_head :: nat
  b_used :: nat
  b_actually_used :: nat
  b_datalen :: nat
  b_max_len :: nat
  b_blocksize :: nat
  b_mutex :: "nat option"
  b_flags :: uint32_t
  b_id :: uint32_t
  b_loops :: int

definition is_dynamic :: "switch_buffer \<Rightarrow> bool" where
  "is_dynamic b \<longleftrightarrow> test_flag (b_flags b) SWITCH_BUFFER_FLAG_DYNAMIC"

definition is_partition :: "switch_buffer \<Rightarrow> bool" where
  "is_partition b \<longleftrightarrow> test_flag (b_flags b) SWITCH_BUFFER_FLAG_PARTITION"

text \<open>The cells the data pointer gives access to: none when it is null.\<close>

definition b_mem :: "switch_buffer \<Rightarrow> byte list" where
  "b_mem b = (case b_data b of None \<Rightarrow> [] | Some m \<Rightarrow> m)"

text \<open>A zeroed structure, as \<^verbatim>\<open>switch_core_alloc\<close> and \<^verbatim>\<open>memset\<close> leave it.\<close>

definition zeroed_buffer :: switch_buffer where
  "zeroed_buffer =
     \<lparr>b_data = None, b_head = 0, b_used = 0, b_actually_used = 0, b_datalen = 0, b_max_len = 0,
      b_blocksize = 0, b_mutex = None, b_flags = 0, b_id = 0, b_loops = 0\<rparr>"

definition switch_buffer_reset_partition_data :: "switch_buffer \<Rightarrow> switch_status_t \<times> switch_buffer" where
  "switch_buffer_reset_partition_data b =
     (if \<not> is_partition b then (SWITCH_STATUS_FALSE, b)
      else (SWITCH_STATUS_SUCCESS,
            b\<lparr>b_head := 0, b_used := b_datalen b, b_actually_used := b_datalen b\<rparr>))"

definition switch_buffer_set_partition_data ::
  "switch_buffer \<Rightarrow> byte list \<Rightarrow> nat \<Rightarrow> switch_status_t \<times> switch_buffer" where
  "switch_buffer_set_partition_data b data datalen =
     (if \<not> is_partition b then (SWITCH_STATUS_FALSE, b)
      else switch_buffer_reset_partition_data (b\<lparr>b_data := Some data, b_datalen := datalen\<rparr>))"

text \<open>The constructors take the static counter \<^verbatim>\<open>buffer_id\<close> and return it updated; \<open>mem_ok\<close> tells
  whether the allocation of the structure succeeds, \<open>data_ok\<close> that of its memory.\<close>

definition switch_buffer_create_partition ::
  "bool \<Rightarrow> uint32_t \<Rightarrow> byte list \<Rightarrow> nat \<Rightarrow> switch_status_t \<times> switch_buffer option \<times> uint32_t" where
  "switch_buffer_create_partition mem_ok buffer_id data datalen =
     (if mem_ok then
        (let b = zeroed_buffer\<lparr>b_id := buffer_id\<rparr>;
             b = b\<lparr>b_flags := set_flag (b_flags b) SWITCH_BUFFER_FLAG_PARTITION\<rparr>
         in (SWITCH_STATUS_SUCCESS, Some (snd (switch_buffer_set_partition_data b data datalen)),
             buffer_id + 1))
      else (SWITCH_STATUS_MEMERR, None, buffer_id))"

definition switch_buffer_create ::
  "bool \<Rightarrow> bool \<Rightarrow> uint32_t \<Rightarrow> nat \<Rightarrow> switch_status_t \<times> switch_buffer option \<times> uint32_t" where
  "switch_buffer_create mem_ok data_ok buffer_id max_len =
     (if mem_ok \<and> data_ok then
        (SWITCH_STATUS_SUCCESS,
         Some (zeroed_buffer\<lparr>b_data := Some (replicate max_len 0), b_datalen := max_len,
                             b_id := buffer_id, b_head := 0\<rparr>),
         buffer_id + 1)
      else (SWITCH_STATUS_MEMERR, None, buffer_id))"

definition switch_buffer_create_dynamic ::
  "bool \<Rightarrow> bool \<Rightarrow> uint32_t \<Rightarrow> nat \<Rightarrow> nat \<Rightarrow> nat \<Rightarrow>
   switch_status_t \<times> switch_buffer option \<times> uint32_t" where
  "switch_buffer_create_dynamic mem_ok data_ok buffer_id blocksize start_len max_len =
     (if mem_ok then
        (if start_len \<noteq> 0 \<and> \<not> data_ok then (SWITCH_STATUS_MEMERR, None, buffer_id)
         else
           (SWITCH_STATUS_SUCCESS,
            Some (zeroed_buffer\<lparr>
              b_data := (if start_len \<noteq> 0 then Some (replicate start_len 0) else None),
              b_max_len := max_len, b_datalen := start_len, b_id := buffer_id,
              b_blocksize := blocksize, b_head := 0,
              b_flags := set_flag 0 SWITCH_BUFFER_FLAG_DYNAMIC\<rparr>),
            buffer_id + 1))
      else (SWITCH_STATUS_MEMERR, None, buffer_id))"

text \<open>The mutex operations are APR's; they act on a state \<open>'m\<close> of mutexes named by numbers.\<close>

definition switch_buffer_add_mutex :: "switch_buffer \<Rightarrow> nat option \<Rightarrow> switch_buffer" where
  "switch_buffer_add_mutex b m = b\<lparr>b_mutex := m\<rparr>"

definition switch_buffer_lock :: "(nat \<Rightarrow> 'm \<Rightarrow> switch_status_t \<times> 'm) \<Rightarrow> switch_buffer \<Rightarrow> 'm \<Rightarrow> 'm" where
  "switch_buffer_lock switch_mutex_lock b st =
     (case b_mutex b of None \<Rightarrow> st | Some m \<Rightarrow> snd (switch_mutex_lock m st))"

definition switch_buffer_trylock ::
  "(nat \<Rightarrow> 'm \<Rightarrow> switch_status_t \<times> 'm) \<Rightarrow> switch_buffer \<Rightarrow> 'm \<Rightarrow> switch_status_t \<times> 'm" where
  "switch_buffer_trylock switch_mutex_lock b st =
     (case b_mutex b of None \<Rightarrow> (SWITCH_STATUS_FALSE, st) | Some m \<Rightarrow> switch_mutex_lock m st)"

definition switch_buffer_unlock :: "(nat \<Rightarrow> 'm \<Rightarrow> 'm) \<Rightarrow> switch_buffer \<Rightarrow> 'm \<Rightarrow> 'm" where
  "switch_buffer_unlock switch_mutex_unlock b st =
     (case b_mutex b of None \<Rightarrow> st | Some m \<Rightarrow> switch_mutex_unlock m st)"

definition switch_buffer_len :: "switch_buffer \<Rightarrow> nat" where
  "switch_buffer_len b = b_datalen b"

definition switch_buffer_freespace :: "switch_buffer \<Rightarrow> nat" where
  "switch_buffer_freespace b =
     (if is_dynamic b then
        (if b_max_len b \<noteq> 0 then size_sub (b_max_len b) (b_used b) else 1000000)
      else size_sub (b_datalen b) (b_used b))"

definition switch_buffer_inuse :: "switch_buffer \<Rightarrow> nat" where
  "switch_buffer_inuse b = b_used b"

definition switch_buffer_toss :: "switch_buffer \<Rightarrow> nat \<Rightarrow> nat \<times> switch_buffer" where
  "switch_buffer_toss b datalen =
     (if b_used b < 1 then (0, b\<lparr>b_used := 0\<rparr>)
      else
        (let reading = (if b_used b \<ge> datalen then datalen else b_used b);
             b' = b\<lparr>b_used := b_used b - reading, b_head := b_head b + reading\<rparr>
         in (b_used b', b')))"

definition switch_buffer_set_loops :: "switch_buffer \<Rightarrow> int \<Rightarrow> switch_buffer" where
  "switch_buffer_set_loops b loops = b\<lparr>b_loops := loops\<rparr>"

text \<open>The bytes copied out are the first component of the result; their number is the C return
  value.\<close>

definition switch_buffer_read :: "switch_buffer \<Rightarrow> nat \<Rightarrow> (byte list \<times> switch_buffer) c_result" where
  "switch_buffer_read b datalen =
     (if b_used b < 1 then Inr ([], b\<lparr>b_used := 0\<rparr>)
      else
        (let reading = (if b_used b \<ge> datalen then datalen else b_used b) in
         and_then (mem_read (b_mem b) (b_head b) reading) (\<lambda>bs.
           Inr (bs, b\<lparr>b_used := b_used b - reading, b_head := b_head b + reading\<rparr>))))"

definition switch_buffer_read_loop :: "switch_buffer \<Rightarrow> nat \<Rightarrow> (byte list \<times> switch_buffer) c_result" where
  "switch_buffer_read_loop b datalen =
     and_then (switch_buffer_read b datalen) (\<lambda>(bs, b).
       if length bs = 0 then
         (let b = (if b_loops b > 0 then b\<lparr>b_loops := b_loops b - 1\<rparr> else b) in
          if b_loops b = 0 then Inr ([], b)
          else switch_buffer_read (b\<lparr>b_head := 0, b_used := b_actually_used b\<rparr>) datalen)
       else Inr (bs, b))"

definition switch_buffer_peek :: "switch_buffer \<Rightarrow> nat \<Rightarrow> (byte list \<times> switch_buffer) c_result" where
  "switch_buffer_peek b datalen =
     (if b_used b < 1 then Inr ([], b\<lparr>b_used := 0\<rparr>)
      else
        (let reading = (if b_used b \<ge> datalen then datalen else b_used b) in
         and_then (mem_read (b_mem b) (b_head b) reading) (\<lambda>bs. Inr (bs, b))))"

text \<open>The pointer handed out is an offset into the object, null on an empty buffer.\<close>

definition switch_buffer_peek_zerocopy :: "switch_buffer \<Rightarrow> nat \<times> nat option \<times> switch_buffer" where
  "switch_buffer_peek_zerocopy b =
     (if b_used b < 1 then (0, None, b\<lparr>b_used := 0\<rparr>) else (b_used b, Some (b_head b), b))"

text \<open>\<^verbatim>\<open>switch_buffer_write\<close> in its three stages: sliding the unread bytes to the start of the
  object, growing a dynamic object, and appending. The argument \<open>ra\<close> answers \<^verbatim>\<open>realloc\<close>:
  \<open>None\<close> is failure, \<open>Some junk\<close> success with \<open>junk\<close> the contents of fresh cells.\<close>

type_synonym realloc_answer = "(nat \<Rightarrow> byte) option"

definition buffer_compact :: "switch_buffer \<Rightarrow> byte list \<Rightarrow> nat \<Rightarrow> switch_buffer c_result" where
  "buffer_compact b m datalen =
     (if size_sub (b_datalen b) (b_actually_used b) < datalen then
        and_then (mem_read m (b_head b) (b_used b)) (\<lambda>bs.
        and_then (mem_write m 0 bs) (\<lambda>m'.
          Inr (b\<lparr>b_data := Some m', b_head := 0, b_actually_used := b_used b\<rparr>)))
      else Inr b)"

definition buffer_grow :: "switch_buffer \<Rightarrow> realloc_answer \<Rightarrow> nat \<Rightarrow> bool \<times> switch_buffer" where
  "buffer_grow b ra datalen =
     (if is_dynamic b \<and> size_sub (b_datalen b) (b_used b) < datalen \<and>
         (b_max_len b = 0 \<or> size_add (b_used b) datalen \<le> b_max_len b) then
        (let new_size = size_add (b_datalen b) datalen;
             new_block_size = size_add (b_datalen b) (b_blocksize b);
             new_size = (if new_block_size > new_size then new_block_size else new_size);
             b = b\<lparr>b_head := 0\<rparr>
         in case ra of
              None \<Rightarrow> (False, b)
            | Some junk \<Rightarrow>
                (True, b\<lparr>b_data := Some (mem_realloc (b_mem b) new_size junk), b_head := 0,
                         b_datalen := new_size\<rparr>))
      else (True, b))"

definition buffer_append :: "switch_buffer \<Rightarrow> byte list \<Rightarrow> (nat \<times> switch_buffer) c_result" where
  "buffer_append b bs =
     (if size_sub (b_datalen b) (b_used b) < length bs then Inr (0, b)
      else
        and_then (mem_write (b_mem b) (b_head b + b_used b) bs) (\<lambda>m.
          Inr (size_add (b_used b) (length bs),
               b\<lparr>b_data := Some m, b_used := size_add (b_used b) (length bs),
                 b_actually_used := size_add (b_actually_used b) (length bs)\<rparr>)))"

definition switch_buffer_write ::
  "switch_buffer \<Rightarrow> realloc_answer \<Rightarrow> byte list \<Rightarrow> (nat \<times> switch_buffer) c_result" where
  "switch_buffer_write b ra bs =
     (if is_partition b then Inr (0, b)
      else case b_data b of
        None \<Rightarrow> Inl Assert_Failed
      | Some m \<Rightarrow>
          if bs = [] then Inr (b_used b, b)
          else
            and_then (buffer_compact b m (length bs)) (\<lambda>b.
              case buffer_grow b ra (length bs) of
                (False, b) \<Rightarrow> Inr (0, b)
              | (True, b) \<Rightarrow> buffer_append b bs))"

definition switch_buffer_zero :: "switch_buffer \<Rightarrow> switch_buffer c_result" where
  "switch_buffer_zero b =
     (case b_data b of
        None \<Rightarrow> Inl Assert_Failed
      | Some _ \<Rightarrow> Inr (b\<lparr>b_used := 0, b_actually_used := 0, b_head := 0\<rparr>))"

definition switch_buffer_zwrite ::
  "switch_buffer \<Rightarrow> realloc_answer \<Rightarrow> realloc_answer \<Rightarrow> byte list \<Rightarrow> (nat \<times> switch_buffer) c_result" where
  "switch_buffer_zwrite b ra ra' bs =
     (if is_partition b then Inr (0, b)
      else
        and_then (switch_buffer_write b ra bs) (\<lambda>(w, b).
          if w = 0 then and_then (switch_buffer_zero b) (\<lambda>b. switch_buffer_write b ra' bs)
          else Inr (w, b)))"

definition switch_buffer_slide_write ::
  "switch_buffer \<Rightarrow> realloc_answer \<Rightarrow> realloc_answer \<Rightarrow> byte list \<Rightarrow> (nat \<times> switch_buffer) c_result" where
  "switch_buffer_slide_write b ra ra' bs =
     (if is_partition b then Inr (0, b)
      else
        and_then (switch_buffer_write b ra bs) (\<lambda>(w, b).
          if w = 0 then switch_buffer_write (snd (switch_buffer_toss b (length bs))) ra' bs
          else Inr (w, b)))"

text \<open>Destroying a dynamic buffer frees its object and the structure; the caller's pointer becomes
  null in every case.\<close>

datatype freed = Free_Data "byte list" | Free_Struct uint32_t

definition switch_buffer_destroy :: "switch_buffer option \<Rightarrow> freed list \<times> switch_buffer option" where
  "switch_buffer_destroy bp =
     (case bp of
        None \<Rightarrow> ([], None)
      | Some b \<Rightarrow>
          ((if is_dynamic b then
              (case b_data b of None \<Rightarrow> [] | Some m \<Rightarrow> [Free_Data m]) @ [Free_Struct (b_id b)]
            else []), None))"

section \<open>Representation invariant and abstract value\<close>

definition buffer_inv :: "switch_buffer \<Rightarrow> bool" where
  "buffer_inv b \<longleftrightarrow>
     b_datalen b \<le> length (b_mem b) \<and>
     (\<not> is_partition b \<longrightarrow> b_datalen b = length (b_mem b)) \<and>
     b_head b + b_used b = b_actually_used b \<and>
     b_actually_used b \<le> b_datalen b \<and>
     b_datalen b < size_mod"

definition buffer_contents :: "switch_buffer \<Rightarrow> byte list" where
  "buffer_contents b = take (b_used b) (drop (b_head b) (b_mem b))"

text \<open>A buffer between the stages of a write of \<open>n\<close> bytes: the unread bytes start at the object's
  start, or the bytes fit behind them.\<close>

definition buffer_ready :: "switch_buffer \<Rightarrow> nat \<Rightarrow> bool" where
  "buffer_ready b n \<longleftrightarrow> buffer_inv b \<and> \<not> is_partition b \<and> b_data b \<noteq> None \<and>
     (b_head b = 0 \<or> n \<le> b_datalen b - b_actually_used b)"

text \<open>What a write leaves alone.\<close>

definition same_kind :: "switch_buffer \<Rightarrow> switch_buffer \<Rightarrow> bool" where
  "same_kind b b' \<longleftrightarrow> b_flags b' = b_flags b \<and> b_max_len b' = b_max_len b \<and>
     b_blocksize b' = b_blocksize b \<and> b_loops b' = b_loops b \<and> b_id b' = b_id b \<and>
     b_mutex b' = b_mutex b"

named_theorems buffer_defs \<open>unfoldings of the buffer model\<close>

declare buffer_inv_def [buffer_defs] buffer_contents_def [buffer_defs] b_mem_def [buffer_defs]
  is_partition_def [buffer_defs] is_dynamic_def [buffer_defs] same_kind_def [buffer_defs]

lemma same_kind_refl [simp]: "same_kind b b"
  by (simp add: same_kind_def)

lemma same_kind_trans: "same_kind a b \<Longrightarrow> same_kind b c \<Longrightarrow> same_kind a c"
  by (simp add: same_kind_def)

lemma same_kind_partition: "same_kind b b' \<Longrightarrow> is_partition b' = is_partition b"
  by (simp add: same_kind_def is_partition_def)

lemma b_mem_head [simp]: "b_mem (b\<lparr>b_head := h\<rparr>) = b_mem b"
  by (simp add: b_mem_def)

lemma length_buffer_contents: "buffer_inv b \<Longrightarrow> length (buffer_contents b) = b_used b"
  by (auto simp: buffer_contents_def buffer_inv_def)

section \<open>Reading\<close>

lemma buffer_read_ok:
  assumes "buffer_inv b"
  shows "\<exists>b'. switch_buffer_read b n = Inr (take n (buffer_contents b), b') \<and> buffer_inv b' \<and>
    buffer_contents b' = drop n (buffer_contents b) \<and> same_kind b b' \<and>
    b_datalen b' = b_datalen b \<and> b_data b' = b_data b"
proof (cases "b_used b = 0")
  case True
  with assms show ?thesis
    by (auto simp: switch_buffer_read_def buffer_defs)
next
  case False
  let ?r = "if n \<le> b_used b then n else b_used b"
  have "b_head b + ?r \<le> length (b_mem b)" using assms by (auto simp: buffer_inv_def)
  with False assms show ?thesis
    by (auto simp: switch_buffer_read_def fs_mem Let_def buffer_defs min_def drop_take add.commute)
qed

lemma buffer_peek_ok:
  assumes "buffer_inv b"
  shows "switch_buffer_peek b n = Inr (take n (buffer_contents b), b)"
proof -
  let ?r = "if n \<le> b_used b then n else b_used b"
  have "b_head b + ?r \<le> length (b_mem b)" using assms by (auto simp: buffer_inv_def)
  then show ?thesis
    by (auto simp: switch_buffer_peek_def fs_mem Let_def buffer_contents_def min_def)
qed

lemma buffer_toss_ok:
  assumes "buffer_inv b"
  shows "buffer_inv (snd (switch_buffer_toss b n))"
    and "buffer_contents (snd (switch_buffer_toss b n)) = drop n (buffer_contents b)"
    and "fst (switch_buffer_toss b n) = b_used b - n"
    and "same_kind b (snd (switch_buffer_toss b n))"
    and "b_datalen (snd (switch_buffer_toss b n)) = b_datalen b"
    and "b_data (snd (switch_buffer_toss b n)) = b_data b"
  using assms
  by (auto simp: switch_buffer_toss_def buffer_defs Let_def drop_take add.commute)

section \<open>Writing\<close>

lemma buffer_compact_ok:
  assumes "buffer_inv b" and "b_data b = Some m" and "\<not> is_partition b"
  shows "\<exists>b'. buffer_compact b m n = Inr b' \<and> buffer_ready b' n \<and>
    buffer_contents b' = buffer_contents b \<and> b_used b' = b_used b \<and>
    b_datalen b' = b_datalen b \<and> same_kind b b'"
proof (cases "b_datalen b - b_actually_used b < n")
  case True
  have "b_head b + b_used b \<le> length m" "b_used b \<le> length m"
    using assms by (auto simp: buffer_inv_def b_mem_def)
  with True assms show ?thesis
    by (auto simp: buffer_compact_def size_sub_eq fs_mem buffer_ready_def buffer_defs)
next
  case False
  with assms show ?thesis
    by (auto simp: buffer_compact_def size_sub_eq buffer_ready_def buffer_inv_def)
qed

lemma buffer_grow_ok:
  assumes "buffer_ready b n" and "b_datalen b + n < size_mod"
    and "buffer_grow b ra n = (ok, b')"
  shows "buffer_ready b' n" and "buffer_contents b' = buffer_contents b"
    and "b_used b' = b_used b" and "same_kind b b'"
    and "b_datalen b \<le> b_datalen b'"
    and "b_datalen b' \<le> b_datalen b + n + b_blocksize b"
proof -
  have inv: "buffer_inv b" and data: "b_data b \<noteq> None" and np: "\<not> is_partition b"
    using assms(1) by (auto simp: buffer_ready_def)
  have "buffer_ready b' n \<and> buffer_contents b' = buffer_contents b \<and> b_used b' = b_used b \<and>
    same_kind b b' \<and> b_datalen b \<le> b_datalen b' \<and> b_datalen b' \<le> b_datalen b + n + b_blocksize b"
  proof (cases "is_dynamic b \<and> size_sub (b_datalen b) (b_used b) < n \<and>
         (b_max_len b = 0 \<or> size_add (b_used b) n \<le> b_max_len b)")
    case False
    then have "b' = b" using assms(3) by (auto simp: buffer_grow_def)
    with assms(1) show ?thesis by simp
  next
    case True
    let ?s = "if size_add (b_datalen b) (b_blocksize b) > size_add (b_datalen b) n
              then size_add (b_datalen b) (b_blocksize b) else size_add (b_datalen b) n"
    have full: "b_datalen b - b_used b < n"
      using True inv by (auto simp: size_sub_eq buffer_inv_def)
    then have h0: "b_head b = 0"
      using assms(1) by (auto simp: buffer_ready_def buffer_inv_def)
    have size: "b_datalen b + n \<le> ?s" "?s < size_mod" "?s \<le> b_datalen b + n + b_blocksize b"
      using assms(2) by (auto simp: size_add_eq size_add_def trans_le_add2
          intro: order_trans [OF mod_less_eq_dividend])
    show ?thesis
    proof (cases ra)
      case None
      then have "b' = b\<lparr>b_head := 0\<rparr>" using True assms(3) by (simp add: buffer_grow_def Let_def)
      then have "b' = b" using h0 by simp
      with assms(1) show ?thesis by simp
    next
      case (Some junk)
      then have b': "b' = b\<lparr>b_data := Some (mem_realloc (b_mem b) ?s junk), b_head := 0,
          b_datalen := ?s\<rparr>"
        using True assms(3) by (auto simp: buffer_grow_def Let_def)
      have "b_used b \<le> length (b_mem b)" "b_used b \<le> ?s"
        using inv size(1) by (auto simp: buffer_inv_def)
      then have "take (b_used b) (mem_realloc (b_mem b) ?s junk) = take (b_used b) (b_mem b)"
        by (rule take_mem_realloc)
      then have cont: "buffer_contents b' = buffer_contents b"
        using h0 b' by (simp add: buffer_contents_def b_mem_def)
      have "b_actually_used b = b_used b" using inv h0 by (simp add: buffer_inv_def)
      then have "buffer_ready b' n"
        using b' inv np size h0 by (auto simp: buffer_ready_def buffer_defs)
      with cont b' size show ?thesis by (auto simp: same_kind_def)
    qed
  qed
  then show "buffer_ready b' n" and "buffer_contents b' = buffer_contents b"
    and "b_used b' = b_used b" and "same_kind b b'"
    and "b_datalen b \<le> b_datalen b'"
    and "b_datalen b' \<le> b_datalen b + n + b_blocksize b" by blast+
qed

lemma buffer_append_ok:
  assumes "buffer_ready b (length bs)"
  shows "\<exists>r b'. buffer_append b bs = Inr (r, b') \<and> buffer_inv b' \<and> same_kind b b' \<and>
    b_datalen b' = b_datalen b \<and> b_data b' \<noteq> None \<and>
    (if b_datalen b - b_used b < length bs then r = 0 \<and> b' = b
     else r = b_used b + length bs \<and> buffer_contents b' = buffer_contents b @ bs)"
proof -
  have inv: "buffer_inv b" and np: "\<not> is_partition b"
    and pos: "b_head b = 0 \<or> length bs \<le> b_datalen b - b_actually_used b"
    using assms by (auto simp: buffer_ready_def)
  obtain m where m: "b_data b = Some m" using assms by (auto simp: buffer_ready_def)
  have free: "size_sub (b_datalen b) (b_used b) = b_datalen b - b_used b"
    using inv by (auto simp: size_sub_eq buffer_inv_def)
  show ?thesis
  proof (cases "b_datalen b - b_used b < length bs")
    case True
    with inv m free show ?thesis by (simp add: buffer_append_def)
  next
    case False
    then have fit: "b_head b + b_used b + length bs \<le> length m"
      using inv np pos m by (auto simp: buffer_inv_def b_mem_def)
    moreover have "length m < size_mod" using inv np m by (auto simp: buffer_inv_def b_mem_def)
    ultimately have "size_add (b_used b) (length bs) = b_used b + length bs"
      "size_add (b_actually_used b) (length bs) = b_actually_used b + length bs"
      using inv by (auto simp: size_add_eq buffer_inv_def)
    with False fit inv np m free show ?thesis
      by (auto simp: buffer_append_def fs_mem buffer_defs take_drop add.commute)
  qed
qed

text \<open>A write either appends all of its bytes and returns the new fill, or changes nothing and
  returns 0; it does not fault on a buffer that owns memory.\<close>

lemma buffer_write_ok:
  assumes inv: "buffer_inv b" and data: "b_data b \<noteq> None"
    and room: "b_datalen b + length bs < size_mod"
  shows "\<exists>r b'. switch_buffer_write b ra bs = Inr (r, b') \<and> buffer_inv b' \<and> same_kind b b' \<and>
    b_data b' \<noteq> None \<and> b_datalen b' \<le> b_datalen b + length bs + b_blocksize b \<and>
    buffer_contents b' = buffer_contents b @ (if r = 0 then [] else bs) \<and>
    (r = 0 \<or> r = length (buffer_contents b'))"
proof (cases "is_partition b \<or> bs = []")
  case True
  with inv data show ?thesis
    by (auto simp: switch_buffer_write_def length_buffer_contents)
next
  case False
  obtain m where m: "b_data b = Some m" using data by auto
  obtain b1 where b1: "buffer_compact b m (length bs) = Inr b1" "buffer_ready b1 (length bs)"
    "buffer_contents b1 = buffer_contents b" "b_used b1 = b_used b"
    "b_datalen b1 = b_datalen b" "same_kind b b1"
    using buffer_compact_ok [OF inv m] False by blast
  obtain ok b2 where b2: "buffer_grow b1 ra (length bs) = (ok, b2)" by fastforce
  note g = buffer_grow_ok [OF b1(2) _ b2]
  have room1: "b_datalen b1 + length bs < size_mod" using room b1(5) by simp
  have bound: "b_datalen b2 \<le> b_datalen b + length bs + b_blocksize b"
    using g(6) [OF room1] b1(5,6) by (simp add: same_kind_def)
  show ?thesis
  proof (cases ok)
    case False
    with \<open>\<not> (is_partition b \<or> bs = [])\<close> m b1 b2 g [OF room1] bound show ?thesis
      by (auto simp: switch_buffer_write_def buffer_ready_def intro: same_kind_trans)
  next
    case True
    obtain r b3 where b3: "buffer_append b2 bs = Inr (r, b3)" "buffer_inv b3" "same_kind b2 b3"
      "b_datalen b3 = b_datalen b2" "b_data b3 \<noteq> None"
      "if b_datalen b2 - b_used b2 < length bs then r = 0 \<and> b3 = b2
       else r = b_used b2 + length bs \<and> buffer_contents b3 = buffer_contents b2 @ bs"
      using buffer_append_ok [OF g(1) [OF room1]] by blast
    have kind: "same_kind b b3"
      using b1(6) g(4) [OF room1] b3(3) by (blast intro: same_kind_trans)
    have w: "switch_buffer_write b ra bs = Inr (r, b3)"
      using \<open>\<not> (is_partition b \<or> bs = [])\<close> m b1(1) b2 True b3(1)
      by (simp add: switch_buffer_write_def)
    have "buffer_contents b2 = buffer_contents b" using g(2) [OF room1] b1(3) by simp
    moreover have "b_used b2 = length (buffer_contents b2)"
      using g(1) [OF room1] by (simp add: buffer_ready_def length_buffer_contents)
    ultimately show ?thesis
      using w b3 kind bound \<open>\<not> (is_partition b \<or> bs = [])\<close> by (auto split: if_splits)
  qed
qed

section \<open>The contract of a byte queue\<close>

text \<open>Operations of a client on a queue, and their run: bytes taken out, bytes accepted, and the
  final queue.\<close>

datatype ('o, 'a) fifo_op = Put 'o "'a list" | Get nat

fun fifo_run ::
  "('q \<Rightarrow> 'o \<Rightarrow> 'a list \<Rightarrow> (nat \<times> 'q) c_result) \<Rightarrow> ('q \<Rightarrow> nat \<Rightarrow> ('a list \<times> 'q) c_result) \<Rightarrow>
   'q \<Rightarrow> ('o, 'a) fifo_op list \<Rightarrow> ('a list \<times> 'a list \<times> 'q) c_result" where
  "fifo_run put get q [] = Inr ([], [], q)"
| "fifo_run put get q (Put oo xs # ops) =
     and_then (put q oo xs) (\<lambda>(r, q').
     and_then (fifo_run put get q' ops) (\<lambda>(out, acc, q'').
       Inr (out, (if r = 0 then [] else xs) @ acc, q'')))"
| "fifo_run put get q (Get n # ops) =
     and_then (get q n) (\<lambda>(ys, q').
     and_then (fifo_run put get q' ops) (\<lambda>(out, acc, q'').
       Inr (ys @ out, acc, q'')))"

text \<open>Bytes offered by a run and the number of its writes.\<close>

fun offered :: "('o, 'a) fifo_op list \<Rightarrow> 'a list" where
  "offered [] = []"
| "offered (Put oo xs # ops) = xs @ offered ops"
| "offered (Get n # ops) = offered ops"

fun n_puts :: "('o, 'a) fifo_op list \<Rightarrow> nat" where
  "n_puts [] = 0"
| "n_puts (Put oo xs # ops) = Suc (n_puts ops)"
| "n_puts (Get n # ops) = n_puts ops"

locale byte_fifo =
  fixes inv :: "'q \<Rightarrow> bool"
    and contents :: "'q \<Rightarrow> 'a list"
    and size_of :: "'q \<Rightarrow> nat"
    and step :: "'q \<Rightarrow> nat"
    and limit :: nat
    and put :: "'q \<Rightarrow> 'o \<Rightarrow> 'a list \<Rightarrow> (nat \<times> 'q) c_result"
    and get :: "'q \<Rightarrow> nat \<Rightarrow> ('a list \<times> 'q) c_result"
  assumes put_law: "inv q \<Longrightarrow> size_of q + length xs < limit \<Longrightarrow>
      \<exists>r q'. put q oo xs = Inr (r, q') \<and> inv q' \<and> step q' = step q \<and>
        size_of q' \<le> size_of q + length xs + step q \<and>
        contents q' = contents q @ (if r = 0 then [] else xs)"
    and get_law: "inv q \<Longrightarrow>
      \<exists>q'. get q n = Inr (take n (contents q), q') \<and> inv q' \<and> step q' = step q \<and>
        size_of q' \<le> size_of q \<and> contents q' = drop n (contents q)"
begin

text \<open>Whatever a client does, the bytes it has taken out followed by those still in the queue are
  the initial contents followed by the bytes accepted, in order.\<close>

lemma fifo_run_stream:
  assumes "inv q" and "size_of q + length (offered ops) + n_puts ops * step q < limit"
  shows "\<exists>out acc q'. fifo_run put get q ops = Inr (out, acc, q') \<and> inv q' \<and>
    out @ contents q' = contents q @ acc"
  using assms
proof (induction ops arbitrary: q)
  case Nil
  then show ?case by simp
next
  case (Cons op ops)
  show ?case
  proof (cases op)
    case (Put oo xs)
    have "size_of q + length xs < limit" using Cons.prems(2) Put by simp
    then obtain r q1 where q1: "put q oo xs = Inr (r, q1)" "inv q1" "step q1 = step q"
      "size_of q1 \<le> size_of q + length xs + step q"
      "contents q1 = contents q @ (if r = 0 then [] else xs)"
      using put_law [OF Cons.prems(1)] by blast
    have "size_of q1 + length (offered ops) + n_puts ops * step q1 < limit"
      using Cons.prems(2) Put q1(3,4) by simp
    from Cons.IH [OF q1(2) this] obtain out acc q2 where
      "fifo_run put get q1 ops = Inr (out, acc, q2)" "inv q2"
      "out @ contents q2 = contents q1 @ acc" by blast
    with Put q1 show ?thesis by auto
  next
    case (Get n)
    obtain q1 where q1: "get q n = Inr (take n (contents q), q1)" "inv q1" "step q1 = step q"
      "size_of q1 \<le> size_of q" "contents q1 = drop n (contents q)"
      using get_law [OF Cons.prems(1)] by blast
    have "size_of q1 + length (offered ops) + n_puts ops * step q1 < limit"
      using Cons.prems(2) Get q1(3,4) by simp
    from Cons.IH [OF q1(2) this] obtain out acc q2 where
      "fifo_run put get q1 ops = Inr (out, acc, q2)" "inv q2"
      "out @ contents q2 = contents q1 @ acc" by blast
    with Get q1 show ?thesis by simp
  qed
qed

end

interpretation buf: byte_fifo "\<lambda>b. buffer_inv b \<and> b_data b \<noteq> None" buffer_contents b_datalen
  b_blocksize size_mod switch_buffer_write switch_buffer_read
proof
  fix q :: switch_buffer and xs :: "byte list" and oo
  assume "buffer_inv q \<and> b_data q \<noteq> None" "b_datalen q + length xs < size_mod"
  then show "\<exists>r q'. switch_buffer_write q oo xs = Inr (r, q') \<and>
      (buffer_inv q' \<and> b_data q' \<noteq> None) \<and> b_blocksize q' = b_blocksize q \<and>
      b_datalen q' \<le> b_datalen q + length xs + b_blocksize q \<and>
      buffer_contents q' = buffer_contents q @ (if r = 0 then [] else xs)"
    using buffer_write_ok [of q xs oo] by (fastforce simp: same_kind_def)
next
  fix q :: switch_buffer and n
  assume "buffer_inv q \<and> b_data q \<noteq> None"
  then show "\<exists>q'. switch_buffer_read q n = Inr (take n (buffer_contents q), q') \<and>
      (buffer_inv q' \<and> b_data q' \<noteq> None) \<and> b_blocksize q' = b_blocksize q \<and>
      b_datalen q' \<le> b_datalen q \<and> buffer_contents q' = drop n (buffer_contents q)"
    using buffer_read_ok [of q n] by (fastforce simp: same_kind_def)
qed

section \<open>Every call keeps the invariant\<close>

datatype buffer_call =
    Call_Write realloc_answer "byte list"
  | Call_Zwrite realloc_answer realloc_answer "byte list"
  | Call_Slide_Write realloc_answer realloc_answer "byte list"
  | Call_Read nat | Call_Read_Loop nat | Call_Peek nat | Call_Peek_Zerocopy | Call_Toss nat
  | Call_Zero | Call_Set_Loops int | Call_Add_Mutex "nat option"
  | Call_Set_Partition_Data "byte list" nat | Call_Reset_Partition_Data

fun exec_call :: "buffer_call \<Rightarrow> switch_buffer \<Rightarrow> switch_buffer c_result" where
  "exec_call (Call_Write ra bs) b = and_then (switch_buffer_write b ra bs) (\<lambda>(r, b). Inr b)"
| "exec_call (Call_Zwrite ra ra' bs) b =
     and_then (switch_buffer_zwrite b ra ra' bs) (\<lambda>(r, b). Inr b)"
| "exec_call (Call_Slide_Write ra ra' bs) b =
     and_then (switch_buffer_slide_write b ra ra' bs) (\<lambda>(r, b). Inr b)"
| "exec_call (Call_Read n) b = and_then (switch_buffer_read b n) (\<lambda>(r, b). Inr b)"
| "exec_call (Call_Read_Loop n) b = and_then (switch_buffer_read_loop b n) (\<lambda>(r, b). Inr b)"
| "exec_call (Call_Peek n) b = and_then (switch_buffer_peek b n) (\<lambda>(r, b). Inr b)"
| "exec_call Call_Peek_Zerocopy b = Inr (snd (snd (switch_buffer_peek_zerocopy b)))"
| "exec_call (Call_Toss n) b = Inr (snd (switch_buffer_toss b n))"
| "exec_call Call_Zero b = switch_buffer_zero b"
| "exec_call (Call_Set_Loops l) b = Inr (switch_buffer_set_loops b l)"
| "exec_call (Call_Add_Mutex m) b = Inr (switch_buffer_add_mutex b m)"
| "exec_call (Call_Set_Partition_Data d n) b = Inr (snd (switch_buffer_set_partition_data b d n))"
| "exec_call Call_Reset_Partition_Data b = Inr (snd (switch_buffer_reset_partition_data b))"

text \<open>What the caller owes: lengths that fit one address space together with the buffer, and a
  partition window inside the caller's object.\<close>

fun call_ok :: "buffer_call \<Rightarrow> switch_buffer \<Rightarrow> bool" where
  "call_ok (Call_Write ra bs) b = (b_datalen b + length bs < size_mod)"
| "call_ok (Call_Zwrite ra ra' bs) b =
     (b_datalen b + 2 * length bs + b_blocksize b < size_mod)"
| "call_ok (Call_Slide_Write ra ra' bs) b =
     (b_datalen b + 2 * length bs + b_blocksize b < size_mod)"
| "call_ok (Call_Set_Partition_Data d n) b = (n \<le> length d \<and> n < size_mod)"
| "call_ok _ b = True"

definition buffer_good :: "switch_buffer \<Rightarrow> bool" where
  "buffer_good b \<longleftrightarrow> buffer_inv b \<and> b_data b \<noteq> None"

lemma buffer_write_good:
  assumes "buffer_good b" and "b_datalen b + length bs < size_mod"
  obtains r b' where "switch_buffer_write b ra bs = Inr (r, b')" "buffer_good b'"
    "b_datalen b' \<le> b_datalen b + length bs + b_blocksize b" "same_kind b b'"
    "buffer_contents b' = buffer_contents b @ (if r = 0 then [] else bs)"
  using buffer_write_ok [of b bs ra] assms unfolding buffer_good_def by blast

lemma buffer_zero_good:
  assumes "buffer_good b"
  obtains b' where "switch_buffer_zero b = Inr b'" "buffer_good b'" "buffer_contents b' = []"
    "b_datalen b' = b_datalen b" "same_kind b b'" "b_data b' = b_data b" "b_used b' = 0"
  using assms by (auto simp: switch_buffer_zero_def buffer_good_def buffer_defs)

lemma buffer_toss_good: "buffer_good b \<Longrightarrow> buffer_good (snd (switch_buffer_toss b n))"
  using buffer_toss_ok [of b n] by (simp add: buffer_good_def)

lemma buffer_read_good:
  assumes "buffer_good b"
  obtains b' where "switch_buffer_read b n = Inr (take n (buffer_contents b), b')" "buffer_good b'"
    "buffer_contents b' = drop n (buffer_contents b)" "same_kind b b'"
    "b_actually_used b' = b_actually_used b" "b_data b' = b_data b" "b_datalen b' = b_datalen b"
proof -
  obtain b' where *: "switch_buffer_read b n = Inr (take n (buffer_contents b), b')" "buffer_inv b'"
    "buffer_contents b' = drop n (buffer_contents b)" "same_kind b b'"
    "b_datalen b' = b_datalen b" "b_data b' = b_data b"
    using buffer_read_ok [of b n] assms by (auto simp: buffer_good_def)
  moreover have "b_actually_used b' = b_actually_used b"
    using *(1) by (auto simp: switch_buffer_read_def Let_def and_then_eq_Inr split: if_splits)
  ultimately show ?thesis using that assms by (auto simp: buffer_good_def)
qed

lemma buffer_zwrite_good:
  assumes "buffer_good b" and "b_datalen b + 2 * length bs + b_blocksize b < size_mod"
  obtains r b' where "switch_buffer_zwrite b ra ra' bs = Inr (r, b')" "buffer_good b'"
proof -
  have "b_datalen b + length bs < size_mod" using assms(2) by simp
  then obtain r b1 where b1: "switch_buffer_write b ra bs = Inr (r, b1)" "buffer_good b1"
    "b_datalen b1 \<le> b_datalen b + length bs + b_blocksize b" "same_kind b b1"
    using buffer_write_good [OF assms(1)] by blast
  obtain b2 where b2: "switch_buffer_zero b1 = Inr b2" "buffer_good b2" "b_datalen b2 = b_datalen b1"
    using buffer_zero_good [OF b1(2)] by blast
  have "b_datalen b2 + length bs < size_mod" using b2 b1(3) assms(2) by simp
  then obtain r' b3 where b3: "switch_buffer_write b2 ra' bs = Inr (r', b3)" "buffer_good b3"
    using buffer_write_good [OF b2(2)] by blast
  from b1 b2 b3 assms(1) that show ?thesis
    by (cases "is_partition b"; cases "r = 0") (auto simp: switch_buffer_zwrite_def)
qed

lemma buffer_slide_write_good:
  assumes "buffer_good b" and "b_datalen b + 2 * length bs + b_blocksize b < size_mod"
  obtains r b' where "switch_buffer_slide_write b ra ra' bs = Inr (r, b')" "buffer_good b'"
proof -
  have "b_datalen b + length bs < size_mod" using assms(2) by simp
  then obtain r b1 where b1: "switch_buffer_write b ra bs = Inr (r, b1)" "buffer_good b1"
    "b_datalen b1 \<le> b_datalen b + length bs + b_blocksize b" "same_kind b b1"
    using buffer_write_good [OF assms(1)] by blast
  define b2 where "b2 = snd (switch_buffer_toss b1 (length bs))"
  have b2: "buffer_good b2" "b_datalen b2 = b_datalen b1"
    using buffer_toss_good [OF b1(2)] b1(2) by (simp_all add: b2_def buffer_toss_ok(5) buffer_good_def)
  have "b_datalen b2 + length bs < size_mod" using b2 b1(3) assms(2) by simp
  then obtain r' b3 where b3: "switch_buffer_write b2 ra' bs = Inr (r', b3)" "buffer_good b3"
    using buffer_write_good [OF b2(1)] by blast
  from b1 b3 assms(1) that show ?thesis
    by (cases "is_partition b"; cases "r = 0")
       (auto simp: switch_buffer_slide_write_def b2_def [symmetric])
qed

lemma buffer_rewind_good:
  "buffer_good b \<Longrightarrow> buffer_good (b\<lparr>b_head := 0, b_used := b_actually_used b\<rparr>)"
  by (auto simp: buffer_good_def buffer_defs)

lemma buffer_loops_good [simp]: "buffer_good (b\<lparr>b_loops := l\<rparr>) = buffer_good b"
  by (auto simp: buffer_good_def buffer_defs)

lemma buffer_read_loop_good:
  assumes "buffer_good b"
  obtains r b' where "switch_buffer_read_loop b n = Inr (r, b')" "buffer_good b'"
proof -
  obtain b1 where b1: "switch_buffer_read b n = Inr (take n (buffer_contents b), b1)" "buffer_good b1"
    using buffer_read_good [OF assms, of n] by blast
  define b2 where "b2 = (if b_loops b1 > 0 then b1\<lparr>b_loops := b_loops b1 - 1\<rparr> else b1)"
  define b3 where "b3 = b2\<lparr>b_head := 0, b_used := b_actually_used b2\<rparr>"
  have g2: "buffer_good b2" using b1(2) by (simp add: b2_def)
  then have "buffer_good b3" unfolding b3_def by (rule buffer_rewind_good)
  then obtain b4 where b4: "switch_buffer_read b3 n = Inr (take n (buffer_contents b3), b4)" "buffer_good b4"
    using buffer_read_good [of b3 n] by blast
  have eq: "switch_buffer_read_loop b n =
      (if length (take n (buffer_contents b)) = 0
       then if b_loops b2 = 0 then Inr ([], b2) else switch_buffer_read b3 n
       else Inr (take n (buffer_contents b), b1))"
    by (simp only: switch_buffer_read_loop_def b1(1) and_then_simps prod.case Let_def
        b2_def [symmetric] b3_def)
  show ?thesis using eq b1(2) g2 b4 that by (simp split: if_splits)
qed

lemma buffer_call_good:
  assumes "buffer_good b" and "call_ok c b"
  shows "\<exists>b'. exec_call c b = Inr b' \<and> buffer_good b'"
proof (cases c)
  case (Call_Write ra bs)
  with assms show ?thesis by (auto elim: buffer_write_good [of b bs ra])
next
  case (Call_Zwrite ra ra' bs)
  with assms show ?thesis by (auto elim: buffer_zwrite_good [of b bs ra ra'])
next
  case (Call_Slide_Write ra ra' bs)
  with assms show ?thesis by (auto elim: buffer_slide_write_good [of b bs ra ra'])
next
  case (Call_Read n)
  with assms show ?thesis by (auto elim: buffer_read_good [of b n])
next
  case (Call_Read_Loop n)
  with assms show ?thesis by (auto elim: buffer_read_loop_good [of b n])
next
  case (Call_Peek n)
  with assms show ?thesis by (auto simp: buffer_peek_ok buffer_good_def)
next
  case (Call_Toss n)
  with assms show ?thesis by (simp add: buffer_toss_good)
next
  case Call_Zero
  with assms show ?thesis by (auto elim: buffer_zero_good)
qed (use assms in \<open>auto simp: buffer_good_def buffer_defs switch_buffer_peek_zerocopy_def
       switch_buffer_set_loops_def switch_buffer_add_mutex_def
       switch_buffer_set_partition_data_def switch_buffer_reset_partition_data_def\<close>)

lemma buffer_write_accepts:
  assumes inv: "buffer_good b" and np: "\<not> is_partition b"
    and room: "b_datalen b + length bs < size_mod" and ne: "bs \<noteq> []"
  shows "\<exists>r b'. switch_buffer_write b ra bs = Inr (r, b') \<and>
    (r \<noteq> 0 \<longleftrightarrow> b_used b + length bs \<le> b_datalen b \<or>
       is_dynamic b \<and> ra \<noteq> None \<and> (b_max_len b = 0 \<or> b_used b + length bs \<le> b_max_len b))"
proof -
  have i: "buffer_inv b" using inv by (simp add: buffer_good_def)
  obtain m where m: "b_data b = Some m" using inv by (auto simp: buffer_good_def)
  obtain b1 where b1: "buffer_compact b m (length bs) = Inr b1" "buffer_ready b1 (length bs)"
    "b_used b1 = b_used b" "b_datalen b1 = b_datalen b" "same_kind b b1"
    using buffer_compact_ok [OF i m np] by blast
  have i1: "b_used b1 \<le> b_datalen b1" "b_datalen b1 < size_mod"
    using b1(2) by (auto simp: buffer_ready_def buffer_inv_def)
  have used: "size_add (b_used b1) (length bs) = b_used b1 + length bs"
    using room i1(1) b1(4) by (simp add: size_add_eq)
  obtain ok b2 where b2: "buffer_grow b1 ra (length bs) = (ok, b2)" by fastforce
  have room1: "b_datalen b1 + length bs < size_mod" using room b1(4) by simp
  note g = buffer_grow_ok [OF b1(2) room1 b2]
  obtain r b3 where b3: "buffer_append b2 bs = Inr (r, b3)"
      "if b_datalen b2 - b_used b2 < length bs then r = 0 \<and> b3 = b2
       else r = b_used b2 + length bs \<and> buffer_contents b3 = buffer_contents b2 @ bs"
    using buffer_append_ok [OF g(1)] by blast
  have kind: "is_dynamic b1 = is_dynamic b" "b_max_len b1 = b_max_len b"
    using b1(5) by (auto simp: same_kind_def is_dynamic_def)
  have i2: "b_used b2 \<le> b_datalen b2" using g(1) by (auto simp: buffer_ready_def buffer_inv_def)
  show ?thesis
  proof (cases "is_dynamic b \<and> b_datalen b - b_used b < length bs \<and>
      (b_max_len b = 0 \<or> b_used b + length bs \<le> b_max_len b)")
    case True
    then have grow: "is_dynamic b1 \<and> size_sub (b_datalen b1) (b_used b1) < length bs \<and>
         (b_max_len b1 = 0 \<or> size_add (b_used b1) (length bs) \<le> b_max_len b1)"
      using kind used b1(3,4) i1 by (auto simp: size_sub_eq)
    then have "ok = (ra \<noteq> None)"
      using b2 by (auto simp: buffer_grow_def Let_def split: option.splits)
    moreover have "ra \<noteq> None \<Longrightarrow> b_datalen b1 + length bs \<le> b_datalen b2"
      using b2 grow room1 by (auto simp: buffer_grow_def Let_def size_add_eq)
    ultimately show ?thesis
      using True m b1 b2 b3 g i1 i2 np ne by (auto simp: switch_buffer_write_def split: if_splits)
  next
    case False
    then have "ok \<and> b2 = b1"
      using b2 kind used b1(3,4) i1 by (auto simp: buffer_grow_def size_sub_eq)
    with False m b1 b2 b3 i1 np ne show ?thesis
      by (auto simp: switch_buffer_write_def split: if_splits)
  qed
qed

section \<open>Properties\<close>

text \<open>C3: Stream fidelity. Whatever sequence of writes (each with its own \<^verbatim>\<open>realloc\<close> outcome) and
  reads a client performs on a buffer that owns memory, no call faults, and the bytes read so far
  followed by the bytes still buffered are exactly the initial contents followed by the accepted
  writes, in order. The only assumption is that the sizes involved fit the address space.\<close>

theorem buffer_stream:
  assumes "buffer_inv b" and "b_data b \<noteq> None"
    and "b_datalen b + length (offered ops) + n_puts ops * b_blocksize b < size_mod"
  shows "\<exists>out acc b'. fifo_run switch_buffer_write switch_buffer_read b ops = Inr (out, acc, b') \<and>
    buffer_inv b' \<and> out @ buffer_contents b' = buffer_contents b @ acc"
  using buf.fifo_run_stream [of b ops] assms by blast

definition demo_buffer :: switch_buffer where
  "demo_buffer = zeroed_buffer\<lparr>b_data := Some [0, 0], b_datalen := 2, b_blocksize := 8,
     b_max_len := 3, b_flags := SWITCH_BUFFER_FLAG_DYNAMIC\<rparr>"

lemma demo_buffer_good: "buffer_good demo_buffer"
  by (simp add: demo_buffer_def zeroed_buffer_def buffer_good_def buffer_defs size_mod_def
      test_flag_def SWITCH_BUFFER_FLAG_DYNAMIC_def SWITCH_BUFFER_FLAG_PARTITION_def)

theorem buffer_stream_witness:
  "\<exists>out acc b'. fifo_run switch_buffer_write switch_buffer_read demo_buffer
      [Put (Some (\<lambda>i. 7)) [1, 2, 3], Get 2, Put None [4, 5]] = Inr (out, acc, b') \<and>
    buffer_inv b' \<and> out @ buffer_contents b' = buffer_contents demo_buffer @ acc"
  by (rule buffer_stream)
     (use demo_buffer_good in \<open>simp_all add: buffer_good_def demo_buffer_def size_mod_def zeroed_buffer_def\<close>)

text \<open>C19: Memory safety and invariant. Every entry point of the buffer interface, called on a
  well-formed buffer that owns memory and with lengths that fit the address space, returns without
  a fault (no failed assertion, no access outside the object) and leaves a well-formed buffer.\<close>

theorem buffer_calls_safe:
  assumes "buffer_good b" and "call_ok c b"
  shows "\<exists>b'. exec_call c b = Inr b' \<and> buffer_good b'"
  using assms by (rule buffer_call_good)

theorem buffer_calls_safe_witness:
  "\<exists>b'. exec_call (Call_Slide_Write None (Some (\<lambda>i. 0)) [1, 2, 3]) demo_buffer = Inr b' \<and> buffer_good b'"
  by (rule buffer_calls_safe [OF demo_buffer_good])
     (simp add: demo_buffer_def size_mod_def zeroed_buffer_def)

text \<open>When a write is accepted. A non-empty write to a fixed or dynamic buffer is accepted
  exactly when the bytes fit the space not used by unread bytes (after sliding those down), or the
  buffer is dynamic, growing stays within \<open>max_len\<close> (0 meaning no limit) and \<^verbatim>\<open>realloc\<close>
  succeeds.\<close>

theorem buffer_write_accepted_iff:
  assumes "buffer_good b" and "\<not> is_partition b" and "b_datalen b + length bs < size_mod"
    and "bs \<noteq> []"
  shows "\<exists>r b'. switch_buffer_write b ra bs = Inr (r, b') \<and>
    (r \<noteq> 0 \<longleftrightarrow> b_used b + length bs \<le> b_datalen b \<or>
       is_dynamic b \<and> ra \<noteq> None \<and> (b_max_len b = 0 \<or> b_used b + length bs \<le> b_max_len b))"
  using assms by (rule buffer_write_accepts)

theorem buffer_write_accepted_iff_witness:
  "\<exists>r b'. switch_buffer_write demo_buffer None [1, 2, 3] = Inr (r, b') \<and>
    (r \<noteq> 0 \<longleftrightarrow> b_used demo_buffer + length [1, 2, 3::byte] \<le> b_datalen demo_buffer \<or>
       is_dynamic demo_buffer \<and> (None :: realloc_answer) \<noteq> None \<and>
       (b_max_len demo_buffer = 0 \<or>
        b_used demo_buffer + length [1, 2, 3::byte] \<le> b_max_len demo_buffer))"
  by (rule buffer_write_accepted_iff [OF demo_buffer_good])
     (simp_all add: demo_buffer_def size_mod_def zeroed_buffer_def is_partition_def test_flag_def
        SWITCH_BUFFER_FLAG_DYNAMIC_def SWITCH_BUFFER_FLAG_PARTITION_def)

text \<open>C35: Sliding writes keep the newest bytes. On a fixed buffer, \<^verbatim>\<open>switch_buffer_slide_write\<close>
  of at least one byte and at most the buffer's size succeeds; when the bytes do not fit behind the unread ones,
  as many of the oldest unread bytes are dropped as are written, even where fewer would make room.\<close>

theorem buffer_slide_write_keeps_newest:
  assumes "buffer_good b" and "\<not> is_partition b" and "\<not> is_dynamic b"
    and "bs \<noteq> []" and "length bs \<le> b_datalen b" and "b_datalen b + length bs < size_mod"
  shows "\<exists>b'. switch_buffer_slide_write b ra ra' bs = Inr (length (buffer_contents b'), b') \<and>
    buffer_contents b' =
      (if b_used b + length bs \<le> b_datalen b then buffer_contents b
       else drop (length bs) (buffer_contents b)) @ bs"
proof -
  have inv: "buffer_inv b" and data: "b_data b \<noteq> None" using assms(1) by (auto simp: buffer_good_def)
  obtain r b1 where b1: "switch_buffer_write b ra bs = Inr (r, b1)" "buffer_inv b1" "same_kind b b1"
    "b_data b1 \<noteq> None" "buffer_contents b1 = buffer_contents b @ (if r = 0 then [] else bs)"
    "r = 0 \<or> r = length (buffer_contents b1)"
    using buffer_write_ok [OF inv data assms(6), of ra] by blast
  have r: "r \<noteq> 0 \<longleftrightarrow> b_used b + length bs \<le> b_datalen b"
    using buffer_write_accepts [OF assms(1,2,6,4), of ra] assms(3) b1(1) by auto
  show ?thesis
  proof (cases "r = 0")
    case False
    with b1 r assms(2) show ?thesis by (auto simp: switch_buffer_slide_write_def)
  next
    case True
    define b2 where "b2 = snd (switch_buffer_toss b1 (length bs))"
    have "b_datalen b1 = b_datalen b"
      using b1(1) assms(3) inv data buffer_compact_ok [OF inv _ assms(2), of _ "length bs"]
      by (auto simp: switch_buffer_write_def buffer_grow_def buffer_append_def and_then_eq_Inr
          buffer_compact_def same_kind_def is_dynamic_def split: if_splits)
    then have b2: "buffer_good b2" "b_datalen b2 = b_datalen b" "same_kind b b2"
        "buffer_contents b2 = drop (length bs) (buffer_contents b)"
      using b1(2-5) buffer_toss_ok [OF b1(2), of "length bs"] True
      by (auto simp: b2_def buffer_good_def intro: same_kind_trans)
    have kind: "\<not> is_partition b2" "\<not> is_dynamic b2"
      using b2(3) assms(2,3) by (auto simp: same_kind_def is_partition_def is_dynamic_def)
    have "b_used b2 = b_used b - length bs"
      using b2(1,4) inv length_buffer_contents [of b2] length_buffer_contents [of b]
      by (simp add: buffer_good_def)
    moreover have "b_used b \<le> b_datalen b" using inv by (auto simp: buffer_inv_def)
    ultimately have fits: "b_used b2 + length bs \<le> b_datalen b2" using assms(5) b2(2) by simp
    have room2: "b_datalen b2 + length bs < size_mod" using assms(6) b2(2) by simp
    obtain r' b3 where b3: "switch_buffer_write b2 ra' bs = Inr (r', b3)"
      "buffer_contents b3 = buffer_contents b2 @ (if r' = 0 then [] else bs)"
      "r' = 0 \<or> r' = length (buffer_contents b3)"
      using buffer_write_ok [OF _ _ room2, of ra'] b2(1) unfolding buffer_good_def by blast
    have "r' \<noteq> 0"
      using buffer_write_accepts [OF b2(1) kind(1) room2 assms(4), of ra'] b3(1) fits by auto
    with True b1(1) b3 b2(4) r assms(2) show ?thesis
      by (auto simp: switch_buffer_slide_write_def b2_def [symmetric])
  qed
qed

definition demo_fixed :: switch_buffer where
  "demo_fixed = zeroed_buffer\<lparr>b_data := Some [1, 2, 3], b_datalen := 3, b_used := 3,
     b_actually_used := 3\<rparr>"

theorem buffer_slide_write_keeps_newest_witness:
  "\<exists>b'. switch_buffer_slide_write demo_fixed None None [8, 9] = Inr (length (buffer_contents b'), b') \<and>
    buffer_contents b' =
      (if b_used demo_fixed + length [8, 9::byte] \<le> b_datalen demo_fixed then buffer_contents demo_fixed
       else drop (length [8, 9::byte]) (buffer_contents demo_fixed)) @ [8, 9]"
  by (rule buffer_slide_write_keeps_newest)
     (simp_all add: demo_fixed_def zeroed_buffer_def buffer_good_def buffer_defs size_mod_def)

text \<open>The limit of a dynamic buffer does not bound it. \<open>max_len\<close> is documented as the length
  the buffer is allowed to grow to, but only the growth step tests it, against the bytes in use and
  not against the block added: a buffer created with limit 3 and block size 8 accepts two writes of
  3 bytes, holds 6 bytes, and then reports a free space of 4294967293 bytes.\<close>

theorem buffer_max_len_exceeded:
  "\<exists>b0 b1 b2. switch_buffer_create_dynamic True True 0 8 2 3 = (SWITCH_STATUS_SUCCESS, Some b0, 1) \<and>
     switch_buffer_write b0 (Some (\<lambda>i. 0)) [1, 2, 3] = Inr (3, b1) \<and>
     switch_buffer_write b1 None [4, 5, 6] = Inr (6, b2) \<and>
     switch_buffer_inuse b2 = 6 \<and> b_max_len b2 = 3 \<and> switch_buffer_freespace b2 = 4294967293"
  by (simp add: switch_buffer_create_dynamic_def switch_buffer_write_def zeroed_buffer_def
      buffer_compact_def buffer_grow_def buffer_append_def mem_read_def mem_write_def
      mem_realloc_def size_add_def size_sub_def size_mod_def switch_buffer_inuse_def
      switch_buffer_freespace_def buffer_defs test_flag_def set_flag_def upt_rec
      SWITCH_BUFFER_FLAG_DYNAMIC_def SWITCH_BUFFER_FLAG_PARTITION_def)

text \<open>The constructors. Each successful constructor returns a well-formed buffer: an empty one
  of the requested size for pool and dynamic buffers (without memory when a dynamic buffer starts
  at length 0, so that the first write fails its assertion), and the caller's bytes for a
  partition; each consumes one buffer id.\<close>

theorem buffer_constructors:
  assumes "n < size_mod" and "length xs < size_mod"
  shows "(\<exists>b. switch_buffer_create True True i n = (SWITCH_STATUS_SUCCESS, Some b, i + 1) \<and>
      buffer_good b \<and> buffer_contents b = [] \<and> switch_buffer_freespace b = n) \<and>
    (\<exists>b. switch_buffer_create_dynamic True True i bl n mx = (SWITCH_STATUS_SUCCESS, Some b, i + 1) \<and>
      buffer_inv b \<and> buffer_contents b = [] \<and>
      (if n = 0 then switch_buffer_write b ra bs = Inl Assert_Failed else buffer_good b)) \<and>
    (\<exists>b. switch_buffer_create_partition True i (xs @ ys) (length xs) =
        (SWITCH_STATUS_SUCCESS, Some b, i + 1) \<and>
      buffer_good b \<and> buffer_contents b = xs \<and> switch_buffer_write b ra bs = Inr (0, b))"
  using assms
  by (simp add: switch_buffer_create_def switch_buffer_create_dynamic_def
      switch_buffer_create_partition_def switch_buffer_set_partition_data_def
      switch_buffer_reset_partition_data_def switch_buffer_write_def switch_buffer_freespace_def
      zeroed_buffer_def buffer_good_def buffer_defs test_flag_def set_flag_def size_sub_eq
      SWITCH_BUFFER_FLAG_DYNAMIC_def SWITCH_BUFFER_FLAG_PARTITION_def)

theorem buffer_constructors_witness:
  "\<exists>b. switch_buffer_create_partition True 4 ([1, 2] @ [3]) (length [1, 2::byte]) =
      (SWITCH_STATUS_SUCCESS, Some b, 4 + 1) \<and>
     buffer_good b \<and> buffer_contents b = [1, 2] \<and> switch_buffer_write b None [9] = Inr (0, b)"
  using buffer_constructors [of 16 "[1, 2]" 4 0 0 None "[9]" "[3]"] by (simp add: size_mod_def)

end
