(* ===== verification/FS_Ctype.thy ===== *)
theory FS_Ctype
  imports FS_Prelude
begin

text \<open>
  The inline helpers of \<^verbatim>\<open>src/include/switch_utils.h\<close> on characters and numbers: the case
  conversions that work on four packed bytes at once, the conversions of whole strings built on
  them (the 32-bit variant, which the ARM build compiles), and rounding to a step.
\<close>

section \<open>The model\<close>

definition switch_round_to_step :: "uint32_t \<Rightarrow> uint32_t \<Rightarrow> uint32_t" where
  "switch_round_to_step num step =
     (if num = 0 then 0
      else
        (let r = num mod step;
             x = num - r
         in if r > step div 2 then x + step else x))"

definition switch_toupper :: "uint32_t \<Rightarrow> uint32_t" where
  "switch_toupper eax =
     (let ebx = (0x7f7f7f7f AND eax) + 0x05050505;
          ebx = (0x7f7f7f7f AND ebx) + 0x1a1a1a1a;
          ebx = drop_bit 2 (ebx AND NOT eax) AND 0x20202020
      in eax - ebx)"

definition switch_tolower :: "uint32_t \<Rightarrow> uint32_t" where
  "switch_tolower eax =
     (let ebx = (0x7f7f7f7f AND eax) + 0x25252525;
          ebx = (0x7f7f7f7f AND ebx) + 0x1a1a1a1a;
          ebx = drop_bit 2 (ebx AND NOT eax) AND 0x20202020
      in eax + ebx)"

text \<open>A 32-bit access to four bytes of memory, least significant byte first.\<close>

definition load32 :: "byte \<Rightarrow> byte \<Rightarrow> byte \<Rightarrow> byte \<Rightarrow> uint32_t" where
  "load32 a b c d = of_nat (unat a + 256 * (unat b + 256 * (unat c + 256 * unat d)))"

definition store32 :: "uint32_t \<Rightarrow> byte list" where
  "store32 w = map (\<lambda>i. of_nat (unat w div 256 ^ i)) [0, 1, 2, 3]"

text \<open>The string conversions take four bytes per round while more than four are left, then one.\<close>

fun swar_max :: "(uint32_t \<Rightarrow> uint32_t) \<Rightarrow> byte list \<Rightarrow> byte list" where
  "swar_max f (a # b # c # d # e # s) = store32 (f (load32 a b c d)) @ swar_max f (e # s)"
| "swar_max f s = map (\<lambda>c. ucast (f (ucast c))) s"

definition switch_toupper_max :: "byte list \<Rightarrow> byte list" where
  "switch_toupper_max s = swar_max switch_toupper s"

definition switch_tolower_max :: "byte list \<Rightarrow> byte list" where
  "switch_tolower_max s = swar_max switch_tolower s"

section \<open>The reference: one byte at a time\<close>

definition byte_toupper :: "byte \<Rightarrow> byte" where
  "byte_toupper c = (if 97 \<le> c \<and> c \<le> 122 then c - 32 else c)"

definition byte_tolower :: "byte \<Rightarrow> byte" where
  "byte_tolower c = (if 65 \<le> c \<and> c \<le> 90 then c + 32 else c)"

section \<open>Lanes\<close>

text \<open>A packed word is a lowest byte plus 256 times the rest; the operations used act on the two
  parts separately as long as no carry leaves the byte.\<close>

lemma bit_lane: "a < 256 \<Longrightarrow> bit (a + 256 * y :: nat) n = (if n < 8 then bit a n else bit y (n - 8))"
proof -
  assume a: "a < 256"
  have "a + 256 * y = push_bit 8 y + take_bit 8 a"
    using a by (simp add: push_bit_eq_mult take_bit_nat_eq_self)
  also have "\<dots> = push_bit 8 y OR take_bit 8 a"
    by (rule disjunctive_add) (simp add: bit_simps)
  finally show ?thesis by (auto simp: bit_simps)
qed

lemma and_lt_256: "a < 256 \<Longrightarrow> a AND b < (256::nat)"
  by (metis AND_upper1 of_nat_0_le_iff of_nat_and_eq of_nat_le_iff order.strict_trans1)

lemma and_lane:
  assumes "a < 256" and "b < 256"
  shows "(a + 256 * y) AND (b + 256 * z) = (a AND b) + 256 * (y AND z :: nat)"
  using assms by (auto intro!: bit_eqI simp: bit_lane bit_and_iff and_lt_256)

lemma bit_32: "bit (32::nat) n \<longleftrightarrow> n = 5"
  using bit_exp_iff [of 5 n, where 'a = nat] by (auto simp: possible_bit_def)

lemma shift_mask_lane:
  assumes "a < 256"
  shows "drop_bit 2 (a + 256 * y) AND (32 + 256 * z) = (drop_bit 2 a AND 32) + 256 * (drop_bit 2 y AND z :: nat)"
proof (rule bit_eqI)
  fix n
  have l: "drop_bit 2 a AND 32 < 256" by (rule and_lt_256) (use assms in \<open>simp add: drop_bit_eq_div\<close>)
  show "bit (drop_bit 2 (a + 256 * y) AND (32 + 256 * z)) n =
    bit ((drop_bit 2 a AND 32) + 256 * (drop_bit 2 y AND z)) n"
  proof (cases "n < 8")
    case True
    with assms l show ?thesis by (auto simp: bit_lane bit_and_iff bit_drop_bit_eq bit_32)
  next
    case False
    then obtain m where n: "n = m + 8" by (metis le_add_diff_inverse2 not_less)
    show ?thesis unfolding n using assms l by (simp add: bit_lane bit_and_iff bit_drop_bit_eq)
  qed
qed

text \<open>A byte repeated in each of \<open>k\<close> lanes, and the mask the conversions compute: bit 5 in the lanes
  that hold a letter of the other case.\<close>

fun rep :: "nat \<Rightarrow> nat \<Rightarrow> nat" where
  "rep c 0 = 0"
| "rep c (Suc k) = c + 256 * rep c k"

definition swar_mask :: "nat \<Rightarrow> nat \<Rightarrow> nat \<Rightarrow> nat" where
  "swar_mask k c x =
     drop_bit 2 (((rep 127 k AND ((rep 127 k AND x) + rep c k)) + rep 26 k) AND (rep 255 k - x)) AND rep 32 k"

definition lane_mask :: "nat \<Rightarrow> nat \<Rightarrow> nat" where
  "lane_mask c a = drop_bit 2 (((127 AND ((127 AND a) + c)) + 26) AND (255 - a)) AND 32"

lemma rep_4: "rep c 4 = c + 256 * (c + 256 * (c + 256 * c))"
proof -
  have "(4::nat) = Suc (Suc (Suc (Suc 0)))" by simp
  then show ?thesis by (simp only: rep.simps) simp
qed

lemma rep_255: "Suc (rep 255 k) = 256 ^ k"
  by (induction k) auto

lemma swar_mask_Suc:
  assumes "a < 256" and "x < 256 ^ k" and "c \<le> 128"
  shows "swar_mask (Suc k) c (a + 256 * x) = lane_mask c a + 256 * swar_mask k c x"
proof -
  have m: "127 AND v \<le> (127::nat)" for v
    by (metis AND_upper1 of_nat_0_le_iff of_nat_and_eq of_nat_le_iff)
  have l1: "(127 AND a) + c < 256" using m [of a] assms(3) by simp
  have l2: "(127 AND ((127 AND a) + c)) + 26 < 256" using m [of "(127 AND a) + c"] by simp
  have n: "rep 255 (Suc k) - (a + 256 * x) = (255 - a) + 256 * (rep 255 k - x)"
    using assms(1,2) rep_255 [of k] by simp
  have "swar_mask (Suc k) c (a + 256 * x) =
     drop_bit 2 ((((127 + 256 * rep 127 k) AND (((127 + 256 * rep 127 k) AND (a + 256 * x)) + (c + 256 * rep c k)))
       + (26 + 256 * rep 26 k)) AND ((255 - a) + 256 * (rep 255 k - x))) AND (32 + 256 * rep 32 k)"
    unfolding swar_mask_def n by simp
  also have "((127 + 256 * rep 127 k) AND (a + 256 * x)) + (c + 256 * rep c k) =
      ((127 AND a) + c) + 256 * ((rep 127 k AND x) + rep c k)"
    using assms(1) by (simp add: and_lane)
  also have "((127 + 256 * rep 127 k) AND (((127 AND a) + c) + 256 * ((rep 127 k AND x) + rep c k)))
       + (26 + 256 * rep 26 k) =
      ((127 AND ((127 AND a) + c)) + 26) + 256 * ((rep 127 k AND ((rep 127 k AND x) + rep c k)) + rep 26 k)"
    using l1 by (simp only: and_lane) (simp add: and_lane)
  also have "(((127 AND ((127 AND a) + c)) + 26) + 256 * ((rep 127 k AND ((rep 127 k AND x) + rep c k)) + rep 26 k))
       AND ((255 - a) + 256 * (rep 255 k - x)) =
      (((127 AND ((127 AND a) + c)) + 26) AND (255 - a)) +
      256 * (((rep 127 k AND ((rep 127 k AND x) + rep c k)) + rep 26 k) AND (rep 255 k - x))"
    by (rule and_lane) (use l2 in simp_all)
  also have "drop_bit 2 \<dots> AND (32 + 256 * rep 32 k) = lane_mask c a + 256 * swar_mask k c x"
    unfolding lane_mask_def swar_mask_def by (rule shift_mask_lane) (rule and_lt_256 [OF l2])
  finally show ?thesis .
qed

lemma shifted_bit_5: "drop_bit 2 x AND 32 = (if bit x 7 then 32 else (0::nat))"
  by (rule bit_eqI) (auto simp: bit_and_iff bit_drop_bit_eq bit_32)

lemma lane_mask_eq:
  assumes "a < 256"
  shows "lane_mask c a = (if 102 \<le> (a mod 128 + c) mod 128 \<and> a < 128 then 32 else 0)"
proof -
  define u where "u = (a mod 128 + c) mod 128 + 26"
  have low: "127 AND v = v mod 128" for v :: nat
    using take_bit_eq_mask [of 7 v] by (simp add: take_bit_eq_mod and.commute mask_eq_exp_minus_1)
  have b7: "bit v 7 \<longleftrightarrow> 128 \<le> v" if "v < 256" for v :: nat
  proof -
    have "128 \<le> v \<Longrightarrow> v div 128 = 1" by (rule div_nat_eqI) (use that in simp_all)
    then show ?thesis by (cases "128 \<le> v") (simp_all add: bit_iff_odd)
  qed
  have "u < 256" by (simp add: u_def)
  have "lane_mask c a = drop_bit 2 (u AND (255 - a)) AND 32"
    by (simp only: lane_mask_def low u_def)
  also have "\<dots> = (if bit u 7 \<and> bit (255 - a) 7 then 32 else 0)"
    by (simp only: shifted_bit_5 bit_and_iff)
  also have "\<dots> = (if 128 \<le> u \<and> 128 \<le> 255 - a then 32 else 0)"
    using b7 [OF \<open>u < 256\<close>] b7 [of "255 - a"] by simp
  also have "128 \<le> u \<and> 128 \<le> 255 - a \<longleftrightarrow> 102 \<le> (a mod 128 + c) mod 128 \<and> a < 128"
    unfolding u_def using assms by linarith
  finally show ?thesis .
qed

lemma lane_mask_lower: "a < 256 \<Longrightarrow> lane_mask 37 a = (if 65 \<le> a \<and> a \<le> 90 then 32 else 0)"
  by (subst lane_mask_eq) (auto simp: mod_if)

lemma lane_mask_upper: "a < 256 \<Longrightarrow> lane_mask 5 a = (if 97 \<le> a \<and> a \<le> 122 then 32 else 0)"
  by (subst lane_mask_eq) (auto simp: mod_if)

section \<open>The packed conversions\<close>

lemma unat_not_word: "unat (NOT (w :: uint32_t)) = 2 ^ 32 - 1 - unat w"
proof -
  have "NOT w = - 1 - w" by (simp add: not_eq_complement)
  moreover have "unat (- 1 - w) = unat (- 1 :: uint32_t) - unat w"
    by (rule unat_sub) simp
  moreover have "unat (- 1 :: uint32_t) = 2 ^ 32 - 1"
    using unat_minus_one [of "0 :: uint32_t"] by (simp add: unat_eq_nat_uint uint_word_ariths)
  ultimately show ?thesis by simp
qed

lemma unat_plus_le: "unat x + unat y < 2 ^ 32 \<Longrightarrow> unat (x + y :: uint32_t) = unat x + unat y"
  by (simp add: unat_word_ariths)

text \<open>The word computation is the lane computation at four lanes.\<close>

lemma swar_word:
  fixes w :: uint32_t
  assumes "unat C = rep c 4" and "c \<le> 128"
  shows "unat (drop_bit 2 (((0x7f7f7f7f AND ((0x7f7f7f7f AND w) + C)) + 0x1a1a1a1a) AND NOT w) AND 0x20202020)
    = swar_mask 4 c (unat w)"
proof -
  have k: "rep 127 4 = 0x7f7f7f7f" "rep 26 4 = 0x1a1a1a1a" "rep 32 4 = 0x20202020" "rep 255 4 = 2 ^ 32 - 1"
    by (simp_all add: rep_4)
  have m: "0x7f7f7f7f AND v \<le> (0x7f7f7f7f::nat)" for v
    by (metis AND_upper1 of_nat_0_le_iff of_nat_and_eq of_nat_le_iff)
  have "rep c 4 \<le> rep 128 4" using assms(2) by (simp add: rep_4)
  then have C: "unat C \<le> 0x80808080" using assms(1) by (simp add: rep_4)
  have s1: "unat ((0x7f7f7f7f AND w) + C) = (0x7f7f7f7f AND unat w) + unat C"
    using m [of "unat w"] C by (subst unat_plus_le) (simp_all add: unsigned_and_eq)
  have s2: "unat ((0x7f7f7f7f AND ((0x7f7f7f7f AND w) + C)) + 0x1a1a1a1a) =
      (0x7f7f7f7f AND unat ((0x7f7f7f7f AND w) + C)) + 0x1a1a1a1a"
    using m [of "unat ((0x7f7f7f7f AND w) + C)"] by (subst unat_plus_le) (simp_all add: unsigned_and_eq)
  show ?thesis
    by (simp only: unsigned_and_eq unat_drop_bit_eq unat_not_word s2 s1 assms(1) swar_mask_def k)
       (simp add: unsigned_and_eq)
qed

lemma swar_mask_4:
  assumes "a < 256" "b < 256" "x < 256" "y < 256" "c \<le> 128"
  shows "swar_mask 4 c (a + 256 * (b + 256 * (x + 256 * y))) =
    lane_mask c a + 256 * (lane_mask c b + 256 * (lane_mask c x + 256 * lane_mask c y))"
proof -
  have f: "(4::nat) = Suc (Suc (Suc (Suc 0)))" by simp
  have z: "swar_mask 0 c 0 = 0" by (simp add: swar_mask_def)
  have y: "swar_mask (Suc 0) c y = lane_mask c y"
    using swar_mask_Suc [of y 0 0 c] assms z by simp
  have x: "swar_mask (Suc (Suc 0)) c (x + 256 * y) = lane_mask c x + 256 * lane_mask c y"
    using swar_mask_Suc [of x y "Suc 0" c] assms y by simp
  have b: "swar_mask (Suc (Suc (Suc 0))) c (b + 256 * (x + 256 * y)) =
      lane_mask c b + 256 * (lane_mask c x + 256 * lane_mask c y)"
    unfolding x [symmetric] by (rule swar_mask_Suc) (use assms in simp_all)
  show ?thesis unfolding f b [symmetric] by (rule swar_mask_Suc) (use assms in simp_all)
qed

lemma unat_byte_less: "unat (a :: byte) < 256"
  using unsigned_less [of a, where 'a = nat] by simp

lemma load32_split:
  "unat (load32 a b c d) = unat a + 256 * (unat b + 256 * (unat c + 256 * unat d))"
  using unat_byte_less [of a] unat_byte_less [of b] unat_byte_less [of c] unat_byte_less [of d]
  unfolding load32_def by (subst unat_of_nat) (simp add: mod_less)

lemma of_nat_byte_lane: "of_nat (v + 256 * r) = (of_nat v :: byte)"
proof -
  have "(256 :: byte) = 0" by simp
  then show ?thesis by (simp only: of_nat_add of_nat_mult of_nat_numeral) simp
qed

lemma store32_of_lanes:
  assumes "unat w = a + 256 * (b + 256 * (c + 256 * d))" "a < 256" "b < 256" "c < 256" "d < 256"
  shows "store32 w = map of_nat [a, b, c, d]"
proof -
  have p: "(256::nat) ^ 2 = 256 * 256" "(256::nat) ^ 3 = 256 * 256 * 256" by simp_all
  have q: "(a + 256 * (b + 256 * (c + 256 * d))) div 256 = b + 256 * (c + 256 * d)"
    "(b + 256 * (c + 256 * d)) div 256 = c + 256 * d"
    "(c + 256 * d) div 256 = d" using assms(2-5) by simp_all
  show ?thesis
    unfolding store32_def by (simp only: list.map power_0 power_one_right div_by_1 p
        div_mult2_eq assms(1) q of_nat_byte_lane)
qed

text \<open>What one lane of each conversion does to a byte, as a number.\<close>

definition lower_lane :: "nat \<Rightarrow> nat" where
  "lower_lane a = a + (if 65 \<le> a \<and> a \<le> 90 then 32 else 0)"

definition upper_lane :: "nat \<Rightarrow> nat" where
  "upper_lane a = a - (if 97 \<le> a \<and> a \<le> 122 then 32 else 0)"

lemma byte_tolower_lane: "of_nat (lower_lane (unat c)) = byte_tolower c"
  by (auto simp: lower_lane_def byte_tolower_def word_le_nat_alt)

lemma byte_toupper_lane: "of_nat (upper_lane (unat c)) = byte_toupper c"
proof -
  have "97 \<le> unat c \<Longrightarrow> of_nat (unat c - 32) = c - 32"
    by (simp add: of_nat_diff)
  then show ?thesis by (auto simp: upper_lane_def byte_toupper_def word_le_nat_alt)
qed

lemma switch_tolower_lanes:
  assumes "unat w = a + 256 * (b + 256 * (c + 256 * d))" "a < 256" "b < 256" "c < 256" "d < 256"
  shows "unat (switch_tolower w) =
    lower_lane a + 256 * (lower_lane b + 256 * (lower_lane c + 256 * lower_lane d))"
proof -
  define m where "m = drop_bit 2 (((0x7f7f7f7f AND ((0x7f7f7f7f AND w) + 0x25252525)) + 0x1a1a1a1a) AND NOT w) AND (0x20202020 :: uint32_t)"
  have "unat m = swar_mask 4 37 (unat w)" unfolding m_def by (rule swar_word) (simp_all add: rep_4)
  then have um: "unat m = lane_mask 37 a + 256 * (lane_mask 37 b + 256 * (lane_mask 37 c + 256 * lane_mask 37 d))"
    using assms by (simp only: swar_mask_4)
  have l: "lower_lane v = v + lane_mask 37 v" "lower_lane v < 256" if "v < 256" for v
    using that by (auto simp: lower_lane_def lane_mask_lower)
  have sum: "unat w + unat m =
      lower_lane a + 256 * (lower_lane b + 256 * (lower_lane c + 256 * lower_lane d))"
    using l(1) assms by (simp add: um)
  moreover have "\<dots> < 2 ^ 32"
    using l(2) [OF assms(2)] l(2) [OF assms(3)] l(2) [OF assms(4)] l(2) [OF assms(5)] by simp
  ultimately have "unat (w + m) = unat w + unat m" by (intro unat_plus_le) simp
  with sum show ?thesis by (simp add: switch_tolower_def m_def Let_def)
qed

lemma switch_toupper_lanes:
  assumes "unat w = a + 256 * (b + 256 * (c + 256 * d))" "a < 256" "b < 256" "c < 256" "d < 256"
  shows "unat (switch_toupper w) =
    upper_lane a + 256 * (upper_lane b + 256 * (upper_lane c + 256 * upper_lane d))"
proof -
  define m where "m = drop_bit 2 (((0x7f7f7f7f AND ((0x7f7f7f7f AND w) + 0x05050505)) + 0x1a1a1a1a) AND NOT w) AND (0x20202020 :: uint32_t)"
  have "unat m = swar_mask 4 5 (unat w)" unfolding m_def by (rule swar_word) (simp_all add: rep_4)
  then have um: "unat m = lane_mask 5 a + 256 * (lane_mask 5 b + 256 * (lane_mask 5 c + 256 * lane_mask 5 d))"
    using assms by (simp only: swar_mask_4)
  have l: "upper_lane v + lane_mask 5 v = v" if "v < 256" for v
    using that by (auto simp: upper_lane_def lane_mask_upper)
  have sum: "unat w = upper_lane a + 256 * (upper_lane b + 256 * (upper_lane c + 256 * upper_lane d)) + unat m"
    using l [OF assms(2)] l [OF assms(3)] l [OF assms(4)] l [OF assms(5)] unfolding um assms(1) by simp
  then have "m \<le> w" by (simp add: word_le_nat_alt)
  then have "unat (w - m) = unat w - unat m" by (rule unat_sub)
  with sum show ?thesis by (simp add: switch_toupper_def m_def Let_def)
qed

section \<open>From packed words to strings\<close>

text \<open>The contract between the string loops and the packed conversion they call: the conversion acts
  on each of the four bytes separately, by \<open>g\<close>.\<close>

locale packed_conversion =
  fixes f :: "uint32_t \<Rightarrow> uint32_t" and g :: "nat \<Rightarrow> nat"
  assumes lanes: "unat w = a + 256 * (b + 256 * (c + 256 * d)) \<Longrightarrow>
      a < 256 \<Longrightarrow> b < 256 \<Longrightarrow> c < 256 \<Longrightarrow> d < 256 \<Longrightarrow>
      unat (f w) = g a + 256 * (g b + 256 * (g c + 256 * g d))"
    and lane_less: "a < 256 \<Longrightarrow> g a < 256"
begin

lemma single_byte: "ucast (f (ucast c)) = (of_nat (g (unat c)) :: byte)" for c :: byte
proof -
  have "unat (ucast c :: uint32_t) = unat c + 256 * (0 + 256 * (0 + 256 * 0))"
    using unat_byte_less [of c] by (simp add: unsigned_ucast_eq take_bit_nat_eq_self)
  then have "unat (f (ucast c)) = g (unat c) + 256 * (g 0 + 256 * (g 0 + 256 * g 0))"
    by (rule lanes) (simp_all add: unat_byte_less)
  moreover have "ucast (f (ucast c)) = (of_nat (unat (f (ucast c))) :: byte)" by simp
  ultimately show ?thesis by (simp only: of_nat_byte_lane)
qed

lemma four_bytes: "store32 (f (load32 a b c d)) = map (\<lambda>c. of_nat (g (unat c))) [a, b, c, d]"
proof -
  have "unat (f (load32 a b c d)) =
      g (unat a) + 256 * (g (unat b) + 256 * (g (unat c) + 256 * g (unat d)))"
    by (rule lanes [OF load32_split]) (rule unat_byte_less)+
  then have "store32 (f (load32 a b c d)) = map of_nat [g (unat a), g (unat b), g (unat c), g (unat d)]"
    by (rule store32_of_lanes) (rule lane_less [OF unat_byte_less])+
  then show ?thesis by simp
qed

lemma swar_max_map: "h = f \<Longrightarrow> swar_max h s = map (\<lambda>c. of_nat (g (unat c))) s"
  by (induction h s rule: swar_max.induct) (simp_all add: single_byte four_bytes)

end

interpretation lower: packed_conversion switch_tolower lower_lane
  by unfold_locales (rule switch_tolower_lanes, auto simp: lower_lane_def)

interpretation upper: packed_conversion switch_toupper upper_lane
  by unfold_locales (rule switch_toupper_lanes, auto simp: upper_lane_def)

section \<open>Properties\<close>

text \<open>C32: The packed case conversions are the bytewise ones. Converting a string four bytes at a time
  with the carry tricks of \<^verbatim>\<open>switch_tolower\<close> and \<^verbatim>\<open>switch_toupper\<close> gives, for every string of
  every length and every byte value, the string with each ASCII letter replaced by its counterpart
  and every other byte unchanged.\<close>

theorem packed_case_conversion:
  "switch_tolower_max s = map byte_tolower s \<and> switch_toupper_max s = map byte_toupper s"
  by (simp add: switch_tolower_max_def switch_toupper_max_def lower.swar_max_map upper.swar_max_map
      byte_tolower_lane byte_toupper_lane)

text \<open>Rounding to a step. For a positive step and no overflow, the result of
  \<^verbatim>\<open>switch_round_to_step\<close> is a multiple of the step at most half a step away from the number.\<close>

theorem round_to_step_nearest:
  assumes "0 < step" and "unat num + unat step < 2 ^ 32"
  shows "unat step dvd unat (switch_round_to_step num step) \<and>
    \<bar>int (unat (switch_round_to_step num step)) - int (unat num)\<bar> \<le> int (unat step div 2)"
proof (cases "num = 0")
  case True
  then show ?thesis by (simp add: switch_round_to_step_def)
next
  case False
  define r where "r = unat num mod unat step"
  have r: "unat (num mod step) = r" by (simp add: r_def unat_mod_distrib)
  have le: "r \<le> unat num" by (simp add: r_def)
  have pos: "0 < unat step" using assms(1) by (simp add: word_less_nat_alt)
  have lt: "r < unat step" using pos by (simp add: r_def)
  have x: "unat (num - num mod step) = unat num - r"
    using le r by (simp add: unat_sub word_le_nat_alt)
  have x': "unat (num - num mod step + step) = unat num - r + unat step"
    using x assms(2) le by (subst unat_plus_le) simp_all
  have d: "unat step dvd unat num - r" by (simp add: r_def minus_mod_eq_mult_div)
  have gt: "num mod step > step div 2 \<longleftrightarrow> r > unat step div 2"
    by (simp add: word_less_nat_alt r unat_div_distrib)
  show ?thesis
  proof (cases "r > unat step div 2")
    case True
    then have "switch_round_to_step num step = num - num mod step + step"
      using False gt by (simp add: switch_round_to_step_def Let_def)
    moreover have "unat step dvd unat num - r + unat step" using d by simp
    moreover have "unat step - r \<le> unat step div 2" using lt True by linarith
    moreover have "unat num - r + unat step = unat num + (unat step - r)" using le lt by simp
    ultimately show ?thesis by (simp only: x' of_nat_add) (simp only: add_diff_cancel_left' abs_of_nat of_nat_le_iff)
  next
    case no: False
    then have "switch_round_to_step num step = num - num mod step"
      using False gt by (simp add: switch_round_to_step_def Let_def)
    then show ?thesis using x d le no by (simp add: of_nat_diff)
  qed
qed

theorem round_to_step_nearest_witness:
  "unat (20 :: uint32_t) dvd unat (switch_round_to_step 171 20) \<and>
    \<bar>int (unat (switch_round_to_step 171 20)) - int (unat (171 :: uint32_t))\<bar> \<le> int (unat (20 :: uint32_t) div 2)"
  by (rule round_to_step_nearest) simp_all

end
