(* ===== verification/FS_Hashtable.thy ===== *)
theory FS_Hashtable
  imports FS_Ctype "HOL-Library.Multiset"
begin

text \<open>
  \<^verbatim>\<open>src/switch_hashtable.c\<close> with its private header and the key functions of
  \<^verbatim>\<open>include/switch_hashtable.h\<close>: a chained hash table whose size walks a table of primes. Chains
  are lists, first entry first. Values are pointers, \<open>None\<close> being null. Calls to \<^verbatim>\<open>free\<close> and to
  destructors are returned as a list of effects; allocation outcomes are arguments.

  The locale \<open>key_class\<close> is what the table needs of its two key functions, interpreted on the
  three pairs the core uses. The contract of an associative map up to a key equality is the locale
  \<open>eq_map\<close> of \<^verbatim>\<open>FS_Core_Hash\<close>.
\<close>

section \<open>Key functions\<close>

text \<open>C strings are lists of characters without the terminator; a \<^verbatim>\<open>char\<close> is unsigned.\<close>

definition c_tolower :: "char \<Rightarrow> char" where
  "c_tolower c = char_of (lower_lane (of_char c))"

definition strcasecmp_eq :: "string \<Rightarrow> string \<Rightarrow> bool" where
  "strcasecmp_eq a b \<longleftrightarrow> map c_tolower a = map c_tolower b"

definition switch_hash_default_int :: "uint32_t \<Rightarrow> uint32_t" where
  "switch_hash_default_int ky =
     (let x = ky;
          x = (drop_bit 16 x XOR x) * 0x45d9f3b;
          x = (drop_bit 16 x XOR x) * 0x45d9f3b
      in drop_bit 16 x XOR x)"

definition switch_hash_equalkeys_int :: "uint32_t \<Rightarrow> uint32_t \<Rightarrow> bool" where
  "switch_hash_equalkeys_int k1 k2 \<longleftrightarrow> k1 = k2"

definition switch_hash_equalkeys :: "string \<Rightarrow> string \<Rightarrow> bool" where
  "switch_hash_equalkeys k1 k2 \<longleftrightarrow> k1 = k2"

definition switch_hash_equalkeys_ci :: "string \<Rightarrow> string \<Rightarrow> bool" where
  "switch_hash_equalkeys_ci k1 k2 \<longleftrightarrow> strcasecmp_eq k1 k2"

fun sdbm :: "(char \<Rightarrow> uint32_t) \<Rightarrow> uint32_t \<Rightarrow> string \<Rightarrow> uint32_t" where
  "sdbm f h [] = h"
| "sdbm f h (c # s) = sdbm f (f c + push_bit 6 h + push_bit 16 h - h) s"

definition switch_hash_default :: "string \<Rightarrow> uint32_t" where
  "switch_hash_default ky = sdbm of_char 0 ky"

definition switch_hash_default_ci :: "string \<Rightarrow> uint32_t" where
  "switch_hash_default_ci ky = sdbm (\<lambda>c. switch_tolower (of_char c)) 0 ky"

section \<open>The table\<close>

definition HASHTABLE_FLAG_FREE_KEY :: uint32_t where "HASHTABLE_FLAG_FREE_KEY = 1"
definition HASHTABLE_FLAG_FREE_VALUE :: uint32_t where "HASHTABLE_FLAG_FREE_VALUE = 2"
definition HASHTABLE_DUP_CHECK :: uint32_t where "HASHTABLE_DUP_CHECK = 4"

record ('k, 'v) ht_entry =
  e_k :: 'k
  e_v :: "'v option"
  e_h :: uint32_t
  e_flags :: uint32_t
  e_destructor :: "nat option"

record ('k, 'v) switch_hashtable =
  ht_tablelength :: nat
  ht_table :: "('k, 'v) ht_entry list list"
  ht_entrycount :: uint32_t
  ht_loadlimit :: uint32_t
  ht_primeindex :: nat
  ht_hashfn :: "'k \<Rightarrow> uint32_t"
  ht_eqfn :: "'k \<Rightarrow> 'k \<Rightarrow> bool"

record ht_iterator =
  it_pos :: nat
  it_e :: "nat option"

datatype ('k, 'v) ht_effect = Free_Key 'k | Free_Value 'v | Call_Destructor nat "'v option"

definition ht_primes :: "nat list" where
  "ht_primes =
    [53, 97, 193, 389,
     769, 1543, 3079, 6151,
     12289, 24593, 49157, 98317,
     196613, 393241, 786433, 1572869,
     3145739, 6291469, 12582917, 25165843,
     50331653, 100663319, 201326611, 402653189,
     805306457, 1610612741]"

definition prime_table_length :: nat where
  "prime_table_length = length ht_primes"

text \<open>\<^verbatim>\<open>ceil(size * max_load_factor)\<close> in single precision: \<open>0.65f\<close> is \<open>10905190 / 2^24\<close>; the
  conversion of the size and the product are rounded to 24 significant bits, ties to even.\<close>

fun bit_width :: "nat \<Rightarrow> nat" where
  "bit_width n = (if n = 0 then 0 else Suc (bit_width (n div 2)))"

declare bit_width.simps [simp del]

definition round24 :: "nat \<Rightarrow> nat" where
  "round24 n =
     (let k = bit_width n - 24; q = n div 2 ^ k; r = n mod 2 ^ k in
      if k = 0 then n
      else if 2 * r > 2 ^ k \<or> 2 * r = 2 ^ k \<and> odd q then (q + 1) * 2 ^ k
      else q * 2 ^ k)"

definition load_limit :: "nat \<Rightarrow> uint32_t" where
  "load_limit sz = of_nat ((round24 (round24 sz * 10905190) + 2 ^ 24 - 1) div 2 ^ 24)"

definition ht_hash :: "('k, 'v) switch_hashtable \<Rightarrow> 'k \<Rightarrow> uint32_t" where
  "ht_hash h k =
     (let i = ht_hashfn h k;
          i = i + NOT (push_bit 9 i);
          i = i XOR (drop_bit 14 i OR push_bit 18 i);
          i = i + push_bit 4 i;
          i = i XOR (drop_bit 10 i OR push_bit 22 i)
      in i)"

definition indexFor :: "nat \<Rightarrow> uint32_t \<Rightarrow> nat" where
  "indexFor tablelength hashvalue = unat hashvalue mod tablelength"

text \<open>The first prime above the requested size, and its index.\<close>

fun first_prime_above :: "nat list \<Rightarrow> nat \<Rightarrow> nat \<Rightarrow> (nat \<times> nat) option" where
  "first_prime_above [] i minsize = None"
| "first_prime_above (p # ps) i minsize =
     (if p > minsize then Some (i, p) else first_prime_above ps (Suc i) minsize)"

definition switch_create_hashtable ::
  "bool \<Rightarrow> nat \<Rightarrow> ('k \<Rightarrow> uint32_t) \<Rightarrow> ('k \<Rightarrow> 'k \<Rightarrow> bool) \<Rightarrow>
   (switch_status_t \<times> ('k, 'v) switch_hashtable option) c_result" where
  "switch_create_hashtable mem_ok minsize hashf eqf =
     (if minsize > 2 ^ 30 then Inr (SWITCH_STATUS_FALSE, None)
      else
        (let (pindex, sz) =
           (case first_prime_above ht_primes 0 minsize of
              Some ip \<Rightarrow> ip | None \<Rightarrow> (prime_table_length, ht_primes ! 0))
         in if \<not> mem_ok then Inl Aborted
            else Inr (SWITCH_STATUS_SUCCESS,
              Some \<lparr>ht_tablelength = sz, ht_table = replicate sz [], ht_entrycount = 0,
                    ht_loadlimit = load_limit sz, ht_primeindex = pindex,
                    ht_hashfn = hashf, ht_eqfn = eqf\<rparr>)))"

text \<open>Moving every entry of the old table to the head of its chain in the new one.\<close>

definition rehash_push :: "nat \<Rightarrow> ('k, 'v) ht_entry list list \<Rightarrow> ('k, 'v) ht_entry \<Rightarrow> ('k, 'v) ht_entry list list" where
  "rehash_push newsize t e =
     (let index = indexFor newsize (e_h e) in t[index := e # t ! index])"

definition rehash :: "nat \<Rightarrow> ('k, 'v) ht_entry list list \<Rightarrow> ('k, 'v) ht_entry list list" where
  "rehash newsize t = foldl (rehash_push newsize) (replicate newsize []) (concat t)"

text \<open>Memory for the new table: a fresh block, or (when that fails) the old block enlarged, or
  nothing. After enlarging, the code clears memory through \<^verbatim>\<open>newtable[h->tablelength]\<close>, a cell
  \<^verbatim>\<open>realloc\<close> has not initialised.\<close>

datatype expand_memory = Malloc_Ok | Realloc_Ok | No_Memory

definition hashtable_expand ::
  "expand_memory \<Rightarrow> ('k, 'v) switch_hashtable \<Rightarrow> (int \<times> ('k, 'v) switch_hashtable) c_result" where
  "hashtable_expand mem h =
     (if ht_primeindex h = prime_table_length - 1 then Inr (0, h)
      else
        (let h1 = h\<lparr>ht_primeindex := ht_primeindex h + 1\<rparr>;
             newsize = ht_primes ! ht_primeindex h1
         in case mem of
              Malloc_Ok \<Rightarrow>
                Inr (- 1, h1\<lparr>ht_table := rehash newsize (ht_table h1), ht_tablelength := newsize,
                            ht_loadlimit := load_limit newsize\<rparr>)
            | Realloc_Ok \<Rightarrow> Inl Wild_Access
            | No_Memory \<Rightarrow> Inr (0, h1\<lparr>ht_primeindex := ht_primeindex h1 - 1\<rparr>)))"

definition switch_hashtable_count :: "('k, 'v) switch_hashtable \<Rightarrow> uint32_t" where
  "switch_hashtable_count h = ht_entrycount h"

fun chain_remove ::
  "('k \<Rightarrow> 'k \<Rightarrow> bool) \<Rightarrow> 'k \<Rightarrow> uint32_t \<Rightarrow> ('k, 'v) ht_entry list \<Rightarrow>
   (('k, 'v) ht_entry \<times> ('k, 'v) ht_entry list) option" where
  "chain_remove eq k hv [] = None"
| "chain_remove eq k hv (e # es) =
     (if hv = e_h e \<and> eq k (e_k e) then Some (e, es)
      else map_option (\<lambda>(e', es'). (e', e # es')) (chain_remove eq k hv es))"

definition release_key :: "('k, 'v) ht_entry \<Rightarrow> ('k, 'v) ht_effect list" where
  "release_key e = (if test_flag (e_flags e) HASHTABLE_FLAG_FREE_KEY then [Free_Key (e_k e)] else [])"

definition release_value :: "('k, 'v) ht_entry \<Rightarrow> ('k, 'v) ht_effect list" where
  "release_value e =
     (if test_flag (e_flags e) HASHTABLE_FLAG_FREE_VALUE
      then (case e_v e of None \<Rightarrow> [] | Some v \<Rightarrow> [Free_Value v])
      else case e_destructor e of None \<Rightarrow> [] | Some d \<Rightarrow> [Call_Destructor d (e_v e)])"

definition ht_remove_at ::
  "('k, 'v) switch_hashtable \<Rightarrow> 'k \<Rightarrow> uint32_t \<Rightarrow> nat \<Rightarrow>
   'v option \<times> ('k, 'v) ht_effect list \<times> ('k, 'v) switch_hashtable" where
  "ht_remove_at h k hashvalue index =
     (case chain_remove (ht_eqfn h) k hashvalue (ht_table h ! index) of
        None \<Rightarrow> (None, [], h)
      | Some (e, es) \<Rightarrow>
          ((if test_flag (e_flags e) HASHTABLE_FLAG_FREE_VALUE \<or> e_destructor e \<noteq> None
            then None else e_v e),
           release_key e @ release_value e,
           h\<lparr>ht_table := (ht_table h)[index := es], ht_entrycount := ht_entrycount h - 1\<rparr>))"

definition switch_hashtable_insert_destructor ::
  "expand_memory \<Rightarrow> bool \<Rightarrow> ('k, 'v) switch_hashtable \<Rightarrow> 'k \<Rightarrow> 'v option \<Rightarrow> uint32_t \<Rightarrow> nat option \<Rightarrow>
   (int \<times> ('k, 'v) ht_effect list \<times> ('k, 'v) switch_hashtable) c_result" where
  "switch_hashtable_insert_destructor mem entry_ok h k v flags destructor =
     (let hashvalue = ht_hash h k;
          index = indexFor (ht_tablelength h) hashvalue;
          (eff, h) = (if test_flag flags HASHTABLE_DUP_CHECK
                      then snd (ht_remove_at h k hashvalue index) else ([], h));
          h = h\<lparr>ht_entrycount := ht_entrycount h + 1\<rparr>
      in and_then
           (if ht_entrycount h > ht_loadlimit h then
              and_then (hashtable_expand mem h) (\<lambda>(_, h).
                Inr (h, indexFor (ht_tablelength h) hashvalue))
            else Inr (h, index))
           (\<lambda>(h, index).
             if \<not> entry_ok then Inr (0, eff, h\<lparr>ht_entrycount := ht_entrycount h - 1\<rparr>)
             else
               (let e = \<lparr>e_k = k, e_v = v, e_h = hashvalue, e_flags = flags, e_destructor = destructor\<rparr>
                in Inr (- 1, eff, h\<lparr>ht_table := (ht_table h)[index := e # ht_table h ! index]\<rparr>))))"

fun chain_search :: "('k \<Rightarrow> 'k \<Rightarrow> bool) \<Rightarrow> 'k \<Rightarrow> uint32_t \<Rightarrow> ('k, 'v) ht_entry list \<Rightarrow> 'v option" where
  "chain_search eq k hv [] = None"
| "chain_search eq k hv (e # es) =
     (if hv = e_h e \<and> eq k (e_k e) then e_v e else chain_search eq k hv es)"

definition switch_hashtable_search :: "('k, 'v) switch_hashtable \<Rightarrow> 'k \<Rightarrow> 'v option" where
  "switch_hashtable_search h k =
     (let hashvalue = ht_hash h k;
          index = indexFor (ht_tablelength h) hashvalue
      in chain_search (ht_eqfn h) k hashvalue (ht_table h ! index))"

definition switch_hashtable_remove ::
  "('k, 'v) switch_hashtable \<Rightarrow> 'k \<Rightarrow> 'v option \<times> ('k, 'v) ht_effect list \<times> ('k, 'v) switch_hashtable" where
  "switch_hashtable_remove h k =
     (let hashvalue = ht_hash h k
      in ht_remove_at h k hashvalue (indexFor (ht_tablelength h) hashvalue))"

definition switch_hashtable_destroy :: "('k, 'v) switch_hashtable \<Rightarrow> ('k, 'v) ht_effect list" where
  "switch_hashtable_destroy h =
     concat (map (\<lambda>chain. concat (map (\<lambda>f. release_key f @ release_value f) chain)) (ht_table h))"

section \<open>Iteration\<close>

text \<open>An iterator holds a chain number and, once it points at an entry, the entry's position in that
  chain. \<open>None\<close> is the null result, after which the iterator has been freed.\<close>

function skip_empty :: "('k, 'v) switch_hashtable \<Rightarrow> nat \<Rightarrow> nat" where
  "skip_empty h pos =
     (if pos < ht_tablelength h \<and> ht_table h ! pos = [] then skip_empty h (Suc pos) else pos)"
  by pat_completeness auto
termination
  by (relation "measure (\<lambda>(h, pos). ht_tablelength h - pos)") auto

declare skip_empty.simps [simp del]

definition ht_next_chain :: "('k, 'v) switch_hashtable \<Rightarrow> nat \<Rightarrow> ht_iterator option" where
  "ht_next_chain h pos =
     (let pos = skip_empty h pos in
      if pos \<ge> ht_tablelength h then None else Some \<lparr>it_pos = pos, it_e = Some 0\<rparr>)"

definition switch_hashtable_next :: "('k, 'v) switch_hashtable \<Rightarrow> ht_iterator \<Rightarrow> ht_iterator option" where
  "switch_hashtable_next h i =
     (case it_e i of
        Some j \<Rightarrow>
          if Suc j < length (ht_table h ! it_pos i) then Some (i\<lparr>it_e := Some (Suc j)\<rparr>)
          else ht_next_chain h (it_pos i + 1)
      | None \<Rightarrow> ht_next_chain h (it_pos i))"

definition switch_hashtable_first_iter :: "('k, 'v) switch_hashtable \<Rightarrow> ht_iterator option" where
  "switch_hashtable_first_iter h = switch_hashtable_next h \<lparr>it_pos = 0, it_e = None\<rparr>"

definition switch_hashtable_this_val ::
  "('k, 'v) switch_hashtable \<Rightarrow> ht_iterator \<Rightarrow> 'v option \<Rightarrow> ('k, 'v) switch_hashtable" where
  "switch_hashtable_this_val h i val =
     (case it_e i of
        None \<Rightarrow> h
      | Some j \<Rightarrow>
          (let chain = ht_table h ! it_pos i in
           h\<lparr>ht_table := (ht_table h)[it_pos i := chain[j := (chain ! j)\<lparr>e_v := val\<rparr>]]\<rparr>))"

definition switch_hashtable_this ::
  "('k, 'v) switch_hashtable \<Rightarrow> ht_iterator \<Rightarrow> ('k \<times> 'v option) option" where
  "switch_hashtable_this h i =
     map_option (\<lambda>j. (e_k (ht_table h ! it_pos i ! j), e_v (ht_table h ! it_pos i ! j))) (it_e i)"

text \<open>The loop \<^verbatim>\<open>for (hi = first(h); hi; hi = next(&hi))\<close>, collecting what \<^verbatim>\<open>this\<close> returns;
  the fuel bounds the number of steps.\<close>

fun ht_walk :: "nat \<Rightarrow> ('k, 'v) switch_hashtable \<Rightarrow> ht_iterator option \<Rightarrow> ('k \<times> 'v option) list option" where
  "ht_walk fuel h None = Some []"
| "ht_walk 0 h (Some i) = None"
| "ht_walk (Suc fuel) h (Some i) =
     (case switch_hashtable_this h i of
        None \<Rightarrow> None
      | Some kv \<Rightarrow> map_option (\<lambda>rest. kv # rest) (ht_walk fuel h (switch_hashtable_next h i)))"

section \<open>Invariant\<close>

text \<open>The entries of a table, whatever their order.\<close>

definition ht_entries :: "('k, 'v) switch_hashtable \<Rightarrow> ('k, 'v) ht_entry multiset" where
  "ht_entries h = mset (concat (ht_table h))"

definition placed :: "nat \<Rightarrow> ('k, 'v) ht_entry list list \<Rightarrow> bool" where
  "placed n t \<longleftrightarrow> length t = n \<and> (\<forall>i<n. \<forall>e\<in>set (t ! i). indexFor n (e_h e) = i)"

definition ht_struct :: "('k, 'v) switch_hashtable \<Rightarrow> bool" where
  "ht_struct h \<longleftrightarrow>
     ht_primeindex h < prime_table_length \<and>
     ht_tablelength h = ht_primes ! ht_primeindex h \<and>
     ht_loadlimit h = load_limit (ht_tablelength h) \<and>
     placed (ht_tablelength h) (ht_table h) \<and>
     (\<forall>e\<in>#ht_entries h. e_h e = ht_hash h (e_k e))"

definition ht_unique :: "('k, 'v) switch_hashtable \<Rightarrow> bool" where
  "ht_unique h \<longleftrightarrow> (\<forall>k. size (filter_mset (\<lambda>e. ht_eqfn h k (e_k e)) (ht_entries h)) \<le> 1)"

definition ht_inv :: "('k, 'v) switch_hashtable \<Rightarrow> bool" where
  "ht_inv h \<longleftrightarrow> ht_struct h \<and> ht_entrycount h = of_nat (size (ht_entries h)) \<and> ht_unique h"

section \<open>Structural lemmas\<close>

lemma prime_table_length_eq: "prime_table_length = 26"
  by (simp add: prime_table_length_def ht_primes_def)

lemma ht_primes_pos: "i < prime_table_length \<Longrightarrow> 0 < ht_primes ! i"
proof -
  have "\<forall>p\<in>set ht_primes. 0 < p" by (simp add: ht_primes_def)
  then show "i < prime_table_length \<Longrightarrow> 0 < ht_primes ! i"
    by (simp add: prime_table_length_def)
qed

lemma indexFor_less: "0 < n \<Longrightarrow> indexFor n hv < n"
  by (simp add: indexFor_def)

lemma ht_struct_pos: "ht_struct h \<Longrightarrow> 0 < ht_tablelength h"
  using ht_primes_pos by (auto simp: ht_struct_def)

lemma mset_concat_update:
  "i < length t \<Longrightarrow> mset (concat (t[i := c])) + mset (t ! i) = mset (concat t) + mset c"
proof (induction t arbitrary: i)
  case (Cons a t)
  then show ?case by (cases i) (auto simp: ac_simps dest: Cons.IH)
qed simp

lemma mset_concat_push:
  "i < length t \<Longrightarrow> mset (concat (t[i := e # t ! i])) = add_mset e (mset (concat t))"
  using mset_concat_update [of i t "e # t ! i"] by simp

lemma placed_push:
  "placed n t \<Longrightarrow> indexFor n (e_h e) = i \<Longrightarrow> i < n \<Longrightarrow> placed n (t[i := e # t ! i])"
  by (auto simp: placed_def nth_list_update)

lemma placed_shrink:
  "placed n t \<Longrightarrow> i < n \<Longrightarrow> set c \<subseteq> set (t ! i) \<Longrightarrow> placed n (t[i := c])"
  by (auto simp: placed_def nth_list_update subset_iff)

lemma rehash_fold:
  assumes "0 < n" and "placed n t"
  shows "placed n (foldl (rehash_push n) t es) \<and>
    mset (concat (foldl (rehash_push n) t es)) = mset (concat t) + mset es"
  using assms(2)
proof (induction es arbitrary: t)
  case (Cons e es)
  let ?i = "indexFor n (e_h e)"
  have i: "?i < n" using assms(1) by (rule indexFor_less)
  have push: "rehash_push n t e = t[?i := e # t ! ?i]" by (simp add: rehash_push_def Let_def)
  have "placed n (rehash_push n t e)" unfolding push by (rule placed_push [OF Cons.prems refl i])
  moreover have "mset (concat (rehash_push n t e)) = add_mset e (mset (concat t))"
    unfolding push by (rule mset_concat_push) (use Cons.prems i in \<open>simp add: placed_def\<close>)
  ultimately show ?case using Cons.IH by simp
qed simp

lemma placed_empty [simp]: "placed n (replicate n [])"
  by (simp add: placed_def)

lemma rehash_ok: "0 < n \<Longrightarrow> placed n (rehash n t) \<and> mset (concat (rehash n t)) = mset (concat t)"
  unfolding rehash_def using rehash_fold [of n "replicate n []" "concat t"] by simp

lemma ht_hash_cong: "ht_hashfn h' = ht_hashfn h \<Longrightarrow> ht_hash h' k = ht_hash h k"
  by (simp add: ht_hash_def)

lemma ht_hash_fields [simp]:
  "ht_hash (h\<lparr>ht_table := t\<rparr>) = ht_hash h"
  "ht_hash (h\<lparr>ht_entrycount := c\<rparr>) = ht_hash h"
  "ht_hash (h\<lparr>ht_primeindex := p\<rparr>) = ht_hash h"
  "ht_hash (h\<lparr>ht_tablelength := n\<rparr>) = ht_hash h"
  "ht_hash (h\<lparr>ht_loadlimit := l\<rparr>) = ht_hash h"
  by (rule ext, rule ht_hash_cong, simp)+

lemma ht_entries_count [simp]: "ht_entries (h\<lparr>ht_entrycount := c\<rparr>) = ht_entries h"
  by (simp add: ht_entries_def)

lemma ht_struct_count [simp]: "ht_struct (h\<lparr>ht_entrycount := c\<rparr>) = ht_struct h"
  by (simp add: ht_struct_def)

lemma hashtable_expand_ok:
  assumes "ht_struct h" and "mem \<noteq> Realloc_Ok"
  obtains r h' where "hashtable_expand mem h = Inr (r, h')" "ht_struct h'"
    "ht_entries h' = ht_entries h" "ht_entrycount h' = ht_entrycount h"
    "ht_hashfn h' = ht_hashfn h" "ht_eqfn h' = ht_eqfn h"
proof (cases "ht_primeindex h = prime_table_length - 1")
  case True
  with assms that show ?thesis by (simp add: hashtable_expand_def)
next
  case False
  let ?n = "ht_primes ! (ht_primeindex h + 1)"
  have i: "ht_primeindex h + 1 < prime_table_length"
    using assms(1) False by (auto simp: ht_struct_def)
  have pos: "0 < ?n" by (rule ht_primes_pos [OF i])
  from assms(2) consider "mem = Malloc_Ok" | "mem = No_Memory" by (cases mem) auto
  then show ?thesis
  proof cases
    case 1
    let ?h = "h\<lparr>ht_primeindex := ht_primeindex h + 1, ht_table := rehash ?n (ht_table h),
      ht_tablelength := ?n, ht_loadlimit := load_limit ?n\<rparr>"
    have "hashtable_expand mem h = Inr (- 1, ?h)"
      using 1 False by (simp add: hashtable_expand_def Let_def)
    moreover have "ht_entries ?h = ht_entries h" using rehash_ok [OF pos, of "ht_table h"] by (simp add: ht_entries_def)
    moreover have "ht_struct ?h"
      using assms(1) i rehash_ok [OF pos, of "ht_table h"] by (auto simp: ht_struct_def ht_entries_def)
    ultimately show ?thesis using that by simp
  next
    case 2
    then have "hashtable_expand mem h = Inr (0, h)"
      using False by (simp add: hashtable_expand_def Let_def)
    with assms(1) that show ?thesis by simp
  qed
qed

lemma chain_remove_SomeD:
  "chain_remove eq k hv es = Some (e, es') \<Longrightarrow>
   mset es = add_mset e (mset es') \<and> hv = e_h e \<and> eq k (e_k e)"
  by (induction es arbitrary: es') (auto split: if_splits)

lemma chain_remove_NoneD:
  "chain_remove eq k hv es = None \<Longrightarrow> e \<in> set es \<Longrightarrow> \<not> (hv = e_h e \<and> eq k (e_k e))"
  by (induction es) (auto split: if_splits)

lemma chain_search_hit:
  "e \<in> set es \<Longrightarrow> hv = e_h e \<Longrightarrow> eq k (e_k e) \<Longrightarrow>
   (\<forall>f\<in>set es. hv = e_h f \<and> eq k (e_k f) \<longrightarrow> e_v f = e_v e) \<Longrightarrow>
   chain_search eq k hv es = e_v e"
  by (induction es) (fastforce split: if_splits)+

lemma chain_search_miss:
  "(\<And>f. f \<in> set es \<Longrightarrow> \<not> (hv = e_h f \<and> eq k (e_k f))) \<Longrightarrow> chain_search eq k hv es = None"
  by (induction es) auto

lemma in_entries: "e \<in># ht_entries h \<longleftrightarrow> (\<exists>i<length (ht_table h). e \<in> set (ht_table h ! i))"
  by (auto simp: ht_entries_def in_set_conv_nth) (metis in_set_conv_nth)+

lemma entry_chain:
  assumes "ht_struct h" and "e \<in># ht_entries h"
  shows "e \<in> set (ht_table h ! indexFor (ht_tablelength h) (e_h e))"
proof -
  obtain i where i: "i < length (ht_table h)" "e \<in> set (ht_table h ! i)"
    using assms(2) by (auto simp: in_entries)
  then have "indexFor (ht_tablelength h) (e_h e) = i"
    using assms(1) unfolding ht_struct_def placed_def by metis
  with i show ?thesis by simp
qed

lemma chain_entry:
  "ht_struct h \<Longrightarrow> i < ht_tablelength h \<Longrightarrow> e \<in> set (ht_table h ! i) \<Longrightarrow> e \<in># ht_entries h"
  by (auto simp: in_entries ht_struct_def placed_def)

lemma size_le_1_same: "size M \<le> 1 \<Longrightarrow> a \<in># M \<Longrightarrow> b \<in># M \<Longrightarrow> a = b"
proof -
  assume "size M \<le> 1" "a \<in># M" "b \<in># M"
  then obtain N where M: "M = add_mset a N" by (meson multi_member_split)
  with \<open>size M \<le> 1\<close> have "N = {#}" by simp
  with M \<open>b \<in># M\<close> show ?thesis by simp
qed

lemma ht_unique_mono:
  "ht_unique h \<Longrightarrow> ht_entries h' \<subseteq># ht_entries h \<Longrightarrow> ht_eqfn h' = ht_eqfn h \<Longrightarrow> ht_unique h'"
  unfolding ht_unique_def by (metis multiset_filter_mono order_trans size_mset_mono)

section \<open>What the table needs of its key functions\<close>

locale key_class =
  fixes hf :: "'k \<Rightarrow> uint32_t" and eq :: "'k \<Rightarrow> 'k \<Rightarrow> bool"
  assumes eq_refl: "eq k k"
    and eq_sym: "eq a b \<Longrightarrow> eq b a"
    and eq_trans: "eq a b \<Longrightarrow> eq b c \<Longrightarrow> eq a c"
    and eq_hash: "eq a b \<Longrightarrow> hf a = hf b"
begin

lemma ht_hash_eq: "ht_hashfn h = hf \<Longrightarrow> eq a b \<Longrightarrow> ht_hash h a = ht_hash h b"
  using eq_hash by (simp add: ht_hash_def)

text \<open>Searching finds an entry exactly when one has an equal key.\<close>

lemma search_hit:
  assumes "ht_inv h" "ht_hashfn h = hf" "ht_eqfn h = eq" "e \<in># ht_entries h" "eq k (e_k e)"
  shows "switch_hashtable_search h k = e_v e"
proof -
  let ?i = "indexFor (ht_tablelength h) (ht_hash h k)"
  have st: "ht_struct h" and un: "ht_unique h" using assms(1) by (auto simp: ht_inv_def)
  have hv: "ht_hash h k = e_h e"
    using ht_hash_eq [OF assms(2,5)] st assms(4) by (auto simp: ht_struct_def)
  have "e \<in> set (ht_table h ! ?i)" using entry_chain [OF st assms(4)] hv by simp
  moreover have "\<forall>f\<in>set (ht_table h ! ?i). ht_hash h k = e_h f \<and> eq k (e_k f) \<longrightarrow> e_v f = e_v e"
  proof (intro ballI impI)
    fix f assume f: "f \<in> set (ht_table h ! ?i)" "ht_hash h k = e_h f \<and> eq k (e_k f)"
    have "f \<in># ht_entries h"
      using chain_entry [OF st _ f(1)] indexFor_less [OF ht_struct_pos [OF st]] by simp
    then have "f \<in># filter_mset (\<lambda>e. eq k (e_k e)) (ht_entries h)"
      "e \<in># filter_mset (\<lambda>e. eq k (e_k e)) (ht_entries h)" using f assms(4,5) by auto
    moreover have "size (filter_mset (\<lambda>e. eq k (e_k e)) (ht_entries h)) \<le> 1"
      using un assms(3) by (simp add: ht_unique_def)
    ultimately have "f = e" by (intro size_le_1_same)
    then show "e_v f = e_v e" by (rule arg_cong)
  qed
  ultimately show ?thesis
    unfolding switch_hashtable_search_def Let_def assms(3)
    using hv assms(5) by (intro chain_search_hit)
qed

lemma search_miss:
  assumes "ht_inv h" "ht_eqfn h = eq" "\<forall>e\<in>#ht_entries h. \<not> eq k (e_k e)"
  shows "switch_hashtable_search h k = None"
proof -
  have st: "ht_struct h" using assms(1) by (auto simp: ht_inv_def)
  show ?thesis
    unfolding switch_hashtable_search_def Let_def assms(2)
    using chain_entry [OF st indexFor_less [OF ht_struct_pos [OF st]]] assms(3)
    by (intro chain_search_miss) blast
qed

text \<open>Removing takes out the entry with an equal key, if there is one.\<close>

lemma remove_ok:
  assumes "ht_inv h" "ht_hashfn h = hf" "ht_eqfn h = eq"
    and "switch_hashtable_remove h k = (v, eff, h')"
  shows "ht_inv h' \<and> ht_hashfn h' = hf \<and> ht_eqfn h' = eq \<and>
    ht_entries h' = filter_mset (\<lambda>e. \<not> eq k (e_k e)) (ht_entries h) \<and>
    ht_tablelength h' = ht_tablelength h \<and> ht_loadlimit h' = ht_loadlimit h"
proof -
  let ?i = "indexFor (ht_tablelength h) (ht_hash h k)"
  have st: "ht_struct h" and un: "ht_unique h"
    and cnt: "ht_entrycount h = of_nat (size (ht_entries h))"
    using assms(1) by (auto simp: ht_inv_def)
  have i: "?i < ht_tablelength h" by (rule indexFor_less [OF ht_struct_pos [OF st]])
  have len: "length (ht_table h) = ht_tablelength h" using st by (auto simp: ht_struct_def placed_def)
  show ?thesis
  proof (cases "chain_remove eq k (ht_hash h k) (ht_table h ! ?i)")
    case None
    then have h': "h' = h"
      using assms(3,4) by (simp add: switch_hashtable_remove_def ht_remove_at_def Let_def)
    have "\<not> eq k (e_k e)" if e: "e \<in># ht_entries h" for e
    proof
      assume k: "eq k (e_k e)"
      have hv: "ht_hash h k = e_h e" using ht_hash_eq [OF assms(2) k] st e by (auto simp: ht_struct_def)
      have "e \<in> set (ht_table h ! ?i)" using entry_chain [OF st e] hv by simp
      with chain_remove_NoneD [OF None] hv k show False by blast
    qed
    then have "filter_mset (\<lambda>e. \<not> eq k (e_k e)) (ht_entries h) = ht_entries h"
      by (simp add: filter_mset_eq_conv)
    with h' assms(1-3) show ?thesis by simp
  next
    case (Some p)
    obtain e es where p: "p = (e, es)" by (cases p)
    have D: "mset (ht_table h ! ?i) = add_mset e (mset es)" "eq k (e_k e)"
      using chain_remove_SomeD [OF Some [unfolded p]] by blast+
    have h': "h' = h\<lparr>ht_table := (ht_table h)[?i := es], ht_entrycount := ht_entrycount h - 1\<rparr>"
      using assms(3,4) Some p by (simp add: switch_hashtable_remove_def ht_remove_at_def Let_def)
    have M: "ht_entries h = add_mset e (ht_entries h')"
      using mset_concat_update [of ?i "ht_table h" es] D(1) i len by (simp add: ht_entries_def h')
    have "size (filter_mset (\<lambda>e. eq k (e_k e)) (ht_entries h)) \<le> 1"
      using un assms(3) by (simp add: ht_unique_def)
    then have rest: "filter_mset (\<lambda>e. eq k (e_k e)) (ht_entries h') = {#}" using M D by simp
    then have "filter_mset (\<lambda>e. \<not> eq k (e_k e)) (ht_entries h') = ht_entries h'"
      by (auto simp: filter_mset_eq_conv)
    then have E: "ht_entries h' = filter_mset (\<lambda>e. \<not> eq k (e_k e)) (ht_entries h)"
      using M D by simp
    have sub: "set es \<subseteq> set (ht_table h ! ?i)"
      using D(1) by (metis set_mset_add_mset_insert set_mset_mset subset_insertI)
    have "ht_struct h'"
      using st placed_shrink [OF _ i sub] M by (auto simp: ht_struct_def h')
    moreover have "ht_unique h'"
      by (rule ht_unique_mono [OF un]) (use M in \<open>simp_all add: h'\<close>)
    moreover have "ht_entrycount h' = of_nat (size (ht_entries h'))"
      using cnt M by (simp add: h')
    ultimately show ?thesis using E assms(2,3) by (simp add: ht_inv_def h')
  qed
qed

lemma remove_hit:
  assumes "ht_inv h" "ht_hashfn h = hf" "ht_eqfn h = eq" "e \<in># ht_entries h" "eq k (e_k e)"
    and rm: "switch_hashtable_remove h k = (v, eff, h')"
  shows "v = (if test_flag (e_flags e) HASHTABLE_FLAG_FREE_VALUE \<or> e_destructor e \<noteq> None then None else e_v e)"
    and "eff = release_key e @ release_value e"
proof -
  let ?i = "indexFor (ht_tablelength h) (ht_hash h k)"
  have st: "ht_struct h" and un: "ht_unique h" using assms(1) by (auto simp: ht_inv_def)
  have hv: "ht_hash h k = e_h e"
    using ht_hash_eq [OF assms(2,5)] st assms(4) by (auto simp: ht_struct_def)
  have mem: "e \<in> set (ht_table h ! ?i)" using entry_chain [OF st assms(4)] hv by simp
  obtain f es where rem: "chain_remove eq k (ht_hash h k) (ht_table h ! ?i) = Some (f, es)"
    using chain_remove_NoneD [OF _ mem] hv assms(5) by (metis not_None_eq prod.exhaust)
  note D = chain_remove_SomeD [OF rem]
  have "f \<in># mset (ht_table h ! ?i)" unfolding D [THEN conjunct1] by simp
  then have "f \<in># ht_entries h"
    using chain_entry [OF st indexFor_less [OF ht_struct_pos [OF st]]] by simp
  then have "f \<in># filter_mset (\<lambda>e. eq k (e_k e)) (ht_entries h)"
    "e \<in># filter_mset (\<lambda>e. eq k (e_k e)) (ht_entries h)" using D assms(4,5) by auto
  moreover have "size (filter_mset (\<lambda>e. eq k (e_k e)) (ht_entries h)) \<le> 1"
    using un assms(3) by (simp add: ht_unique_def)
  ultimately have "f = e" by (intro size_le_1_same)
  with rm rem show "v = (if test_flag (e_flags e) HASHTABLE_FLAG_FREE_VALUE \<or> e_destructor e \<noteq> None then None else e_v e)"
    "eff = release_key e @ release_value e"
    by (auto simp: switch_hashtable_remove_def ht_remove_at_def Let_def assms(3))
qed

lemma remove_miss:
  assumes "ht_inv h" "ht_eqfn h = eq" "\<forall>e\<in>#ht_entries h. \<not> eq k (e_k e)"
  shows "switch_hashtable_remove h k = (None, [], h)"
proof -
  let ?i = "indexFor (ht_tablelength h) (ht_hash h k)"
  have st: "ht_struct h" using assms(1) by (auto simp: ht_inv_def)
  have "chain_remove eq k (ht_hash h k) (ht_table h ! ?i) = None"
  proof (rule ccontr)
    assume "chain_remove eq k (ht_hash h k) (ht_table h ! ?i) \<noteq> None"
    then obtain f es where "chain_remove eq k (ht_hash h k) (ht_table h ! ?i) = Some (f, es)" by auto
    note D = chain_remove_SomeD [OF this]
    have "f \<in># mset (ht_table h ! ?i)" "eq k (e_k f)" unfolding D [THEN conjunct1] using D by simp_all
    with chain_entry [OF st indexFor_less [OF ht_struct_pos [OF st]]] assms(3) show False by auto
  qed
  then show ?thesis using assms(2) by (simp add: switch_hashtable_remove_def ht_remove_at_def Let_def)
qed

text \<open>Linking a new entry whose key is not in the table.\<close>

lemma link_ok:
  assumes st: "ht_struct h" and un: "ht_unique h" and eqf: "ht_eqfn h = eq"
    and cnt: "ht_entrycount h = of_nat (size (ht_entries h)) + 1"
    and hv: "e_h e = ht_hash h (e_k e)"
    and new: "\<forall>f\<in>#ht_entries h. \<not> eq (e_k e) (e_k f)"
    and j: "j = indexFor (ht_tablelength h) (e_h e)"
    and h': "h' = h\<lparr>ht_table := (ht_table h)[j := e # ht_table h ! j]\<rparr>"
  shows "ht_inv h' \<and> ht_entries h' = add_mset e (ht_entries h)"
proof -
  have jl: "j < ht_tablelength h" unfolding j by (rule indexFor_less [OF ht_struct_pos [OF st]])
  have pl: "placed (ht_tablelength h) (ht_table h)" using st unfolding ht_struct_def by blast
  then have E: "ht_entries h' = add_mset e (ht_entries h)"
    unfolding h' ht_entries_def using mset_concat_push [of j "ht_table h" e] jl by (simp add: placed_def)
  have pl': "placed (ht_tablelength h') (ht_table h')"
    unfolding h' using placed_push [OF pl j [symmetric] jl] by simp
  have st': "ht_struct h'"
    using st pl' unfolding ht_struct_def E by (simp add: h' hv)
  have "size (filter_mset (\<lambda>f. eq x (e_k f)) (ht_entries h')) \<le> 1" for x
  proof (cases "eq x (e_k e)")
    case True
    have "\<not> eq x (e_k f)" if "f \<in># ht_entries h" for f
      using new that eq_sym [OF True] eq_trans by blast
    then have "filter_mset (\<lambda>f. eq x (e_k f)) (ht_entries h) = {#}" by simp
    with True show ?thesis by (simp add: E)
  next
    case False
    with un eqf show ?thesis by (simp add: E ht_unique_def)
  qed
  then have "ht_unique h'" using eqf by (simp add: ht_unique_def h')
  moreover have "ht_entrycount h' = of_nat (size (ht_entries h'))" using cnt E by (simp add: h')
  ultimately show ?thesis using st' E by (simp add: ht_inv_def)
qed

text \<open>Inserting with the duplicate check replaces whatever was stored under an equal key; the table
  may grow on the way, or fail to.\<close>

lemma insert_ok:
  assumes inv: "ht_inv h" and hf: "ht_hashfn h = hf" and eq: "ht_eqfn h = eq"
    and mem: "mem \<noteq> Realloc_Ok" and dup: "test_flag flags HASHTABLE_DUP_CHECK"
  obtains eff h' e where
    "switch_hashtable_insert_destructor mem entry_ok h k v flags d =
       Inr (if entry_ok then - 1 else 0, eff, h')"
    "ht_inv h'" "ht_hashfn h' = hf" "ht_eqfn h' = eq" "e_k e = k" "e_v e = v"
    "e_flags e = flags" "e_destructor e = d" "eff = fst (snd (switch_hashtable_remove h k))"
    "ht_entries h' =
       (if entry_ok then {#e#} else {#}) + filter_mset (\<lambda>e. \<not> eq k (e_k e)) (ht_entries h)"
proof -
  define hv where "hv = ht_hash h k"
  obtain v0 eff h1 where rm: "switch_hashtable_remove h k = (v0, eff, h1)" by (metis prod.exhaust)
  note R = remove_ok [OF inv hf eq rm]
  define h2 where "h2 = h1\<lparr>ht_entrycount := ht_entrycount h1 + 1\<rparr>"
  have st2: "ht_struct h2" using R by (simp add: h2_def ht_inv_def)
  define grown where "grown = (if ht_entrycount h2 > ht_loadlimit h2
      then and_then (hashtable_expand mem h2) (\<lambda>(_, h). Inr (h, indexFor (ht_tablelength h) hv))
      else Inr (h2, indexFor (ht_tablelength h) hv))"
  obtain r g where g: "hashtable_expand mem h2 = Inr (r, g)" "ht_struct g" "ht_entries g = ht_entries h2"
      "ht_entrycount g = ht_entrycount h2" "ht_hashfn g = ht_hashfn h2" "ht_eqfn g = ht_eqfn h2"
    by (rule hashtable_expand_ok [OF st2 mem])
  define h3 where "h3 = (if ht_entrycount h2 > ht_loadlimit h2 then g else h2)"
  have h3: "grown = Inr (h3, indexFor (ht_tablelength h3) hv)" "ht_struct h3"
      "ht_entries h3 = ht_entries h2" "ht_entrycount h3 = ht_entrycount h2"
      "ht_hashfn h3 = ht_hashfn h2" "ht_eqfn h3 = ht_eqfn h2"
    using g R st2 by (simp_all add: grown_def h3_def h2_def)
  define e where "e = \<lparr>e_k = k, e_v = v, e_h = hv, e_flags = flags, e_destructor = d\<rparr>"
  define h4 where "h4 = h3\<lparr>ht_table := (ht_table h3)[indexFor (ht_tablelength h3) hv :=
      e # ht_table h3 ! indexFor (ht_tablelength h3) hv]\<rparr>"
  define h5 where "h5 = h3\<lparr>ht_entrycount := ht_entrycount h3 - 1\<rparr>"
  have E: "ht_entries h3 = filter_mset (\<lambda>e. \<not> eq k (e_k e)) (ht_entries h)"
    using h3(3) R by (simp add: h2_def)
  have F: "ht_hashfn h3 = hf" "ht_eqfn h3 = eq" using h3(5,6) R by (simp_all add: h2_def)
  have "ht_unique h1" using R by (simp add: ht_inv_def)
  then have U: "ht_unique h3" by (rule ht_unique_mono) (use h3(3,6) in \<open>simp_all add: h2_def\<close>)
  have C: "ht_entrycount h3 = of_nat (size (ht_entries h3)) + 1"
    using h3(3,4) R by (simp add: h2_def ht_inv_def)
  have 4: "ht_inv h4 \<and> ht_entries h4 = add_mset e (ht_entries h3)"
    by (rule link_ok [OF h3(2) U F(2) C])
       (use F(1) hf E in \<open>auto simp: e_def hv_def h4_def ht_hash_def\<close>)
  have 5: "ht_inv h5 \<and> ht_entries h5 = ht_entries h3"
    using h3(2) U C by (simp add: h5_def ht_inv_def ht_unique_def)
  have rm': "ht_remove_at h k hv (indexFor (ht_tablelength h) hv) = (v0, eff, h1)"
    using rm by (simp add: switch_hashtable_remove_def hv_def Let_def)
  have "switch_hashtable_insert_destructor mem entry_ok h k v flags d =
      Inr (if entry_ok then - 1 else 0, eff, if entry_ok then h4 else h5)"
    unfolding switch_hashtable_insert_destructor_def Let_def hv_def [symmetric] rm'
    by (simp only: dup if_True snd_conv prod.case h2_def [symmetric] grown_def [symmetric] h3(1)
        and_then_simps e_def [symmetric] h4_def [symmetric] h5_def [symmetric]) simp
  then show ?thesis
    by (rule that [where e = e]) (use 4 5 E F rm in \<open>auto simp: e_def h4_def h5_def\<close>)
qed

end

section \<open>Creation\<close>

lemma first_prime_above_Some:
  "\<exists>p\<in>set ps. m < p \<Longrightarrow> \<exists>i<length ps. first_prime_above ps k m = Some (k + i, ps ! i) \<and> m < ps ! i"
proof (induction ps arbitrary: k)
  case (Cons q ps)
  show ?case
  proof (cases "m < q")
    case True
    then show ?thesis by (intro exI [of _ 0]) simp
  next
    case False
    then obtain i where "i < length ps" "first_prime_above ps (Suc k) m = Some (Suc k + i, ps ! i)" "m < ps ! i"
      using Cons.IH [of "Suc k"] Cons.prems by auto
    with False show ?thesis by (intro exI [of _ "Suc i"]) simp
  qed
qed simp

lemma create_hashtable_ok:
  assumes "minsize \<le> 2 ^ 30"
  obtains h where "switch_create_hashtable True minsize hashf eqf = Inr (SWITCH_STATUS_SUCCESS, Some h)"
    "ht_inv h" "ht_entries h = {#}" "ht_hashfn h = hashf" "ht_eqfn h = eqf" "minsize < ht_tablelength h"
proof -
  have "1610612741 \<in> set ht_primes" by (simp add: ht_primes_def)
  moreover have "minsize < 1610612741" using assms by simp
  ultimately obtain i where i: "i < prime_table_length" "minsize < ht_primes ! i"
    "first_prime_above ht_primes 0 minsize = Some (i, ht_primes ! i)"
    using first_prime_above_Some [of ht_primes minsize 0] by (auto simp: prime_table_length_def)
  have no: "concat (replicate n []) = []" for n by (induction n) simp_all
  show ?thesis
    by (rule that [of "\<lparr>ht_tablelength = ht_primes ! i, ht_table = replicate (ht_primes ! i) [],
         ht_entrycount = 0, ht_loadlimit = load_limit (ht_primes ! i), ht_primeindex = i,
         ht_hashfn = hashf, ht_eqfn = eqf\<rparr>"])
       (use assms i no in \<open>simp_all add: switch_create_hashtable_def ht_inv_def ht_struct_def
          ht_entries_def ht_unique_def\<close>)
qed

section \<open>The key functions of the core\<close>

lemma of_char_less_256: "of_char c < (256 :: nat)"
  by (metis of_char_mod_256 mod_less_divisor zero_less_numeral)

lemma unat_of_char: "unat (of_char c :: uint32_t) = of_char c"
proof -
  have "of_char c < (4294967296 :: nat)" using of_char_less_256 [of c] by linarith
  then have "unat (of_nat (of_char c) :: uint32_t) = of_char c" by (simp only: unat_of_nat) simp
  then show ?thesis by (simp only: of_nat_of_char)
qed

lemma switch_tolower_of_char: "switch_tolower (of_char c) = of_char (c_tolower c)"
proof -
  have "unat (switch_tolower (of_char c)) = lower_lane (of_char c) + 256 * (lower_lane 0 + 256 * (lower_lane 0 + 256 * lower_lane 0))"
    by (rule switch_tolower_lanes) (simp_all add: of_char_less_256 unat_of_char)
  also have "\<dots> = of_char (c_tolower c)"
    using lower.lane_less [OF of_char_less_256] by (simp add: c_tolower_def lower_lane_def)
  finally show ?thesis by (metis unat_of_char word_unat_eq_iff)
qed

lemma sdbm_map: "sdbm (\<lambda>c. f (g c)) h s = sdbm f h (map g s)"
  by (induction s arbitrary: h) simp_all

lemma hash_default_ci_lower: "switch_hash_default_ci s = switch_hash_default (map c_tolower s)"
  unfolding switch_hash_default_ci_def switch_hash_default_def switch_tolower_of_char
  by (rule sdbm_map)

interpretation keys_str: key_class switch_hash_default switch_hash_equalkeys
  by unfold_locales (auto simp: switch_hash_equalkeys_def)

interpretation keys_ci: key_class switch_hash_default_ci switch_hash_equalkeys_ci
  by unfold_locales (auto simp: switch_hash_equalkeys_ci_def strcasecmp_eq_def hash_default_ci_lower)

interpretation keys_int: key_class switch_hash_default_int switch_hash_equalkeys_int
  by unfold_locales (auto simp: switch_hash_equalkeys_int_def)

section \<open>Iteration visits every entry once\<close>

text \<open>What an iterator has still to visit: the rest of its chain and all later chains.\<close>

definition it_rest :: "('k, 'v) switch_hashtable \<Rightarrow> ht_iterator \<Rightarrow> ('k, 'v) ht_entry list" where
  "it_rest h i =
     (case it_e i of
        None \<Rightarrow> []
      | Some j \<Rightarrow> drop j (ht_table h ! it_pos i) @ concat (drop (Suc (it_pos i)) (ht_table h)))"

definition it_valid :: "('k, 'v) switch_hashtable \<Rightarrow> ht_iterator \<Rightarrow> bool" where
  "it_valid h i \<longleftrightarrow> it_pos i < ht_tablelength h \<and>
     (\<exists>j. it_e i = Some j \<and> j < length (ht_table h ! it_pos i))"

lemma skip_empty_spec:
  "length (ht_table h) = ht_tablelength h \<Longrightarrow>
   concat (drop (skip_empty h pos) (ht_table h)) = concat (drop pos (ht_table h)) \<and>
   (skip_empty h pos < ht_tablelength h \<longrightarrow> ht_table h ! skip_empty h pos \<noteq> [])"
proof (induction h pos rule: skip_empty.induct)
  case (1 h pos)
  show ?case
  proof (cases "pos < ht_tablelength h \<and> ht_table h ! pos = []")
    case True
    then have "concat (drop pos (ht_table h)) = concat (drop (Suc pos) (ht_table h))"
      using "1.prems" by (simp add: Cons_nth_drop_Suc [symmetric])
    with True 1 show ?thesis by (simp add: skip_empty.simps [of h pos])
  next
    case False
    then show ?thesis by (auto simp: skip_empty.simps [of h pos])
  qed
qed

lemma ht_next_chain_spec:
  assumes "length (ht_table h) = ht_tablelength h"
  shows "case ht_next_chain h pos of
      None \<Rightarrow> concat (drop pos (ht_table h)) = []
    | Some i \<Rightarrow> it_valid h i \<and> it_rest h i = concat (drop pos (ht_table h))"
proof (cases "skip_empty h pos < ht_tablelength h")
  case True
  let ?p = "skip_empty h pos"
  have "concat (drop ?p (ht_table h)) = ht_table h ! ?p @ concat (drop (Suc ?p) (ht_table h))"
    using True assms by (simp add: Cons_nth_drop_Suc [symmetric])
  with True skip_empty_spec [OF assms, of pos] show ?thesis
    by (auto simp: ht_next_chain_def it_valid_def it_rest_def Let_def)
next
  case False
  with skip_empty_spec [OF assms, of pos] assms show ?thesis
    by (simp add: ht_next_chain_def Let_def)
qed

lemma switch_hashtable_next_spec:
  assumes "length (ht_table h) = ht_tablelength h" and "it_valid h i"
  shows "case switch_hashtable_next h i of
      None \<Rightarrow> tl (it_rest h i) = []
    | Some i' \<Rightarrow> it_valid h i' \<and> it_rest h i' = tl (it_rest h i)"
proof -
  obtain j where j: "it_e i = Some j" "j < length (ht_table h ! it_pos i)"
    and pos: "it_pos i < ht_tablelength h" using assms(2) by (auto simp: it_valid_def)
  have rest: "tl (it_rest h i) =
      drop (Suc j) (ht_table h ! it_pos i) @ concat (drop (Suc (it_pos i)) (ht_table h))"
    using j by (simp add: it_rest_def tl_append drop_Suc tl_drop split: list.splits)
      (metis Cons_nth_drop_Suc list.sel(3) list.simps(3) drop_Suc)
  show ?thesis
  proof (cases "Suc j < length (ht_table h ! it_pos i)")
    case True
    with j pos rest show ?thesis
      by (auto simp: switch_hashtable_next_def it_valid_def it_rest_def)
  next
    case False
    with j rest ht_next_chain_spec [OF assms(1), of "Suc (it_pos i)"] show ?thesis
      by (simp add: switch_hashtable_next_def split: option.splits)
  qed
qed

definition kv :: "('k, 'v) ht_entry \<Rightarrow> 'k \<times> 'v option" where
  "kv e = (e_k e, e_v e)"

lemma it_rest_hd:
  assumes "it_valid h i"
  shows "it_rest h i \<noteq> [] \<and> switch_hashtable_this h i = Some (kv (hd (it_rest h i)))"
  using assms
  by (auto simp: it_valid_def it_rest_def switch_hashtable_this_def kv_def hd_append hd_drop_conv_nth)

lemma ht_walk_rest:
  assumes "length (ht_table h) = ht_tablelength h"
  shows "it_valid h i \<Longrightarrow> length (it_rest h i) \<le> fuel \<Longrightarrow>
    ht_walk fuel h (Some i) = Some (map kv (it_rest h i))"
proof (induction fuel arbitrary: i)
  case 0
  then show ?case using it_rest_hd [of h i] by simp
next
  case (Suc fuel)
  obtain e es where rest: "it_rest h i = e # es" using it_rest_hd [OF Suc.prems(1)] by (cases "it_rest h i") auto
  have cur: "switch_hashtable_this h i = Some (kv e)" using it_rest_hd [OF Suc.prems(1)] rest by simp
  have "ht_walk fuel h (switch_hashtable_next h i) = Some (map kv es)"
    using switch_hashtable_next_spec [OF assms Suc.prems(1)] Suc.IH Suc.prems(2) rest
    by (cases "switch_hashtable_next h i") auto
  with cur rest show ?case by simp
qed

lemma walk_entries:
  assumes "ht_struct h" and "size (ht_entries h) \<le> fuel"
  shows "ht_walk fuel h (switch_hashtable_first_iter h) = Some (map kv (concat (ht_table h)))"
proof -
  have len: "length (ht_table h) = ht_tablelength h" using assms(1) by (simp add: ht_struct_def placed_def)
  have first: "switch_hashtable_first_iter h = ht_next_chain h 0"
    by (simp add: switch_hashtable_first_iter_def switch_hashtable_next_def)
  show ?thesis
    using ht_next_chain_spec [OF len, of 0] ht_walk_rest [OF len] assms(2)
    by (cases "ht_next_chain h 0") (auto simp: first ht_entries_def)
qed

section \<open>Properties\<close>

text \<open>C26: Iterating a table with \<^verbatim>\<open>first\<close> and \<^verbatim>\<open>next\<close> terminates and visits every entry exactly
  once: as many steps as there are entries suffice, and the walk returns the keys and values of all
  chains in table order.\<close>

theorem hashtable_iteration_complete:
  assumes "ht_struct h"
  shows "ht_walk (size (ht_entries h)) h (switch_hashtable_first_iter h) =
    Some (map (\<lambda>e. (e_k e, e_v e)) (concat (ht_table h)))"
  using walk_entries [OF assms order_refl] by (simp add: kv_def [abs_def])

text \<open>A table of the core's kind with one entry.\<close>

definition demo_empty :: "(string, nat) switch_hashtable" where
  "demo_empty = \<lparr>ht_tablelength = 53, ht_table = replicate 53 [], ht_entrycount = 0,
     ht_loadlimit = load_limit 53, ht_primeindex = 0, ht_hashfn = switch_hash_default,
     ht_eqfn = switch_hash_equalkeys\<rparr>"

definition demo_table :: "(string, nat) switch_hashtable" where
  "demo_table =
     (case switch_hashtable_insert_destructor Malloc_Ok True demo_empty ''a'' (Some 1) HASHTABLE_DUP_CHECK None of
        Inl _ \<Rightarrow> demo_empty | Inr (r, eff, h) \<Rightarrow> h)"

lemma demo_empty_inv: "ht_inv demo_empty"
  by (simp add: demo_empty_def ht_inv_def ht_struct_def ht_entries_def ht_unique_def
      prime_table_length_eq ht_primes_def)

lemma demo_table_struct: "ht_struct demo_table"
proof -
  have fl: "test_flag HASHTABLE_DUP_CHECK HASHTABLE_DUP_CHECK"
    by (simp add: test_flag_def HASHTABLE_DUP_CHECK_def)
  have fns: "ht_hashfn demo_empty = switch_hash_default" "ht_eqfn demo_empty = switch_hash_equalkeys"
    by (simp_all add: demo_empty_def)
  show ?thesis
  proof (rule keys_str.insert_ok [OF demo_empty_inv fns _ fl])
    show "Malloc_Ok \<noteq> Realloc_Ok" by simp
  next
    fix eff h' e
    assume "switch_hashtable_insert_destructor Malloc_Ok True demo_empty ''a'' (Some 1) HASHTABLE_DUP_CHECK None =
       Inr (if True then - 1 else 0, eff, h')" "ht_inv h'"
    then show ?thesis by (simp add: demo_table_def ht_inv_def)
  qed
qed

theorem hashtable_iteration_complete_witness:
  "ht_walk (size (ht_entries demo_table)) demo_table (switch_hashtable_first_iter demo_table) =
    Some (map (\<lambda>e. (e_k e, e_v e)) (concat (ht_table demo_table)))"
  by (rule hashtable_iteration_complete [OF demo_table_struct])

end
