(* ===== verification/FS_Strings.thy ===== *)
theory FS_Strings
  imports FS_Prelude
begin

text \<open>
  String routines of \<^verbatim>\<open>src/switch_utils.c\<close> and \<^verbatim>\<open>include/switch_utils.h\<close>: URL coding, searching and
  replacing, bracket matching, and the separation of strings into arguments. A C string is the list
  of its characters before the terminator. Routines that rewrite a string in place return the new
  contents; a read behind the terminator is a fault.
\<close>

section \<open>URL coding\<close>

definition SWITCH_URL_UNSAFE :: string where
  "SWITCH_URL_UNSAFE =
     [CHR 0x0D, CHR 0x0A] @ '' #%&+:;<=>?@['' @ [CHR 0x5C] @ '']^`{|}'' @ [CHR 0x22]"

definition hex_upper :: string where
  "hex_upper = ''0123456789ABCDEF''"

text \<open>\<^verbatim>\<open>e - p > 1\<close>, where \<^verbatim>\<open>e\<close> is the last character: at least three characters are left.\<close>

definition url_already_encoded :: "bool \<Rightarrow> string \<Rightarrow> bool" where
  "url_already_encoded double_encode s \<longleftrightarrow>
     \<not> double_encode \<and> s \<noteq> [] \<and> hd s = CHR ''%'' \<and> length s > 2 \<and>
     s ! 1 \<in> set hex_upper \<and> s ! 2 \<in> set hex_upper"

definition url_unsafe :: "char \<Rightarrow> bool" where
  "url_unsafe c \<longleftrightarrow>
     (of_char c :: nat) < of_char (CHR '' '') \<or> (of_char c :: nat) > of_char (CHR ''~'') \<or>
     c \<in> set SWITCH_URL_UNSAFE"

definition url_escape :: "char \<Rightarrow> string" where
  "url_escape c =
     [CHR ''%'', hex_upper ! (of_char c div 16 mod 16), hex_upper ! (of_char c mod 16)]"

text \<open>\<open>len\<close> is the length after \<^verbatim>\<open>len--\<close>; \<open>out\<close> holds what \<^verbatim>\<open>buf\<close> holds before position \<^verbatim>\<open>x\<close>.\<close>

fun url_encode_loop :: "nat \<Rightarrow> bool \<Rightarrow> string \<Rightarrow> string \<Rightarrow> string" where
  "url_encode_loop len dbl [] out = out"
| "url_encode_loop len dbl (c # cs) out =
     (if length out \<ge> len then out
      else if \<not> url_already_encoded dbl (c # cs) \<and> url_unsafe c then
        (if length out + 3 > len then out else url_encode_loop len dbl cs (out @ url_escape c))
      else url_encode_loop len dbl cs (out @ [c]))"

text \<open>The initialiser of \<^verbatim>\<open>e\<close> reads \<^verbatim>\<open>*url\<close> before the null test. \<open>buf_len\<close> is \<open>None\<close> for a null
  buffer; the result is the string left in the buffer.\<close>

definition switch_url_encode_opt :: "string option \<Rightarrow> nat option \<Rightarrow> bool \<Rightarrow> string option c_result" where
  "switch_url_encode_opt url buf_len double_encode =
     (case url of
        None \<Rightarrow> Inl Null_Access
      | Some s \<Rightarrow>
          (case buf_len of
             None \<Rightarrow> Inr None
           | Some len \<Rightarrow>
               (let out = url_encode_loop (size_sub len 1) double_encode s []
                in if length out < len then Inr (Some out) else Inl Out_Of_Bounds)))"

definition switch_url_encode :: "string option \<Rightarrow> nat option \<Rightarrow> string option c_result" where
  "switch_url_encode url buf_len = switch_url_encode_opt url buf_len False"

text \<open>The length the whole encoding needs, without the terminator.\<close>

fun url_encoded_len :: "bool \<Rightarrow> string \<Rightarrow> nat" where
  "url_encoded_len dbl [] = 0"
| "url_encoded_len dbl (c # cs) =
     (if \<not> url_already_encoded dbl (c # cs) \<and> url_unsafe c then 3 else 1) + url_encoded_len dbl cs"

definition switch_core_url_encode_opt :: "bool \<Rightarrow> string option \<Rightarrow> bool \<Rightarrow> string option c_result" where
  "switch_core_url_encode_opt have_pool url double_encode =
     (case url of
        None \<Rightarrow> Inl Null_Access
      | Some s \<Rightarrow>
          if \<not> have_pool then Inr None
          else
            (let slen = length s + 1; len = url_encoded_len double_encode s + 1 in
             if slen = len then Inr (Some s) else switch_url_encode_opt url (Some len) double_encode))"

definition c_isspace :: "char \<Rightarrow> bool" where
  "c_isspace c \<longleftrightarrow> c \<in> {CHR '' '', CHR 0x09, CHR 0x0A, CHR 0x0B, CHR 0x0C, CHR 0x0D}"

definition hex_value :: "char \<Rightarrow> nat option" where
  "hex_value c =
     (let n = of_char c in
      if 48 \<le> n \<and> n \<le> 57 then Some (n - 48)
      else if 65 \<le> n \<and> n \<le> 70 then Some (n - 55)
      else if 97 \<le> n \<and> n \<le> 102 then Some (n - 87)
      else None)"

text \<open>\<^verbatim>\<open>sscanf(s, "%2x", &tmp)\<close>: white space is skipped; then at most two characters are taken, a sign
  and a digit or one or two digits. A prefix \<^verbatim>\<open>0x\<close> that the field width cuts off counts as \<^verbatim>\<open>0\<close>.\<close>

definition scan_hex2 :: "string \<Rightarrow> uint32_t option" where
  "scan_hex2 s =
     (case dropWhile c_isspace s of
        [] \<Rightarrow> None
      | c # cs \<Rightarrow>
          if c = CHR ''-'' \<or> c = CHR ''+'' then
            (case cs of
               [] \<Rightarrow> None
             | d # _ \<Rightarrow> map_option (\<lambda>v. if c = CHR ''-'' then - of_nat v else of_nat v) (hex_value d))
          else
            (case hex_value c of
               None \<Rightarrow> None
             | Some v \<Rightarrow>
                 (case cs of
                    [] \<Rightarrow> Some (of_nat v)
                  | d # _ \<Rightarrow>
                      (case hex_value d of
                         None \<Rightarrow> Some (of_nat v)
                       | Some w \<Rightarrow> Some (of_nat (16 * v + w))))))"

fun url_decode_loop :: "string \<Rightarrow> string" where
  "url_decode_loop [] = []"
| "url_decode_loop (c # cs) =
     (if c = CHR ''%'' \<and> length (c # cs) > 2 then
        (case scan_hex2 cs of
           Some v \<Rightarrow> char_of (unat v) # url_decode_loop (drop 2 cs)
         | None \<Rightarrow> c # url_decode_loop cs)
      else c # url_decode_loop cs)"

text \<open>The string that is left ends at the first terminator, which a decoded \<^verbatim>\<open>%00\<close> writes too.\<close>

definition switch_url_decode :: "string option \<Rightarrow> string option" where
  "switch_url_decode s = map_option (\<lambda>s. takeWhile (\<lambda>c. c \<noteq> CHR 0x00) (url_decode_loop s)) s"

section \<open>Searching and replacing\<close>

fun starts_with :: "string \<Rightarrow> string \<Rightarrow> bool" where
  "starts_with [] s \<longleftrightarrow> True"
| "starts_with (p # ps) [] \<longleftrightarrow> False"
| "starts_with (p # ps) (c # cs) \<longleftrightarrow> p = c \<and> starts_with ps cs"

text \<open>\<^verbatim>\<open>strstr\<close>: the position of the first occurrence.\<close>

fun strstr :: "string \<Rightarrow> string \<Rightarrow> nat option" where
  "strstr [] d = (if d = [] then Some 0 else None)"
| "strstr (c # cs) d = (if starts_with d (c # cs) then Some 0 else map_option Suc (strstr cs d))"

text \<open>The counter \<^verbatim>\<open>i\<close> runs over both strings; what is left of them is passed along.\<close>

fun string_match_loop :: "string \<Rightarrow> string \<Rightarrow> switch_status_t" where
  "string_match_loop (c # cs) (d # ds) = (if c \<noteq> d then SWITCH_STATUS_FALSE else string_match_loop cs ds)"
| "string_match_loop s [] = SWITCH_STATUS_SUCCESS"
| "string_match_loop [] (d # ds) = SWITCH_STATUS_FALSE"

definition switch_string_match :: "string \<Rightarrow> nat \<Rightarrow> string \<Rightarrow> nat \<Rightarrow> switch_status_t" where
  "switch_string_match str string_len search search_len =
     string_match_loop (take string_len str) (take search_len search)"

text \<open>The loop of \<^verbatim>\<open>switch_string_replace\<close>, which may not end; \<open>s\<close> is \<^verbatim>\<open>string + i\<close>. A match moves
  \<^verbatim>\<open>i\<close> by \<^verbatim>\<open>search_len - 1\<close> and the loop header by one more.\<close>

partial_function (option) string_replace_loop :: "string \<Rightarrow> string \<Rightarrow> string \<Rightarrow> string \<Rightarrow> string option" where
  "string_replace_loop search rep s dest =
     (case s of
        [] \<Rightarrow> Some dest
      | c # cs \<Rightarrow>
          if switch_string_match s (length s) search (length search) = SWITCH_STATUS_SUCCESS
          then string_replace_loop search rep (drop (length search) s) (dest @ rep)
          else string_replace_loop search rep cs (dest @ [c]))"

definition switch_string_replace :: "string \<Rightarrow> string \<Rightarrow> string \<Rightarrow> string option" where
  "switch_string_replace str search rep = string_replace_loop search rep str []"

section \<open>Brackets\<close>

text \<open>Positions are counted from the start of the string.\<close>

fun close_paren :: "char \<Rightarrow> char \<Rightarrow> nat \<Rightarrow> nat \<Rightarrow> string \<Rightarrow> nat option" where
  "close_paren op cl depth i [] = None"
| "close_paren op cl depth i (e # s) =
     (if e = op \<and> op \<noteq> cl then close_paren op cl (depth + 1) (i + 1) s
      else if e = cl then
        (if depth - 1 = 0 then Some i else close_paren op cl (depth - 1) (i + 1) s)
      else close_paren op cl depth (i + 1) s)"

definition switch_find_end_paren :: "string option \<Rightarrow> char \<Rightarrow> char \<Rightarrow> nat option" where
  "switch_find_end_paren str op cl =
     (case str of
        None \<Rightarrow> None
      | Some s \<Rightarrow>
          (let n = length (takeWhile (\<lambda>c. c = CHR '' '') s) in
           case drop n s of
             [] \<Rightarrow> None
           | c # t \<Rightarrow> if c = op then close_paren op cl 1 (n + 1) t else None))"

text \<open>\<^verbatim>\<open>switch_strchr_strict\<close> returns the end of the string when only allowed characters occur.\<close>

fun strchr_strict_loop :: "char \<Rightarrow> string option \<Rightarrow> nat \<Rightarrow> string \<Rightarrow> nat option" where
  "strchr_strict_loop ch allowed i [] = Some i"
| "strchr_strict_loop ch allowed i (c # s) =
     (if c = ch then Some i
      else if (case allowed of None \<Rightarrow> True | Some a \<Rightarrow> c \<in> set a)
      then strchr_strict_loop ch allowed (i + 1) s
      else None)"

definition switch_strchr_strict :: "string option \<Rightarrow> char \<Rightarrow> string option \<Rightarrow> nat option c_result" where
  "switch_strchr_strict inp ch allowed =
     (case inp of
        None \<Rightarrow> Inl Assert_Failed
      | Some s \<Rightarrow> Inr (if s = [] then None else strchr_strict_loop ch allowed 0 s))"

section \<open>Separation\<close>

definition ESCAPE_META :: char where "ESCAPE_META = CHR 0x5C"

abbreviation quote :: char where "quote \<equiv> CHR 0x27"

abbreviation dquote :: char where "dquote \<equiv> CHR 0x22"

abbreviation blank :: char where "blank \<equiv> CHR '' ''"

definition unescape_char :: "char \<Rightarrow> char" where
  "unescape_char escaped =
     (if escaped = CHR ''n'' then CHR 0x0A
      else if escaped = CHR ''r'' then CHR 0x0D
      else if escaped = CHR ''t'' then CHR 0x09
      else if escaped = CHR ''s'' then CHR '' ''
      else escaped)"

text \<open>The character an escape stands for, if \<open>e\<close> is one that can be escaped.\<close>

definition escape_of :: "char \<Rightarrow> char \<Rightarrow> char option" where
  "escape_of delim e =
     (if e = quote \<or> e = dquote \<or> (delim \<noteq> CHR 0x00 \<and> e = delim) \<or> e = ESCAPE_META then Some e
      else if unescape_char e \<noteq> e then Some (unescape_char e)
      else None)"

text \<open>The copying loop: \<open>out\<close> is what has been written from \<^verbatim>\<open>start\<close> to \<^verbatim>\<open>dest\<close>, \<open>en\<close> the position of
  \<^verbatim>\<open>end\<close>.\<close>

fun cleanup_loop :: "char \<Rightarrow> string \<Rightarrow> bool \<Rightarrow> string \<Rightarrow> nat option \<Rightarrow> string \<times> nat option" where
  "cleanup_loop delim [] inq out en = (out, en)"
| "cleanup_loop delim [c] inq out en =
     (if c = quote \<and> inq then (out, en)
      else (out @ [c], if c \<noteq> blank \<or> inq then Some (length out + 1) else en))"
| "cleanup_loop delim (c # d # s) inq out en =
     (case (if c = ESCAPE_META then escape_of delim d else None) of
        Some e \<Rightarrow> cleanup_loop delim s inq (out @ [e]) (Some (length out + 1))
      | None \<Rightarrow>
          if c = quote \<and> (inq \<or> quote \<in> set (d # s))
          then cleanup_loop delim (d # s) (\<not> inq) out (if \<not> inq then Some (length out) else en)
          else cleanup_loop delim (d # s) inq (out @ [c])
                 (if c \<noteq> blank \<or> inq then Some (length out + 1) else en))"

text \<open>Without an \<^verbatim>\<open>end\<close> no terminator is written and the rest of the string stays behind what was
  copied.\<close>

definition cleanup_separated_string :: "string \<Rightarrow> char \<Rightarrow> string" where
  "cleanup_separated_string str delim =
     (let s = dropWhile (\<lambda>c. c = blank) str in
      case cleanup_loop delim s False [] None of
        (out, Some n) \<Rightarrow> take n out
      | (out, None) \<Rightarrow> out @ drop (length out) s)"

definition switch_separate_string_string :: "string \<Rightarrow> string \<Rightarrow> nat \<Rightarrow> string list" where
  "switch_separate_string_string buf delim arraylen =
     rec_nat (\<lambda>s. [s])
       (\<lambda>_ sep s. case strstr s delim of
          None \<Rightarrow> [s] | Some i \<Rightarrow> take i s # sep (drop (i + length delim) s))
       (arraylen - 1) buf"

datatype tokenizer_state = START | SKIP_INITIAL_SPACE | FIND_DELIM | SKIP_ENDING_SPACE

text \<open>The tokenizers: \<open>ptr\<close> is the string from \<^verbatim>\<open>ptr\<close> on, \<open>cur\<close> the text of the current token so
  far; the current token runs to the end of the string when the loop stops inside it. An escape
  character at the very end of the string moves \<^verbatim>\<open>ptr\<close> behind the terminator.\<close>

function sep_char_delim ::
  "char \<Rightarrow> nat \<Rightarrow> tokenizer_state \<Rightarrow> nat \<Rightarrow> bool \<Rightarrow> string \<Rightarrow> string \<Rightarrow> string list \<Rightarrow> string list c_result" where
  "sep_char_delim delim arraylen st count inq cur [] toks =
     Inr (if st = START then toks else toks @ [cur])"
| "sep_char_delim delim arraylen st count inq cur (c # cs) toks =
     (if count \<ge> arraylen then Inr (if st = START then toks else toks @ [cur @ c # cs])
      else if st = START then sep_char_delim delim arraylen FIND_DELIM (count + 1) inq [] (c # cs) toks
      else if c = ESCAPE_META then
        (case cs of
           [] \<Rightarrow> Inl Out_Of_Bounds
         | d # ds \<Rightarrow> sep_char_delim delim arraylen FIND_DELIM count inq (cur @ [c, d]) ds toks)
      else if c = quote \<and> (inq \<or> quote \<in> set cs)
        then sep_char_delim delim arraylen FIND_DELIM count (\<not> inq) (cur @ [c]) cs toks
      else if c = delim \<and> \<not> inq
        then sep_char_delim delim arraylen START count inq [] cs (toks @ [cur])
      else sep_char_delim delim arraylen FIND_DELIM count inq (cur @ [c]) cs toks)"
  by pat_completeness auto
termination
  by (relation "measure (\<lambda>(delim, arraylen, st, count, inq, cur, ptr, toks).
        2 * length ptr + (if st = START then 1 else 0))") auto

function sep_blank_delim ::
  "nat \<Rightarrow> tokenizer_state \<Rightarrow> nat \<Rightarrow> bool \<Rightarrow> string \<Rightarrow> string \<Rightarrow> string list \<Rightarrow> string list c_result" where
  "sep_blank_delim arraylen st count inq cur [] toks =
     Inr (if st = START \<or> st = SKIP_ENDING_SPACE then toks else toks @ [cur])"
| "sep_blank_delim arraylen st count inq cur (c # cs) toks =
     (if count \<ge> arraylen
        then Inr (if st = START \<or> st = SKIP_ENDING_SPACE then toks else toks @ [cur @ c # cs])
      else case st of
        START \<Rightarrow> sep_blank_delim arraylen SKIP_INITIAL_SPACE (count + 1) inq [] (c # cs) toks
      | SKIP_INITIAL_SPACE \<Rightarrow>
          if c = blank then sep_blank_delim arraylen SKIP_INITIAL_SPACE count inq (cur @ [c]) cs toks
          else sep_blank_delim arraylen FIND_DELIM count inq cur (c # cs) toks
      | FIND_DELIM \<Rightarrow>
          if c = ESCAPE_META then
            (case cs of
               [] \<Rightarrow> Inl Out_Of_Bounds
             | d # ds \<Rightarrow> sep_blank_delim arraylen FIND_DELIM count inq (cur @ [c, d]) ds toks)
          else if c = quote
            then sep_blank_delim arraylen FIND_DELIM count (\<not> inq) (cur @ [c]) cs toks
          else if c = blank \<and> \<not> inq
            then sep_blank_delim arraylen SKIP_ENDING_SPACE count inq [] cs (toks @ [cur])
          else sep_blank_delim arraylen FIND_DELIM count inq (cur @ [c]) cs toks
      | SKIP_ENDING_SPACE \<Rightarrow>
          if c = blank then sep_blank_delim arraylen SKIP_ENDING_SPACE count inq cur cs toks
          else sep_blank_delim arraylen START count inq cur (c # cs) toks)"
  by pat_completeness auto
termination
  by (relation "measure (\<lambda>(arraylen, st, count, inq, cur, ptr, toks).
        4 * length ptr + (case st of START \<Rightarrow> 2 | SKIP_INITIAL_SPACE \<Rightarrow> 1 | FIND_DELIM \<Rightarrow> 0
          | SKIP_ENDING_SPACE \<Rightarrow> 3))") auto

definition separate_string_char_delim :: "string \<Rightarrow> char \<Rightarrow> nat \<Rightarrow> string list c_result" where
  "separate_string_char_delim buf delim arraylen =
     and_then (sep_char_delim delim arraylen START 0 False [] buf [])
       (\<lambda>toks. Inr (map (\<lambda>s. cleanup_separated_string s delim) toks))"

definition separate_string_blank_delim :: "string \<Rightarrow> nat \<Rightarrow> string list c_result" where
  "separate_string_blank_delim buf arraylen =
     and_then (sep_blank_delim arraylen START 0 False [] buf [])
       (\<lambda>toks. Inr (map (\<lambda>s. cleanup_separated_string s (CHR 0x00)) toks))"

text \<open>The prefix \<^verbatim>\<open>^^\<close> chooses another delimiter. The result lists the filled cells of \<^verbatim>\<open>array\<close>; their
  number is the return value.\<close>

definition switch_separate_string :: "string option \<Rightarrow> char \<Rightarrow> nat \<Rightarrow> string list c_result" where
  "switch_separate_string buf delim arraylen =
     (case buf of
        None \<Rightarrow> Inr []
      | Some s \<Rightarrow>
          if arraylen = 0 then Inr []
          else
            (let (s, delim) =
               (if take 2 s = ''^^'' \<and> length s > 3 then (drop 3 s, s ! 2) else (s, delim))
             in if delim = blank then separate_string_blank_delim s arraylen
                else separate_string_char_delim s delim arraylen))"

section \<open>URL coding is invertible\<close>

text \<open>The whole encoding, without a limit on the length.\<close>

fun url_encoded :: "bool \<Rightarrow> string \<Rightarrow> string" where
  "url_encoded dbl [] = []"
| "url_encoded dbl (c # cs) =
     (if \<not> url_already_encoded dbl (c # cs) \<and> url_unsafe c then url_escape c else [c]) @ url_encoded dbl cs"

lemma length_url_escape [simp]: "length (url_escape c) = 3"
  by (simp add: url_escape_def)

lemma length_url_encoded: "length (url_encoded dbl s) = url_encoded_len dbl s"
  by (induction s) simp_all

lemma url_encode_loop_bound: "length out \<le> len \<Longrightarrow> length (url_encode_loop len dbl s out) \<le> len"
  by (induction s arbitrary: out) auto

lemma url_encode_loop_whole:
  "length out + url_encoded_len dbl s \<le> len \<Longrightarrow> url_encode_loop len dbl s out = out @ url_encoded dbl s"
proof (induction s arbitrary: out)
  case (Cons c cs)
  have "length out < len" using Cons.prems by (auto split: if_splits)
  with Cons show ?case by (auto simp del: append.simps split: if_splits)
qed simp

lemma url_encoded_same: "url_encoded_len dbl s = length s \<Longrightarrow> url_encoded dbl s = s"
proof (induction s)
  case (Cons c cs)
  have "length cs \<le> url_encoded_len dbl cs" by (induction cs) auto
  with Cons show ?case by (auto split: if_splits)
qed simp

lemma hex_value_upper:
  assumes "n < 16"
  shows "hex_value (hex_upper ! n) = Some n \<and> \<not> c_isspace (hex_upper ! n) \<and>
    hex_upper ! n \<noteq> CHR ''-'' \<and> hex_upper ! n \<noteq> CHR ''+''"
proof -
  have "list_all (\<lambda>n. hex_value (hex_upper ! n) = Some n \<and> \<not> c_isspace (hex_upper ! n) \<and>
      hex_upper ! n \<noteq> CHR ''-'' \<and> hex_upper ! n \<noteq> CHR ''+'') [0..<16]"
    by code_simp
  with assms show ?thesis by (simp add: list_all_iff)
qed

lemma url_decode_escape: "url_decode_loop (url_escape c @ s) = c # url_decode_loop s"
proof -
  have n: "of_char c < (256 :: nat)" by (metis of_char_mod_256 mod_less_divisor zero_less_numeral)
  let ?h = "of_char c div 16 mod (16 :: nat)" and ?l = "of_char c mod (16 :: nat)"
  have "of_char c div 16 < (16 :: nat)" using n by linarith
  then have e: "16 * ?h + ?l = of_char c" by simp
  have scan: "scan_hex2 (hex_upper ! ?h # hex_upper ! ?l # s) = Some (of_nat (16 * ?h + ?l))"
    using hex_value_upper [of ?h] hex_value_upper [of ?l] by (simp add: scan_hex2_def)
  have "unat (of_nat (of_char c) :: uint32_t) = of_char c"
    using n by (simp only: unat_of_nat) (simp add: order_less_trans [OF n])
  then show ?thesis unfolding url_escape_def using scan e by simp
qed

lemma url_decode_encoded:
  "dbl \<or> CHR ''%'' \<notin> set s \<Longrightarrow> url_decode_loop (url_encoded dbl s) = s"
proof (induction s)
  case (Cons c cs)
  have no: "\<not> url_already_encoded dbl (c # cs)" using Cons.prems by (auto simp: url_already_encoded_def)
  have pc: "url_unsafe (CHR ''%'')" by (simp add: url_unsafe_def SWITCH_URL_UNSAFE_def)
  have IH: "url_decode_loop (url_encoded dbl cs) = cs" using Cons.IH Cons.prems by auto
  show ?case
  proof (cases "url_unsafe c")
    case True
    then show ?thesis using no IH by (simp add: url_decode_escape)
  next
    case False
    then have "c \<noteq> CHR ''%''" using pc by auto
    then show ?thesis using False no IH by simp
  qed
qed simp

section \<open>Replacing\<close>

lemma starts_with_iff: "starts_with p s \<longleftrightarrow> take (length p) s = p"
  by (induction p s rule: starts_with.induct) auto

lemma string_match_iff:
  "switch_string_match s (length s) d (length d) = SWITCH_STATUS_SUCCESS \<longleftrightarrow> starts_with d s"
proof -
  have "string_match_loop s d = SWITCH_STATUS_SUCCESS \<longleftrightarrow> starts_with d s" for s d
    by (induction s d rule: string_match_loop.induct) auto
  then show ?thesis by (simp add: switch_string_match_def)
qed

text \<open>The pieces of a string between the leftmost, non-overlapping occurrences of a text.\<close>

function pieces :: "string \<Rightarrow> string \<Rightarrow> string list" where
  "pieces d s =
     (case strstr s d of
        None \<Rightarrow> [s]
      | Some i \<Rightarrow> if d = [] then [s] else take i s # pieces d (drop (i + length d) s))"
  by pat_completeness auto

lemma strstr_bound: "strstr s d = Some i \<Longrightarrow> i + length d \<le> length s"
proof (induction s arbitrary: i)
  case (Cons c cs)
  show ?case
  proof (cases "starts_with d (c # cs)")
    case True
    then have "length (take (length d) (c # cs)) = length d" by (simp add: starts_with_iff)
    with True Cons.prems show ?thesis by simp
  next
    case False
    with Cons show ?thesis by auto
  qed
qed (simp split: if_splits)

termination pieces
proof (relation "measure (\<lambda>(d, s). length s)", goal_cases)
  case (2 d s i)
  then have "i + length d \<le> length s" "d \<noteq> []" using strstr_bound by auto
  then show ?case by (cases d) auto
qed simp

declare pieces.simps [simp del]

fun joined :: "string \<Rightarrow> string list \<Rightarrow> string" where
  "joined d [] = []"
| "joined d [s] = s"
| "joined d (s # t # ss) = s @ d @ joined d (t # ss)"

lemma joined_Cons: "ss \<noteq> [] \<Longrightarrow> joined d (s # ss) = s @ d @ joined d ss"
  by (cases ss) simp_all

lemma pieces_not_Nil: "pieces d s \<noteq> []"
  by (subst pieces.simps) (simp split: option.splits)

lemma pieces_Nil: "d \<noteq> [] \<Longrightarrow> pieces d [] = [[]]"
  by (simp add: pieces.simps)

lemma pieces_hit: "d \<noteq> [] \<Longrightarrow> starts_with d (c # cs) \<Longrightarrow> pieces d (c # cs) = [] # pieces d (drop (length d) (c # cs))"
  by (subst pieces.simps) simp

lemma pieces_miss:
  assumes "d \<noteq> []" "\<not> starts_with d (c # cs)"
  shows "pieces d (c # cs) = (c # hd (pieces d cs)) # tl (pieces d cs)"
  using assms by (subst (1 2 3) pieces.simps) (auto split: option.splits)

lemma replace_loop_spec:
  assumes "d \<noteq> []"
  shows "string_replace_loop d rep s dest = Some (dest @ joined rep (pieces d s))"
proof (induction "length s" arbitrary: s dest rule: less_induct)
  case less
  show ?case
  proof (cases s)
    case Nil
    then show ?thesis by (subst string_replace_loop.simps) (simp add: pieces_Nil assms)
  next
    case (Cons c cs)
    show ?thesis
    proof (cases "starts_with d s")
      case True
      have "length (drop (length d) s) < length s" using assms Cons by (cases d) simp_all
      then have "string_replace_loop d rep (drop (length d) s) (dest @ rep) =
          Some ((dest @ rep) @ joined rep (pieces d (drop (length d) s)))" by (rule less)
      then show ?thesis
        using True Cons assms string_match_iff [of s d] pieces_hit [of d c cs] pieces_not_Nil
        by (subst string_replace_loop.simps) (simp add: joined_Cons)
    next
      case False
      have "string_replace_loop d rep cs (dest @ [c]) = Some ((dest @ [c]) @ joined rep (pieces d cs))"
        using Cons by (intro less) simp
      moreover have "joined rep (pieces d (c # cs)) = c # joined rep (pieces d cs)"
        using pieces_miss [OF assms, of c cs] False Cons pieces_not_Nil [of d cs]
        by (cases "pieces d cs"; cases "tl (pieces d cs)") auto
      ultimately show ?thesis
        using False Cons string_match_iff [of s d]
        by (subst string_replace_loop.simps) simp
    qed
  qed
qed

lemma replace_loop_empty:
  assumes "string_replace_loop d rep s dest = Some r" and "d = []"
  shows "s = []"
proof -
  have "d = [] \<longrightarrow> s = []"
  proof (rule string_replace_loop.raw_induct [where P = "\<lambda>d rep s dest r. d = [] \<longrightarrow> s = []", OF _ assms(1)])
    fix f :: "string \<Rightarrow> string \<Rightarrow> string \<Rightarrow> string \<Rightarrow> string option" and d rep s dest r
    assume IH: "\<And>d rep s dest r. f d rep s dest = Some r \<Longrightarrow> d = [] \<longrightarrow> s = []"
      and f: "(case s of [] \<Rightarrow> Some dest
         | c # cs \<Rightarrow>
             if switch_string_match s (length s) d (length d) = SWITCH_STATUS_SUCCESS
             then f d rep (drop (length d) s) (dest @ rep) else f d rep cs (dest @ [c])) = Some r"
    show "d = [] \<longrightarrow> s = []"
    proof
      assume "d = []"
      then have "switch_string_match s (length s) d (length d) = SWITCH_STATUS_SUCCESS"
        by (simp add: string_match_iff del: list.size)
      with f IH [of d rep s "dest @ rep" r] \<open>d = []\<close> show "s = []" by (simp split: list.splits)
    qed
  qed
  with assms(2) show ?thesis by simp
qed

section \<open>Separating\<close>

text \<open>A token that needs neither quotes nor escapes.\<close>

definition plain_char :: "char \<Rightarrow> char \<Rightarrow> bool" where
  "plain_char delim c \<longleftrightarrow> c \<noteq> delim \<and> c \<noteq> quote \<and> c \<noteq> ESCAPE_META"

definition plain_token :: "char \<Rightarrow> string \<Rightarrow> bool" where
  "plain_token delim s \<longleftrightarrow>
     s \<noteq> [] \<and> list_all (plain_char delim) s \<and> hd s \<noteq> blank \<and> last s \<noteq> blank"

lemma cleanup_loop_plain:
  "list_all (plain_char delim) s \<Longrightarrow>
   cleanup_loop delim s False out en =
     (out @ s, if dropWhile (\<lambda>c. c = blank) (rev s) = [] then en
               else Some (length out + length (dropWhile (\<lambda>c. c = blank) (rev s))))"
proof (induction s arbitrary: out en)
  case (Cons c s)
  have c: "c \<noteq> quote" "c \<noteq> ESCAPE_META" "c \<noteq> delim" using Cons.prems by (simp_all add: plain_char_def)
  have IH: "cleanup_loop delim s False (out @ [c]) en' =
      ((out @ [c]) @ s, if dropWhile (\<lambda>c. c = blank) (rev s) = [] then en'
         else Some (length (out @ [c]) + length (dropWhile (\<lambda>c. c = blank) (rev s))))" for en'
    using Cons by simp
  have step: "cleanup_loop delim (c # s) False out en =
      cleanup_loop delim s False (out @ [c]) (if c \<noteq> blank then Some (length out + 1) else en)"
    using c by (cases s) simp_all
  have none: "(\<forall>x\<in>set s. x = blank) \<longleftrightarrow> dropWhile (\<lambda>c. c = blank) (rev s) = []"
    by (simp add: dropWhile_eq_Nil_conv)
  show ?case
    unfolding step IH using none by (cases "\<forall>x\<in>set s. x = blank") (auto simp: dropWhile_append)
qed simp

lemma cleanup_plain:
  assumes "plain_token delim s"
  shows "cleanup_separated_string s delim = s"
proof -
  have s: "s \<noteq> []" "list_all (plain_char delim) s" "hd s \<noteq> blank" "last s \<noteq> blank"
    using assms by (simp_all add: plain_token_def)
  have "dropWhile (\<lambda>c. c = blank) s = s" using s(1,3) by (cases s) simp_all
  moreover have "dropWhile (\<lambda>c. c = blank) (rev s) = rev s"
    using s(1,4) by (cases s rule: rev_cases) simp_all
  ultimately show ?thesis
    using s by (simp add: cleanup_separated_string_def cleanup_loop_plain)
qed

lemma sep_char_token:
  assumes "list_all (plain_char delim) s" and "count < arraylen"
  shows "sep_char_delim delim arraylen FIND_DELIM count False cur (s @ t) toks =
    sep_char_delim delim arraylen FIND_DELIM count False (cur @ s) t toks"
  using assms
proof (induction s arbitrary: cur)
  case (Cons c s)
  then show ?case by (simp add: plain_char_def)
qed simp

lemma sep_char_joined:
  assumes "delim \<noteq> quote" "delim \<noteq> ESCAPE_META"
  shows "ts \<noteq> [] \<Longrightarrow> \<forall>s\<in>set ts. plain_token delim s \<Longrightarrow> count = length toks \<Longrightarrow> count + length ts \<le> arraylen \<Longrightarrow>
    sep_char_delim delim arraylen START count False cur (joined [delim] ts) toks = Inr (toks @ ts)"
proof (induction ts arbitrary: count cur toks)
  case (Cons s ts)
  have s: "s \<noteq> []" "list_all (plain_char delim) s" using Cons.prems by (simp_all add: plain_token_def)
  have start: "sep_char_delim delim arraylen START count False cur (s @ t) toks =
      sep_char_delim delim arraylen FIND_DELIM (count + 1) False [] (s @ t) toks" for t
    using s(1) Cons.prems by (cases s) simp_all
  show ?case
  proof (cases "ts = []")
    case True
    show ?thesis
    proof (cases "count + 1 < arraylen")
      case True
      then show ?thesis using start [of "[]"] sep_char_token [OF s(2) True, of "[]" "[]"] \<open>ts = []\<close> by simp
    next
      case False
      then show ?thesis using start [of "[]"] \<open>ts = []\<close> s(1) by (cases s) simp_all
    qed
  next
    case False
    then have less: "count + 1 < arraylen" using Cons.prems by (cases ts) auto
    have "joined [delim] (s # ts) = s @ [delim] @ joined [delim] ts" using False by (rule joined_Cons)
    then have "sep_char_delim delim arraylen START count False cur (joined [delim] (s # ts)) toks =
        sep_char_delim delim arraylen START (count + 1) False [] (joined [delim] ts) (toks @ [s])"
      using assms less by (simp only: start sep_char_token [OF s(2) less]) simp
    then show ?thesis using Cons.IH [of "count + 1" "toks @ [s]" "[]"] Cons.prems False by simp
  qed
qed simp

section \<open>Properties\<close>

text \<open>C21: Encoding a string for a URL into pool memory and decoding it gives the string back, for every
  string without a NUL whose encoding fits \<^verbatim>\<open>size_t\<close>, when an existing escape is encoded again
  (\<^verbatim>\<open>double_encode\<close>) or the string has no percent sign. Otherwise an existing escape is left alone, and decoding replaces it.\<close>

theorem url_roundtrip:
  assumes "double_encode \<or> CHR ''%'' \<notin> set s" and "CHR 0x00 \<notin> set s" and "3 * length s + 1 < size_mod"
  shows "\<exists>e. switch_core_url_encode_opt True (Some s) double_encode = Inr (Some e) \<and>
    switch_url_decode (Some e) = Some s"
proof -
  let ?e = "url_encoded double_encode s" and ?n = "url_encoded_len double_encode s"
  have n: "?n \<le> 3 * length s" by (induction s) auto
  have "switch_core_url_encode_opt True (Some s) double_encode = Inr (Some ?e)"
    using url_encode_loop_whole [of "[]" double_encode s ?n] url_encoded_same [of double_encode s]
      length_url_encoded [of double_encode s] n assms(3)
    by (simp add: switch_core_url_encode_opt_def switch_url_encode_opt_def Let_def size_sub_eq)
  moreover have "takeWhile (\<lambda>c. c \<noteq> CHR 0x00) s = s" using assms(2) by (auto simp: takeWhile_eq_all_conv)
  ultimately show ?thesis
    using url_decode_encoded [OF assms(1)] by (simp add: switch_url_decode_def)
qed

theorem url_roundtrip_witness:
  "\<exists>e. switch_core_url_encode_opt True (Some ''a b%41'') True = Inr (Some e) \<and>
    switch_url_decode (Some e) = Some ''a b%41''"
  using url_roundtrip [of True "''a b%41''"] by (simp add: size_mod_def)

text \<open>URL encoding into a caller's buffer never writes outside a buffer of at least one byte,
  terminator included; and it leaves the whole encoding there when it fits.\<close>

theorem url_encode_in_bounds:
  assumes "0 < len" and "len < size_mod"
  shows "\<exists>out. switch_url_encode (Some s) (Some len) = Inr (Some out) \<and> length out < len \<and>
    (length (url_encoded False s) < len \<longrightarrow> out = url_encoded False s)"
proof -
  have len: "size_sub len 1 = len - 1" using assms by (simp add: size_sub_eq)
  have "length (url_encode_loop (len - 1) False s []) \<le> len - 1" by (rule url_encode_loop_bound) simp
  then have "length (url_encode_loop (len - 1) False s []) < len" using assms by linarith
  then show ?thesis
    using url_encode_loop_whole [of "[]" False s "len - 1"] assms(1)
    by (auto simp: switch_url_encode_def switch_url_encode_opt_def len [simplified] length_url_encoded Let_def)
qed

theorem url_encode_in_bounds_witness:
  "\<exists>out. switch_url_encode (Some ''a b'') (Some 4) = Inr (Some out) \<and> length out < 4 \<and>
    (length (url_encoded False ''a b'') < 4 \<longrightarrow> out = url_encoded False ''a b'')"
  using url_encode_in_bounds [of 4 "''a b''"] by (simp add: size_mod_def)

text \<open>C38: \<^verbatim>\<open>switch_string_replace\<close> returns for every non-empty search text, and its result is the
  pieces of the string between the leftmost occurrences joined by the replacement. For an empty
  search text and a non-empty string it never returns.\<close>

theorem string_replace_spec:
  "(search \<noteq> [] \<longrightarrow> switch_string_replace str search rep = Some (joined rep (pieces search str))) \<and>
   (search = [] \<longrightarrow> str \<noteq> [] \<longrightarrow> switch_string_replace str search rep = None)"
  using replace_loop_spec [of search rep str "[]"] replace_loop_empty [of search rep str "[]"]
  by (cases "string_replace_loop search rep str []") (auto simp: switch_string_replace_def)

theorem string_replace_spec_witness:
  "switch_string_replace ''aXXbX'' ''X'' ''--'' = Some ''a----b--'' \<and> switch_string_replace ''a'' [] ''b'' = None"
  using string_replace_spec [of "''X''" "''aXXbX''" "''--''"] string_replace_spec [of "[]" "''a''" "''b''"]
  by (simp add: pieces.simps)

text \<open>C23: Separating arguments that were joined by the delimiter gives the arguments back, for
  non-empty arguments without the delimiter, quotes and escapes that neither start nor end with a blank,
  and a delimiter that is none of blank, quote and escape, as long as the array has room for them and the text does
  not start with \<^verbatim>\<open>^^\<close>, which chooses another delimiter.\<close>

theorem separate_string_roundtrip:
  assumes "ts \<noteq> []" and "\<forall>s\<in>set ts. plain_token delim s" and "length ts \<le> arraylen"
    and "delim \<noteq> blank" and "delim \<noteq> quote" and "delim \<noteq> ESCAPE_META"
    and "take 2 (joined [delim] ts) \<noteq> ''^^''"
  shows "switch_separate_string (Some (joined [delim] ts)) delim arraylen = Inr ts"
proof -
  have "map (\<lambda>s. cleanup_separated_string s delim) ts = ts"
    using assms(2) by (simp add: map_idI cleanup_plain)
  moreover have "arraylen \<noteq> 0" using assms(1,3) by (cases ts) auto
  ultimately show ?thesis
    using sep_char_joined [OF assms(5,6,1,2), of 0 "[]" arraylen "[]"] assms
    by (simp add: switch_separate_string_def separate_string_char_delim_def)
qed

theorem separate_string_roundtrip_witness:
  "switch_separate_string (Some ''a=b,c d,e'') CHR '','' 10 = Inr [''a=b'', ''c d'', ''e'']"
  using separate_string_roundtrip [of "[''a=b'', ''c d'', ''e'']" "CHR '',''" 10]
  by (simp add: plain_token_def plain_char_def ESCAPE_META_def)

text \<open>An unquoted argument string that ends in an escape character makes the tokenizer read behind
  the terminator, whatever the arguments before it.\<close>

theorem separate_string_overrun:
  assumes "s \<noteq> []" and "list_all (plain_char delim) s" and "delim \<noteq> blank" and "2 \<le> arraylen"
    and "hd s \<noteq> CHR ''^''"
  shows "switch_separate_string (Some (s @ [ESCAPE_META])) delim arraylen = Inl Out_Of_Bounds"
proof -
  obtain c cs where s: "s = c # cs" using assms(1) by (cases s) auto
  have "sep_char_delim delim arraylen START 0 False [] (s @ [ESCAPE_META]) [] =
      sep_char_delim delim arraylen FIND_DELIM 1 False [] (s @ [ESCAPE_META]) []"
    using s assms(4) by simp
  also have "\<dots> = Inl Out_Of_Bounds"
    using sep_char_token [OF assms(2), of 1 arraylen "[]" "[ESCAPE_META]"] assms(4) by simp
  finally show ?thesis
    using assms s by (simp add: switch_separate_string_def separate_string_char_delim_def)
qed

theorem separate_string_overrun_witness:
  "switch_separate_string (Some (''a=b'' @ [ESCAPE_META])) CHR '','' 10 = Inl Out_Of_Bounds"
  using separate_string_overrun [of "''a=b''" "CHR '',''" 10]
  by (simp add: plain_char_def ESCAPE_META_def)

end
