(* ===== verification/FS_Event.thy ===== *)
theory FS_Event
  imports FS_Hashtable FS_Strings
begin

text \<open>
  \<^verbatim>\<open>src/switch_event.c\<close>: events and their headers. An event keeps a linked list of headers with a tail
  pointer; a header has a name, a value and possibly an array of values, of which the value is then a
  drawing. The list is a HOL list and the tail pointer a position in it, so an append goes behind
  the position of the tail pointer whatever is there. \<^verbatim>\<open>idx\<close> is the length of the array.

  Memory that the code releases or hands over is not tracked. \<^verbatim>\<open>long\<close>, \<^verbatim>\<open>int\<close> and \<^verbatim>\<open>size_t\<close> have 32 bits.
\<close>

section \<open>Data\<close>

record switch_event_header =
  eh_name :: string
  eh_value :: "string option"
  eh_array :: "string list"
  eh_hash :: uint32_t

datatype switch_priority_t = SWITCH_PRIORITY_NORMAL | SWITCH_PRIORITY_LOW | SWITCH_PRIORITY_HIGH

type_synonym switch_event_types_t = nat

record switch_event =
  ev_event_id :: switch_event_types_t
  ev_priority :: switch_priority_t
  ev_subclass_name :: "string option"
  ev_headers :: "switch_event_header list"
  ev_last_header :: "nat option"
  ev_body :: "string option"
  ev_bind_user_data :: "nat option"
  ev_event_user_data :: "nat option"
  ev_key :: uint32_t
  ev_flags :: uint32_t

definition EF_UNIQ_HEADERS :: uint32_t where "EF_UNIQ_HEADERS = 1"

definition SWITCH_STACK_BOTTOM :: uint32_t where "SWITCH_STACK_BOTTOM = 1"
definition SWITCH_STACK_TOP :: uint32_t where "SWITCH_STACK_TOP = 2"
definition SWITCH_STACK_NODUP :: uint32_t where "SWITCH_STACK_NODUP = 4"
definition SWITCH_STACK_UNSHIFT :: uint32_t where "SWITCH_STACK_UNSHIFT = 8"
definition SWITCH_STACK_PUSH :: uint32_t where "SWITCH_STACK_PUSH = 16"

lemmas stack_defs = SWITCH_STACK_BOTTOM_def SWITCH_STACK_TOP_def SWITCH_STACK_NODUP_def
  SWITCH_STACK_UNSHIFT_def SWITCH_STACK_PUSH_def

text \<open>Event types are their numbers in the enumeration, which index the table of names.\<close>

definition EVENT_NAMES :: "string list" where
  "EVENT_NAMES =
    [''CUSTOM'', ''CLONE'', ''CHANNEL_CREATE'', ''CHANNEL_DESTROY'', ''CHANNEL_STATE'',
     ''CHANNEL_CALLSTATE'', ''CHANNEL_ANSWER'', ''CHANNEL_HANGUP'', ''CHANNEL_HANGUP_COMPLETE'',
     ''CHANNEL_EXECUTE'', ''CHANNEL_EXECUTE_COMPLETE'', ''CHANNEL_HOLD'', ''CHANNEL_UNHOLD'',
     ''CHANNEL_BRIDGE'', ''CHANNEL_UNBRIDGE'', ''CHANNEL_PROGRESS'', ''CHANNEL_PROGRESS_MEDIA'',
     ''CHANNEL_OUTGOING'', ''CHANNEL_PARK'', ''CHANNEL_UNPARK'', ''CHANNEL_APPLICATION'',
     ''CHANNEL_ORIGINATE'', ''CHANNEL_UUID'', ''API'', ''LOG'', ''INBOUND_CHAN'',
     ''OUTBOUND_CHAN'', ''STARTUP'', ''SHUTDOWN'', ''PUBLISH'', ''UNPUBLISH'', ''TALK'',
     ''NOTALK'', ''SESSION_CRASH'', ''MODULE_LOAD'', ''MODULE_UNLOAD'', ''DTMF'', ''MESSAGE'',
     ''PRESENCE_IN'', ''NOTIFY_IN'', ''PRESENCE_OUT'', ''PRESENCE_PROBE'', ''MESSAGE_WAITING'',
     ''MESSAGE_QUERY'', ''ROSTER'', ''CODEC'', ''BACKGROUND_JOB'', ''DETECTED_SPEECH'',
     ''DETECTED_TONE'', ''PRIVATE_COMMAND'', ''HEARTBEAT'', ''TRAP'', ''ADD_SCHEDULE'',
     ''DEL_SCHEDULE'', ''EXE_SCHEDULE'', ''RE_SCHEDULE'', ''RELOADXML'', ''NOTIFY'',
     ''PHONE_FEATURE'', ''PHONE_FEATURE_SUBSCRIBE'', ''SEND_MESSAGE'', ''RECV_MESSAGE'',
     ''REQUEST_PARAMS'', ''CHANNEL_DATA'', ''GENERAL'', ''COMMAND'', ''SESSION_HEARTBEAT'',
     ''CLIENT_DISCONNECTED'', ''SERVER_DISCONNECTED'', ''SEND_INFO'', ''RECV_INFO'',
     ''RECV_RTCP_MESSAGE'', ''CALL_SECURE'', ''NAT'', ''RECORD_START'', ''RECORD_STOP'',
     ''PLAYBACK_START'', ''PLAYBACK_STOP'', ''CALL_UPDATE'', ''FAILURE'', ''SOCKET_DATA'',
     ''MEDIA_BUG_START'', ''MEDIA_BUG_STOP'', ''CONFERENCE_DATA_QUERY'', ''CONFERENCE_DATA'',
     ''CALL_SETUP_REQ'', ''CALL_SETUP_RESULT'', ''CALL_DETAIL'', ''DEVICE_STATE'', ''ALL'']"

definition SWITCH_EVENT_CUSTOM :: switch_event_types_t where "SWITCH_EVENT_CUSTOM = 0"
definition SWITCH_EVENT_CLONE :: switch_event_types_t where "SWITCH_EVENT_CLONE = 1"
definition SWITCH_EVENT_MESSAGE :: switch_event_types_t where "SWITCH_EVENT_MESSAGE = 37"
definition SWITCH_EVENT_REQUEST_PARAMS :: switch_event_types_t where "SWITCH_EVENT_REQUEST_PARAMS = 62"
definition SWITCH_EVENT_CHANNEL_DATA :: switch_event_types_t where "SWITCH_EVENT_CHANNEL_DATA = 63"
definition SWITCH_EVENT_ALL :: switch_event_types_t where "SWITCH_EVENT_ALL = 89"

definition switch_event_name :: "switch_event_types_t \<Rightarrow> string c_result" where
  "switch_event_name event =
     (if event < length EVENT_NAMES then Inr (EVENT_NAMES ! event) else Inl Out_Of_Bounds)"

fun name_event_loop :: "string \<Rightarrow> nat \<Rightarrow> string list \<Rightarrow> nat option" where
  "name_event_loop name x [] = None"
| "name_event_loop name x (n # ns) =
     (if (length name > 13 \<and> strcasecmp_eq (drop 13 name) n) \<or> strcasecmp_eq name n then Some x
      else name_event_loop name (Suc x) ns)"

definition switch_name_event :: "string \<Rightarrow> switch_status_t \<times> switch_event_types_t option" where
  "switch_name_event name =
     (case name_event_loop name 0 EVENT_NAMES of
        Some x \<Rightarrow> (SWITCH_STATUS_SUCCESS, Some x)
      | None \<Rightarrow> (SWITCH_STATUS_FALSE, None))"

definition switch_priority_name :: "switch_priority_t \<Rightarrow> string" where
  "switch_priority_name priority =
     (case priority of
        SWITCH_PRIORITY_NORMAL \<Rightarrow> ''NORMAL''
      | SWITCH_PRIORITY_LOW \<Rightarrow> ''LOW''
      | SWITCH_PRIORITY_HIGH \<Rightarrow> ''HIGH'')"

section \<open>Searching headers\<close>

text \<open>\<^verbatim>\<open>switch_ci_hashfunc_default\<close> for a key given as a string.\<close>

definition switch_ci_hashfunc_default :: "string \<Rightarrow> uint32_t" where
  "switch_ci_hashfunc_default char_key = foldl (\<lambda>hash c. hash * 33 + of_char (c_tolower c)) 0 char_key"

definition header_matches :: "uint32_t \<Rightarrow> string \<Rightarrow> switch_event_header \<Rightarrow> bool" where
  "header_matches hash header_name hp \<longleftrightarrow>
     (eh_hash hp = 0 \<or> hash = eh_hash hp) \<and> strcasecmp_eq (eh_name hp) header_name"

text \<open>A pointer to a header is its position.\<close>

fun find_header :: "uint32_t \<Rightarrow> string \<Rightarrow> nat \<Rightarrow> switch_event_header list \<Rightarrow> nat option" where
  "find_header hash header_name i [] = None"
| "find_header hash header_name i (hp # hs) =
     (if header_matches hash header_name hp then Some i else find_header hash header_name (Suc i) hs)"

definition switch_event_get_header_ptr :: "switch_event \<Rightarrow> string option \<Rightarrow> nat option" where
  "switch_event_get_header_ptr event header_name =
     (case header_name of
        None \<Rightarrow> None
      | Some name \<Rightarrow> find_header (switch_ci_hashfunc_default name) name 0 (ev_headers event))"

definition switch_event_get_header_idx :: "switch_event \<Rightarrow> string option \<Rightarrow> int \<Rightarrow> string option c_result" where
  "switch_event_get_header_idx event header_name idx =
     (case switch_event_get_header_ptr event header_name of
        Some i \<Rightarrow>
          (let hp = ev_headers event ! i in
           if idx > - 1 then
             Inr (if idx < int (length (eh_array hp)) then Some (eh_array hp ! nat idx) else None)
           else Inr (eh_value hp))
      | None \<Rightarrow>
          (case header_name of
             None \<Rightarrow> Inl Null_Access
           | Some name \<Rightarrow> Inr (if name = ''_body'' then ev_body event else None)))"

definition switch_event_get_header :: "switch_event \<Rightarrow> string option \<Rightarrow> string option c_result" where
  "switch_event_get_header event header_name = switch_event_get_header_idx event header_name (- 1)"

definition switch_event_get_body :: "switch_event option \<Rightarrow> string option" where
  "switch_event_get_body event = (case event of None \<Rightarrow> None | Some e \<Rightarrow> ev_body e)"

definition switch_event_rename_header ::
  "switch_event \<Rightarrow> string option \<Rightarrow> string \<Rightarrow> switch_status_t \<times> switch_event" where
  "switch_event_rename_header event header_name new_header_name =
     (case header_name of
        None \<Rightarrow> (SWITCH_STATUS_FALSE, event)
      | Some name \<Rightarrow>
          (let hash = switch_ci_hashfunc_default name;
               hs = ev_headers event
           in (if list_ex (header_matches hash name) hs then SWITCH_STATUS_SUCCESS else SWITCH_STATUS_FALSE,
               event\<lparr>ev_headers := map (\<lambda>hp. if header_matches hash name hp
                   then hp\<lparr>eh_name := new_header_name, eh_hash := switch_ci_hashfunc_default new_header_name\<rparr>
                   else hp) hs\<rparr>)))"

section \<open>Deleting headers\<close>

text \<open>\<open>kept\<close> are the headers the loop has left in place, the last of them being \<^verbatim>\<open>lp\<close>; the header
  looked at stands behind them. \<^verbatim>\<open>strcmp\<close> reads the value of a header only when a value is asked
  for.\<close>

definition value_matches :: "string option \<Rightarrow> switch_event_header \<Rightarrow> bool c_result" where
  "value_matches val hp =
     (case val of
        None \<Rightarrow> Inr True
      | Some v \<Rightarrow>
          if v = [] then Inr True
          else (case eh_value hp of None \<Rightarrow> Inl Null_Access | Some w \<Rightarrow> Inr (w = v)))"

fun del_header_loop ::
  "uint32_t \<Rightarrow> string \<Rightarrow> string option \<Rightarrow> nat \<Rightarrow> switch_event_header list \<Rightarrow> switch_event_header list \<Rightarrow>
   nat option \<Rightarrow> switch_status_t \<Rightarrow> (switch_status_t \<times> switch_event_header list \<times> nat option) c_result" where
  "del_header_loop hash name val x kept [] lasth status = Inr (status, kept, lasth)"
| "del_header_loop hash name val x kept (hp # hs) lasth status =
     (if \<not> x + 1 < 1000000 then Inl Assert_Failed
      else and_then (if header_matches hash name hp then value_matches val hp else Inr False)
        (\<lambda>del.
          if del then
            (let lasth =
               (if lasth = Some (length kept) \<or> hs = []
                then (if kept = [] then None else Some (length kept - 1))
                else map_option (\<lambda>i. if i > length kept then i - 1 else i) lasth)
             in del_header_loop hash name val (x + 1) kept hs lasth SWITCH_STATUS_SUCCESS)
          else del_header_loop hash name val (x + 1) (kept @ [hp]) hs lasth status))"

definition switch_event_del_header_val ::
  "switch_event \<Rightarrow> string \<Rightarrow> string option \<Rightarrow> (switch_status_t \<times> switch_event) c_result" where
  "switch_event_del_header_val event header_name val =
     and_then
       (del_header_loop (switch_ci_hashfunc_default header_name) header_name val 0 []
          (ev_headers event) (ev_last_header event) SWITCH_STATUS_FALSE)
       (\<lambda>(status, hs, lasth). Inr (status, event\<lparr>ev_headers := hs, ev_last_header := lasth\<rparr>))"

definition switch_event_del_header :: "switch_event \<Rightarrow> string \<Rightarrow> (switch_status_t \<times> switch_event) c_result" where
  "switch_event_del_header event header_name = switch_event_del_header_val event header_name None"

section \<open>Adding headers\<close>

definition new_header :: "string \<Rightarrow> switch_event_header" where
  "new_header header_name = \<lparr>eh_name = header_name, eh_value = None, eh_array = [], eh_hash = 0\<rparr>"

definition switch_event_set_body :: "switch_event \<Rightarrow> string option \<Rightarrow> switch_event" where
  "switch_event_set_body event body = event\<lparr>ev_body := body\<rparr>"

text \<open>\<^verbatim>\<open>atoi\<close>: blanks, a sign, digits; the value is cut to the range of \<^verbatim>\<open>long\<close>.\<close>

definition c_isdigit :: "char \<Rightarrow> bool" where
  "c_isdigit c \<longleftrightarrow> 48 \<le> (of_char c :: nat) \<and> (of_char c :: nat) \<le> 57"

definition digits_value :: "string \<Rightarrow> int" where
  "digits_value s = foldl (\<lambda>v c. 10 * v + (of_char c - 48)) 0 (takeWhile c_isdigit s)"

definition c_atoi :: "string \<Rightarrow> int" where
  "c_atoi s =
     (let t = dropWhile c_isspace s;
          v = (case t of
                 [] \<Rightarrow> 0
               | c # cs \<Rightarrow>
                   if c = CHR ''-'' then - digits_value cs
                   else if c = CHR ''+'' then digits_value cs
                   else digits_value t)
      in max (- (2 ^ 31)) (min (2 ^ 31 - 1) v))"

text \<open>A name \<^verbatim>\<open>name[index]\<close> is split at its first bracket.\<close>

definition split_index :: "string \<Rightarrow> string \<times> int option" where
  "split_index header_name =
     (case dropWhile (\<lambda>c. c \<noteq> CHR ''['') header_name of
        [] \<Rightarrow> (header_name, None)
      | _ # rest \<Rightarrow> (takeWhile (\<lambda>c. c \<noteq> CHR ''['') header_name, Some (c_atoi rest)))"

text \<open>The label \<^verbatim>\<open>redraw\<close>: the value becomes the drawing of the array.\<close>

definition array_value :: "string list \<Rightarrow> string" where
  "array_value xs = (if length xs > 1 then ''ARRAY::'' else []) @ joined ''|:'' xs"

definition redraw :: "switch_event_header \<Rightarrow> switch_event_header" where
  "redraw h =
     (if sum_list (map (\<lambda>s. length s + 2) (eh_array h)) \<noteq> 0
      then h\<lparr>eh_value := Some (array_value (eh_array h))\<rparr> else h)"

definition push_data :: "uint32_t \<Rightarrow> string \<Rightarrow> switch_event_header \<Rightarrow> switch_event_header" where
  "push_data stack data h =
     (let h = (case eh_value h of
                 Some v \<Rightarrow> if eh_array h = [] then h\<lparr>eh_array := [v], eh_value := None\<rparr> else h
               | None \<Rightarrow> h)
      in redraw (h\<lparr>eh_array :=
           (if test_flag stack SWITCH_STACK_PUSH then eh_array h @ [data] else data # eh_array h)\<rparr>))"

text \<open>Linking a new header in front of the list or behind the tail pointer.\<close>

definition link_header :: "switch_event \<Rightarrow> uint32_t \<Rightarrow> switch_event_header \<Rightarrow> switch_event" where
  "link_header event stack h =
     (let h = h\<lparr>eh_hash := switch_ci_hashfunc_default (eh_name h)\<rparr> in
      if test_flag stack SWITCH_STACK_TOP then
        event\<lparr>ev_headers := h # ev_headers event,
              ev_last_header := (case ev_last_header event of None \<Rightarrow> Some 0 | Some i \<Rightarrow> Some (Suc i))\<rparr>
      else
        (case ev_last_header event of
           Some i \<Rightarrow> event\<lparr>ev_headers := take (Suc i) (ev_headers event) @ [h], ev_last_header := Some (Suc i)\<rparr>
         | None \<Rightarrow> event\<lparr>ev_headers := [h], ev_last_header := Some 0\<rparr>))"

text \<open>The branch for \<^verbatim>\<open>name[index]\<close>.\<close>

definition set_element :: "switch_event \<Rightarrow> uint32_t \<Rightarrow> string \<Rightarrow> int \<Rightarrow> string \<Rightarrow> switch_event c_result" where
  "set_element event stack name index data =
     (case switch_event_get_header_ptr event (Some name) of
        Some i \<Rightarrow>
          (let h = ev_headers event ! i in
           if index > - 1 \<and> index \<le> 4000 then
             (if nat index < length (eh_array h)
              then Inr (event\<lparr>ev_headers := (ev_headers event)[i := h\<lparr>eh_array := (eh_array h)[nat index := data]\<rparr>]\<rparr>)
              else Inr (event\<lparr>ev_headers := (ev_headers event)[i := redraw (h\<lparr>eh_array :=
                     eh_array h @ replicate (nat index - length (eh_array h)) [] @ [data]\<rparr>)]\<rparr>))
           else Inr event)
      | None \<Rightarrow>
          and_then (if test_flag (ev_flags event) EF_UNIQ_HEADERS
                    then switch_event_del_header event name else Inr (SWITCH_STATUS_SUCCESS, event))
            (\<lambda>(_, event).
              if index > - 1 \<and> index \<le> 4000
              then Inr (link_header event stack (redraw ((new_header name)\<lparr>eh_array := replicate (nat index) [] @ [data]\<rparr>)))
              else Inr event))"

text \<open>Running a call for each element of a list.\<close>

fun for_each :: "('a \<Rightarrow> 's \<Rightarrow> 's c_result) \<Rightarrow> 'a list \<Rightarrow> 's \<Rightarrow> 's c_result" where
  "for_each f [] s = Inr s"
| "for_each f (x # xs) s = and_then (f x s) (for_each f xs)"

lemma for_each_cong [fundef_cong]:
  assumes "xs = ys" and "s = t" and "\<And>x s. x \<in> set ys \<Longrightarrow> f x s = g x s"
  shows "for_each f xs s = for_each g ys t"
  using assms
proof (induction ys arbitrary: xs s t)
  case (Cons y ys)
  then have "for_each f ys u = for_each g ys u" for u by simp
  then have "for_each f ys = for_each g ys" ..
  with Cons.prems show ?case by simp
qed simp

text \<open>The parts of a drawn array: the delimiters are counted first, then the text is separated into
  one part more.\<close>

function delim_count :: "string \<Rightarrow> nat" where
  "delim_count p = (case strstr p ''|:'' of None \<Rightarrow> 0 | Some i \<Rightarrow> Suc (delim_count (drop (i + 2) p)))"
  by pat_completeness auto
termination
proof (relation "measure length", goal_cases)
  case (2 p i)
  then have "i + 2 \<le> length p" using strstr_bound [of p "''|:''" i] by simp
  then show ?case by simp
qed simp

declare delim_count.simps [simp del]

definition array_parts :: "string \<Rightarrow> string list" where
  "array_parts val =
     switch_separate_string_string (drop 7 val) ''|:'' (delim_count (drop 7 val) + 1)"

lemma separate_parts_length:
  "p \<in> set (switch_separate_string_string s d n) \<Longrightarrow> length p \<le> length s"
proof -
  have "p \<in> set (rec_nat (\<lambda>s. [s]) (\<lambda>_ sep s. case strstr s d of
      None \<Rightarrow> [s] | Some i \<Rightarrow> take i s # sep (drop (i + length d) s)) m s) \<Longrightarrow> length p \<le> length s" for m
    by (induction m arbitrary: s) (fastforce split: option.splits)+
  then show "p \<in> set (switch_separate_string_string s d n) \<Longrightarrow> length p \<le> length s"
    by (simp add: switch_separate_string_string_def)
qed

text \<open>\<^verbatim>\<open>switch_event_base_add_header\<close>; its call of \<^verbatim>\<open>switch_event_add_array\<close> comes back to it for every
  part, which is shorter than \<open>data\<close>.\<close>

function switch_event_base_add_header :: "switch_event \<Rightarrow> uint32_t \<Rightarrow> string \<Rightarrow> string \<Rightarrow> switch_event c_result" where
  "switch_event_base_add_header event stack header_name data =
     (let event = (if header_name = ''_body'' then switch_event_set_body event (Some data) else event)
      in case split_index header_name of
           (name, Some index) \<Rightarrow> set_element event stack name index data
         | (name, None) \<Rightarrow>
             (let push = (test_flag stack SWITCH_STACK_PUSH \<or> test_flag stack SWITCH_STACK_UNSHIFT)
              in case (if push then switch_event_get_header_ptr event (Some name) else None) of
                   Some i \<Rightarrow>
                     Inr (event\<lparr>ev_headers := (ev_headers event)[i := push_data stack data (ev_headers event ! i)]\<rparr>)
                 | None \<Rightarrow>
                     if data = [] then
                       and_then (switch_event_del_header event name) (\<lambda>(_, event). Inr event)
                     else
                       and_then (if test_flag (ev_flags event) EF_UNIQ_HEADERS
                                 then switch_event_del_header event name else Inr (SWITCH_STATUS_SUCCESS, event))
                         (\<lambda>(_, event).
                           if starts_with ''ARRAY::'' data then
                             (if length data < 8 then Inr event
                              else for_each (\<lambda>part event. switch_event_base_add_header event SWITCH_STACK_PUSH name part)
                                     (array_parts data) event)
                           else if push then Inr (link_header event stack (push_data stack data (new_header name)))
                           else Inr (link_header event stack ((new_header name)\<lparr>eh_value := Some data\<rparr>)))))"
  by pat_completeness auto
termination
proof (relation "measure (\<lambda>(event, stack, header_name, data). length data)", goal_cases)
  case 1
  show ?case by simp
next
  case (2 event stack header_name data)
  then show ?case
    using separate_parts_length [of _ "drop 7 data" "''|:''" "delim_count (drop 7 data) + 1"]
    by (fastforce simp: array_parts_def)
qed

declare switch_event_base_add_header.simps [simp del]

text \<open>\<^verbatim>\<open>switch_event_add_header\<close> formats its data first; \<open>None\<close> is a failed allocation there.\<close>

definition switch_event_add_header ::
  "switch_event \<Rightarrow> uint32_t \<Rightarrow> string \<Rightarrow> string option \<Rightarrow> (switch_status_t \<times> switch_event) c_result" where
  "switch_event_add_header event stack header_name formatted =
     (case formatted of
        None \<Rightarrow> Inr (SWITCH_STATUS_MEMERR, event)
      | Some data \<Rightarrow> and_then (switch_event_base_add_header event stack header_name data)
                       (\<lambda>event. Inr (SWITCH_STATUS_SUCCESS, event)))"

definition switch_event_add_header_string ::
  "switch_event \<Rightarrow> uint32_t \<Rightarrow> string \<Rightarrow> string option \<Rightarrow> (switch_status_t \<times> switch_event) c_result" where
  "switch_event_add_header_string event stack header_name data =
     (case data of
        Some data \<Rightarrow> and_then (switch_event_base_add_header event stack header_name data)
                       (\<lambda>event. Inr (SWITCH_STATUS_SUCCESS, event))
      | None \<Rightarrow> Inr (SWITCH_STATUS_GENERR, event))"

text \<open>The same call where the code ignores its status.\<close>

definition add_string :: "uint32_t \<Rightarrow> string \<Rightarrow> string option \<Rightarrow> switch_event \<Rightarrow> switch_event c_result" where
  "add_string stack header_name data event =
     and_then (switch_event_add_header_string event stack header_name data) (\<lambda>(_, event). Inr event)"

definition switch_event_set_priority ::
  "switch_event \<Rightarrow> switch_priority_t \<Rightarrow> (switch_status_t \<times> switch_event) c_result" where
  "switch_event_set_priority event priority =
     and_then (add_string SWITCH_STACK_TOP ''priority'' (Some (switch_priority_name priority))
                 (event\<lparr>ev_priority := priority\<rparr>))
       (\<lambda>event. Inr (SWITCH_STATUS_SUCCESS, event))"

definition switch_event_set_subclass_name ::
  "switch_event option \<Rightarrow> string option \<Rightarrow> (switch_status_t \<times> switch_event option) c_result" where
  "switch_event_set_subclass_name event subclass_name =
     (case (event, subclass_name) of
        (Some e, Some s) \<Rightarrow>
          and_then (switch_event_del_header (e\<lparr>ev_subclass_name := Some s\<rparr>) ''Event-Subclass'') (\<lambda>(_, e).
          and_then (add_string SWITCH_STACK_BOTTOM ''Event-Subclass'' (ev_subclass_name e) e) (\<lambda>e.
          Inr (SWITCH_STATUS_SUCCESS, Some e)))
      | _ \<Rightarrow> Inr (SWITCH_STATUS_GENERR, event))"

section \<open>Creating, copying and merging\<close>

text \<open>What an event for delivery is stamped with: names, addresses, dates and counters as strings.\<close>

record delivery_env =
  de_uuid :: "string option"
  de_hostname :: "string option"
  de_switchname :: "string option"
  de_ipv4 :: string
  de_ipv6 :: string
  de_date_local :: string
  de_date_gmt :: string
  de_timestamp :: string
  de_file :: "string option"
  de_func :: "string option"
  de_line :: string
  de_sequence :: string

definition switch_event_prep_for_delivery_detailed :: "delivery_env \<Rightarrow> switch_event \<Rightarrow> switch_event c_result" where
  "switch_event_prep_for_delivery_detailed env event =
     and_then (switch_event_name (ev_event_id event)) (\<lambda>event_name.
       for_each (\<lambda>(name, v). add_string SWITCH_STACK_BOTTOM name v)
         [(''Event-Name'', Some event_name),
          (''Core-UUID'', de_uuid env),
          (''FreeSWITCH-Hostname'', de_hostname env),
          (''FreeSWITCH-Switchname'', de_switchname env),
          (''FreeSWITCH-IPv4'', Some (de_ipv4 env)),
          (''FreeSWITCH-IPv6'', Some (de_ipv6 env)),
          (''Event-Date-Local'', Some (de_date_local env)),
          (''Event-Date-GMT'', Some (de_date_gmt env)),
          (''Event-Date-Timestamp'', Some (de_timestamp env)),
          (''Event-Calling-File'', de_file env),
          (''Event-Calling-Function'', de_func env),
          (''Event-Calling-Line-Number'', Some (de_line env)),
          (''Event-Sequence'', Some (de_sequence env))]
         event)"

definition blank_event :: switch_event where
  "blank_event =
     \<lparr>ev_event_id = SWITCH_EVENT_CUSTOM, ev_priority = SWITCH_PRIORITY_NORMAL, ev_subclass_name = None,
      ev_headers = [], ev_last_header = None, ev_body = None, ev_bind_user_data = None,
      ev_event_user_data = None, ev_key = 0, ev_flags = 0\<rparr>"

definition switch_event_create_subclass_detailed ::
  "delivery_env \<Rightarrow> switch_event_types_t \<Rightarrow> string option \<Rightarrow> (switch_status_t \<times> switch_event option) c_result" where
  "switch_event_create_subclass_detailed env event_id subclass_name =
     (if event_id \<noteq> SWITCH_EVENT_CLONE \<and> event_id \<noteq> SWITCH_EVENT_CUSTOM \<and> subclass_name \<noteq> None
      then Inr (SWITCH_STATUS_GENERR, None)
      else
        (let event = blank_event;
             event = (if event_id = SWITCH_EVENT_REQUEST_PARAMS \<or> event_id = SWITCH_EVENT_CHANNEL_DATA \<or>
                         event_id = SWITCH_EVENT_MESSAGE
                      then event\<lparr>ev_flags := set_flag (ev_flags event) EF_UNIQ_HEADERS\<rparr> else event)
         in and_then
              (if event_id \<noteq> SWITCH_EVENT_CLONE
               then switch_event_prep_for_delivery_detailed env (event\<lparr>ev_event_id := event_id\<rparr>)
               else Inr event)
              (\<lambda>event.
                case subclass_name of
                  None \<Rightarrow> Inr (SWITCH_STATUS_SUCCESS, Some event)
                | Some s \<Rightarrow>
                    and_then (add_string SWITCH_STACK_BOTTOM ''Event-Subclass'' (Some s)
                                (event\<lparr>ev_subclass_name := Some s\<rparr>))
                      (\<lambda>event. Inr (SWITCH_STATUS_SUCCESS, Some event)))))"

definition switch_event_create_plain ::
  "delivery_env \<Rightarrow> switch_event_types_t \<Rightarrow> (switch_status_t \<times> switch_event option) c_result" where
  "switch_event_create_plain env event_id =
     and_then (switch_event_create_subclass_detailed env SWITCH_EVENT_CLONE None) (\<lambda>(status, event).
       Inr (status,
         map_option (\<lambda>e. if status \<noteq> SWITCH_STATUS_SUCCESS then e
             else (let e = e\<lparr>ev_event_id := event_id\<rparr> in
                   if event_id = SWITCH_EVENT_REQUEST_PARAMS \<or> event_id = SWITCH_EVENT_CHANNEL_DATA
                   then e\<lparr>ev_flags := set_flag (ev_flags e) EF_UNIQ_HEADERS\<rparr> else e)) event))"

text \<open>The loop body shared by merging and copying: the elements of an array are pushed one by one.\<close>

definition copy_header :: "string \<Rightarrow> switch_event_header \<Rightarrow> switch_event \<Rightarrow> switch_event c_result" where
  "copy_header name hp event =
     (if eh_array hp \<noteq> []
      then for_each (\<lambda>s. add_string SWITCH_STACK_PUSH name (Some s)) (eh_array hp) event
      else add_string SWITCH_STACK_BOTTOM name (eh_value hp) event)"

definition switch_event_merge :: "switch_event \<Rightarrow> switch_event \<Rightarrow> switch_event c_result" where
  "switch_event_merge event tomerge =
     for_each (\<lambda>hp. copy_header (eh_name hp) hp) (ev_headers tomerge) event"

text \<open>The header the constructor has already written for the subclass is left out.\<close>

definition copied_headers :: "switch_event \<Rightarrow> switch_event_header list" where
  "copied_headers todup =
     filter (\<lambda>hp. \<not> (ev_subclass_name todup \<noteq> None \<and> eh_name hp = ''Event-Subclass'')) (ev_headers todup)"

definition switch_event_dup :: "delivery_env \<Rightarrow> switch_event \<Rightarrow> (switch_status_t \<times> switch_event option) c_result" where
  "switch_event_dup env todup =
     and_then (switch_event_create_subclass_detailed env SWITCH_EVENT_CLONE (ev_subclass_name todup)) (\<lambda>(status, event).
       case event of
         None \<Rightarrow> Inr (SWITCH_STATUS_GENERR, None)
       | Some e \<Rightarrow>
           and_then (for_each (\<lambda>hp. copy_header (eh_name hp) hp) (copied_headers todup)
               (e\<lparr>ev_event_id := ev_event_id todup, ev_event_user_data := ev_event_user_data todup,
                  ev_bind_user_data := ev_bind_user_data todup, ev_flags := ev_flags todup\<rparr>))
             (\<lambda>e. Inr (SWITCH_STATUS_SUCCESS,
                Some (e\<lparr>ev_body := (case ev_body todup of None \<Rightarrow> ev_body e | Some b \<Rightarrow> Some b),
                        ev_key := ev_key todup\<rparr>))))"

definition starts_with_ci :: "string \<Rightarrow> string \<Rightarrow> bool" where
  "starts_with_ci p s \<longleftrightarrow> starts_with (map c_tolower p) (map c_tolower s)"

text \<open>The names of a reply; \<^verbatim>\<open>hname\<close> holds 1023 characters.\<close>

definition reply_name :: "string \<Rightarrow> string" where
  "reply_name name =
     (if starts_with_ci ''from_'' name then take 1023 (''to_'' @ drop 5 name)
      else if starts_with_ci ''to_'' name then take 1023 (''from_'' @ drop 3 name)
      else if strcasecmp_eq name ''to'' then ''from''
      else if strcasecmp_eq name ''from'' then ''to''
      else name)"

definition switch_event_dup_reply :: "delivery_env \<Rightarrow> switch_event \<Rightarrow> (switch_status_t \<times> switch_event option) c_result" where
  "switch_event_dup_reply env todup =
     and_then (switch_event_create_subclass_detailed env SWITCH_EVENT_CLONE (ev_subclass_name todup)) (\<lambda>(status, event).
       case event of
         None \<Rightarrow> Inr (SWITCH_STATUS_GENERR, None)
       | Some e \<Rightarrow>
           and_then (for_each (\<lambda>hp. copy_header (reply_name (eh_name hp)) hp) (copied_headers todup)
               (e\<lparr>ev_event_id := ev_event_id todup, ev_event_user_data := ev_event_user_data todup,
                  ev_bind_user_data := ev_bind_user_data todup, ev_flags := ev_flags todup\<rparr>)) (\<lambda>e.
           and_then (add_string SWITCH_STACK_BOTTOM ''replying'' (Some ''true'') e) (\<lambda>e.
           and_then (if ev_body todup \<noteq> None then add_string SWITCH_STACK_BOTTOM ''orig_body'' (ev_body todup) e
                     else Inr e) (\<lambda>e.
           Inr (SWITCH_STATUS_SUCCESS, Some (e\<lparr>ev_key := ev_key todup\<rparr>))))))"

definition switch_event_create_array_pair ::
  "delivery_env \<Rightarrow> string option list \<Rightarrow> string option list \<Rightarrow> (switch_status_t \<times> switch_event option) c_result" where
  "switch_event_create_array_pair env names vals =
     and_then (switch_event_create_subclass_detailed env SWITCH_EVENT_CLONE None) (\<lambda>(status, event).
       case event of
         None \<Rightarrow> Inl Null_Access
       | Some e \<Rightarrow>
           and_then (for_each (\<lambda>(name, val) e.
               add_string SWITCH_STACK_BOTTOM
                 (case name of None \<Rightarrow> ''Unknown'' | Some n \<Rightarrow> if n = [] then ''Unknown'' else n)
                 (Some (case val of None \<Rightarrow> [] | Some v \<Rightarrow> v)) e) (zip names vals) e)
             (\<lambda>e. Inr (SWITCH_STATUS_SUCCESS, Some e)))"

section \<open>Serialization\<close>

text \<open>\<^verbatim>\<open>switch_snprintf\<close> into a buffer of \<open>n\<close> cells keeps what fits before the terminator.\<close>

definition snprintf_keep :: "nat \<Rightarrow> string \<Rightarrow> string" where
  "snprintf_keep n s = take (n - 1) s"

function show_nat :: "nat \<Rightarrow> string" where
  "show_nat n = (if n < 10 then [char_of (48 + n)] else show_nat (n div 10) @ [char_of (48 + n mod 10)])"
  by pat_completeness auto
termination by (relation "measure id") auto

declare show_nat.simps [simp del]

definition show_int :: "int \<Rightarrow> string" where
  "show_int n = (if n < 0 then CHR ''-'' # show_nat (nat (- n)) else show_nat (nat n))"

abbreviation newline :: string where "newline \<equiv> [CHR 0x0A]"

text \<open>The state of the loop: the text in \<^verbatim>\<open>buf\<close>, its allocation \<^verbatim>\<open>dlen\<close>, and the allocation \<^verbatim>\<open>encode_len\<close>
  of the buffer for one value. All sizes are of type \<^verbatim>\<open>size_t\<close> and wrap around. A print behind the text is limited to \<^verbatim>\<open>dlen - len\<close> bytes,
  which is no limit when a wrapped \<^verbatim>\<open>dlen\<close> is smaller than \<^verbatim>\<open>len\<close>; a text that then has no room for its terminator in the allocation is a
  fault.\<close>

record serial_state =
  ss_text :: string
  ss_dlen :: nat
  ss_encode_len :: nat

definition grown_dlen :: "nat \<Rightarrow> nat \<Rightarrow> nat \<Rightarrow> nat" where
  "grown_dlen dlen len llen = (if size_add len llen > dlen then size_add dlen (size_add 512 (size_add len llen)) else dlen)"

definition print_behind :: "string \<Rightarrow> nat \<Rightarrow> string \<Rightarrow> string c_result" where
  "print_behind buf dlen s =
     (let buf = buf @ snprintf_keep (size_sub dlen (length buf)) s in if length buf < dlen then Inr buf else Inl Out_Of_Bounds)"

fun array_space :: "string list \<Rightarrow> nat \<Rightarrow> nat" where
  "array_space [] new_len = new_len"
| "array_space (s # ss) new_len = array_space ss (size_add new_len ((length s * 3 + 1) mod size_mod))"

definition serialize_header :: "bool \<Rightarrow> switch_event_header \<Rightarrow> serial_state \<Rightarrow> serial_state c_result" where
  "serialize_header encode hp st =
     (case eh_value hp of
        None \<Rightarrow> Inl Null_Access
      | Some v \<Rightarrow>
          (let new_len = (if eh_array hp \<noteq> [] then array_space (eh_array hp) 0 else (length v * 3 + 1) mod size_mod);
               encode_len = (if ss_encode_len st < new_len then new_len else ss_encode_len st)
           in and_then
                (if encode then and_then (switch_url_encode (Some v) (Some encode_len))
                     (\<lambda>r. case r of None \<Rightarrow> Inl Null_Access | Some s \<Rightarrow> Inr s)
                 else Inr (snprintf_keep encode_len (''['' @ v @ '']'')))
                (\<lambda>enc.
                  let dlen = grown_dlen (ss_dlen st) (length (ss_text st)) ((length (eh_name hp) + length enc + 8) mod size_mod)
                  in and_then (print_behind (ss_text st) dlen (eh_name hp @ '': '' @ (if enc = [] then ''_undef_'' else enc) @ newline))
                       (\<lambda>buf. Inr \<lparr>ss_text = buf, ss_dlen = dlen, ss_encode_len = encode_len\<rparr>))))"

definition switch_event_serialize :: "switch_event \<Rightarrow> bool \<Rightarrow> (switch_status_t \<times> string) c_result" where
  "switch_event_serialize event encode =
     and_then (for_each (serialize_header encode) (ev_headers event)
                 \<lparr>ss_text = [], ss_dlen = 1024, ss_encode_len = 1536\<rparr>)
       (\<lambda>st.
         and_then
           (case ev_body event of
              None \<Rightarrow> print_behind (ss_text st) (ss_dlen st) newline
            | Some body \<Rightarrow>
                (let blen = (of_nat (length body) :: uint32_t);
                     dlen = grown_dlen (ss_dlen st) (length (ss_text st)) (size_add (unat blen) (if blen \<noteq> 0 then 25 else 5))
                 in print_behind (ss_text st) dlen
                      (if blen \<noteq> 0 then ''Content-Length: '' @ show_int (sint blen) @ newline @ newline @ body
                       else newline)))
           (\<lambda>buf. Inr (SWITCH_STATUS_SUCCESS, buf)))"

section \<open>Well-formed events\<close>

definition same_name :: "string \<Rightarrow> switch_event_header \<Rightarrow> bool" where
  "same_name name h \<longleftrightarrow> strcasecmp_eq (eh_name h) name"

definition tail_of :: "'a list \<Rightarrow> nat option" where
  "tail_of hs = (if hs = [] then None else Some (length hs - 1))"

definition header_ok :: "switch_event_header \<Rightarrow> bool" where
  "header_ok h \<longleftrightarrow> eh_hash h = switch_ci_hashfunc_default (eh_name h) \<and> eh_value h \<noteq> None"

definition ev_inv :: "switch_event \<Rightarrow> bool" where
  "ev_inv e \<longleftrightarrow> ev_last_header e = tail_of (ev_headers e) \<and> (\<forall>h\<in>set (ev_headers e). header_ok h)"

definition has_header :: "switch_event \<Rightarrow> string \<Rightarrow> bool" where
  "has_header e name \<longleftrightarrow> (\<exists>h\<in>set (ev_headers e). same_name name h)"

definition uniq_names :: "switch_event \<Rightarrow> bool" where
  "uniq_names e \<longleftrightarrow> distinct (map (\<lambda>h. map c_tolower (eh_name h)) (ev_headers e))"

lemma ci_hash_map: "switch_ci_hashfunc_default s = foldl (\<lambda>h c. h * 33 + of_char c) 0 (map c_tolower s)"
proof -
  have "foldl (\<lambda>h c. h * 33 + of_char (c_tolower c)) a s = foldl (\<lambda>h c. h * 33 + of_char c) a (map c_tolower s)" for a :: uint32_t
    by (induction s arbitrary: a) simp_all
  then show ?thesis by (simp add: switch_ci_hashfunc_default_def)
qed

lemma ci_hash_cong: "strcasecmp_eq a b \<Longrightarrow> switch_ci_hashfunc_default a = switch_ci_hashfunc_default b"
  by (simp add: ci_hash_map strcasecmp_eq_def)

text \<open>The stored hash decides nothing that the names do not decide.\<close>

lemma header_matches_iff:
  "header_ok h \<Longrightarrow> header_matches (switch_ci_hashfunc_default name) name h \<longleftrightarrow> same_name name h"
  using ci_hash_cong [of "eh_name h" name] by (auto simp: header_matches_def header_ok_def same_name_def)

lemma same_name_iff: "same_name name h \<longleftrightarrow> map c_tolower (eh_name h) = map c_tolower name"
  by (simp add: same_name_def strcasecmp_eq_def)

lemma find_header_None:
  "find_header hash name i hs = None \<longleftrightarrow> (\<forall>h\<in>set hs. \<not> header_matches hash name h)"
  by (induction hs arbitrary: i) auto

lemma find_header_Some:
  "find_header hash name i hs = Some j \<Longrightarrow>
   i \<le> j \<and> j - i < length hs \<and> header_matches hash name (hs ! (j - i)) \<and>
   (\<forall>k<j - i. \<not> header_matches hash name (hs ! k))"
proof (induction hs arbitrary: i)
  case (Cons h hs)
  show ?case
  proof (cases "header_matches hash name h")
    case False
    then have "Suc i \<le> j \<and> j - Suc i < length hs \<and> header_matches hash name (hs ! (j - Suc i)) \<and>
        (\<forall>k<j - Suc i. \<not> header_matches hash name (hs ! k))"
      using Cons by simp
    moreover from this have "j - i = Suc (j - Suc i)" by linarith
    ultimately show ?thesis using False by (auto simp: less_Suc_eq_0_disj nth_Cons')
  qed (use Cons.prems in auto)
qed simp

lemma get_ptr_None:
  "ev_inv e \<Longrightarrow> switch_event_get_header_ptr e (Some name) = None \<longleftrightarrow> \<not> has_header e name"
  by (auto simp: switch_event_get_header_ptr_def find_header_None has_header_def ev_inv_def header_matches_iff)

lemma get_ptr_Some:
  assumes "ev_inv e" and "switch_event_get_header_ptr e (Some name) = Some i"
  shows "i < length (ev_headers e)" and "same_name name (ev_headers e ! i)"
    and "\<And>k. k < i \<Longrightarrow> \<not> same_name name (ev_headers e ! k)"
proof -
  have *: "i < length (ev_headers e)"
    "header_matches (switch_ci_hashfunc_default name) name (ev_headers e ! i)"
    "\<forall>k<i. \<not> header_matches (switch_ci_hashfunc_default name) name (ev_headers e ! k)"
    using find_header_Some [of _ name 0 "ev_headers e" i] assms(2)
    by (simp_all add: switch_event_get_header_ptr_def)
  have ok: "k < length (ev_headers e) \<Longrightarrow> header_ok (ev_headers e ! k)" for k
    using assms(1) by (simp add: ev_inv_def)
  show "i < length (ev_headers e)" by (rule *)
  then show "same_name name (ev_headers e ! i)" using * ok header_matches_iff by blast
  show "\<not> same_name name (ev_headers e ! k)" if "k < i" for k
    using that * ok [of k] header_matches_iff by force
qed

lemma get_ptr_first:
  assumes "ev_inv e" and "i < length (ev_headers e)" and "same_name name (ev_headers e ! i)"
    and "\<And>k. k < i \<Longrightarrow> \<not> same_name name (ev_headers e ! k)"
  shows "switch_event_get_header_ptr e (Some name) = Some i"
proof -
  obtain k where k: "switch_event_get_header_ptr e (Some name) = Some k"
    using get_ptr_None [OF assms(1), of name] assms(2,3)
    by (cases "switch_event_get_header_ptr e (Some name)") (auto simp: has_header_def)
  have "k = i"
    using get_ptr_Some [OF assms(1) k] assms(3,4) by (metis linorder_neqE_nat)
  with k show ?thesis by simp
qed

lemma tail_of_snoc [simp]: "tail_of (xs @ [x]) = Some (length xs)"
  by (simp add: tail_of_def)

section \<open>What deleting does\<close>

lemma del_loop_spec:
  assumes ok: "\<forall>h\<in>set hs. header_ok h"
    and D: "\<And>h. D h \<longleftrightarrow> same_name name h \<and> (val = None \<or> val = Some [] \<or> eh_value h = val)"
  shows "x + length hs < 1000000 \<Longrightarrow> lasth = tail_of (kept @ hs) \<Longrightarrow>
    del_header_loop (switch_ci_hashfunc_default name) name val x kept hs lasth status =
      Inr (if list_ex D hs then SWITCH_STATUS_SUCCESS else status,
           kept @ filter (\<lambda>h. \<not> D h) hs, tail_of (kept @ filter (\<lambda>h. \<not> D h) hs))"
  using ok
proof (induction hs arbitrary: x kept lasth status)
  case (Cons h hs)
  have h: "header_ok h" using Cons.prems by simp
  have v: "(if header_matches (switch_ci_hashfunc_default name) name h then value_matches val h else Inr False) = Inr (D h)"
    using h by (auto simp: header_matches_iff [OF h] D value_matches_def header_ok_def split: option.splits)
  show ?case
  proof (cases "D h")
    case True
    have l: "(if lasth = Some (length kept) \<or> hs = [] then if kept = [] then None else Some (length kept - 1)
        else map_option (\<lambda>i. if i > length kept then i - 1 else i) lasth) = tail_of (kept @ hs)"
      using Cons.prems by (auto simp: tail_of_def)
    have "del_header_loop (switch_ci_hashfunc_default name) name val x kept (h # hs) lasth status =
        del_header_loop (switch_ci_hashfunc_default name) name val (x + 1) kept hs (tail_of (kept @ hs)) SWITCH_STATUS_SUCCESS"
      unfolding del_header_loop.simps(2) v and_then_simps Let_def l using True Cons.prems(1) by simp
    then show ?thesis using Cons.prems True by (simp add: Cons.IH)
  next
    case False
    then show ?thesis using Cons.prems by (simp add: v Cons.IH)
  qed
qed simp

lemma del_header_spec:
  assumes "ev_inv e" and "length (ev_headers e) < 1000000"
  shows "\<exists>st. switch_event_del_header e name =
    Inr (st, e\<lparr>ev_headers := filter (\<lambda>h. \<not> same_name name h) (ev_headers e),
               ev_last_header := tail_of (filter (\<lambda>h. \<not> same_name name h) (ev_headers e))\<rparr>)"
  using assms del_loop_spec [of "ev_headers e" "same_name name" name None 0 "ev_last_header e" "[]" SWITCH_STATUS_FALSE]
  by (simp add: switch_event_del_header_def switch_event_del_header_val_def ev_inv_def)

definition drop_header :: "string \<Rightarrow> switch_event \<Rightarrow> switch_event" where
  "drop_header name e =
     e\<lparr>ev_headers := filter (\<lambda>h. \<not> same_name name h) (ev_headers e),
       ev_last_header := tail_of (filter (\<lambda>h. \<not> same_name name h) (ev_headers e))\<rparr>"

lemma del_header_drop:
  assumes "ev_inv e" and "length (ev_headers e) < 1000000"
  shows "\<exists>st. switch_event_del_header e name = Inr (st, drop_header name e)"
  using del_header_spec [OF assms] by (simp add: drop_header_def)

lemma drop_header_simps [simp]:
  "ev_inv e \<Longrightarrow> ev_inv (drop_header name e)"
  "\<not> has_header (drop_header name e) name"
  "ev_flags (drop_header name e) = ev_flags e"
  "ev_body (drop_header name e) = ev_body e"
  "length (ev_headers (drop_header name e)) \<le> length (ev_headers e)"
  "uniq_names e \<Longrightarrow> uniq_names (drop_header name e)"
  by (auto simp: drop_header_def ev_inv_def has_header_def uniq_names_def distinct_map_filter)

lemma drop_header_absent: "ev_inv e \<Longrightarrow> \<not> has_header e name \<Longrightarrow> drop_header name e = e"
proof -
  assume "ev_inv e" and "\<not> has_header e name"
  then have "filter (\<lambda>h. \<not> same_name name h) (ev_headers e) = ev_headers e"
    by (simp add: has_header_def filter_id_conv)
  with \<open>ev_inv e\<close> show ?thesis by (simp add: drop_header_def ev_inv_def)
qed

section \<open>What adding does\<close>

definition stamped :: "switch_event_header \<Rightarrow> switch_event_header" where
  "stamped h = h\<lparr>eh_hash := switch_ci_hashfunc_default (eh_name h)\<rparr>"

definition linked :: "uint32_t \<Rightarrow> switch_event_header \<Rightarrow> switch_event_header list \<Rightarrow> switch_event_header list" where
  "linked stack h hs = (if test_flag stack SWITCH_STACK_TOP then stamped h # hs else hs @ [stamped h])"

lemma link_header_eq:
  "ev_inv e \<Longrightarrow> link_header e stack h =
     e\<lparr>ev_headers := linked stack h (ev_headers e), ev_last_header := tail_of (linked stack h (ev_headers e))\<rparr>"
  by (auto simp: link_header_def ev_inv_def tail_of_def linked_def stamped_def Let_def)

lemma link_header_ok:
  assumes "ev_inv e" and "eh_value h \<noteq> None"
  shows "ev_inv (link_header e stack h)" and "ev_headers (link_header e stack h) = linked stack h (ev_headers e)"
    and "ev_flags (link_header e stack h) = ev_flags e" and "has_header (link_header e stack h) (eh_name h)"
    and "uniq_names e \<Longrightarrow> \<not> has_header e (eh_name h) \<Longrightarrow> uniq_names (link_header e stack h)"
  using assms
  by (auto simp: link_header_eq) (auto simp: ev_inv_def linked_def stamped_def header_ok_def has_header_def
      uniq_names_def same_name_iff)

lemma set_header_ok:
  assumes "ev_inv e" and "i < length (ev_headers e)" and "header_ok h" and "eh_name h = eh_name (ev_headers e ! i)"
  shows "ev_inv (e\<lparr>ev_headers := (ev_headers e)[i := h]\<rparr>)"
    and "has_header (e\<lparr>ev_headers := (ev_headers e)[i := h]\<rparr>) name \<longleftrightarrow> has_header e name"
    and "uniq_names e \<Longrightarrow> uniq_names (e\<lparr>ev_headers := (ev_headers e)[i := h]\<rparr>)"
proof -
  show "ev_inv (e\<lparr>ev_headers := (ev_headers e)[i := h]\<rparr>)"
    using assms by (auto simp: ev_inv_def tail_of_def dest!: set_update_subset_insert [THEN subsetD])
  have names: "map eh_name ((ev_headers e)[i := h]) = map eh_name (ev_headers e)"
    using assms(2,4) by (simp add: map_update list_update_same_conv)
  have *: "has_header f name \<longleftrightarrow> (\<exists>n\<in>set (map eh_name (ev_headers f)). strcasecmp_eq n name)" for f
    by (simp add: has_header_def same_name_def)
  show "has_header (e\<lparr>ev_headers := (ev_headers e)[i := h]\<rparr>) name \<longleftrightarrow> has_header e name"
    unfolding * using names by simp
  have **: "uniq_names f \<longleftrightarrow> distinct (map (map c_tolower) (map eh_name (ev_headers f)))" for f
    by (simp add: uniq_names_def comp_def)
  show "uniq_names e \<Longrightarrow> uniq_names (e\<lparr>ev_headers := (ev_headers e)[i := h]\<rparr>)"
    unfolding ** using names by simp
qed

lemma redraw_simps [simp]:
  "eh_name (redraw h) = eh_name h" "eh_hash (redraw h) = eh_hash h" "eh_array (redraw h) = eh_array h"
  "eh_array h \<noteq> [] \<Longrightarrow> eh_value (redraw h) = Some (array_value (eh_array h))"
  by (auto simp: redraw_def)

lemma push_data_simps [simp]:
  "eh_name (push_data stack d h) = eh_name h" "eh_hash (push_data stack d h) = eh_hash h"
  "eh_value (push_data stack d h) = Some (array_value (eh_array (push_data stack d h)))"
  by (auto simp: push_data_def Let_def split: option.splits)

lemma header_ok_push: "header_ok h \<Longrightarrow> header_ok (push_data stack d h)"
  by (simp add: header_ok_def)

lemma split_index_None: "split_index s = (n, None) \<Longrightarrow> n = s"
  by (auto simp: split_index_def split: list.splits)

lemma split_index_plain: "CHR ''['' \<notin> set s \<Longrightarrow> split_index s = (s, None)"
proof -
  assume "CHR ''['' \<notin> set s"
  then have "dropWhile (\<lambda>c. c \<noteq> CHR ''['') s = []" by (auto simp: dropWhile_eq_Nil_conv)
  then show ?thesis by (simp only: split_index_def list.case)
qed

lemma new_header_simps [simp]:
  "eh_name (new_header n) = n" "eh_array (new_header n) = []" "eh_value (new_header n) = None"
  by (simp_all add: new_header_def)

text \<open>Well-formedness, uniqueness of names and the number of headers across an addition.\<close>

definition add_effect :: "switch_event \<Rightarrow> string \<Rightarrow> bool \<Rightarrow> switch_event \<Rightarrow> bool" where
  "add_effect e n push e' \<longleftrightarrow>
     ev_inv e' \<and> ev_flags e' = ev_flags e \<and> length (ev_headers e') \<le> length (ev_headers e) + 1 \<and>
     (test_flag (ev_flags e) EF_UNIQ_HEADERS \<longrightarrow> uniq_names e \<longrightarrow> uniq_names e') \<and>
     (push \<longrightarrow> (has_header e n \<longrightarrow> has_header e' n \<and> length (ev_headers e') = length (ev_headers e)) \<and>
       (\<not> has_header e' n \<longrightarrow> length (ev_headers e') \<le> length (ev_headers e)))"

lemma add_effect_refl: "ev_inv e \<Longrightarrow> add_effect e n push e"
  by (simp add: add_effect_def)

lemma add_effect_set:
  assumes "ev_inv e" "i < length (ev_headers e)" "header_ok h" "eh_name h = eh_name (ev_headers e ! i)"
  shows "add_effect e n push (e\<lparr>ev_headers := (ev_headers e)[i := h]\<rparr>)"
  using set_header_ok [OF assms] by (simp add: add_effect_def)

lemma add_effect_drop: "ev_inv e \<Longrightarrow> \<not> (push \<and> has_header e n) \<Longrightarrow> add_effect e n push (drop_header n e)"
  using drop_header_absent [of e n] by (auto simp: add_effect_def le_SucI)

lemma add_effect_link:
  assumes "ev_inv e" "ev_inv f" "f = e \<or> f = drop_header n e" "eh_value h \<noteq> None" "eh_name h = n"
    and "\<not> (push \<and> has_header e n)" "test_flag (ev_flags e) EF_UNIQ_HEADERS \<Longrightarrow> \<not> has_header f n"
  shows "add_effect e n push (link_header f stack h)"
proof -
  have "ev_flags f = ev_flags e" "length (ev_headers f) \<le> length (ev_headers e)" "uniq_names e \<Longrightarrow> uniq_names f"
    using assms(3) by auto
  with link_header_ok [OF assms(2,4), of stack] assms show ?thesis
    by (auto simp: add_effect_def linked_def)
qed

text \<open>The first step of an addition to a list of headers that may keep names unique.\<close>

lemma uniq_step:
  assumes "ev_inv e" and "length (ev_headers e) < 1000000"
  shows "\<exists>st f. (if test_flag (ev_flags e) EF_UNIQ_HEADERS then switch_event_del_header e n
      else Inr (SWITCH_STATUS_SUCCESS, e)) = Inr (st, f) \<and>
    f = (if test_flag (ev_flags e) EF_UNIQ_HEADERS then drop_header n e else e)"
  using del_header_drop [OF assms, of n] by auto

lemma set_element_ok:
  assumes "ev_inv e" and "length (ev_headers e) < 1000000"
  shows "\<exists>e'. set_element e stack n index data = Inr e' \<and> add_effect e n False e'"
proof (cases "switch_event_get_header_ptr e (Some n)")
  case (Some i)
  note i = get_ptr_Some [OF assms(1) Some]
  let ?h = "ev_headers e ! i"
  have h: "header_ok ?h" using assms(1) i(1) by (simp add: ev_inv_def)
  have 1: "header_ok (?h\<lparr>eh_array := a\<rparr>)" and 2: "a \<noteq> [] \<Longrightarrow> header_ok (redraw (?h\<lparr>eh_array := a\<rparr>))" for a
    using h by (simp_all add: header_ok_def)
  show ?thesis
    using Some add_effect_set [OF assms(1) i(1) 1, of _ n False] add_effect_set [OF assms(1) i(1) 2, of _ n False]
      add_effect_refl [OF assms(1)]
    by (auto simp: set_element_def Let_def)
next
  case None
  then have no: "\<not> has_header e n" using assms(1) get_ptr_None by blast
  obtain st f where f: "(if test_flag (ev_flags e) EF_UNIQ_HEADERS then switch_event_del_header e n
      else Inr (SWITCH_STATUS_SUCCESS, e)) = Inr (st, f)"
      "f = (if test_flag (ev_flags e) EF_UNIQ_HEADERS then drop_header n e else e)"
    using uniq_step [OF assms] by blast
  have "f = e" using f(2) drop_header_absent [OF assms(1) no] by simp
  then show ?thesis
    using None f(1) no assms(1) add_effect_refl [OF assms(1)]
      add_effect_link [OF assms(1) assms(1), of n _ False stack]
    by (auto simp: set_element_def)
qed

lemma for_each_push:
  assumes step: "\<And>p e. p \<in> set ps \<Longrightarrow> ev_inv e \<Longrightarrow> has_header e n \<or> length (ev_headers e) < 1000000 \<Longrightarrow>
      \<exists>e'. f p e = Inr e' \<and> add_effect e n True e'"
  shows "ev_inv e \<Longrightarrow> has_header e n \<or> length (ev_headers e) < 1000000 \<Longrightarrow>
    \<exists>e'. for_each f ps e = Inr e' \<and> add_effect e n True e'"
  using step
proof (induction ps arbitrary: e)
  case (Cons p ps)
  obtain e1 where e1: "f p e = Inr e1" "add_effect e n True e1" using Cons.prems by fastforce
  then have "ev_inv e1" "has_header e1 n \<or> length (ev_headers e1) < 1000000"
    using Cons.prems(2) by (auto simp: add_effect_def)
  then obtain e2 where e2: "for_each f ps e1 = Inr e2" "add_effect e1 n True e2"
    using Cons.IH [of e1] Cons.prems(3) by fastforce
  have "add_effect e n True e2"
    using e1(2) e2(2) unfolding add_effect_def by (cases "has_header e1 n") auto
  then show ?case using e1(1) e2(1) by simp
qed (simp add: add_effect_refl)

definition pushes :: "uint32_t \<Rightarrow> bool" where
  "pushes stack \<longleftrightarrow> test_flag stack SWITCH_STACK_PUSH \<or> test_flag stack SWITCH_STACK_UNSHIFT"

lemma pushes_simps [simp]:
  "pushes SWITCH_STACK_PUSH" "pushes SWITCH_STACK_UNSHIFT" "\<not> pushes SWITCH_STACK_BOTTOM" "\<not> pushes SWITCH_STACK_TOP"
  "\<not> test_flag SWITCH_STACK_BOTTOM SWITCH_STACK_TOP" "test_flag SWITCH_STACK_TOP SWITCH_STACK_TOP"
  "\<not> test_flag SWITCH_STACK_PUSH SWITCH_STACK_TOP" "test_flag SWITCH_STACK_PUSH SWITCH_STACK_PUSH"
  by (simp_all add: pushes_def test_flag_def stack_defs)

definition with_body :: "string \<Rightarrow> string \<Rightarrow> switch_event \<Rightarrow> switch_event" where
  "with_body name data e = (if name = ''_body'' then switch_event_set_body e (Some data) else e)"

lemma with_body_simps [simp]:
  "ev_headers (with_body name data e) = ev_headers e" "ev_flags (with_body name data e) = ev_flags e"
  "ev_inv (with_body name data e) \<longleftrightarrow> ev_inv e" "has_header (with_body name data e) n \<longleftrightarrow> has_header e n"
  "uniq_names (with_body name data e) \<longleftrightarrow> uniq_names e"
  "name \<noteq> ''_body'' \<Longrightarrow> with_body name data e = e"
  by (simp_all add: with_body_def switch_event_set_body_def ev_inv_def has_header_def uniq_names_def)

lemma add_effect_with_body [simp]: "add_effect (with_body name data e) n push e' \<longleftrightarrow> add_effect e n push e'"
  by (simp add: add_effect_def)

text \<open>The branches of \<^verbatim>\<open>switch_event_base_add_header\<close>.\<close>

lemma base_add_index:
  "split_index name = (n, Some index) \<Longrightarrow>
   switch_event_base_add_header e stack name data = set_element (with_body name data e) stack n index data"
  by (subst switch_event_base_add_header.simps) (simp add: with_body_def)

lemma base_add_push:
  "split_index name = (n, None) \<Longrightarrow> pushes stack \<Longrightarrow>
   switch_event_get_header_ptr (with_body name data e) (Some n) = Some i \<Longrightarrow>
   switch_event_base_add_header e stack name data =
     Inr ((with_body name data e)\<lparr>ev_headers := (ev_headers e)[i := push_data stack data (ev_headers e ! i)]\<rparr>)"
  using with_body_simps(1) [of name data e]
  by (subst switch_event_base_add_header.simps) (simp add: with_body_def pushes_def)

lemma base_add_new:
  assumes "split_index name = (n, None)"
    and "pushes stack \<Longrightarrow> switch_event_get_header_ptr (with_body name data e) (Some n) = None"
  shows "switch_event_base_add_header e stack name data =
    (if data = [] then and_then (switch_event_del_header (with_body name data e) n) (\<lambda>(_, e). Inr e)
     else and_then (if test_flag (ev_flags e) EF_UNIQ_HEADERS then switch_event_del_header (with_body name data e) n
                    else Inr (SWITCH_STATUS_SUCCESS, with_body name data e))
       (\<lambda>(_, e). if starts_with ''ARRAY::'' data
          then if length data < 8 then Inr e
               else for_each (\<lambda>p e. switch_event_base_add_header e SWITCH_STACK_PUSH n p) (array_parts data) e
          else if pushes stack then Inr (link_header e stack (push_data stack data (new_header n)))
          else Inr (link_header e stack ((new_header n)\<lparr>eh_value := Some data\<rparr>))))"
proof -
  let ?e = "with_body name data e"
  have "(if pushes stack then switch_event_get_header_ptr ?e (Some n) else None) = None"
    using assms(2) by simp
  then show ?thesis
    unfolding switch_event_base_add_header.simps [of e stack name data] Let_def assms(1) prod.case option.case
      with_body_def [symmetric] pushes_def [symmetric]
    by (simp only: option.case with_body_simps)
qed

lemma array_parts_shorter: "p \<in> set (array_parts data) \<Longrightarrow> \<not> length data < 8 \<Longrightarrow> length p < length data"
  using separate_parts_length [of p "drop 7 data"] by (fastforce simp: array_parts_def)

lemma add_parts_ok:
  assumes IH: "\<And>p g. length p < length data \<Longrightarrow> ev_inv g \<Longrightarrow> has_header g name \<or> length (ev_headers g) < 1000000 \<Longrightarrow>
      \<exists>e'. switch_event_base_add_header g SWITCH_STACK_PUSH name p = Inr e' \<and> add_effect g name True e'"
    and f: "ev_inv f" "length (ev_headers f) < 1000000" and data: "\<not> length data < 8"
  shows "\<exists>e'. for_each (\<lambda>p e. switch_event_base_add_header e SWITCH_STACK_PUSH name p) (array_parts data) f = Inr e' \<and>
    add_effect f name True e'"
  using f array_parts_shorter [OF _ data] by (intro for_each_push) (auto intro: IH)

lemma add_new_ok:
  assumes IH: "\<And>p g. length p < length data \<Longrightarrow> ev_inv g \<Longrightarrow> has_header g name \<or> length (ev_headers g) < 1000000 \<Longrightarrow>
      \<exists>e'. switch_event_base_add_header g SWITCH_STACK_PUSH name p = Inr e' \<and> add_effect g name True e'"
    and inv: "ev_inv e" and len: "length (ev_headers e) < 1000000"
    and nf: "\<not> (pushes stack \<and> has_header e name)" and sp: "split_index name = (name, None)"
  shows "\<exists>e'. switch_event_base_add_header e stack name data = Inr e' \<and> add_effect e name (pushes stack) e'"
proof -
  let ?e = "with_body name data e"
  have inv': "ev_inv ?e" and len': "length (ev_headers ?e) < 1000000" and nf': "\<not> (pushes stack \<and> has_header ?e name)"
    using inv len nf by simp_all
  obtain st1 where d: "switch_event_del_header ?e name = Inr (st1, drop_header name ?e)"
    using del_header_drop [OF inv' len'] by blast
  define f where "f = (if test_flag (ev_flags e) EF_UNIQ_HEADERS then drop_header name ?e else ?e)"
  have fi: "ev_inv f" "f = ?e \<or> f = drop_header name ?e" using inv by (auto simp: f_def)
  have lf: "length (ev_headers f) < 1000000"
    using fi(2) len' drop_header_simps(5) [of name ?e] by (auto simp del: drop_header_simps)
  have uf: "test_flag (ev_flags ?e) EF_UNIQ_HEADERS \<Longrightarrow> \<not> has_header f name" by (simp add: f_def)
  have ef: "add_effect ?e name (pushes stack) f"
    using add_effect_drop [OF inv' nf'] add_effect_refl [OF inv'] by (auto simp: f_def)
  obtain st where st: "(if test_flag (ev_flags e) EF_UNIQ_HEADERS then switch_event_del_header ?e name
      else Inr (SWITCH_STATUS_SUCCESS, ?e)) = Inr (st, f)"
    using uniq_step [OF inv' len', of name] unfolding f_def with_body_simps by blast
  have new: "switch_event_base_add_header e stack name data =
    (if data = [] then Inr (drop_header name ?e)
     else if starts_with ''ARRAY::'' data
          then if length data < 8 then Inr f
               else for_each (\<lambda>p e. switch_event_base_add_header e SWITCH_STACK_PUSH name p) (array_parts data) f
          else if pushes stack then Inr (link_header f stack (push_data stack data (new_header name)))
          else Inr (link_header f stack ((new_header name)\<lparr>eh_value := Some data\<rparr>)))"
  proof -
    have "pushes stack \<Longrightarrow> switch_event_get_header_ptr ?e (Some name) = None"
      using get_ptr_None [OF inv', of name] nf' by simp
    then show ?thesis
      by (subst base_add_new [OF sp]) (assumption, simp only: d st [unfolded d] and_then_simps prod.case)
  qed
  have link: "eh_value h \<noteq> None \<Longrightarrow> eh_name h = name \<Longrightarrow> add_effect ?e name (pushes stack) (link_header f stack h)" for h
    using add_effect_link [OF inv' fi _ _ nf' uf] by blast
  have parts: "\<exists>e'. for_each (\<lambda>p e. switch_event_base_add_header e SWITCH_STACK_PUSH name p) (array_parts data) f = Inr e' \<and>
      add_effect ?e name (pushes stack) e'" if data: "\<not> length data < 8"
  proof -
    obtain e' where e': "for_each (\<lambda>p e. switch_event_base_add_header e SWITCH_STACK_PUSH name p) (array_parts data) f = Inr e'"
      "add_effect f name True e'" using add_parts_ok [OF IH fi(1) lf data] by blast
    have "length (ev_headers f) \<le> length (ev_headers ?e)"
      using fi(2) drop_header_simps(5) [of name ?e] by (auto simp del: drop_header_simps)
    then have "add_effect ?e name (pushes stack) e'"
      using e'(2) ef nf' unfolding add_effect_def by auto
    with e'(1) show ?thesis by blast
  qed
  show ?thesis
    unfolding new using link parts ef add_effect_drop [OF inv' nf'] by auto
qed

lemma base_add_ok:
  "ev_inv e \<Longrightarrow> length (ev_headers e) < 1000000 \<or> pushes stack \<and> split_index name = (name, None) \<and> has_header e name \<Longrightarrow>
   \<exists>e'. switch_event_base_add_header e stack name data = Inr e' \<and>
     add_effect e name (pushes stack \<and> split_index name = (name, None)) e'"
proof (induction "length data" arbitrary: e stack name data rule: less_induct)
  case less
  let ?e = "with_body name data e"
  obtain n io where sp: "split_index name = (n, io)" by (cases "split_index name")
  have inv: "ev_inv ?e" using less.prems by simp
  show ?case
  proof (cases io)
    case (Some index)
    have "length (ev_headers ?e) < 1000000" using less.prems sp Some by auto
    then obtain e' where "set_element ?e stack n index data = Inr e'" "add_effect ?e n False e'"
      using set_element_ok [OF inv] by blast
    then show ?thesis
      using sp Some base_add_index [of name n index e stack data] by (simp add: add_effect_def)
  next
    case None
    then have n: "n = name" using sp split_index_None by blast
    note sp = sp [unfolded None n]
    show ?thesis
    proof (cases "pushes stack \<and> has_header e name")
      case True
      then obtain i where i: "switch_event_get_header_ptr ?e (Some name) = Some i"
        using get_ptr_None [OF inv] by fastforce
      note I = get_ptr_Some [OF inv i]
      have "header_ok (ev_headers ?e ! i)" using inv I(1) by (simp add: ev_inv_def)
      then have "add_effect ?e name True
          (?e\<lparr>ev_headers := (ev_headers ?e)[i := push_data stack data (ev_headers ?e ! i)]\<rparr>)"
        by (intro add_effect_set [OF inv I(1)] header_ok_push) simp_all
      then show ?thesis using base_add_push [OF sp _ i] True sp by simp
    next
      case False
      have IH: "\<exists>e'. switch_event_base_add_header g SWITCH_STACK_PUSH name p = Inr e' \<and> add_effect g name True e'"
        if "length p < length data" "ev_inv g" "has_header g name \<or> length (ev_headers g) < 1000000" for p g
        using less.hyps [OF that(1,2), of SWITCH_STACK_PUSH name] that(3) sp by auto
      then show ?thesis using add_new_ok [OF IH] less.prems False sp by auto
    qed
  qed
qed

section \<open>Plain values\<close>

definition plain_name :: "string \<Rightarrow> bool" where
  "plain_name n \<longleftrightarrow> CHR ''['' \<notin> set n \<and> n \<noteq> ''_body''"

definition plain_data :: "string \<Rightarrow> bool" where
  "plain_data d \<longleftrightarrow> d \<noteq> [] \<and> \<not> starts_with ''ARRAY::'' d"

definition scalar_header :: "string \<Rightarrow> string \<Rightarrow> switch_event_header" where
  "scalar_header n d = \<lparr>eh_name = n, eh_value = Some d, eh_array = [], eh_hash = switch_ci_hashfunc_default n\<rparr>"

definition array_header :: "string \<Rightarrow> string list \<Rightarrow> switch_event_header" where
  "array_header n xs =
     \<lparr>eh_name = n, eh_value = Some (array_value xs), eh_array = xs, eh_hash = switch_ci_hashfunc_default n\<rparr>"

text \<open>The event with another list of headers and an exact tail pointer.\<close>

definition with_headers :: "switch_event_header list \<Rightarrow> switch_event \<Rightarrow> switch_event" where
  "with_headers hs e = e\<lparr>ev_headers := hs, ev_last_header := tail_of hs\<rparr>"

lemma with_headers_simps [simp]:
  "ev_headers (with_headers hs e) = hs" "ev_last_header (with_headers hs e) = tail_of hs" "ev_flags (with_headers hs e) = ev_flags e"
  "ev_body (with_headers hs e) = ev_body e" "with_headers hs (with_headers hs' e) = with_headers hs e"
  "ev_inv e \<Longrightarrow> with_headers (ev_headers e) e = e"
  by (simp_all add: with_headers_def ev_inv_def)

lemma ev_inv_with_headers: "ev_inv (with_headers hs e) \<longleftrightarrow> (\<forall>h\<in>set hs. header_ok h)"
  by (simp add: with_headers_def ev_inv_def)

lemma scalar_header_simps [simp]:
  "same_name m (scalar_header n d) \<longleftrightarrow> strcasecmp_eq n m" "eh_value (scalar_header n d) = Some d"
  by (simp_all add: same_name_def scalar_header_def)

lemma header_ok_simps [simp]: "header_ok (scalar_header n d)" "header_ok (array_header n xs)"
  by (simp_all add: header_ok_def scalar_header_def array_header_def)

lemma drop_header_with: "drop_header n e = with_headers (filter (\<lambda>h. \<not> same_name n h) (ev_headers e)) e"
  by (simp add: drop_header_def with_headers_def)

definition others :: "switch_event \<Rightarrow> string \<Rightarrow> switch_event_header list" where
  "others e n =
     (if test_flag (ev_flags e) EF_UNIQ_HEADERS then filter (\<lambda>h. \<not> same_name n h) (ev_headers e) else ev_headers e)"

lemma uniq_step_others:
  assumes "ev_inv e" and "length (ev_headers e) < 1000000"
  shows "\<exists>st. (if test_flag (ev_flags e) EF_UNIQ_HEADERS then switch_event_del_header e n
      else Inr (SWITCH_STATUS_SUCCESS, e)) = Inr (st, with_headers (others e n) e)"
  using uniq_step [OF assms, of n] assms(1) by (auto simp: others_def drop_header_with)

lemma others_absent: "\<not> has_header e n \<Longrightarrow> others e n = ev_headers e"
  by (simp add: others_def has_header_def filter_id_conv)

text \<open>Adding a plain value puts one new header in front of or behind the others.\<close>

lemma add_scalar:
  assumes "ev_inv e" "length (ev_headers e) < 1000000" "plain_name n" "plain_data d" "\<not> pushes stack"
  shows "switch_event_base_add_header e stack n d =
    Inr (with_headers (linked stack (scalar_header n d) (others e n)) e)"
proof -
  let ?f = "with_headers (others e n) e"
  obtain st where st: "(if test_flag (ev_flags e) EF_UNIQ_HEADERS then switch_event_del_header e n
      else Inr (SWITCH_STATUS_SUCCESS, e)) = Inr (st, ?f)" using uniq_step_others [OF assms(1,2)] by blast
  have sp: "split_index n = (n, None)" and wb: "with_body n d e = e"
    using assms(3) by (simp_all add: plain_name_def split_index_plain)
  have inv: "ev_inv ?f" using assms(1) by (auto simp: ev_inv_with_headers others_def ev_inv_def)
  have stamp: "stamped ((new_header n)\<lparr>eh_value := Some d\<rparr>) = stamped (scalar_header n d)"
    by (simp add: stamped_def new_header_def scalar_header_def)
  have "switch_event_base_add_header e stack n d = Inr (link_header ?f stack ((new_header n)\<lparr>eh_value := Some d\<rparr>))"
    using base_add_new [OF sp, of stack d e] assms(4,5) unfolding wb st by (simp add: plain_data_def)
  also have "link_header ?f stack ((new_header n)\<lparr>eh_value := Some d\<rparr>) =
      with_headers (linked stack (scalar_header n d) (others e n)) e"
    using inv stamp by (simp add: link_header_eq linked_def with_headers_def)
  finally show ?thesis .
qed

lemma linked_scalar [simp]:
  "linked SWITCH_STACK_BOTTOM (scalar_header n d) hs = hs @ [scalar_header n d]"
  "linked SWITCH_STACK_TOP (scalar_header n d) hs = scalar_header n d # hs"
  by (simp_all add: linked_def stamped_def scalar_header_def)

lemma add_empty:
  assumes "ev_inv e" "length (ev_headers e) < 1000000" "plain_name n" "\<not> pushes stack"
  shows "switch_event_base_add_header e stack n [] = Inr (drop_header n e)"
proof -
  have sp: "split_index n = (n, None)" and wb: "with_body n [] e = e"
    using assms(3) by (simp_all add: plain_name_def split_index_plain)
  show ?thesis
    using base_add_new [OF sp, of stack "[]" e] del_header_drop [OF assms(1,2), of n] assms(4)
    unfolding wb by auto
qed

text \<open>What a search returns.\<close>

lemma get_header_find:
  assumes "ev_inv e"
  shows "switch_event_get_header e (Some n) =
    Inr (case find (same_name n) (ev_headers e) of
           Some h \<Rightarrow> eh_value h | None \<Rightarrow> if n = ''_body'' then ev_body e else None)"
proof (cases "switch_event_get_header_ptr e (Some n)")
  case None
  then have "find (same_name n) (ev_headers e) = None"
    using get_ptr_None [OF assms, of n] by (auto simp: has_header_def find_None_iff)
  with None show ?thesis by (simp add: switch_event_get_header_def switch_event_get_header_idx_def)
next
  case (Some i)
  then have "find (same_name n) (ev_headers e) = Some (ev_headers e ! i)"
    using get_ptr_Some [OF assms Some] by (auto simp: find_Some_iff)
  with Some show ?thesis by (simp add: switch_event_get_header_def switch_event_get_header_idx_def)
qed

section \<open>Arrays\<close>

lemma push_data_array:
  "eh_array h \<noteq> [] \<Longrightarrow> push_data SWITCH_STACK_PUSH d h =
     h\<lparr>eh_array := eh_array h @ [d], eh_value := Some (array_value (eh_array h @ [d]))\<rparr>"
  by (auto simp: push_data_def Let_def redraw_def split: option.splits)

lemma get_ptr_snoc:
  assumes "ev_inv e" "ev_headers e = hs @ [h]" "\<forall>x\<in>set hs. \<not> same_name n x" "same_name n h"
  shows "switch_event_get_header_ptr e (Some n) = Some (length hs)"
proof -
  obtain i where i: "switch_event_get_header_ptr e (Some n) = Some i"
    using get_ptr_None [OF assms(1), of n] assms(2,4) by (fastforce simp: has_header_def)
  note I = get_ptr_Some [OF assms(1) i]
  have "\<not> i < length hs" using I(2) assms(2,3) by (auto simp: nth_append)
  moreover have "i \<le> length hs" using I(1) assms(2) by simp
  ultimately show ?thesis using i by simp
qed

lemma push_more:
  assumes "plain_name n" "\<forall>x\<in>set hs. header_ok x \<and> \<not> same_name n x"
  shows "ys \<noteq> [] \<Longrightarrow>
    for_each (\<lambda>p e. switch_event_base_add_header e SWITCH_STACK_PUSH n p) xs (with_headers (hs @ [array_header n ys]) e) =
      Inr (with_headers (hs @ [array_header n (ys @ xs)]) e)"
proof (induction xs arbitrary: ys)
  case (Cons x xs)
  let ?e = "with_headers (hs @ [array_header n ys]) e"
  have sp: "split_index n = (n, None)" and wb: "with_body n x ?e = ?e"
    using assms(1) by (simp_all add: plain_name_def split_index_plain)
  have "switch_event_get_header_ptr ?e (Some n) = Some (length hs)"
    using assms(2) by (intro get_ptr_snoc) (auto simp: ev_inv_with_headers array_header_def same_name_def strcasecmp_eq_def header_ok_def)
  then have "switch_event_base_add_header ?e SWITCH_STACK_PUSH n x =
      Inr (?e\<lparr>ev_headers := (ev_headers ?e)[length hs := push_data SWITCH_STACK_PUSH x (ev_headers ?e ! length hs)]\<rparr>)"
    using base_add_push [OF sp, of SWITCH_STACK_PUSH x ?e "length hs"] by (simp only: wb pushes_simps)
  also have "?e\<lparr>ev_headers := (ev_headers ?e)[length hs := push_data SWITCH_STACK_PUSH x (ev_headers ?e ! length hs)]\<rparr> =
      with_headers (hs @ [array_header n (ys @ [x])]) e"
    using Cons.prems by (simp add: push_data_array array_header_def with_headers_def tail_of_def)
  finally show ?case using Cons.IH [of "ys @ [x]"] by simp
qed simp

lemma push_new:
  assumes "ev_inv e" "length (ev_headers e) < 1000000" "plain_name n" "plain_data x" "\<not> has_header e n"
  shows "switch_event_base_add_header e SWITCH_STACK_PUSH n x = Inr (with_headers (ev_headers e @ [array_header n [x]]) e)"
proof -
  have sp: "split_index n = (n, None)" and wb: "with_body n x e = e"
    using assms(3) by (simp_all add: plain_name_def split_index_plain)
  have no: "switch_event_get_header_ptr e (Some n) = None" using assms(1,5) get_ptr_None by blast
  obtain st where st: "(if test_flag (ev_flags e) EF_UNIQ_HEADERS then switch_event_del_header e n
      else Inr (SWITCH_STATUS_SUCCESS, e)) = Inr (st, e)"
    using uniq_step_others [OF assms(1,2), of n] others_absent [OF assms(5)] assms(1) by auto
  have "stamped (push_data SWITCH_STACK_PUSH x (new_header n)) = array_header n [x]"
    by (simp add: stamped_def push_data_def redraw_def new_header_def array_header_def)
  then have "link_header e SWITCH_STACK_PUSH (push_data SWITCH_STACK_PUSH x (new_header n)) =
      with_headers (ev_headers e @ [array_header n [x]]) e"
    using assms(1) by (simp add: link_header_eq linked_def with_headers_def)
  then show ?thesis
    using base_add_new [OF sp, of SWITCH_STACK_PUSH x e] assms(4) no unfolding wb st by (simp add: plain_data_def)
qed

lemma push_all:
  assumes "ev_inv e" "length (ev_headers e) < 1000000" "plain_name n" "\<not> has_header e n" "xs \<noteq> []" "plain_data (hd xs)"
  shows "for_each (\<lambda>p e. switch_event_base_add_header e SWITCH_STACK_PUSH n p) xs e =
    Inr (with_headers (ev_headers e @ [array_header n xs]) e)"
proof -
  obtain y ys where xs: "xs = y # ys" using assms(5) by (cases xs) auto
  have "\<forall>x\<in>set (ev_headers e). header_ok x \<and> \<not> same_name n x"
    using assms(1,4) by (auto simp: ev_inv_def has_header_def)
  from push_more [OF assms(3) this, of "[y]" ys e] push_new [OF assms(1-3) _ assms(4), of y] assms(6)
  show ?thesis by (simp add: xs)
qed

text \<open>Drawing an array and reading the drawing.\<close>

lemma strstr_delim:
  "strstr s ''|:'' = None \<Longrightarrow> strstr (s @ ''|:'' @ t) ''|:'' = Some (length s)"
proof (induction s)
  case (Cons c s)
  have no: "\<not> starts_with ''|:'' (c # s)" and IH: "strstr (s @ ''|:'' @ t) ''|:'' = Some (length s)"
    using Cons by (auto split: if_splits)
  have "\<not> starts_with ''|:'' ((c # s) @ ''|:'' @ t)" using no by (cases s) auto
  with IH show ?case by simp
qed simp

lemma separate_Suc:
  "switch_separate_string_string s d (Suc (Suc n)) =
     (case strstr s d of None \<Rightarrow> [s]
      | Some i \<Rightarrow> take i s # switch_separate_string_string (drop (i + length d) s) d (Suc n))"
  by (simp add: switch_separate_string_string_def split: option.splits)

lemma separate_joined:
  "xs \<noteq> [] \<Longrightarrow> \<forall>x\<in>set xs. strstr x ''|:'' = None \<Longrightarrow>
   delim_count (joined ''|:'' xs) = length xs - 1 \<and>
   switch_separate_string_string (joined ''|:'' xs) ''|:'' (length xs) = xs"
proof (induction xs)
  case (Cons x xs)
  show ?case
  proof (cases xs)
    case Nil
    then show ?thesis using Cons.prems by (simp add: delim_count.simps switch_separate_string_string_def)
  next
    case (Cons y ys)
    have st: "strstr (x @ ''|:'' @ joined ''|:'' xs) ''|:'' = Some (length x)"
      using Cons.prems by (intro strstr_delim) simp
    have IH: "delim_count (joined ''|:'' xs) = length xs - 1"
      "switch_separate_string_string (joined ''|:'' xs) ''|:'' (length xs) = xs"
      using Cons.IH Cons.prems Cons by simp_all
    have j: "joined ''|:'' (x # xs) = x @ ''|:'' @ joined ''|:'' xs" using Cons by simp
    have "delim_count (joined ''|:'' (x # xs)) = Suc (delim_count (joined ''|:'' xs))"
      unfolding j using st by (subst delim_count.simps) simp
    moreover have "switch_separate_string_string (joined ''|:'' (x # xs)) ''|:'' (length (x # xs)) = x # xs"
    proof -
      have "length (x # xs) = Suc (Suc (length ys))" "length xs = Suc (length ys)" using Cons by simp_all
      then show ?thesis unfolding j using IH(2) by (simp only: separate_Suc st option.case) simp
    qed
    ultimately show ?thesis using IH(1) Cons by simp
  qed
qed simp

lemma array_parts_value:
  assumes "1 < length xs" "\<forall>x\<in>set xs. strstr x ''|:'' = None"
  shows "array_parts (array_value xs) = xs"
proof -
  have "xs \<noteq> []" using assms(1) by auto
  note J = separate_joined [OF this assms(2)]
  have "drop 7 (array_value xs) = joined ''|:'' xs" using assms(1) by (simp add: array_value_def)
  moreover have "length xs - 1 + 1 = length xs" using assms(1) by simp
  ultimately show ?thesis using J by (simp only: array_parts_def)
qed

lemma joined_length: "hd xs \<noteq> [] \<Longrightarrow> xs \<noteq> [] \<Longrightarrow> joined d xs \<noteq> []"
  by (cases xs rule: list.exhaust; cases "tl xs") auto

lemma add_drawn_array:
  assumes "ev_inv e" "length (ev_headers e) < 1000000" "plain_name n" "\<not> pushes stack"
    and xs: "1 < length xs" "\<forall>x\<in>set xs. strstr x ''|:'' = None" "plain_data (hd xs)"
    and absent: "test_flag (ev_flags e) EF_UNIQ_HEADERS \<or> \<not> has_header e n"
  shows "switch_event_base_add_header e stack n (array_value xs) =
    Inr (with_headers (filter (\<lambda>h. \<not> same_name n h) (ev_headers e) @ [array_header n xs]) e)"
proof -
  let ?f = "with_headers (others e n) e"
  obtain st where st: "(if test_flag (ev_flags e) EF_UNIQ_HEADERS then switch_event_del_header e n
      else Inr (SWITCH_STATUS_SUCCESS, e)) = Inr (st, ?f)" using uniq_step_others [OF assms(1,2)] by blast
  have sp: "split_index n = (n, None)" and wb: "with_body n d e = e" for d
    using assms(3) by (simp_all add: plain_name_def split_index_plain)
  have o: "others e n = filter (\<lambda>h. \<not> same_name n h) (ev_headers e)"
    using absent by (auto simp: others_def has_header_def filter_id_conv)
  have inv: "ev_inv ?f" using assms(1) by (auto simp: ev_inv_with_headers o ev_inv_def)
  have len: "length (ev_headers ?f) < 1000000"
    using assms(2) le_less_trans [OF length_filter_le] by (simp add: o)
  have "xs \<noteq> []" "hd xs \<noteq> []" using xs by (auto simp: plain_data_def)
  then have data: "array_value xs \<noteq> []" "starts_with ''ARRAY::'' (array_value xs)" "\<not> length (array_value xs) < 8"
    using xs(1) joined_length [of xs "''|:''"] by (auto simp: array_value_def Suc_le_eq)
  have "\<not> has_header ?f n" by (auto simp: has_header_def o)
  then have "for_each (\<lambda>p e. switch_event_base_add_header e SWITCH_STACK_PUSH n p) xs ?f =
      Inr (with_headers (others e n @ [array_header n xs]) e)"
    using push_all [OF inv len assms(3) _ \<open>xs \<noteq> []\<close> xs(3)] by simp
  then show ?thesis
    using base_add_new [OF sp, of stack "array_value xs" e] assms(4) data
    unfolding wb st array_parts_value [OF xs(1,2)] by (simp add: o)
qed

section \<open>Copying\<close>

lemma add_string_eq: "add_string stack n (Some d) e = switch_event_base_add_header e stack n d"
  by (cases "switch_event_base_add_header e stack n d")
     (simp_all add: add_string_def switch_event_add_header_string_def)

lemma add_string_fun: "add_string stack n (Some d) = (\<lambda>e. switch_event_base_add_header e stack n d)"
  by (rule ext) (rule add_string_eq)

definition copyable :: "switch_event_header \<Rightarrow> bool" where
  "copyable h \<longleftrightarrow> plain_name (eh_name h) \<and>
     (if eh_array h = [] then (\<exists>d. h = scalar_header (eh_name h) d \<and> plain_data d)
      else h = array_header (eh_name h) (eh_array h) \<and> plain_data (hd (eh_array h)))"

lemma copy_one:
  assumes "ev_inv e" "length (ev_headers e) < 1000000" "\<not> has_header e (eh_name h)" "copyable h"
  shows "copy_header (eh_name h) h e = Inr (with_headers (ev_headers e @ [h]) e)"
proof (cases "eh_array h = []")
  case True
  then obtain d where d: "h = scalar_header (eh_name h) d" "plain_data d" using assms(4) by (auto simp: copyable_def)
  have v: "eh_value h = Some d" by (subst d(1)) (simp add: scalar_header_def)
  have "plain_name (eh_name h)" using assms(4) by (simp add: copyable_def)
  then have "switch_event_base_add_header e SWITCH_STACK_BOTTOM (eh_name h) d =
      Inr (with_headers (ev_headers e @ [scalar_header (eh_name h) d]) e)"
    using add_scalar [OF assms(1,2) _ d(2), of "eh_name h" SWITCH_STACK_BOTTOM] others_absent [OF assms(3)]
    by (simp only: pushes_simps linked_scalar not_False_eq_True)
  with v True show ?thesis by (simp add: copy_header_def add_string_eq flip: d(1))
next
  case False
  then have h: "h = array_header (eh_name h) (eh_array h)" "plain_data (hd (eh_array h))" "plain_name (eh_name h)"
    using assms(4) by (auto simp: copyable_def)
  from push_all [OF assms(1,2) h(3) assms(3) False h(2)] h(1) False
  show ?thesis by (simp add: copy_header_def add_string_fun)
qed

lemma copy_all:
  "\<forall>h\<in>set hs. copyable h \<Longrightarrow> ev_inv e \<Longrightarrow> length (ev_headers e) + length hs < 1000000 \<Longrightarrow>
   distinct (map (\<lambda>h. map c_tolower (eh_name h)) (ev_headers e @ hs)) \<Longrightarrow>
   for_each (\<lambda>hp. copy_header (eh_name hp) hp) hs e = Inr (with_headers (ev_headers e @ hs) e)"
proof (induction hs arbitrary: e)
  case (Cons h hs)
  let ?f = "with_headers (ev_headers e @ [h]) e"
  have no: "\<not> has_header e (eh_name h)"
    using Cons.prems(4) by (fastforce simp: has_header_def same_name_iff image_iff)
  have "copyable h" using Cons.prems by simp
  then have "header_ok h" by (auto simp: copyable_def split: if_splits) (metis header_ok_simps)+
  then have "ev_inv ?f" using Cons.prems(2) by (auto simp: ev_inv_with_headers ev_inv_def)
  moreover have "copy_header (eh_name h) h e = Inr ?f"
    using Cons.prems no by (intro copy_one) simp_all
  ultimately show ?case using Cons.IH [of ?f] Cons.prems by simp
qed simp

section \<open>Sequences of calls\<close>

datatype event_call =
    Call_Add uint32_t string "string option"
  | Call_Del string "string option"
  | Call_Rename string string
  | Call_Body "string option"

definition event_step :: "event_call \<Rightarrow> switch_event \<Rightarrow> switch_event c_result" where
  "event_step c e =
     (case c of
        Call_Add stack n d \<Rightarrow> add_string stack n d e
      | Call_Del n v \<Rightarrow> and_then (switch_event_del_header_val e n v) (\<lambda>(_, e). Inr e)
      | Call_Rename n n' \<Rightarrow> Inr (snd (switch_event_rename_header e (Some n) n'))
      | Call_Body b \<Rightarrow> Inr (switch_event_set_body e b))"

fun is_rename :: "event_call \<Rightarrow> bool" where
  "is_rename (Call_Rename n n') \<longleftrightarrow> True"
| "is_rename c \<longleftrightarrow> False"

lemma del_val_spec:
  assumes "ev_inv e" and "length (ev_headers e) < 1000000"
  shows "\<exists>st hs. switch_event_del_header_val e n v = Inr (st, with_headers hs e) \<and>
    (\<exists>P. hs = filter P (ev_headers e))"
  using assms del_loop_spec [of "ev_headers e" "\<lambda>h. same_name n h \<and> (v = None \<or> v = Some [] \<or> eh_value h = v)"
      n v 0 "ev_last_header e" "[]" SWITCH_STATUS_FALSE]
  by (auto simp: switch_event_del_header_val_def ev_inv_def with_headers_def)

lemma rename_ok: "ev_inv e \<Longrightarrow> ev_inv (snd (switch_event_rename_header e (Some n) n'))"
  by (auto simp: switch_event_rename_header_def ev_inv_def header_ok_def tail_of_def Let_def)

lemma event_step_ok:
  assumes "ev_inv e" and "length (ev_headers e) < 1000000"
  shows "\<exists>e'. event_step c e = Inr e' \<and> ev_inv e' \<and> length (ev_headers e') \<le> length (ev_headers e) + 1 \<and>
    (\<not> is_rename c \<longrightarrow> test_flag (ev_flags e) EF_UNIQ_HEADERS \<longrightarrow> uniq_names e \<longrightarrow> uniq_names e') \<and>
    ev_flags e' = ev_flags e"
proof (cases c)
  case (Call_Add stack n d)
  show ?thesis
  proof (cases d)
    case None
    then show ?thesis
      using assms Call_Add by (simp add: event_step_def add_string_def switch_event_add_header_string_def)
  next
    case (Some x)
    then show ?thesis
      using base_add_ok [OF assms(1), of stack n x] assms(2) Call_Add
      by (auto simp: event_step_def add_string_eq add_effect_def)
  qed
next
  case (Call_Del n v)
  obtain st hs P where d: "switch_event_del_header_val e n v = Inr (st, with_headers hs e)" "hs = filter P (ev_headers e)"
    using del_val_spec [OF assms] by blast
  have "length (filter P (ev_headers e)) \<le> Suc (length (ev_headers e))" by (rule le_SucI [OF length_filter_le])
  with d assms(1) Call_Del show ?thesis
    by (auto simp: event_step_def ev_inv_with_headers ev_inv_def uniq_names_def distinct_map_filter)
next
  case (Call_Rename n n')
  with assms rename_ok [OF assms(1), of n n'] show ?thesis
    by (simp add: event_step_def) (simp add: switch_event_rename_header_def Let_def)
next
  case (Call_Body b)
  with assms show ?thesis by (simp add: event_step_def switch_event_set_body_def ev_inv_def uniq_names_def)
qed

lemma event_run_ok:
  "ev_inv e \<Longrightarrow> length (ev_headers e) + length cs \<le> 1000000 \<Longrightarrow>
   \<exists>e'. for_each event_step cs e = Inr e' \<and> ev_inv e' \<and>
     (list_all (\<lambda>c. \<not> is_rename c) cs \<longrightarrow> test_flag (ev_flags e) EF_UNIQ_HEADERS \<longrightarrow> uniq_names e \<longrightarrow> uniq_names e')"
proof (induction cs arbitrary: e)
  case (Cons c cs)
  have "length (ev_headers e) < 1000000" using Cons.prems by simp
  with event_step_ok [OF Cons.prems(1), of c] obtain f where f: "event_step c e = Inr f" "ev_inv f"
      "length (ev_headers f) \<le> length (ev_headers e) + 1"
      "\<not> is_rename c \<longrightarrow> test_flag (ev_flags e) EF_UNIQ_HEADERS \<longrightarrow> uniq_names e \<longrightarrow> uniq_names f" "ev_flags f = ev_flags e"
    by blast
  from f(3) Cons.prems(2) have "length (ev_headers f) + length cs \<le> 1000000" by simp
  from Cons.IH [OF f(2) this] f show ?case by auto
qed simp

section \<open>Unique headers are variables\<close>

text \<open>The value of \<open>m\<close> after a sequence of assignments, the store having held \<open>r\<close> before.\<close>

fun assigned ::
  "(string \<Rightarrow> string \<Rightarrow> bool) \<Rightarrow> (string \<times> string) list \<Rightarrow> string \<Rightarrow> string option c_result \<Rightarrow> string option c_result" where
  "assigned eq [] m r = r"
| "assigned eq ((n, v) # ps) m r = assigned eq ps m (if eq n m then Inr (if v = [] then None else Some v) else r)"

text \<open>A store of string variables whose names are compared by \<open>eq\<close>: reading gives the last value
  assigned, and assigning the empty value removes the variable. \<open>room\<close> bounds the number of
  variables the store accepts.\<close>

locale variable_store =
  fixes ok :: "'t \<Rightarrow> bool"
    and room :: "'t \<Rightarrow> nat"
    and eq :: "string \<Rightarrow> string \<Rightarrow> bool"
    and name_ok :: "string \<Rightarrow> bool"
    and value_ok :: "string \<Rightarrow> bool"
    and get :: "'t \<Rightarrow> string \<Rightarrow> string option c_result"
    and put :: "string \<Rightarrow> string \<Rightarrow> 't \<Rightarrow> 't c_result"
  assumes put_law: "ok t \<Longrightarrow> 0 < room t \<Longrightarrow> name_ok n \<Longrightarrow> value_ok v \<Longrightarrow>
      \<exists>t'. put n v t = Inr t' \<and> ok t' \<and> room t \<le> room t' + 1 \<and>
        (\<forall>m. name_ok m \<longrightarrow> get t' m = (if eq n m then Inr (if v = [] then None else Some v) else get t m))"
begin

lemma puts:
  "ok t \<Longrightarrow> length ps \<le> room t \<Longrightarrow> \<forall>(n, v)\<in>set ps. name_ok n \<and> value_ok v \<Longrightarrow>
   \<exists>t'. for_each (\<lambda>(n, v). put n v) ps t = Inr t' \<and> ok t' \<and>
     (\<forall>m. name_ok m \<longrightarrow> get t' m = assigned eq ps m (get t m))"
proof (induction ps arbitrary: t)
  case (Cons p ps)
  obtain n v where p: "p = (n, v)" by (cases p)
  then have nv: "name_ok n" "value_ok v" "0 < room t" using Cons.prems by auto
  from put_law [OF Cons.prems(1) nv(3,1,2)] obtain t1 where t1: "put n v t = Inr t1" "ok t1" "room t \<le> room t1 + 1"
    "\<forall>m. name_ok m \<longrightarrow> get t1 m = (if eq n m then Inr (if v = [] then None else Some v) else get t m)" by blast
  from t1(3) Cons.prems(2) have "length ps \<le> room t1" by simp
  from Cons.IH [OF t1(2) this] Cons.prems(3) obtain t2 where
    "for_each (\<lambda>(n, v). put n v) ps t1 = Inr t2" "ok t2" "\<forall>m. name_ok m \<longrightarrow> get t2 m = assigned eq ps m (get t1 m)" by auto
  with t1 p show ?case by (auto simp: if_distrib)
qed simp

end

lemma find_filter_other:
  "(\<And>x. P x \<Longrightarrow> Q x) \<Longrightarrow> find P (filter Q xs) = find P xs"
  by (induction xs) auto

lemma find_append: "find P (xs @ ys) = (case find P xs of None \<Rightarrow> find P ys | Some x \<Rightarrow> Some x)"
  by (induction xs) auto

lemma same_name_cong: "strcasecmp_eq n m \<Longrightarrow> same_name n h \<longleftrightarrow> same_name m h"
  by (auto simp: same_name_iff strcasecmp_eq_def)

lemma find_without:
  "find (same_name m) (filter (\<lambda>h. \<not> same_name n h) hs) =
     (if strcasecmp_eq n m then None else find (same_name m) hs)"
proof (cases "strcasecmp_eq n m")
  case True
  then show ?thesis by (auto simp: find_None_iff same_name_cong)
next
  case False
  then have "same_name m h \<Longrightarrow> \<not> same_name n h" for h by (auto simp: same_name_iff strcasecmp_eq_def)
  with False show ?thesis by (simp add: find_filter_other)
qed

definition event_put :: "string \<Rightarrow> string \<Rightarrow> switch_event \<Rightarrow> switch_event c_result" where
  "event_put n v e = add_string SWITCH_STACK_BOTTOM n (Some v) e"

definition event_get :: "switch_event \<Rightarrow> string \<Rightarrow> string option c_result" where
  "event_get e n = switch_event_get_header e (Some n)"

interpretation event_vars: variable_store "\<lambda>e. ev_inv e \<and> test_flag (ev_flags e) EF_UNIQ_HEADERS"
  "\<lambda>e. 1000000 - length (ev_headers e)" strcasecmp_eq plain_name "\<lambda>v. \<not> starts_with ''ARRAY::'' v"
  event_get event_put
proof
  fix e n v
  assume e: "ev_inv e \<and> test_flag (ev_flags e) EF_UNIQ_HEADERS" "0 < 1000000 - length (ev_headers e)"
    and n: "plain_name n" and v: "\<not> starts_with ''ARRAY::'' v"
  let ?hs = "filter (\<lambda>h. \<not> same_name n h) (ev_headers e) @ (if v = [] then [] else [scalar_header n v])"
  let ?e = "with_headers ?hs e"
  have len: "length (ev_headers e) < 1000000" using e by simp
  have inv: "ev_inv ?e" using e by (auto simp: ev_inv_with_headers ev_inv_def)
  have "event_put n v e = Inr ?e"
  proof (cases "v = []")
    case True
    then show ?thesis using add_empty [OF _ len n, of SWITCH_STACK_BOTTOM] e
      by (simp add: event_put_def add_string_eq drop_header_with)
  next
    case False
    then show ?thesis using add_scalar [OF _ len n, of v SWITCH_STACK_BOTTOM] e v
      by (simp add: event_put_def add_string_eq plain_data_def others_def)
  qed
  moreover have "length ?hs \<le> length (ev_headers e) + 1"
    using length_filter_le [of "\<lambda>h. \<not> same_name n h" "ev_headers e"] by (simp add: le_SucI)
  then have "1000000 - length (ev_headers e) \<le> 1000000 - length (ev_headers ?e) + 1" by simp
  moreover have "event_get ?e m = (if strcasecmp_eq n m then Inr (if v = [] then None else Some v) else event_get e m)"
    if "plain_name m" for m
    using that e inv
    by (auto simp: event_get_def get_header_find find_append find_without plain_name_def split: option.splits)
  ultimately show "\<exists>t'. event_put n v e = Inr t' \<and>
      (ev_inv t' \<and> test_flag (ev_flags t') EF_UNIQ_HEADERS) \<and>
      1000000 - length (ev_headers e) \<le> 1000000 - length (ev_headers t') + 1 \<and>
      (\<forall>m. plain_name m \<longrightarrow> event_get t' m =
        (if strcasecmp_eq n m then Inr (if v = [] then None else Some v) else event_get e m))"
    using inv e by (intro exI [of _ ?e]) simp
qed

section \<open>Properties\<close>

lemma blank_event_ok: "ev_inv blank_event" "uniq_names blank_event" "ev_headers blank_event = []" "ev_flags blank_event = 0"
  by (simp_all add: blank_event_def ev_inv_def tail_of_def uniq_names_def)

lemma create_clone: "switch_event_create_subclass_detailed env SWITCH_EVENT_CLONE None = Inr (SWITCH_STATUS_SUCCESS, Some blank_event)"
  by (simp add: switch_event_create_subclass_detailed_def SWITCH_EVENT_CLONE_def SWITCH_EVENT_REQUEST_PARAMS_def
      SWITCH_EVENT_CHANNEL_DATA_def SWITCH_EVENT_MESSAGE_def)

text \<open>C7: Any sequence of up to a million additions, deletions, renamings and changes of the body, with
  any flags, names and values, runs without a fault on a new event and keeps it well-formed: the tail
  pointer is the last header, every stored hash is the hash of its name, every header has a value.
  Without renamings an event with \<^verbatim>\<open>EF_UNIQ_HEADERS\<close> never holds two headers whose names differ
  only in case.\<close>

theorem event_calls_safe:
  assumes "length calls \<le> 1000000"
  shows "\<exists>e. for_each event_step calls (blank_event\<lparr>ev_flags := fl\<rparr>) = Inr e \<and> ev_inv e \<and>
    (list_all (\<lambda>c. \<not> is_rename c) calls \<longrightarrow> test_flag fl EF_UNIQ_HEADERS \<longrightarrow> uniq_names e)"
proof -
  have "ev_inv (blank_event\<lparr>ev_flags := fl\<rparr>)" "uniq_names (blank_event\<lparr>ev_flags := fl\<rparr>)"
    by (simp_all add: blank_event_def ev_inv_def tail_of_def uniq_names_def)
  with event_run_ok [of "blank_event\<lparr>ev_flags := fl\<rparr>" calls] assms blank_event_ok show ?thesis by auto
qed

theorem event_calls_safe_witness:
  "\<exists>e. for_each event_step [Call_Add SWITCH_STACK_PUSH ''x[3]'' (Some ''ARRAY::a|:b''), Call_Add SWITCH_STACK_TOP ''X'' (Some ''c''),
      Call_Del ''y'' None] (blank_event\<lparr>ev_flags := EF_UNIQ_HEADERS\<rparr>) = Inr e \<and> ev_inv e \<and>
    (list_all (\<lambda>c. \<not> is_rename c) [Call_Add SWITCH_STACK_PUSH ''x[3]'' (Some ''ARRAY::a|:b''),
      Call_Add SWITCH_STACK_TOP ''X'' (Some ''c''), Call_Del ''y'' None] \<longrightarrow>
      test_flag EF_UNIQ_HEADERS EF_UNIQ_HEADERS \<longrightarrow> uniq_names e)"
  by (rule event_calls_safe) simp

text \<open>C14: The events that hold channel variables and request parameters are maps from names to
  values that ignore the case of names: after any assignments to plain names a search returns the
  value assigned last, and nothing after the empty value.\<close>

theorem event_variables:
  assumes "length ps \<le> 1000000" and "\<forall>(n, v)\<in>set ps. plain_name n \<and> \<not> starts_with ''ARRAY::'' v"
    and "plain_name m" and "event_id = SWITCH_EVENT_CHANNEL_DATA \<or> event_id = SWITCH_EVENT_REQUEST_PARAMS"
  shows "\<exists>e e'. switch_event_create_plain env event_id = Inr (SWITCH_STATUS_SUCCESS, Some e) \<and>
    for_each (\<lambda>(n, v). add_string SWITCH_STACK_BOTTOM n (Some v)) ps e = Inr e' \<and>
    switch_event_get_header e' (Some m) = assigned strcasecmp_eq ps m (Inr None)"
proof -
  let ?e = "blank_event\<lparr>ev_event_id := event_id, ev_flags := set_flag (ev_flags blank_event) EF_UNIQ_HEADERS\<rparr>"
  have c: "switch_event_create_plain env event_id = Inr (SWITCH_STATUS_SUCCESS, Some ?e)"
    using assms(4) by (auto simp: switch_event_create_plain_def create_clone Let_def)
  have ok: "ev_inv ?e \<and> test_flag (ev_flags ?e) EF_UNIQ_HEADERS" "length ps \<le> 1000000 - length (ev_headers ?e)"
    using assms(1) by (simp_all add: blank_event_def ev_inv_def tail_of_def set_flag_def test_flag_def EF_UNIQ_HEADERS_def)
  have get: "event_get ?e m = Inr None"
    using ok(1) assms(3) by (simp add: event_get_def get_header_find plain_name_def) (simp add: blank_event_def)
  have "(\<lambda>(n, v). event_put n v) = (\<lambda>(n, v). add_string SWITCH_STACK_BOTTOM n (Some v))"
    by (auto simp: fun_eq_iff event_put_def)
  with c event_vars.puts [OF ok assms(2)] assms(3) get show ?thesis
    by (auto simp: event_get_def)
qed

theorem event_variables_witness:
  "\<exists>e e'. switch_event_create_plain \<lparr>de_uuid = None, de_hostname = None, de_switchname = None, de_ipv4 = [], de_ipv6 = [],
      de_date_local = [], de_date_gmt = [], de_timestamp = [], de_file = None, de_func = None, de_line = [], de_sequence = []\<rparr>
      SWITCH_EVENT_CHANNEL_DATA = Inr (SWITCH_STATUS_SUCCESS, Some e) \<and>
    for_each (\<lambda>(n, v). add_string SWITCH_STACK_BOTTOM n (Some v)) [(''a'', ''1''), (''A'', ''2'')] e = Inr e' \<and>
    switch_event_get_header e' (Some ''a'') = assigned strcasecmp_eq [(''a'', ''1''), (''A'', ''2'')] ''a'' (Inr None)"
  by (rule event_variables) (simp_all add: plain_name_def)

text \<open>C22: An array survives its drawing. Elements pushed one by one onto a new header can be read by
  index; the value of the header is their drawing; and adding that value to another event as plain
  data gives a header with the same elements. The elements must not contain the delimiter and the
  first one must be neither empty nor itself a drawing.\<close>

theorem event_array_roundtrip:
  assumes "plain_name n" and "1 < length xs" and "\<forall>x\<in>set xs. strstr x ''|:'' = None" and "plain_data (hd xs)"
  shows "\<exists>e. for_each (\<lambda>x. add_string SWITCH_STACK_PUSH n (Some x)) xs blank_event = Inr e \<and>
    switch_event_get_header e (Some n) = Inr (Some (array_value xs)) \<and>
    (\<forall>i<length xs. switch_event_get_header_idx e (Some n) (int i) = Inr (Some (xs ! i))) \<and>
    add_string SWITCH_STACK_BOTTOM n (Some (array_value xs)) blank_event = Inr e"
proof -
  let ?e = "with_headers [array_header n xs] blank_event"
  have no: "\<not> has_header blank_event n" by (simp add: has_header_def blank_event_ok)
  have len: "length (ev_headers blank_event) < 1000000" by (simp add: blank_event_ok)
  have ne: "xs \<noteq> []" using assms(2) by auto
  have push: "for_each (\<lambda>x. add_string SWITCH_STACK_PUSH n (Some x)) xs blank_event = Inr ?e"
    using push_all [OF blank_event_ok(1) len assms(1) no ne assms(4)] by (simp add: add_string_fun blank_event_ok)
  have draw: "add_string SWITCH_STACK_BOTTOM n (Some (array_value xs)) blank_event = Inr ?e"
    using add_drawn_array [OF blank_event_ok(1) len assms(1) _ assms(2-4), of SWITCH_STACK_BOTTOM] no
    by (simp add: add_string_eq blank_event_ok)
  have inv: "ev_inv ?e" by (simp add: ev_inv_with_headers)
  have sn: "same_name n (array_header n xs)" by (simp add: same_name_def strcasecmp_eq_def array_header_def)
  have ptr: "switch_event_get_header_ptr ?e (Some n) = Some 0"
    using get_ptr_snoc [OF inv, of "[]"] sn by simp
  have "switch_event_get_header_idx ?e (Some n) (int i) = Inr (Some (xs ! i))" if "i < length xs" for i
    using that ptr by (simp add: switch_event_get_header_idx_def array_header_def)
  moreover have "switch_event_get_header ?e (Some n) = Inr (Some (array_value xs))"
    using ptr by (simp add: switch_event_get_header_def switch_event_get_header_idx_def array_header_def)
  ultimately show ?thesis using push draw by blast
qed

theorem event_array_roundtrip_witness:
  "\<exists>e. for_each (\<lambda>x. add_string SWITCH_STACK_PUSH ''x'' (Some x)) [''a|'', [], '':b''] blank_event = Inr e \<and>
    switch_event_get_header e (Some ''x'') = Inr (Some ''ARRAY::a||:|::b'') \<and>
    (\<forall>i<length [''a|'', [], '':b'']. switch_event_get_header_idx e (Some ''x'') (int i) = Inr (Some ([''a|'', [], '':b''] ! i))) \<and>
    add_string SWITCH_STACK_BOTTOM ''x'' (Some ''ARRAY::a||:|::b'') blank_event = Inr e"
  using event_array_roundtrip [of "''x''" "[''a|'', [], '':b'']"]
  by (simp add: plain_name_def plain_data_def array_value_def)

text \<open>Duplicating an event whose headers have pairwise different names and hold plain values, or
  arrays whose first element is a plain value, gives the same event, except that the priority is
  not copied.\<close>

theorem event_dup_identity:
  assumes "ev_inv e" and "uniq_names e" and "\<forall>h\<in>set (ev_headers e). copyable h"
    and "length (ev_headers e) < 1000000" and "ev_subclass_name e = None"
  shows "switch_event_dup env e = Inr (SWITCH_STATUS_SUCCESS, Some (e\<lparr>ev_priority := SWITCH_PRIORITY_NORMAL\<rparr>))"
proof -
  let ?s = "blank_event\<lparr>ev_event_id := ev_event_id e, ev_event_user_data := ev_event_user_data e,
      ev_bind_user_data := ev_bind_user_data e, ev_flags := ev_flags e\<rparr>"
  have s: "ev_inv ?s" "ev_headers ?s = []" by (simp_all add: blank_event_def ev_inv_def tail_of_def)
  have cp: "copied_headers e = ev_headers e" using assms(5) by (simp add: copied_headers_def filter_id_conv)
  have "for_each (\<lambda>hp. copy_header (eh_name hp) hp) (ev_headers e) ?s = Inr (with_headers (ev_headers e) ?s)"
    using copy_all [OF assms(3) s(1)] assms(2,4) unfolding s(2) by (simp add: uniq_names_def)
  then show ?thesis
    using assms(1,5)
    by (simp add: switch_event_dup_def create_clone cp)
       (simp add: with_headers_def blank_event_def ev_inv_def split: option.splits)
qed

definition demo_event :: switch_event where
  "demo_event = with_headers [scalar_header ''Caller'' ''1000'', array_header ''via'' [''a'', ''b'']] blank_event"

lemma demo_event_ok:
  "ev_inv demo_event" "uniq_names demo_event" "\<forall>h\<in>set (ev_headers demo_event). copyable h"
  "length (ev_headers demo_event) < 1000000" "ev_subclass_name demo_event = None"
  by (simp_all add: demo_event_def ev_inv_with_headers uniq_names_def c_tolower_def lower_lane_def copyable_def
      plain_name_def plain_data_def)
     (simp_all add: scalar_header_def array_header_def plain_name_def plain_data_def c_tolower_def lower_lane_def
      with_headers_def blank_event_def)

theorem event_dup_identity_witness:
  "switch_event_dup \<lparr>de_uuid = None, de_hostname = None, de_switchname = None, de_ipv4 = [], de_ipv6 = [],
      de_date_local = [], de_date_gmt = [], de_timestamp = [], de_file = None, de_func = None, de_line = [], de_sequence = []\<rparr>
    demo_event = Inr (SWITCH_STATUS_SUCCESS, Some (demo_event\<lparr>ev_priority := SWITCH_PRIORITY_NORMAL\<rparr>))"
  by (rule event_dup_identity [OF demo_event_ok])

text \<open>Duplicating an event loses the leading empty elements of an array, so the elements behind
  them change their index: the copy of an array whose first element is empty is the copy of the rest
  of the array.\<close>

theorem event_copy_drops_leading_empty:
  assumes "ev_inv e" and "length (ev_headers e) < 1000000" and "plain_name (eh_name h)" and "\<not> has_header e (eh_name h)"
    and "xs \<noteq> []"
  shows "copy_header (eh_name h) (h\<lparr>eh_array := [] # xs\<rparr>) e = copy_header (eh_name h) (h\<lparr>eh_array := xs\<rparr>) e"
proof -
  let ?n = "eh_name h"
  have sp: "split_index ?n = (?n, None)" and wb: "with_body ?n [] e = e"
    using assms(3) by (simp_all add: plain_name_def split_index_plain)
  have no: "switch_event_get_header_ptr e (Some ?n) = None" using assms(1,4) get_ptr_None by blast
  have "switch_event_base_add_header e SWITCH_STACK_PUSH ?n [] = Inr e"
    using base_add_new [OF sp, of SWITCH_STACK_PUSH "[]" e] del_header_drop [OF assms(1,2), of ?n] no
      drop_header_absent [OF assms(1,4)] unfolding wb by auto
  with assms(5) show ?thesis by (simp add: copy_header_def add_string_eq)
qed

theorem event_copy_drops_leading_empty_witness:
  "copy_header (eh_name (new_header ''x'')) ((new_header ''x'')\<lparr>eh_array := [] # [''b'']\<rparr>) blank_event =
    copy_header (eh_name (new_header ''x'')) ((new_header ''x'')\<lparr>eh_array := [''b'']\<rparr>) blank_event"
  by (rule event_copy_drops_leading_empty)
     (simp_all add: blank_event_ok plain_name_def has_header_def)

text \<open>Assigning to an existing element \<^verbatim>\<open>name[i]\<close> of an array changes the element and leaves the
  value of the header, the drawing of the array, as it was.\<close>

theorem event_element_assignment_not_redrawn:
  assumes "ev_inv e" and "switch_event_get_header_ptr e (Some n) = Some i"
    and "h = ev_headers e ! i" and "j < length (eh_array h)" and "j \<le> 4000"
  shows "\<exists>e'. set_element e stack n (int j) data = Inr e' \<and>
    switch_event_get_header_idx e' (Some n) (int j) = Inr (Some data) \<and>
    switch_event_get_header e' (Some n) = switch_event_get_header e (Some n)"
proof -
  let ?h = "h\<lparr>eh_array := (eh_array h)[j := data]\<rparr>"
  let ?e = "e\<lparr>ev_headers := (ev_headers e)[i := ?h]\<rparr>"
  note i = get_ptr_Some [OF assms(1,2)]
  have h: "header_ok ?h" using assms(1,3) i(1) by (simp add: ev_inv_def header_ok_def)
  have inv: "ev_inv ?e" using set_header_ok(1) [OF assms(1) i(1) h] assms(3) by simp
  have ptr: "switch_event_get_header_ptr ?e (Some n) = Some i"
    using i assms(3) by (intro get_ptr_first [OF inv]) (auto simp: same_name_def)
  have "set_element e stack n (int j) data = Inr ?e"
    using assms by (simp add: set_element_def Let_def)
  moreover have "switch_event_get_header_idx ?e (Some n) (int j) = Inr (Some data)"
    using ptr i(1) assms(4) by (simp add: switch_event_get_header_idx_def)
  moreover have "switch_event_get_header ?e (Some n) = switch_event_get_header e (Some n)"
    using ptr i(1) assms(2,3) by (simp add: switch_event_get_header_def switch_event_get_header_idx_def)
  ultimately show ?thesis by blast
qed

theorem event_element_assignment_not_redrawn_witness:
  "\<exists>e'. set_element (with_headers [array_header ''x'' [''a'', ''b'']] blank_event) SWITCH_STACK_BOTTOM ''x'' (int 0) ''new'' = Inr e' \<and>
    switch_event_get_header_idx e' (Some ''x'') (int 0) = Inr (Some ''new'') \<and>
    switch_event_get_header e' (Some ''x'') =
      switch_event_get_header (with_headers [array_header ''x'' [''a'', ''b'']] blank_event) (Some ''x'')"
  by (rule event_element_assignment_not_redrawn [where i = 0])
     (simp_all add: ev_inv_with_headers, simp_all add: switch_event_get_header_ptr_def header_matches_def array_header_def
       strcasecmp_eq_def)

section \<open>Serialization\<close>

text \<open>The text of an event whose values are written in brackets.\<close>

definition header_line :: "switch_event_header \<Rightarrow> string" where
  "header_line h = eh_name h @ '': ['' @ the (eh_value h) @ '']'' @ newline"

definition body_text :: "string option \<Rightarrow> string" where
  "body_text body =
     (case body of
        None \<Rightarrow> newline
      | Some b \<Rightarrow> if b = [] then newline
                  else ''Content-Length: '' @ show_nat (length b) @ newline @ newline @ b)"

definition roomy :: "nat \<Rightarrow> serial_state \<Rightarrow> bool" where
  "roomy L st \<longleftrightarrow> length (ss_text st) \<le> L \<and> length (ss_text st) + 5 \<le> ss_dlen st \<and> ss_dlen st \<le> 2 * L + 2048 \<and> 1536 \<le> ss_encode_len st"

text \<open>Texts of at most \<open>L\<close> characters keep all sizes in range.\<close>

lemma grown_dlen_room:
  assumes "len + llen \<le> L + 64" and "dlen \<le> 2 * L + 2048" and "4 * L + 4096 < size_mod"
  shows "len + llen \<le> grown_dlen dlen len llen" "dlen \<le> grown_dlen dlen len llen" "grown_dlen dlen len llen \<le> 2 * L + 2048"
proof -
  have a: "size_add len llen = len + llen" using assms by (intro size_add_eq) linarith
  have b: "size_add 512 (len + llen) = 512 + (len + llen)" using assms by (intro size_add_eq) linarith
  have c: "size_add dlen (512 + (len + llen)) = dlen + (512 + (len + llen))" if "dlen < len + llen"
    using that assms by (intro size_add_eq) linarith
  have g: "grown_dlen dlen len llen = (if dlen < len + llen then dlen + (512 + (len + llen)) else dlen)"
    using c by (simp add: grown_dlen_def a b)
  show "len + llen \<le> grown_dlen dlen len llen" "dlen \<le> grown_dlen dlen len llen" "grown_dlen dlen len llen \<le> 2 * L + 2048"
    unfolding g using assms by (auto split: if_splits)
qed

lemma snprintf_all: "length s < n \<Longrightarrow> snprintf_keep n s = s"
  by (simp add: snprintf_keep_def)

lemma print_behind_all: "length buf + length s < dlen \<Longrightarrow> dlen < size_mod \<Longrightarrow> print_behind buf dlen s = Inr (buf @ s)"
  by (simp add: print_behind_def size_sub_eq snprintf_all Let_def)

lemma serialize_scalar:
  assumes "roomy L st" and "eh_array h = []" and "eh_value h \<noteq> None" and "length (ss_text st) + length (header_line h) \<le> L" and "4 * L + 4096 < size_mod"
  shows "\<exists>st'. serialize_header False h st = Inr st' \<and> roomy L st' \<and> ss_text st' = ss_text st @ header_line h"
proof -
  obtain v where v: "eh_value h = Some v" using assms(3) by auto
  define el where "el = (if ss_encode_len st < (length v * 3 + 1) mod size_mod then (length v * 3 + 1) mod size_mod else ss_encode_len st)"
  define llen where "llen = (length (eh_name h) + length (''['' @ v @ '']'') + 8) mod size_mod"
  define dl where "dl = grown_dlen (ss_dlen st) (length (ss_text st)) llen"
  have hl: "length (header_line h) = length (eh_name h) + length v + 5" by (simp add: header_line_def v)
  have len: "(length v * 3 + 1) mod size_mod = length v * 3 + 1" using assms(4,5) hl by (intro mod_less) linarith
  have llen: "llen = length (header_line h) + 5" using assms(4,5) hl unfolding llen_def by (subst mod_less) simp_all
  have "length (''['' @ v @ '']'') < el" using assms(1) unfolding el_def len by (auto simp: roomy_def)
  then have enc: "snprintf_keep el (''['' @ v @ '']'') = ''['' @ v @ '']''" by (rule snprintf_all)
  have "length (ss_text st) + llen \<le> L + 64" "ss_dlen st \<le> 2 * L + 2048" using assms(1,4) llen by (simp_all add: roomy_def)
  note room = grown_dlen_room [OF this assms(5), folded dl_def]
  have line: "print_behind (ss_text st) dl (eh_name h @ '': '' @ (''['' @ v @ '']'') @ newline) = Inr (ss_text st @ header_line h)"
    using room llen assms(5) by (subst print_behind_all) (simp_all add: header_line_def v)
  have "roomy L \<lparr>ss_text = ss_text st @ header_line h, ss_dlen = dl, ss_encode_len = el\<rparr>"
    using room llen assms(1,4) by (simp add: roomy_def el_def)
  moreover have "serialize_header False h st =
      Inr \<lparr>ss_text = ss_text st @ header_line h, ss_dlen = dl, ss_encode_len = el\<rparr>"
    by (simp only: serialize_header_def v option.case Let_def assms(2) simp_thms if_False el_def [symmetric] enc
        and_then_simps append_is_Nil_conv list.distinct llen_def [symmetric] dl_def [symmetric] line)
  ultimately show ?thesis by simp
qed

lemma serialize_scalars:
  assumes "4 * L + 4096 < size_mod"
  shows "roomy L st \<Longrightarrow> \<forall>h\<in>set hs. eh_array h = [] \<and> eh_value h \<noteq> None \<Longrightarrow> length (ss_text st) + length (concat (map header_line hs)) \<le> L \<Longrightarrow>
   \<exists>st'. for_each (serialize_header False) hs st = Inr st' \<and> roomy L st' \<and>
     ss_text st' = ss_text st @ concat (map header_line hs)"
proof (induction hs arbitrary: st)
  case (Cons h hs)
  have "length (ss_text st) + length (header_line h) \<le> L" using Cons.prems(3) by simp
  then obtain st1 where "serialize_header False h st = Inr st1" "roomy L st1" "ss_text st1 = ss_text st @ header_line h"
    using serialize_scalar [OF Cons.prems(1) _ _ _ assms] Cons.prems(2) by auto
  with Cons.IH [of st1] Cons.prems(2,3) show ?case by auto
qed simp

lemma show_nat_length: "n < 10 ^ k \<Longrightarrow> 0 < k \<Longrightarrow> length (show_nat n) \<le> k"
proof (induction k arbitrary: n)
  case (Suc k)
  show ?case
  proof (cases "n < 10")
    case False
    then have "n div 10 < 10 ^ k" "0 < k" using Suc.prems(1) by (auto intro!: less_mult_imp_div_less simp: mult.commute) (cases k; simp)
    with Suc.IH False show ?thesis by (subst show_nat.simps) simp
  qed (subst show_nat.simps, simp)
qed simp

text \<open>C36: The plain serialization of an event whose headers are no arrays is exactly one line per
  header, in order, followed by the body with its length (bodies below a million characters) or by
  an empty line, as long as the whole text is short enough, below about \<open>2 ^ 30\<close> characters, that no size wraps around.\<close>

theorem event_serialize_exact:
  assumes "\<forall>h\<in>set (ev_headers e). eh_array h = [] \<and> eh_value h \<noteq> None"
    and "case ev_body e of None \<Rightarrow> True | Some b \<Rightarrow> length b < 1000000"
    and "4 * length (concat (map header_line (ev_headers e)) @ body_text (ev_body e)) + 4096 < size_mod"
  shows "switch_event_serialize e False =
    Inr (SWITCH_STATUS_SUCCESS, concat (map header_line (ev_headers e)) @ body_text (ev_body e))"
proof -
  define L where "L = length (concat (map header_line (ev_headers e)) @ body_text (ev_body e))"
  have small: "4 * L + 4096 < size_mod" using assms(3) by (simp add: L_def)
  let ?st = "\<lparr>ss_text = [], ss_dlen = 1024, ss_encode_len = 1536\<rparr>"
  obtain st where st: "for_each (serialize_header False) (ev_headers e) ?st = Inr st" "roomy L st"
    "ss_text st = concat (map header_line (ev_headers e))"
    using serialize_scalars [OF small, of ?st "ev_headers e"] assms(1) by (auto simp: roomy_def L_def)
  let ?len = "length (ss_text st)"
  have "print_behind (ss_text st) (ss_dlen st) newline = Inr (ss_text st @ newline)"
    using st(2) small by (intro print_behind_all) (simp_all add: roomy_def)
  moreover have "print_behind (ss_text st) (grown_dlen (ss_dlen st) ?len 5) newline = Inr (ss_text st @ newline)"
    using st(2) small grown_dlen_room [of ?len 5 L "ss_dlen st"] by (intro print_behind_all) (simp_all add: roomy_def)
  moreover have "print_behind (ss_text st) (grown_dlen (ss_dlen st) ?len (length b + 25)) (''Content-Length: '' @ show_nat (length b) @ newline @ newline @ b) =
      Inr (ss_text st @ ''Content-Length: '' @ show_nat (length b) @ newline @ newline @ b)" if b: "ev_body e = Some b" "b \<noteq> []" for b
  proof -
    have "length (show_nat (length b)) \<le> 6" using show_nat_length [of "length b" 6] assms(2) b by simp
    moreover have "?len + (length b + 25) \<le> L + 64" using b by (simp add: L_def body_text_def st(3))
    ultimately show ?thesis using st(2) small grown_dlen_room [of ?len "length b + 25" L "ss_dlen st"]
      by (intro print_behind_all) (simp_all add: roomy_def)
  qed
  moreover have "unat (of_nat (length b) :: uint32_t) = length b" "sint (of_nat (length b) :: uint32_t) = int (length b)"
    "size_add (length b) 25 = length b + 25" "(of_nat (length b) :: uint32_t) = 0 \<longleftrightarrow> b = []" if "ev_body e = Some b" for b
  proof -
    have l: "length b < 1000000" using assms(2) that by simp
    show u: "unat (of_nat (length b) :: uint32_t) = length b" using l by (simp add: unat_of_nat)
    show "sint (of_nat (length b) :: uint32_t) = int (length b)" using l by (simp add: signed_of_nat signed_take_bit_int_eq_self)
    show "size_add (length b) 25 = length b + 25" using l by (intro size_add_eq) (simp add: size_mod_def)
    show "(of_nat (length b) :: uint32_t) = 0 \<longleftrightarrow> b = []" using u by (metis length_0_conv unat_eq_zero)
  qed
  moreover have "size_add 0 5 = 5" by (simp add: size_add_def size_mod_def)
  ultimately show ?thesis using st(1,3)
    by (cases "ev_body e") (simp_all add: switch_event_serialize_def body_text_def show_int_def Let_def)
qed

theorem event_serialize_exact_witness:
  "switch_event_serialize (with_headers [scalar_header ''a'' ''1''] blank_event\<lparr>ev_body := Some ''hi''\<rparr>) False =
    Inr (SWITCH_STATUS_SUCCESS, ''a: [1]'' @ newline @ ''Content-Length: '' @ show_nat 2 @ newline @ newline @ ''hi'')"
proof -
  let ?e = "with_headers [scalar_header ''a'' ''1''] blank_event\<lparr>ev_body := Some ''hi''\<rparr>"
  have t: "concat (map header_line (ev_headers ?e)) @ body_text (ev_body ?e) = ''a: [1]'' @ newline @ ''Content-Length: '' @ show_nat 2 @ newline @ newline @ ''hi''"
    by (simp add: with_headers_def scalar_header_def header_line_def body_text_def numeral_2_eq_2)
  have "length (show_nat 2) \<le> 1" using show_nat_length [of 2 1] by simp
  then have "4 * length (concat (map header_line (ev_headers ?e)) @ body_text (ev_body ?e)) + 4096 < size_mod" unfolding t by (simp add: size_mod_def)
  moreover have "\<forall>h\<in>set (ev_headers ?e). eh_array h = [] \<and> eh_value h \<noteq> None" by (simp add: with_headers_def scalar_header_def)
  ultimately show ?thesis using event_serialize_exact [of ?e] unfolding t by simp
qed

lemma joined_empty_length: "0 < n \<Longrightarrow> length (joined d (replicate n [])) = (n - 1) * length d"
proof (induction n)
  case (Suc n)
  show ?case
  proof (cases n)
    case (Suc m)
    then have "joined d (replicate (Suc n) []) = d @ joined d (replicate n [])" by simp
    with Suc.IH Suc show ?thesis by simp
  qed simp
qed simp

lemma array_space_replicate: "k + n < size_mod \<Longrightarrow> array_space (replicate n []) k = k + n"
proof (induction n arbitrary: k)
  case (Suc n)
  have "size_add k (1 mod size_mod) = k + 1" using Suc.prems by (simp add: size_add_def)
  then show ?case using Suc by simp
qed simp

text \<open>The buffer for one value is sized by the lengths of the elements of an array, not by the
  length of the drawing, which has two delimiter characters more per element. An array of at least
  1600 empty elements is cut: its line has fewer characters than its value.\<close>

theorem event_serialize_truncates:
  assumes "1600 \<le> n" and "h = array_header name (replicate n [])" and "4 * (length name + n) + 8192 < size_mod"
  shows "\<exists>text. switch_event_serialize (with_headers [h] blank_event) False = Inr (SWITCH_STATUS_SUCCESS, text) \<and>
    length text < length (header_line h)"
proof -
  let ?st = "\<lparr>ss_text = [], ss_dlen = 1024, ss_encode_len = 1536\<rparr>"
  define v where "v = array_value (replicate n [])"
  define enc where "enc = snprintf_keep n (''['' @ v @ '']'')"
  define llen where "llen = (length name + length enc + 8) mod size_mod"
  define line where "line = name @ '': '' @ enc @ newline"
  define dl where "dl = grown_dlen 1024 0 llen"
  have v: "length v = 2 * n + 5" using assms(1) joined_empty_length [of n "''|:''"] by (simp add: v_def array_value_def)
  have el: "length enc = n - 1" using assms(1) v by (simp add: enc_def snprintf_keep_def)
  then have ne: "enc \<noteq> []" using assms(1) by auto
  have ll: "length line = length name + n + 2" using assms(1) el by (simp add: line_def)
  have llen: "llen = length name + n + 7" unfolding llen_def using assms(1,3) el by (subst mod_less) simp_all
  have room: "llen \<le> dl" "dl < size_mod"
    using grown_dlen_room [of 0 llen "length name + n" 1024] llen assms(3) by (simp_all add: dl_def)
  have new: "(if ss_encode_len ?st < (if eh_array h \<noteq> [] then array_space (eh_array h) 0 else (length v * 3 + 1) mod size_mod)
      then (if eh_array h \<noteq> [] then array_space (eh_array h) 0 else (length v * 3 + 1) mod size_mod) else ss_encode_len ?st) = n"
    using assms array_space_replicate [of 0 n] by (simp add: array_header_def)
  have h: "eh_value h = Some v" "eh_name h = name" using assms(2) by (simp_all add: array_header_def v_def)
  have p: "print_behind [] dl line = Inr line" "print_behind line dl newline = Inr (line @ newline)"
    using room ll llen by (subst print_behind_all; simp)+
  have "serialize_header False h ?st = Inr \<lparr>ss_text = line, ss_dlen = dl, ss_encode_len = n\<rparr>"
    unfolding serialize_header_def h option.case Let_def new
    by (simp only: if_False enc_def [symmetric] and_then_simps serial_state.simps list.size append_Nil ne
        llen_def [symmetric] dl_def [symmetric] line_def [symmetric] p)
  then have "switch_event_serialize (with_headers [h] blank_event) False = Inr (SWITCH_STATUS_SUCCESS, line @ newline)"
    by (simp add: switch_event_serialize_def Let_def with_headers_def blank_event_def p)
  moreover have "length (line @ newline) < length (header_line h)"
    using ll v h assms(1) by (simp add: header_line_def)
  ultimately show ?thesis by blast
qed

theorem event_serialize_truncates_witness:
  "\<exists>text. switch_event_serialize (with_headers [array_header ''x'' (replicate 1600 [])] blank_event) False =
      Inr (SWITCH_STATUS_SUCCESS, text) \<and> length text < length (header_line (array_header ''x'' (replicate 1600 [])))"
proof (rule event_serialize_truncates [of 1600])
  have "length ''x'' = 1" by simp
  then show "4 * (length ''x'' + 1600) + 8192 < size_mod" unfolding size_mod_def by simp
qed simp_all

end
