(* ===== verification/FS_Core_Hash.thy ===== *)
theory FS_Core_Hash
  imports FS_Event
begin

text \<open>
  \<^verbatim>\<open>src/switch_core_hash.c\<close>: the hash API of the core, over the tables of \<^verbatim>\<open>FS_Hashtable\<close>.

  The contract of such a table is the locale \<open>eq_map\<close>: the table represents a list of bindings with
  pairwise different keys up to the table's key equality, and every operation acts on that list.
  Inside the locale any sequence of calls is shown to give the results of the list, and every key
  copy and every destructor is accounted for. It is interpreted on the case sensitive, the case
  insensitive and the integer tables.
\<close>

section \<open>Operations\<close>

text \<open>The outcome of the allocations of an insertion: the copy of the key, the memory to grow the
  table, the new entry.\<close>

record hash_alloc =
  key_ok :: bool
  expand_mem :: expand_memory
  entry_ok :: bool

definition core_insert_flags :: uint32_t where
  "core_insert_flags = HASHTABLE_FLAG_FREE_KEY OR HASHTABLE_DUP_CHECK"

definition insert_status :: "int \<times> 'a \<Rightarrow> (switch_status_t \<times> 'a) c_result" where
  "insert_status p = Inr (if fst p \<noteq> 0 then SWITCH_STATUS_SUCCESS else SWITCH_STATUS_FALSE, snd p)"

definition switch_core_hash_init_case ::
  "bool \<Rightarrow> bool \<Rightarrow> (switch_status_t \<times> (string, 'v) switch_hashtable option) c_result" where
  "switch_core_hash_init_case mem_ok case_sensitive =
     (if case_sensitive then switch_create_hashtable mem_ok 16 switch_hash_default switch_hash_equalkeys
      else switch_create_hashtable mem_ok 16 switch_hash_default_ci switch_hash_equalkeys_ci)"

definition switch_core_hash_destroy ::
  "(string, 'v) switch_hashtable option \<Rightarrow> (switch_status_t \<times> (string, 'v) ht_effect list) c_result" where
  "switch_core_hash_destroy hash =
     (case hash of
        None \<Rightarrow> Inl Assert_Failed
      | Some h \<Rightarrow> Inr (SWITCH_STATUS_SUCCESS, switch_hashtable_destroy h))"

text \<open>A key that could not be copied is a null pointer, which the hash function follows.\<close>

definition switch_core_hash_insert_destructor ::
  "hash_alloc \<Rightarrow> (string, 'v) switch_hashtable \<Rightarrow> string \<Rightarrow> 'v option \<Rightarrow> nat option \<Rightarrow>
   (switch_status_t \<times> (string, 'v) ht_effect list \<times> (string, 'v) switch_hashtable) c_result" where
  "switch_core_hash_insert_destructor a hash key data destructor =
     (if \<not> key_ok a then Inl Null_Access
      else and_then
        (switch_hashtable_insert_destructor (expand_mem a) (entry_ok a) hash key data
           core_insert_flags destructor)
        insert_status)"

definition switch_core_hash_insert ::
  "hash_alloc \<Rightarrow> (string, 'v) switch_hashtable \<Rightarrow> string \<Rightarrow> 'v option \<Rightarrow>
   (switch_status_t \<times> (string, 'v) ht_effect list \<times> (string, 'v) switch_hashtable) c_result" where
  "switch_core_hash_insert a hash key data = switch_core_hash_insert_destructor a hash key data None"

definition switch_core_hash_delete ::
  "(string, 'v) switch_hashtable \<Rightarrow> string \<Rightarrow>
   'v option \<times> (string, 'v) ht_effect list \<times> (string, 'v) switch_hashtable" where
  "switch_core_hash_delete hash key = switch_hashtable_remove hash key"

definition switch_core_hash_find :: "(string, 'v) switch_hashtable \<Rightarrow> string \<Rightarrow> 'v option" where
  "switch_core_hash_find hash key = switch_hashtable_search hash key"

definition switch_core_hash_empty :: "('k, 'v) switch_hashtable \<Rightarrow> bool" where
  "switch_core_hash_empty hash \<longleftrightarrow> switch_hashtable_first_iter hash = None"

text \<open>The variants with an optional lock return the calls made on the lock beside the result.\<close>

datatype lock_call = Mutex_Lock nat | Mutex_Unlock nat | Rw_Wrlock nat | Rw_Rdlock nat | Rw_Unlock nat

definition under_lock :: "(nat \<Rightarrow> lock_call) \<Rightarrow> (nat \<Rightarrow> lock_call) \<Rightarrow> nat option \<Rightarrow> 'a \<Rightarrow> lock_call list \<times> 'a" where
  "under_lock lock unlock m r = (case m of None \<Rightarrow> ([], r) | Some i \<Rightarrow> ([lock i, unlock i], r))"

definition switch_core_hash_insert_locked where
  "switch_core_hash_insert_locked a hash key data mutex =
     under_lock Mutex_Lock Mutex_Unlock mutex (switch_core_hash_insert a hash key data)"

definition switch_core_hash_insert_wrlock where
  "switch_core_hash_insert_wrlock a hash key data rwlock =
     under_lock Rw_Wrlock Rw_Unlock rwlock (switch_core_hash_insert a hash key data)"

definition switch_core_hash_delete_locked where
  "switch_core_hash_delete_locked hash key mutex =
     under_lock Mutex_Lock Mutex_Unlock mutex (switch_core_hash_delete hash key)"

definition switch_core_hash_delete_wrlock where
  "switch_core_hash_delete_wrlock hash key rwlock =
     under_lock Rw_Wrlock Rw_Unlock rwlock (switch_core_hash_delete hash key)"

definition switch_core_hash_find_locked where
  "switch_core_hash_find_locked hash key mutex =
     under_lock Mutex_Lock Mutex_Unlock mutex (switch_core_hash_find hash key)"

definition switch_core_hash_find_rdlock where
  "switch_core_hash_find_rdlock hash key rwlock =
     under_lock Rw_Rdlock Rw_Unlock rwlock (switch_core_hash_find hash key)"

definition switch_core_inthash_init ::
  "bool \<Rightarrow> (switch_status_t \<times> (uint32_t, 'v) switch_hashtable option) c_result" where
  "switch_core_inthash_init mem_ok =
     switch_create_hashtable mem_ok 16 switch_hash_default_int switch_hash_equalkeys_int"

definition switch_core_inthash_destroy ::
  "(uint32_t, 'v) switch_hashtable option \<Rightarrow> (switch_status_t \<times> (uint32_t, 'v) ht_effect list) c_result" where
  "switch_core_inthash_destroy hash =
     (case hash of
        None \<Rightarrow> Inl Null_Access
      | Some h \<Rightarrow> Inr (SWITCH_STATUS_SUCCESS, switch_hashtable_destroy h))"

definition switch_core_inthash_insert ::
  "hash_alloc \<Rightarrow> (uint32_t, 'v) switch_hashtable \<Rightarrow> uint32_t \<Rightarrow> 'v option \<Rightarrow>
   (switch_status_t \<times> (uint32_t, 'v) ht_effect list \<times> (uint32_t, 'v) switch_hashtable) c_result" where
  "switch_core_inthash_insert a hash key data =
     (if \<not> key_ok a then Inl Aborted
      else and_then
        (switch_hashtable_insert_destructor (expand_mem a) (entry_ok a) hash key data
           core_insert_flags None)
        insert_status)"

definition switch_core_inthash_delete ::
  "(uint32_t, 'v) switch_hashtable \<Rightarrow> uint32_t \<Rightarrow>
   'v option \<times> (uint32_t, 'v) ht_effect list \<times> (uint32_t, 'v) switch_hashtable" where
  "switch_core_inthash_delete hash key = switch_hashtable_remove hash key"

definition switch_core_inthash_find :: "(uint32_t, 'v) switch_hashtable \<Rightarrow> uint32_t \<Rightarrow> 'v option" where
  "switch_core_inthash_find hash key = switch_hashtable_search hash key"

text \<open>\<^verbatim>\<open>switch_core_hash_delete_multi\<close> collects the selected keys as headers of an event while it walks
  the table, and deletes them afterwards. Without a callback every key is selected. The walk is
  complete with as much fuel as there are entries.\<close>

definition collect_keys ::
  "(string \<Rightarrow> 'v option \<Rightarrow> bool) option \<Rightarrow> (string \<times> 'v option) list \<Rightarrow> switch_event \<Rightarrow> switch_event c_result" where
  "collect_keys callback kvs event =
     for_each (\<lambda>(key, val) event.
       if (case callback of None \<Rightarrow> True | Some f \<Rightarrow> f key val)
       then add_string SWITCH_STACK_BOTTOM ''delete'' (Some key) event else Inr event) kvs event"

fun delete_collected ::
  "switch_event_header list \<Rightarrow> (string, 'v) switch_hashtable \<Rightarrow> switch_status_t \<Rightarrow>
   (switch_status_t \<times> (string, 'v) ht_effect list \<times> (string, 'v) switch_hashtable) c_result" where
  "delete_collected [] hash status = Inr (status, [], hash)"
| "delete_collected (header # hs) hash status =
     (case eh_value header of
        None \<Rightarrow> Inl Null_Access
      | Some key \<Rightarrow>
          (case switch_core_hash_delete hash key of
             (v, eff, hash) \<Rightarrow>
               and_then (delete_collected hs hash (if v \<noteq> None then SWITCH_STATUS_SUCCESS else status))
                 (\<lambda>(status, effs, hash). Inr (status, eff @ effs, hash))))"

definition switch_core_hash_delete_multi ::
  "delivery_env \<Rightarrow> (string, 'v) switch_hashtable \<Rightarrow> (string \<Rightarrow> 'v option \<Rightarrow> bool) option \<Rightarrow>
   (switch_status_t \<times> (string, 'v) ht_effect list \<times> (string, 'v) switch_hashtable) c_result" where
  "switch_core_hash_delete_multi env hash callback =
     and_then (switch_event_create_subclass_detailed env SWITCH_EVENT_CLONE None) (\<lambda>(_, event).
       case event of
         None \<Rightarrow> Inl Assert_Failed
       | Some event \<Rightarrow>
           (case ht_walk (length (concat (ht_table hash))) hash (switch_hashtable_first_iter hash) of
              None \<Rightarrow> Inl Wild_Access
            | Some kvs \<Rightarrow>
                and_then (collect_keys callback kvs event) (\<lambda>event.
                  delete_collected (ev_headers event) hash SWITCH_STATUS_GENERR)))"

section \<open>Specification\<close>

text \<open>A binding is a key, its value and the destructor of the value.\<close>

type_synonym ('k, 'v) binding = "'k \<times> 'v option \<times> nat option"

definition bindings_of :: "('k \<Rightarrow> 'k \<Rightarrow> bool) \<Rightarrow> 'k \<Rightarrow> ('k, 'v) binding list \<Rightarrow> ('k, 'v) binding list" where
  "bindings_of eq k bs = filter (\<lambda>b. eq k (fst b)) bs"

definition bindings_without :: "('k \<Rightarrow> 'k \<Rightarrow> bool) \<Rightarrow> 'k \<Rightarrow> ('k, 'v) binding list \<Rightarrow> ('k, 'v) binding list" where
  "bindings_without eq k bs = filter (\<lambda>b. \<not> eq k (fst b)) bs"

definition spec_find :: "('k \<Rightarrow> 'k \<Rightarrow> bool) \<Rightarrow> 'k \<Rightarrow> ('k, 'v) binding list \<Rightarrow> 'v option" where
  "spec_find eq k bs = (case bindings_of eq k bs of [] \<Rightarrow> None | (_, v, _) # _ \<Rightarrow> v)"

text \<open>Deleting hands the value back, unless its destructor has consumed it.\<close>

definition spec_taken :: "('k \<Rightarrow> 'k \<Rightarrow> bool) \<Rightarrow> 'k \<Rightarrow> ('k, 'v) binding list \<Rightarrow> 'v option" where
  "spec_taken eq k bs =
     (case bindings_of eq k bs of [] \<Rightarrow> None | (_, v, d) # _ \<Rightarrow> (if d = None then v else None))"

text \<open>What becomes of a binding that leaves the table: its key copy is freed and its destructor is
  called.\<close>

definition released :: "('k, 'v) binding \<Rightarrow> ('k, 'v) ht_effect list" where
  "released b =
     Free_Key (fst b) #
       (case snd (snd b) of None \<Rightarrow> [] | Some d \<Rightarrow> [Call_Destructor d (fst (snd b))])"

datatype ('k, 'v) hash_call =
    Hash_Insert hash_alloc 'k "'v option" "nat option"
  | Hash_Delete 'k
  | Hash_Find 'k
  | Hash_Empty

datatype 'v hash_answer = Answer_Status switch_status_t | Answer_Value "'v option" | Answer_Bool bool

text \<open>A sequence of calls on the specification: the answers and the bindings that remain.\<close>

fun spec_run ::
  "('k \<Rightarrow> 'k \<Rightarrow> bool) \<Rightarrow> ('k, 'v) hash_call list \<Rightarrow> ('k, 'v) binding list \<Rightarrow>
   'v hash_answer list \<times> ('k, 'v) binding list" where
  "spec_run eq [] bs = ([], bs)"
| "spec_run eq (Hash_Insert a k v d # cs) bs =
     (let (rs, bs') = spec_run eq cs
        ((if entry_ok a then [(k, v, d)] else []) @ bindings_without eq k bs)
      in (Answer_Status (if entry_ok a then SWITCH_STATUS_SUCCESS else SWITCH_STATUS_FALSE) # rs, bs'))"
| "spec_run eq (Hash_Delete k # cs) bs =
     (let (rs, bs') = spec_run eq cs (bindings_without eq k bs)
      in (Answer_Value (spec_taken eq k bs) # rs, bs'))"
| "spec_run eq (Hash_Find k # cs) bs =
     (let (rs, bs') = spec_run eq cs bs in (Answer_Value (spec_find eq k bs) # rs, bs'))"
| "spec_run eq (Hash_Empty # cs) bs =
     (let (rs, bs') = spec_run eq cs bs in (Answer_Bool (bs = []) # rs, bs'))"

text \<open>The bindings the calls put into the table.\<close>

fun inserted :: "('k, 'v) hash_call list \<Rightarrow> ('k, 'v) binding list" where
  "inserted [] = []"
| "inserted (Hash_Insert a k v d # cs) = (if entry_ok a then [(k, v, d)] else []) @ inserted cs"
| "inserted (c # cs) = inserted cs"

text \<open>The same calls on a table, with the operations as arguments: the answers, the effects of all
  calls and the final table.\<close>

fun hash_run where
  "hash_run ins del fnd emp [] t = Inr ([], [], t)"
| "hash_run ins del fnd emp (Hash_Insert a k v d # cs) t =
     and_then (ins a t k v d) (\<lambda>(st, eff, t').
     and_then (hash_run ins del fnd emp cs t') (\<lambda>(rs, effs, t''). Inr (Answer_Status st # rs, eff @ effs, t'')))"
| "hash_run ins del fnd emp (Hash_Delete k # cs) t =
     (case del t k of (v, eff, t') \<Rightarrow>
      and_then (hash_run ins del fnd emp cs t') (\<lambda>(rs, effs, t''). Inr (Answer_Value v # rs, eff @ effs, t'')))"
| "hash_run ins del fnd emp (Hash_Find k # cs) t =
     and_then (hash_run ins del fnd emp cs t) (\<lambda>(rs, effs, t'). Inr (Answer_Value (fnd t k) # rs, effs, t'))"
| "hash_run ins del fnd emp (Hash_Empty # cs) t =
     and_then (hash_run ins del fnd emp cs t) (\<lambda>(rs, effs, t'). Inr (Answer_Bool (emp t) # rs, effs, t'))"

definition all_released :: "('k, 'v) binding list \<Rightarrow> ('k, 'v) ht_effect multiset" where
  "all_released bs = mset (concat (map released bs))"

fun admissible :: "(hash_alloc \<Rightarrow> nat option \<Rightarrow> bool) \<Rightarrow> ('k, 'v) hash_call list \<Rightarrow> bool" where
  "admissible adm [] \<longleftrightarrow> True"
| "admissible adm (Hash_Insert a k v d # cs) \<longleftrightarrow> adm a d \<and> admissible adm cs"
| "admissible adm (c # cs) \<longleftrightarrow> admissible adm cs"

lemma all_released_append [simp]: "all_released (xs @ ys) = all_released xs + all_released ys"
  by (simp add: all_released_def)

lemma all_released_split:
  "all_released bs = all_released (bindings_of eq k bs) + all_released (bindings_without eq k bs)"
  by (induction bs) (auto simp: all_released_def bindings_of_def bindings_without_def)

section \<open>The contract of a table\<close>

locale eq_map =
  fixes eq :: "'k \<Rightarrow> 'k \<Rightarrow> bool"
    and rep :: "'t \<Rightarrow> ('k, 'v) binding list \<Rightarrow> bool"
    and adm :: "hash_alloc \<Rightarrow> nat option \<Rightarrow> bool"
    and ins :: "hash_alloc \<Rightarrow> 't \<Rightarrow> 'k \<Rightarrow> 'v option \<Rightarrow> nat option \<Rightarrow>
      (switch_status_t \<times> ('k, 'v) ht_effect list \<times> 't) c_result"
    and del :: "'t \<Rightarrow> 'k \<Rightarrow> 'v option \<times> ('k, 'v) ht_effect list \<times> 't"
    and fnd :: "'t \<Rightarrow> 'k \<Rightarrow> 'v option"
    and emp :: "'t \<Rightarrow> bool"
  assumes insert_law: "rep t bs \<Longrightarrow> adm a d \<Longrightarrow>
      \<exists>eff t'. ins a t k v d =
          Inr (if entry_ok a then SWITCH_STATUS_SUCCESS else SWITCH_STATUS_FALSE, eff, t') \<and>
        rep t' ((if entry_ok a then [(k, v, d)] else []) @ bindings_without eq k bs) \<and>
        mset eff = all_released (bindings_of eq k bs)"
    and delete_law: "rep t bs \<Longrightarrow>
      \<exists>eff t'. del t k = (spec_taken eq k bs, eff, t') \<and> rep t' (bindings_without eq k bs) \<and>
        mset eff = all_released (bindings_of eq k bs)"
    and find_law: "rep t bs \<Longrightarrow> fnd t k = spec_find eq k bs"
    and empty_law: "rep t bs \<Longrightarrow> emp t \<longleftrightarrow> bs = []"
begin

text \<open>Any calls give the answers of the specification, and every binding ever held is either still
  held or has been released once.\<close>

lemma run_refines:
  "rep t bs \<Longrightarrow> admissible adm cs \<Longrightarrow>
   \<exists>effs t'. hash_run ins del fnd emp cs t = Inr (fst (spec_run eq cs bs), effs, t') \<and>
     rep t' (snd (spec_run eq cs bs)) \<and>
     mset effs + all_released (snd (spec_run eq cs bs)) = all_released (bs @ inserted cs)"
proof (induction cs arbitrary: t bs)
  case Nil
  then show ?case by simp
next
  case (Cons c cs)
  show ?case
  proof (cases c)
    case (Hash_Insert a k v d)
    let ?bs = "(if entry_ok a then [(k, v, d)] else []) @ bindings_without eq k bs"
    obtain eff t' where i: "ins a t k v d =
          Inr (if entry_ok a then SWITCH_STATUS_SUCCESS else SWITCH_STATUS_FALSE, eff, t')"
        "rep t' ?bs" "mset eff = all_released (bindings_of eq k bs)"
      using insert_law Cons.prems Hash_Insert by fastforce
    obtain effs t'' where r: "hash_run ins del fnd emp cs t' = Inr (fst (spec_run eq cs ?bs), effs, t'')"
        "rep t'' (snd (spec_run eq cs ?bs))"
        "mset effs + all_released (snd (spec_run eq cs ?bs)) = all_released (?bs @ inserted cs)"
      using Cons.IH [OF i(2)] Cons.prems Hash_Insert by auto
    from i r show ?thesis
      using all_released_split [of bs eq k]
      by (cases "spec_run eq cs ?bs") (simp add: Hash_Insert ac_simps)
  next
    case (Hash_Delete k)
    let ?bs = "bindings_without eq k bs"
    obtain eff t' where i: "del t k = (spec_taken eq k bs, eff, t')" "rep t' ?bs"
        "mset eff = all_released (bindings_of eq k bs)"
      using delete_law Cons.prems by fastforce
    obtain effs t'' where r: "hash_run ins del fnd emp cs t' = Inr (fst (spec_run eq cs ?bs), effs, t'')"
        "rep t'' (snd (spec_run eq cs ?bs))"
        "mset effs + all_released (snd (spec_run eq cs ?bs)) = all_released (?bs @ inserted cs)"
      using Cons.IH [OF i(2)] Cons.prems Hash_Delete by auto
    from i r show ?thesis
      using all_released_split [of bs eq k]
      by (cases "spec_run eq cs ?bs") (simp add: Hash_Delete ac_simps)
  next
    case (Hash_Find k)
    with Cons.IH [OF Cons.prems(1)] Cons.prems find_law [OF Cons.prems(1)] show ?thesis
      by (cases "spec_run eq cs bs") auto
  next
    case Hash_Empty
    with Cons.IH [OF Cons.prems(1)] Cons.prems empty_law [OF Cons.prems(1)] show ?thesis
      by (cases "spec_run eq cs bs") auto
  qed
qed

end

section \<open>The tables meet the contract\<close>

definition binding_of :: "('k, 'v) ht_entry \<Rightarrow> ('k, 'v) binding" where
  "binding_of e = (e_k e, e_v e, e_destructor e)"

definition table_rep ::
  "('k \<Rightarrow> uint32_t) \<Rightarrow> ('k \<Rightarrow> 'k \<Rightarrow> bool) \<Rightarrow> ('k, 'v) switch_hashtable \<Rightarrow> ('k, 'v) binding list \<Rightarrow> bool" where
  "table_rep hf eq h bs \<longleftrightarrow>
     ht_inv h \<and> ht_hashfn h = hf \<and> ht_eqfn h = eq \<and>
     (\<forall>e\<in>#ht_entries h. e_flags e = core_insert_flags) \<and>
     image_mset binding_of (ht_entries h) = mset bs"

lemma binding_of_simps [simp]:
  "fst (binding_of e) = e_k e" "fst (snd (binding_of e)) = e_v e" "snd (snd (binding_of e)) = e_destructor e"
  by (simp_all add: binding_of_def)

lemma core_insert_flags_simps [simp]:
  "test_flag core_insert_flags HASHTABLE_FLAG_FREE_KEY"
  "test_flag core_insert_flags HASHTABLE_DUP_CHECK"
  "\<not> test_flag core_insert_flags HASHTABLE_FLAG_FREE_VALUE"
  by (simp_all add: test_flag_def core_insert_flags_def HASHTABLE_FLAG_FREE_KEY_def
      HASHTABLE_DUP_CHECK_def HASHTABLE_FLAG_FREE_VALUE_def)

lemma release_binding:
  "e_flags e = core_insert_flags \<Longrightarrow> release_key e @ release_value e = released (binding_of e)"
  by (simp add: release_key_def release_value_def released_def split: option.split)

lemma image_mset_filter: "image_mset f (filter_mset (\<lambda>x. P (f x)) M) = filter_mset P (image_mset f M)"
  by (induction M) auto

lemma image_without:
  "image_mset binding_of M = mset bs \<Longrightarrow>
   image_mset binding_of (filter_mset (\<lambda>e. \<not> eq k (e_k e)) M) = mset (bindings_without eq k bs)"
  using image_mset_filter [of binding_of "\<lambda>b. \<not> eq k (fst b)" M] by (simp add: bindings_without_def)

lemma image_matching:
  "image_mset binding_of M = mset bs \<Longrightarrow>
   image_mset binding_of (filter_mset (\<lambda>e. eq k (e_k e)) M) = mset (bindings_of eq k bs)"
  using image_mset_filter [of binding_of "\<lambda>b. eq k (fst b)" M] by (simp add: bindings_of_def)

lemma concat_map_concat: "concat (map (\<lambda>c. concat (map f c)) t) = concat (map f (concat t))"
  by (induction t) simp_all

lemma mset_concat_map: "mset (concat (map f xs)) = (\<Sum>x\<in>#mset xs. mset (f x))"
  by (induction xs) simp_all

context key_class begin

lemma binding_cases:
  assumes "table_rep hf eq h bs"
  obtains (absent) "bindings_of eq k bs = []" "\<forall>e\<in>#ht_entries h. \<not> eq k (e_k e)"
  | (held) e where "e \<in># ht_entries h" "eq k (e_k e)" "bindings_of eq k bs = [binding_of e]"
proof -
  let ?M = "filter_mset (\<lambda>e. eq k (e_k e)) (ht_entries h)"
  have im: "image_mset binding_of ?M = mset (bindings_of eq k bs)"
    using assms image_matching by (auto simp: table_rep_def)
  have le: "size ?M \<le> 1" using assms by (auto simp: table_rep_def ht_inv_def ht_unique_def)
  show ?thesis
  proof (cases "?M = {#}")
    case True
    then have "\<forall>e\<in>#ht_entries h. \<not> eq k (e_k e)"
      by (metis (mono_tags, lifting) empty_iff mem_Collect_eq set_mset_empty set_mset_filter)
    with im True absent show ?thesis by simp
  next
    case False
    then obtain e where e: "e \<in># ?M" by blast
    then obtain N where N: "?M = add_mset e N" by (meson multi_member_split)
    with le have "?M = {#e#}" by simp
    then have "mset (bindings_of eq k bs) = {#binding_of e#}" using im by simp
    with e held show ?thesis by auto
  qed
qed

lemma table_find: "table_rep hf eq h bs \<Longrightarrow> switch_hashtable_search h k = spec_find eq k bs"
  by (rule binding_cases [of h bs k])
     (auto simp: table_rep_def spec_find_def binding_of_def dest: search_hit search_miss)

lemma table_delete:
  assumes rep: "table_rep hf eq h bs"
  shows "\<exists>eff h'. switch_hashtable_remove h k = (spec_taken eq k bs, eff, h') \<and>
    table_rep hf eq h' (bindings_without eq k bs) \<and> mset eff = all_released (bindings_of eq k bs)"
proof -
  have h: "ht_inv h" "ht_hashfn h = hf" "ht_eqfn h = eq" "image_mset binding_of (ht_entries h) = mset bs"
    and fl: "\<forall>e\<in>#ht_entries h. e_flags e = core_insert_flags" using rep by (auto simp: table_rep_def)
  obtain v eff h' where rm: "switch_hashtable_remove h k = (v, eff, h')" by (metis prod.exhaust)
  note R = remove_ok [OF h(1-3) rm]
  have "table_rep hf eq h' (bindings_without eq k bs)"
    using R fl image_without [OF h(4)] by (simp add: table_rep_def)
  moreover have "v = spec_taken eq k bs \<and> mset eff = all_released (bindings_of eq k bs)"
    using rep
  proof (rule binding_cases [of h bs k])
    assume "bindings_of eq k bs = []" "\<forall>e\<in>#ht_entries h. \<not> eq k (e_k e)"
    with remove_miss [OF h(1,3), of k] rm show ?thesis by (simp add: spec_taken_def all_released_def)
  next
    fix e assume e: "e \<in># ht_entries h" "eq k (e_k e)" "bindings_of eq k bs = [binding_of e]"
    with fl have "e_flags e = core_insert_flags" by blast
    with remove_hit [OF h(1-3) e(1,2) rm] e(3) release_binding [of e] show ?thesis
      by (simp add: spec_taken_def all_released_def binding_of_def)
  qed
  ultimately show ?thesis using rm by blast
qed

lemma table_insert:
  assumes rep: "table_rep hf eq h bs" and mem: "mem \<noteq> Realloc_Ok"
  shows "\<exists>eff h'. switch_hashtable_insert_destructor mem ok h k v core_insert_flags d =
      Inr (if ok then - 1 else 0, eff, h') \<and>
    table_rep hf eq h' ((if ok then [(k, v, d)] else []) @ bindings_without eq k bs) \<and>
    mset eff = all_released (bindings_of eq k bs)"
proof -
  have h: "ht_inv h" "ht_hashfn h = hf" "ht_eqfn h = eq" "image_mset binding_of (ht_entries h) = mset bs"
    and fl: "\<forall>e\<in>#ht_entries h. e_flags e = core_insert_flags" using rep by (auto simp: table_rep_def)
  obtain eff h' e where I:
    "switch_hashtable_insert_destructor mem ok h k v core_insert_flags d = Inr (if ok then - 1 else 0, eff, h')"
    "ht_inv h'" "ht_hashfn h' = hf" "ht_eqfn h' = eq" "e_k e = k" "e_v e = v" "e_flags e = core_insert_flags"
    "e_destructor e = d" "eff = fst (snd (switch_hashtable_remove h k))"
    "ht_entries h' = (if ok then {#e#} else {#}) + filter_mset (\<lambda>e. \<not> eq k (e_k e)) (ht_entries h)"
    by (rule insert_ok [OF h(1-3) mem core_insert_flags_simps(2), where entry_ok = ok and k = k and v = v and d = d])
  have "binding_of e = (k, v, d)" using I by (simp add: binding_of_def)
  then have "table_rep hf eq h' ((if ok then [(k, v, d)] else []) @ bindings_without eq k bs)"
    using I fl image_without [OF h(4)] by (auto simp: table_rep_def)
  moreover have "mset eff = all_released (bindings_of eq k bs)"
    using table_delete [OF rep, of k] I(9) by auto
  ultimately show ?thesis using I(1) by blast
qed

lemma table_empty:
  assumes "table_rep hf eq h bs"
  shows "switch_core_hash_empty h \<longleftrightarrow> bs = []"
proof -
  have len: "length (ht_table h) = ht_tablelength h"
    using assms by (simp add: table_rep_def ht_inv_def ht_struct_def placed_def)
  have "switch_hashtable_first_iter h = ht_next_chain h 0"
    by (simp add: switch_hashtable_first_iter_def switch_hashtable_next_def)
  moreover have "case ht_next_chain h 0 of None \<Rightarrow> concat (ht_table h) = [] | Some i \<Rightarrow> concat (ht_table h) \<noteq> []"
    using ht_next_chain_spec [OF len, of 0] it_rest_hd [of h] by (fastforce split: option.splits)
  moreover have "bs = [] \<longleftrightarrow> concat (ht_table h) = []"
  proof -
    have "mset bs = {#} \<longleftrightarrow> mset (concat (ht_table h)) = {#}"
      using assms unfolding table_rep_def ht_entries_def by (metis image_mset_is_empty_iff)
    then show ?thesis by (simp only: mset_zero_iff)
  qed
  ultimately show ?thesis by (auto simp: switch_core_hash_empty_def split: option.splits)
qed

lemma table_destroy:
  assumes "table_rep hf eq h bs"
  shows "mset (switch_hashtable_destroy h) = all_released bs"
proof -
  have "switch_hashtable_destroy h =
      concat (map (\<lambda>e. release_key e @ release_value e) (concat (ht_table h)))"
    unfolding switch_hashtable_destroy_def by (rule concat_map_concat)
  then have "mset (switch_hashtable_destroy h) = (\<Sum>e\<in>#ht_entries h. mset (release_key e @ release_value e))"
    by (simp only: mset_concat_map ht_entries_def)
  also have "\<dots> = (\<Sum>e\<in>#ht_entries h. mset (released (binding_of e)))"
    using assms by (intro arg_cong [where f = sum_mset] image_mset_cong)
      (simp add: table_rep_def release_binding del: mset_append)
  also have "\<dots> = (\<Sum>b\<in>#image_mset binding_of (ht_entries h). mset (released b))"
    by (simp add: image_mset.compositionality comp_def)
  also have "\<dots> = all_released bs"
    using assms by (simp only: table_rep_def all_released_def mset_concat_map)
  finally show ?thesis .
qed

end

text \<open>Growing a table through \<^verbatim>\<open>realloc\<close> is the one outcome of an allocation the code does not
  survive.\<close>

definition alloc_ok :: "hash_alloc \<Rightarrow> bool" where
  "alloc_ok a \<longleftrightarrow> key_ok a \<and> expand_mem a \<noteq> Realloc_Ok"

lemma insert_status_simps [simp]:
  "insert_status (r, x) = Inr (if r \<noteq> 0 then SWITCH_STATUS_SUCCESS else SWITCH_STATUS_FALSE, x)"
  by (simp add: insert_status_def)

interpretation hash_cs: eq_map switch_hash_equalkeys "table_rep switch_hash_default switch_hash_equalkeys"
  "\<lambda>a d. alloc_ok a" switch_core_hash_insert_destructor switch_core_hash_delete switch_core_hash_find
  switch_core_hash_empty
proof
  fix t :: "(string, 'v) switch_hashtable" and bs a k v and d :: "nat option"
  assume rep: "table_rep switch_hash_default switch_hash_equalkeys t bs"
  show "switch_core_hash_find t k = spec_find switch_hash_equalkeys k bs"
    by (simp add: switch_core_hash_find_def keys_str.table_find [OF rep])
  show "switch_core_hash_empty t = (bs = [])" by (rule keys_str.table_empty [OF rep])
  show "\<exists>eff t'. switch_core_hash_delete t k = (spec_taken switch_hash_equalkeys k bs, eff, t') \<and>
      table_rep switch_hash_default switch_hash_equalkeys t' (bindings_without switch_hash_equalkeys k bs) \<and>
      mset eff = all_released (bindings_of switch_hash_equalkeys k bs)"
    unfolding switch_core_hash_delete_def by (rule keys_str.table_delete [OF rep])
  assume "alloc_ok a"
  with keys_str.table_insert [OF rep, of "expand_mem a" "entry_ok a" k v d]
  show "\<exists>eff t'. switch_core_hash_insert_destructor a t k v d =
        Inr (if entry_ok a then SWITCH_STATUS_SUCCESS else SWITCH_STATUS_FALSE, eff, t') \<and>
      table_rep switch_hash_default switch_hash_equalkeys t'
        ((if entry_ok a then [(k, v, d)] else []) @ bindings_without switch_hash_equalkeys k bs) \<and>
      mset eff = all_released (bindings_of switch_hash_equalkeys k bs)"
    by (auto simp: switch_core_hash_insert_destructor_def alloc_ok_def)
qed

interpretation hash_ci: eq_map switch_hash_equalkeys_ci "table_rep switch_hash_default_ci switch_hash_equalkeys_ci"
  "\<lambda>a d. alloc_ok a" switch_core_hash_insert_destructor switch_core_hash_delete switch_core_hash_find
  switch_core_hash_empty
proof
  fix t :: "(string, 'v) switch_hashtable" and bs a k v and d :: "nat option"
  assume rep: "table_rep switch_hash_default_ci switch_hash_equalkeys_ci t bs"
  show "switch_core_hash_find t k = spec_find switch_hash_equalkeys_ci k bs"
    by (simp add: switch_core_hash_find_def keys_ci.table_find [OF rep])
  show "switch_core_hash_empty t = (bs = [])" by (rule keys_ci.table_empty [OF rep])
  show "\<exists>eff t'. switch_core_hash_delete t k = (spec_taken switch_hash_equalkeys_ci k bs, eff, t') \<and>
      table_rep switch_hash_default_ci switch_hash_equalkeys_ci t' (bindings_without switch_hash_equalkeys_ci k bs) \<and>
      mset eff = all_released (bindings_of switch_hash_equalkeys_ci k bs)"
    unfolding switch_core_hash_delete_def by (rule keys_ci.table_delete [OF rep])
  assume "alloc_ok a"
  with keys_ci.table_insert [OF rep, of "expand_mem a" "entry_ok a" k v d]
  show "\<exists>eff t'. switch_core_hash_insert_destructor a t k v d =
        Inr (if entry_ok a then SWITCH_STATUS_SUCCESS else SWITCH_STATUS_FALSE, eff, t') \<and>
      table_rep switch_hash_default_ci switch_hash_equalkeys_ci t'
        ((if entry_ok a then [(k, v, d)] else []) @ bindings_without switch_hash_equalkeys_ci k bs) \<and>
      mset eff = all_released (bindings_of switch_hash_equalkeys_ci k bs)"
    by (auto simp: switch_core_hash_insert_destructor_def alloc_ok_def)
qed

interpretation hash_int: eq_map switch_hash_equalkeys_int
  "table_rep switch_hash_default_int switch_hash_equalkeys_int"
  "\<lambda>a d. alloc_ok a \<and> d = None" "\<lambda>a h k v d. switch_core_inthash_insert a h k v"
  switch_core_inthash_delete switch_core_inthash_find switch_core_hash_empty
proof
  fix t :: "(uint32_t, 'v) switch_hashtable" and bs a k v and d :: "nat option"
  assume rep: "table_rep switch_hash_default_int switch_hash_equalkeys_int t bs"
  show "switch_core_inthash_find t k = spec_find switch_hash_equalkeys_int k bs"
    by (simp add: switch_core_inthash_find_def keys_int.table_find [OF rep])
  show "switch_core_hash_empty t = (bs = [])" by (rule keys_int.table_empty [OF rep])
  show "\<exists>eff t'. switch_core_inthash_delete t k = (spec_taken switch_hash_equalkeys_int k bs, eff, t') \<and>
      table_rep switch_hash_default_int switch_hash_equalkeys_int t' (bindings_without switch_hash_equalkeys_int k bs) \<and>
      mset eff = all_released (bindings_of switch_hash_equalkeys_int k bs)"
    unfolding switch_core_inthash_delete_def by (rule keys_int.table_delete [OF rep])
  assume "alloc_ok a \<and> d = None"
  with keys_int.table_insert [OF rep, of "expand_mem a" "entry_ok a" k v None]
  show "\<exists>eff t'. switch_core_inthash_insert a t k v =
        Inr (if entry_ok a then SWITCH_STATUS_SUCCESS else SWITCH_STATUS_FALSE, eff, t') \<and>
      table_rep switch_hash_default_int switch_hash_equalkeys_int t'
        ((if entry_ok a then [(k, v, d)] else []) @ bindings_without switch_hash_equalkeys_int k bs) \<and>
      mset eff = all_released (bindings_of switch_hash_equalkeys_int k bs)"
    by (auto simp: switch_core_inthash_insert_def alloc_ok_def)
qed

lemma create_rep:
  obtains h :: "('k, 'v) switch_hashtable"
    where "switch_create_hashtable True 16 hashf eqf = Inr (SWITCH_STATUS_SUCCESS, Some h)"
    "table_rep hashf eqf h []"
proof (rule create_hashtable_ok [of 16 hashf eqf])
  fix h :: "('k, 'v) switch_hashtable"
  assume "switch_create_hashtable True 16 hashf eqf = Inr (SWITCH_STATUS_SUCCESS, Some h)"
    "ht_inv h" "ht_entries h = {#}" "ht_hashfn h = hashf" "ht_eqfn h = eqf"
  then show ?thesis by (intro that [of h]) (simp_all add: table_rep_def)
qed simp

section \<open>Properties\<close>

text \<open>The run of a sequence of calls on a table of the string API and on one of the integer API.\<close>

definition core_hash_run where
  "core_hash_run = hash_run switch_core_hash_insert_destructor switch_core_hash_delete
     switch_core_hash_find switch_core_hash_empty"

definition core_inthash_run where
  "core_inthash_run = hash_run (\<lambda>a h k v d. switch_core_inthash_insert a h k v)
     switch_core_inthash_delete switch_core_inthash_find switch_core_hash_empty"

definition core_key_eq :: "bool \<Rightarrow> string \<Rightarrow> string \<Rightarrow> bool" where
  "core_key_eq case_sensitive = (if case_sensitive then switch_hash_equalkeys else switch_hash_equalkeys_ci)"

text \<open>C4: Any sequence of insertions, deletions, searches and emptiness tests on a table made by
  \<^verbatim>\<open>switch_core_hash_init_case\<close> runs without a fault, whatever growing and however many failed
  allocations of entries happen on the way, and answers every call as a list of bindings does in
  which a key is compared exactly or without regard to case.\<close>

theorem core_hash_is_a_map:
  fixes calls :: "(string, 'v) hash_call list"
  assumes "admissible (\<lambda>a d. alloc_ok a) calls"
  shows "\<exists>h effs h'.
    switch_core_hash_init_case True case_sensitive = Inr (SWITCH_STATUS_SUCCESS, Some h) \<and>
    core_hash_run calls h = Inr (fst (spec_run (core_key_eq case_sensitive) calls []), effs, h')"
proof (cases case_sensitive)
  case True
  obtain h :: "(string, 'v) switch_hashtable" where
    h: "switch_create_hashtable True 16 switch_hash_default switch_hash_equalkeys = Inr (SWITCH_STATUS_SUCCESS, Some h)"
       "table_rep switch_hash_default switch_hash_equalkeys h []" by (rule create_rep)
  with hash_cs.run_refines [OF h(2) assms] True show ?thesis
    by (auto simp: switch_core_hash_init_case_def core_key_eq_def core_hash_run_def)
next
  case False
  obtain h :: "(string, 'v) switch_hashtable" where
    h: "switch_create_hashtable True 16 switch_hash_default_ci switch_hash_equalkeys_ci = Inr (SWITCH_STATUS_SUCCESS, Some h)"
       "table_rep switch_hash_default_ci switch_hash_equalkeys_ci h []" by (rule create_rep)
  with hash_ci.run_refines [OF h(2) assms] False show ?thesis
    by (auto simp: switch_core_hash_init_case_def core_key_eq_def core_hash_run_def)
qed

theorem core_hash_is_a_map_witness:
  "\<exists>h effs h'.
    switch_core_hash_init_case True False = Inr (SWITCH_STATUS_SUCCESS, Some h) \<and>
    core_hash_run
      [Hash_Insert \<lparr>key_ok = True, expand_mem = Malloc_Ok, entry_ok = True\<rparr> ''Host'' (Some (1 :: nat)) None,
       Hash_Find ''hOST'', Hash_Delete ''HOST'', Hash_Empty] h =
    Inr ([Answer_Status SWITCH_STATUS_SUCCESS, Answer_Value (Some 1), Answer_Value (Some 1), Answer_Bool True],
         effs, h')"
  using core_hash_is_a_map [of
      "[Hash_Insert \<lparr>key_ok = True, expand_mem = Malloc_Ok, entry_ok = True\<rparr> ''Host'' (Some (1 :: nat)) None,
        Hash_Find ''hOST'', Hash_Delete ''HOST'', Hash_Empty]" False]
  by (simp add: alloc_ok_def core_key_eq_def switch_hash_equalkeys_ci_def strcasecmp_eq_def c_tolower_def
      lower_lane_def spec_find_def spec_taken_def bindings_of_def bindings_without_def)

text \<open>C13: From the creation of a table to its destruction every key copy that was stored is freed
  exactly once and every destructor that was stored is called exactly once, with its value: what
  insertions, deletions and the final \<^verbatim>\<open>switch_core_hash_destroy\<close> release is what was inserted.\<close>

theorem core_hash_releases_once:
  fixes calls :: "(string, 'v) hash_call list"
  assumes "admissible (\<lambda>a d. alloc_ok a) calls"
  shows "\<exists>h rs effs h' last.
    switch_core_hash_init_case True case_sensitive = Inr (SWITCH_STATUS_SUCCESS, Some h) \<and>
    core_hash_run calls h = Inr (rs, effs, h') \<and>
    switch_core_hash_destroy (Some h') = Inr (SWITCH_STATUS_SUCCESS, last) \<and>
    mset (effs @ last) = mset (concat (map released (inserted calls)))"
proof (cases case_sensitive)
  case True
  obtain h :: "(string, 'v) switch_hashtable" where
    h: "switch_create_hashtable True 16 switch_hash_default switch_hash_equalkeys = Inr (SWITCH_STATUS_SUCCESS, Some h)"
       "table_rep switch_hash_default switch_hash_equalkeys h []" by (rule create_rep)
  with hash_cs.run_refines [OF h(2) assms] True show ?thesis
    by (auto simp: switch_core_hash_init_case_def core_hash_run_def switch_core_hash_destroy_def
        keys_str.table_destroy all_released_def)
next
  case False
  obtain h :: "(string, 'v) switch_hashtable" where
    h: "switch_create_hashtable True 16 switch_hash_default_ci switch_hash_equalkeys_ci = Inr (SWITCH_STATUS_SUCCESS, Some h)"
       "table_rep switch_hash_default_ci switch_hash_equalkeys_ci h []" by (rule create_rep)
  with hash_ci.run_refines [OF h(2) assms] False show ?thesis
    by (auto simp: switch_core_hash_init_case_def core_hash_run_def switch_core_hash_destroy_def
        keys_ci.table_destroy all_released_def)
qed

theorem core_hash_releases_once_witness:
  "\<exists>h rs effs h' last.
    switch_core_hash_init_case True True = Inr (SWITCH_STATUS_SUCCESS, Some h) \<and>
    core_hash_run
      [Hash_Insert \<lparr>key_ok = True, expand_mem = Malloc_Ok, entry_ok = True\<rparr> ''a'' (Some (1 :: nat)) (Some 7),
       Hash_Insert \<lparr>key_ok = True, expand_mem = No_Memory, entry_ok = True\<rparr> ''a'' (Some 2) None] h =
      Inr (rs, effs, h') \<and>
    switch_core_hash_destroy (Some h') = Inr (SWITCH_STATUS_SUCCESS, last) \<and>
    mset (effs @ last) = {#Free_Key ''a'', Call_Destructor 7 (Some 1), Free_Key ''a''#}"
  using core_hash_releases_once [of
      "[Hash_Insert \<lparr>key_ok = True, expand_mem = Malloc_Ok, entry_ok = True\<rparr> ''a'' (Some (1 :: nat)) (Some 7),
        Hash_Insert \<lparr>key_ok = True, expand_mem = No_Memory, entry_ok = True\<rparr> ''a'' (Some 2) None]" True]
  by (simp add: alloc_ok_def released_def)

text \<open>The integer tables are maps from 32-bit keys in the same sense, and release every key
  cell once.\<close>

theorem core_inthash_is_a_map:
  fixes calls :: "(uint32_t, 'v) hash_call list"
  assumes "admissible (\<lambda>a d. alloc_ok a \<and> d = None) calls"
  shows "\<exists>h effs h' last.
    switch_core_inthash_init True = Inr (SWITCH_STATUS_SUCCESS, Some h) \<and>
    core_inthash_run calls h = Inr (fst (spec_run (=) calls []), effs, h') \<and>
    switch_core_inthash_destroy (Some h') = Inr (SWITCH_STATUS_SUCCESS, last) \<and>
    mset (effs @ last) = mset (concat (map released (inserted calls)))"
proof -
  obtain h :: "(uint32_t, 'v) switch_hashtable" where
    h: "switch_create_hashtable True 16 switch_hash_default_int switch_hash_equalkeys_int = Inr (SWITCH_STATUS_SUCCESS, Some h)"
       "table_rep switch_hash_default_int switch_hash_equalkeys_int h []" by (rule create_rep)
  have eq: "switch_hash_equalkeys_int = (=)" by (intro ext) (simp add: switch_hash_equalkeys_int_def)
  from h hash_int.run_refines [OF h(2) assms] show ?thesis
    by (auto simp: switch_core_inthash_init_def core_inthash_run_def switch_core_inthash_destroy_def
        keys_int.table_destroy all_released_def eq)
qed

theorem core_inthash_is_a_map_witness:
  "\<exists>h effs h' last.
    switch_core_inthash_init True = Inr (SWITCH_STATUS_SUCCESS, Some h) \<and>
    core_inthash_run
      [Hash_Insert \<lparr>key_ok = True, expand_mem = Malloc_Ok, entry_ok = True\<rparr> 5060 (Some (1 :: nat)) None,
       Hash_Insert \<lparr>key_ok = True, expand_mem = Malloc_Ok, entry_ok = False\<rparr> 5060 (Some 2) None,
       Hash_Find 5060] h =
    Inr ([Answer_Status SWITCH_STATUS_SUCCESS, Answer_Status SWITCH_STATUS_FALSE, Answer_Value None], effs, h') \<and>
    switch_core_inthash_destroy (Some h') = Inr (SWITCH_STATUS_SUCCESS, last) \<and>
    mset (effs @ last) = {#Free_Key 5060#}"
  using core_inthash_is_a_map [of
      "[Hash_Insert \<lparr>key_ok = True, expand_mem = Malloc_Ok, entry_ok = True\<rparr> 5060 (Some (1 :: nat)) None,
        Hash_Insert \<lparr>key_ok = True, expand_mem = Malloc_Ok, entry_ok = False\<rparr> 5060 (Some 2) None,
        Hash_Find 5060]"]
  by (simp add: alloc_ok_def released_def spec_find_def bindings_of_def bindings_without_def)

section \<open>Deleting many\<close>

definition chosen :: "(string \<Rightarrow> 'v option \<Rightarrow> bool) option \<Rightarrow> string \<times> 'v option \<Rightarrow> bool" where
  "chosen callback p \<longleftrightarrow> (case callback of None \<Rightarrow> True | Some f \<Rightarrow> f (fst p) (snd p))"

lemma collect_keys_Cons:
  "collect_keys callback ((k, v) # kvs) e =
     (if chosen callback (k, v) then and_then (add_string SWITCH_STACK_BOTTOM ''delete'' (Some k) e) (collect_keys callback kvs)
      else collect_keys callback kvs e)"
  by (simp add: collect_keys_def [abs_def] chosen_def split: option.splits)

text \<open>The event collects one header for every chosen key.\<close>

lemma collect_plain:
  "ev_inv e \<Longrightarrow> \<not> test_flag (ev_flags e) EF_UNIQ_HEADERS \<Longrightarrow> length (ev_headers e) + length kvs \<le> 1000000 \<Longrightarrow>
   \<forall>p\<in>set kvs. chosen callback p \<longrightarrow> plain_data (fst p) \<Longrightarrow>
   collect_keys callback kvs e =
     Inr (with_headers (ev_headers e @ map (scalar_header ''delete'') (map fst (filter (chosen callback) kvs))) e)"
proof (induction kvs arbitrary: e)
  case (Cons p kvs)
  obtain k v where p: "p = (k, v)" by (cases p)
  have pn: "plain_name ''delete''" by (simp add: plain_name_def)
  show ?case
  proof (cases "chosen callback p")
    case True
    let ?e = "with_headers (ev_headers e @ [scalar_header ''delete'' k]) e"
    have "add_string SWITCH_STACK_BOTTOM ''delete'' (Some k) e = Inr ?e"
      using add_scalar [OF Cons.prems(1) _ pn, of k SWITCH_STACK_BOTTOM] Cons.prems True p
      by (simp add: add_string_eq others_def)
    moreover have "ev_inv ?e" using Cons.prems(1) by (auto simp: ev_inv_with_headers ev_inv_def)
    ultimately show ?thesis
      using Cons.IH [of ?e] Cons.prems True p by (simp add: collect_keys_Cons)
  next
    case False
    then show ?thesis using Cons.IH [of e] Cons.prems p by (simp add: collect_keys_Cons)
  qed
qed (simp add: collect_keys_def)

text \<open>An empty key makes the event forget the keys collected before it.\<close>

lemma collect_empty_key:
  assumes "ev_inv e" and "length (ev_headers e) < 1000000" and "\<forall>h\<in>set (ev_headers e). eh_name h = ''delete''"
  shows "collect_keys None [([], v)] e = Inr (with_headers [] e)"
proof -
  have pn: "plain_name ''delete''" by (simp add: plain_name_def)
  have "filter (\<lambda>h. \<not> same_name ''delete'' h) (ev_headers e) = []"
    using assms(3) by (simp add: filter_empty_conv same_name_def strcasecmp_eq_def)
  with add_empty [OF assms(1,2) pn, of SWITCH_STACK_BOTTOM] show ?thesis
    by (simp add: collect_keys_def add_string_eq drop_header_with)
qed

lemma for_each_append: "for_each f (xs @ ys) s = and_then (for_each f xs s) (for_each f ys)"
  by (induction xs arbitrary: s) (simp_all add: and_then_def split: sum.splits)

lemma delete_collected_rep:
  assumes "key_class hf eq"
  shows "table_rep hf eq h bs \<Longrightarrow>
    \<exists>st eff h'. delete_collected (map (scalar_header ''delete'') ks) h st0 = Inr (st, eff, h') \<and>
      table_rep hf eq h' (filter (\<lambda>b. \<not> list_ex (\<lambda>k. eq k (fst b)) ks) bs)"
proof (induction ks arbitrary: h bs st0)
  case (Cons k ks)
  obtain eff h1 where d: "switch_hashtable_remove h k = (spec_taken eq k bs, eff, h1)"
    "table_rep hf eq h1 (bindings_without eq k bs)"
    using key_class.table_delete [OF assms Cons.prems, of k] by blast
  have f: "filter (\<lambda>b. \<not> list_ex (\<lambda>k. eq k (fst b)) ks) (bindings_without eq k bs) =
      filter (\<lambda>b. \<not> list_ex (\<lambda>k. eq k (fst b)) (k # ks)) bs"
    by (auto simp: bindings_without_def intro!: filter_cong)
  from Cons.IH [OF d(2), of "if spec_taken eq k bs \<noteq> None then SWITCH_STATUS_SUCCESS else st0"] d(1) f
  show ?case by (auto simp: switch_core_hash_delete_def)
qed simp

text \<open>A key equal to the key of a binding in the table is the key of that binding.\<close>

lemma rep_key_unique:
  assumes "key_class hf eq" "table_rep hf eq h bs" "b \<in> set bs" "c \<in> set bs" "eq (fst c) (fst b)"
  shows "c = b"
proof -
  have "b \<in> set (bindings_of eq (fst c) bs)" "c \<in> set (bindings_of eq (fst c) bs)"
    using assms key_class.eq_refl [OF assms(1)] by (simp_all add: bindings_of_def)
  moreover have "length (bindings_of eq (fst c) bs) \<le> 1"
    by (rule key_class.binding_cases [OF assms(1,2), of "fst c"]) simp_all
  ultimately show ?thesis by (cases "bindings_of eq (fst c) bs"; cases "tl (bindings_of eq (fst c) bs)") auto
qed

lemma delete_multi_rep:
  assumes kc: "key_class hf eq" and rep: "table_rep hf eq h bs" and len: "length bs \<le> 1000000"
    and plain: "\<forall>(k, v, d)\<in>set bs. chosen callback (k, v) \<longrightarrow> plain_data k"
  shows "\<exists>st eff h'. switch_core_hash_delete_multi env h callback = Inr (st, eff, h') \<and>
    table_rep hf eq h' (filter (\<lambda>(k, v, d). \<not> chosen callback (k, v)) bs)"
proof -
  let ?kvs = "map kv (concat (ht_table h))" and ?kv = "\<lambda>b :: (string, 'a) binding. (fst b, fst (snd b))"
  have st: "ht_struct h" using rep by (simp add: table_rep_def ht_inv_def)
  have bs: "mset bs = mset (map binding_of (concat (ht_table h)))"
    using rep by (simp add: table_rep_def ht_entries_def)
  then have sets: "set bs = set (map binding_of (concat (ht_table h)))" by (metis set_mset_mset)
  have kvb: "kv e = ?kv (binding_of e)" for e by (simp add: kv_def)
  have "length ?kvs \<le> 1000000" using len bs by (metis length_map size_mset)
  moreover have "\<forall>p\<in>set ?kvs. chosen callback p \<longrightarrow> plain_data (fst p)"
    using plain sets kvb by (fastforce simp: kv_def binding_of_def)
  ultimately have col: "collect_keys callback ?kvs blank_event =
      Inr (with_headers (map (scalar_header ''delete'') (map fst (filter (chosen callback) ?kvs))) blank_event)"
    using collect_plain [OF blank_event_ok(1), of ?kvs callback] by (simp add: blank_event_ok)
  define ks where "ks = map fst (filter (chosen callback) ?kvs)"
  have ks: "k \<in> set ks \<longleftrightarrow> (\<exists>b\<in>set bs. chosen callback (?kv b) \<and> k = fst b)" for k
    unfolding ks_def sets by (force simp: kvb)
  have f: "filter (\<lambda>b. \<not> list_ex (\<lambda>k. eq k (fst b)) ks) bs = filter (\<lambda>(k, v, d). \<not> chosen callback (k, v)) bs"
  proof (intro filter_cong refl)
    fix b assume b: "b \<in> set bs"
    have "list_ex (\<lambda>k. eq k (fst b)) ks \<longleftrightarrow> chosen callback (?kv b)"
    proof
      assume "list_ex (\<lambda>k. eq k (fst b)) ks"
      then obtain c where "c \<in> set bs" "chosen callback (?kv c)" "eq (fst c) (fst b)"
        by (auto simp: list_ex_iff ks)
      with rep_key_unique [OF kc rep b, of c] show "chosen callback (?kv b)" by simp
    next
      assume "chosen callback (?kv b)"
      with b ks have "fst b \<in> set ks" by blast
      with key_class.eq_refl [OF kc] show "list_ex (\<lambda>k. eq k (fst b)) ks" by (auto simp: list_ex_iff)
    qed
    then show "(\<not> list_ex (\<lambda>k. eq k (fst b)) ks) = (case b of (k, v, d) \<Rightarrow> \<not> chosen callback (k, v))"
      by (simp add: split_beta)
  qed
  obtain s eff h' where "delete_collected (map (scalar_header ''delete'') ks) h SWITCH_STATUS_GENERR = Inr (s, eff, h')"
    "table_rep hf eq h' (filter (\<lambda>b. \<not> list_ex (\<lambda>k. eq k (fst b)) ks) bs)"
    using delete_collected_rep [OF kc rep] by blast
  then show ?thesis
    unfolding f using walk_entries [OF st order_refl, unfolded ht_entries_def size_mset] col
    by (auto simp: switch_core_hash_delete_multi_def create_clone ks_def)
qed

text \<open>\<^verbatim>\<open>switch_core_hash_delete_multi\<close> removes exactly the bindings the callback chooses, from
  tables of up to a million entries of either kind, as long as every chosen key is a plain value: not
  empty and not starting with \<^verbatim>\<open>ARRAY::\<close>.\<close>

theorem core_hash_delete_multi_selects:
  assumes "table_rep (if case_sensitive then switch_hash_default else switch_hash_default_ci) (core_key_eq case_sensitive) h bs"
    and "length bs \<le> 1000000" and "\<forall>(k, v, d)\<in>set bs. chosen callback (k, v) \<longrightarrow> plain_data k"
  shows "\<exists>st eff h'. switch_core_hash_delete_multi env h callback = Inr (st, eff, h') \<and>
    table_rep (if case_sensitive then switch_hash_default else switch_hash_default_ci) (core_key_eq case_sensitive) h'
      (filter (\<lambda>(k, v, d). \<not> chosen callback (k, v)) bs)"
proof -
  have "key_class (if case_sensitive then switch_hash_default else switch_hash_default_ci) (core_key_eq case_sensitive)"
    using keys_str.key_class_axioms keys_ci.key_class_axioms by (simp add: core_key_eq_def)
  from delete_multi_rep [OF this assms] show ?thesis .
qed

definition demo_strings :: "(string, nat) switch_hashtable" where
  "demo_strings = \<lparr>ht_tablelength = 53, ht_table = replicate 53 [], ht_entrycount = 0,
     ht_loadlimit = load_limit 53, ht_primeindex = 0, ht_hashfn = switch_hash_default,
     ht_eqfn = switch_hash_equalkeys\<rparr>"

definition demo_one :: "(string, nat) switch_hashtable" where
  "demo_one = (case switch_core_hash_insert \<lparr>key_ok = True, expand_mem = Malloc_Ok, entry_ok = True\<rparr>
     demo_strings ''a'' (Some 1) of Inl _ \<Rightarrow> demo_strings | Inr (st, eff, h) \<Rightarrow> h)"

lemma demo_one_rep: "table_rep switch_hash_default switch_hash_equalkeys demo_one [(''a'', Some 1, None)]"
proof -
  have rep: "table_rep switch_hash_default switch_hash_equalkeys demo_strings []"
    by (simp add: table_rep_def demo_strings_def ht_inv_def ht_struct_def ht_entries_def ht_unique_def
        prime_table_length_eq ht_primes_def placed_def)
  have ok: "alloc_ok \<lparr>key_ok = True, expand_mem = Malloc_Ok, entry_ok = True\<rparr>" by (simp add: alloc_ok_def)
  show ?thesis
    using hash_cs.insert_law [OF rep ok, of "''a''" "Some 1" None]
    by (auto simp: demo_one_def switch_core_hash_insert_def bindings_without_def)
qed

definition demo_env :: delivery_env where
  "demo_env = \<lparr>de_uuid = None, de_hostname = None, de_switchname = None, de_ipv4 = [], de_ipv6 = [],
      de_date_local = [], de_date_gmt = [], de_timestamp = [], de_file = None, de_func = None, de_line = [], de_sequence = []\<rparr>"

theorem core_hash_delete_multi_selects_witness:
  "\<exists>st eff h'. switch_core_hash_delete_multi demo_env demo_one None = Inr (st, eff, h') \<and>
    table_rep (if True then switch_hash_default else switch_hash_default_ci) (core_key_eq True) h'
      (filter (\<lambda>(k, v, d). \<not> chosen None (k, v)) [(''a'', Some 1, None)])"
  by (rule core_hash_delete_multi_selects)
     (simp_all add: demo_one_rep [simplified] core_key_eq_def plain_data_def)

text \<open>When the last key of the walk is empty, \<^verbatim>\<open>switch_core_hash_delete_multi\<close> without a callback
  deletes nothing at all: adding the empty key to the event removes the keys collected before.\<close>

theorem core_hash_delete_multi_empty_key:
  assumes "ht_struct h" and "map kv (concat (ht_table h)) = kvs @ [([], v)]"
    and "\<forall>p\<in>set kvs. plain_data (fst p)" and "length kvs < 1000000"
  shows "switch_core_hash_delete_multi env h None = Inr (SWITCH_STATUS_GENERR, [], h)"
proof -
  let ?e = "with_headers (map (scalar_header ''delete'') (map fst kvs)) blank_event"
  have "filter (chosen (None :: (string \<Rightarrow> 'a option \<Rightarrow> bool) option)) kvs = kvs"
    by (simp add: chosen_def filter_id_conv)
  then have c: "collect_keys None kvs blank_event = Inr ?e"
    using collect_plain [OF blank_event_ok(1), of kvs None] assms(3,4) by (simp add: blank_event_ok)
  have "ev_inv ?e" by (auto simp: ev_inv_with_headers)
  moreover have "\<forall>x\<in>set (ev_headers ?e). eh_name x = ''delete''" by (auto simp: scalar_header_def)
  ultimately have e: "collect_keys None [([], v)] ?e = Inr (with_headers [] ?e)"
    using assms(4) by (intro collect_empty_key) simp_all
  have "collect_keys None (kvs @ [([], v)]) blank_event = Inr (with_headers [] ?e)"
    using c e by (simp add: collect_keys_def for_each_append del: for_each.simps)
  then show ?thesis
    using walk_entries [OF assms(1) order_refl, unfolded ht_entries_def size_mset] assms(2) by (simp add: switch_core_hash_delete_multi_def create_clone)
qed

definition demo_empty_key :: "(string, nat) switch_hashtable" where
  "demo_empty_key = demo_strings\<lparr>ht_table := (ht_table demo_strings)[indexFor 53 (ht_hash demo_strings []) :=
     [\<lparr>e_k = [], e_v = Some 1, e_h = ht_hash demo_strings [], e_flags = core_insert_flags, e_destructor = None\<rparr>]],
     ht_entrycount := 1\<rparr>"

lemma demo_empty_key_table:
  "ht_struct demo_empty_key" "map kv (concat (ht_table demo_empty_key)) = [] @ [([], Some 1)]"
proof -
  let ?i = "indexFor 53 (ht_hash demo_strings [])"
  let ?e = "\<lparr>e_k = [], e_v = Some (1 :: nat), e_h = ht_hash demo_strings [], e_flags = core_insert_flags, e_destructor = None\<rparr>"
  have i: "?i < 53" by (rule indexFor_less) simp
  have no: "concat (replicate n []) = []" for n by (induction n) simp_all
  have t: "ht_table demo_empty_key = (replicate 53 [])[?i := [?e]]" by (simp add: demo_empty_key_def demo_strings_def)
  have "concat ((replicate n [])[j := [?e]]) = [?e]" if "j < n" for n j
    using that by (subst upd_conv_take_nth_drop) (simp_all add: no)
  then have c: "concat (ht_table demo_empty_key) = [?e]" unfolding t using i by blast
  then show "map kv (concat (ht_table demo_empty_key)) = [] @ [([], Some 1)]" by (simp add: kv_def)
  have "placed 53 (ht_table demo_empty_key)"
    unfolding t placed_def using i by (auto simp: nth_list_update)
  moreover have "ht_hash demo_empty_key [] = ht_hash demo_strings []" by (simp add: ht_hash_def demo_empty_key_def)
  ultimately show "ht_struct demo_empty_key"
    using c by (simp add: ht_struct_def ht_entries_def)
      (simp add: demo_empty_key_def demo_strings_def prime_table_length_eq ht_primes_def)
qed

theorem core_hash_delete_multi_empty_key_witness:
  "switch_core_hash_delete_multi demo_env demo_empty_key None = Inr (SWITCH_STATUS_GENERR, [], demo_empty_key)"
  by (rule core_hash_delete_multi_empty_key [OF demo_empty_key_table]) simp_all

end
