(* ===== verification/FS_Base64.thy ===== *)
theory FS_Base64
  imports FS_Prelude
begin

text \<open>
  The base64 coder of \<^verbatim>\<open>src/switch_utils.c\<close>: \<^verbatim>\<open>switch_b64_encode\<close> and \<^verbatim>\<open>switch_b64_decode\<close> with
  their bit accumulators at 32 bits and their output buffers bounds-checked against the length the
  caller passes. Plain \<^verbatim>\<open>char\<close> is unsigned on the target.
\<close>

section \<open>Encoder\<close>

definition switch_b64_table :: string where
  "switch_b64_table = ''ABCDEFGHIJKLMNOPQRSTUVWXYZabcdefghijklmnopqrstuvwxyz0123456789+/''"

text \<open>\<^verbatim>\<open>out[bytes++] = c\<close> on a buffer of \<open>olen\<close> cells of which the first ones are written.\<close>

definition put_cell :: "nat \<Rightarrow> 'a list \<Rightarrow> 'a \<Rightarrow> 'a list c_result" where
  "put_cell olen out c = (if length out < olen then Inr (out @ [c]) else Inl Out_Of_Bounds)"

text \<open>\<^verbatim>\<open>bytes >= (int)olen - 1\<close>: the length is converted to a signed 32-bit value first.\<close>

definition b64_full :: "nat \<Rightarrow> string \<Rightarrow> bool" where
  "b64_full olen out \<longleftrightarrow> int (length out) \<ge> sint (of_nat olen :: uint32_t) - 1"

text \<open>The inner loop \<^verbatim>\<open>while (l >= 6)\<close>; the flag tells that it left through \<^verbatim>\<open>goto end\<close>.\<close>

fun b64_drain :: "nat \<Rightarrow> uint32_t \<Rightarrow> nat \<Rightarrow> string \<Rightarrow> (bool \<times> nat \<times> string) c_result" where
  "b64_drain olen b l out =
     (if l \<ge> 6 then
        and_then (put_cell olen out (switch_b64_table ! unat (drop_bit (l - 6) b mod 64)))
          (\<lambda>out. if b64_full olen out then Inr (True, l - 6, out) else b64_drain olen b (l - 6) out)
      else Inr (False, l, out))"

declare b64_drain.simps [simp del]

function b64_pad :: "nat \<Rightarrow> nat \<Rightarrow> string \<Rightarrow> string c_result" where
  "b64_pad olen l out =
     (if l < 6 \<and> \<not> b64_full olen out
      then and_then (put_cell olen out (CHR ''='')) (b64_pad olen (l + 2))
      else Inr out)"
  by pat_completeness auto
termination
  by (relation "measure (\<lambda>(olen, l, out). 6 - l)") auto

declare b64_pad.simps [simp del]

definition b64_finish :: "nat \<Rightarrow> uint32_t \<Rightarrow> nat \<Rightarrow> string \<Rightarrow> string c_result" where
  "b64_finish olen b l out =
     and_then
       (if l > 0
        then put_cell olen out (switch_b64_table ! unat (push_bit (6 - l) (b mod 16) mod 64))
        else Inr out)
       (\<lambda>out. if l \<noteq> 0 then b64_pad olen l out else Inr out)"

fun b64_encode_loop :: "nat \<Rightarrow> byte list \<Rightarrow> uint32_t \<Rightarrow> nat \<Rightarrow> string \<Rightarrow> string c_result" where
  "b64_encode_loop olen [] b l out = b64_finish olen b l out"
| "b64_encode_loop olen (x # xs) b l out =
     (let b = push_bit 8 b + ucast x in
      and_then (b64_drain olen b (l + 8) out)
        (\<lambda>(full, l, out). if full then Inr out else b64_encode_loop olen xs b l out))"

text \<open>The result is the written part of the buffer, terminator included.\<close>

definition switch_b64_encode :: "byte list \<Rightarrow> nat \<Rightarrow> (switch_status_t \<times> string) c_result" where
  "switch_b64_encode inp olen =
     and_then (b64_encode_loop olen inp 0 0 []) (\<lambda>out.
     and_then (put_cell olen out (CHR 0x00)) (\<lambda>out.
     Inr (SWITCH_STATUS_SUCCESS, out)))"

section \<open>Decoder\<close>

definition b64_l64 :: "byte list" where
  "b64_l64 = foldl (\<lambda>l64 i. l64[of_char (switch_b64_table ! i) := of_nat i]) (replicate 256 (- 1)) [0..<64]"

text \<open>\<^verbatim>\<open>(char) ((b >> l) % 256)\<close> is the low byte of the shifted accumulator, whatever its sign.\<close>

fun b64_emit :: "nat \<Rightarrow> uint32_t \<Rightarrow> nat \<Rightarrow> byte list \<Rightarrow> (bool \<times> nat \<times> byte list) c_result" where
  "b64_emit olen b l out =
     (if l \<ge> 8 then
        and_then (put_cell olen out (ucast (signed_drop_bit (l - 8) b)))
          (\<lambda>out. if length out \<ge> size_sub olen 2 then Inr (True, l - 8, out) else b64_emit olen b (l - 8) out)
      else Inr (False, l, out))"

declare b64_emit.simps [simp del]

text \<open>\<^verbatim>\<open>c\<close> is an \<^verbatim>\<open>int\<close> read from an array of unsigned \<^verbatim>\<open>char\<close>.\<close>

fun b64_decode_loop :: "nat \<Rightarrow> string \<Rightarrow> uint32_t \<Rightarrow> nat \<Rightarrow> byte list \<Rightarrow> byte list c_result" where
  "b64_decode_loop olen [] b l out = Inr out"
| "b64_decode_loop olen (ch # s) b l out =
     (let c = uint (b64_l64 ! of_char ch) in
      if c = - 1 then b64_decode_loop olen s b l out
      else
        (let b = push_bit 6 b + word_of_int c in
         and_then (b64_emit olen b (l + 6) out)
           (\<lambda>(full, l, out). if full then Inr out else b64_decode_loop olen s b l out)))"

definition switch_b64_decode :: "string \<Rightarrow> nat \<Rightarrow> (nat \<times> byte list) c_result" where
  "switch_b64_decode inp olen =
     and_then (b64_decode_loop olen inp 0 0 []) (\<lambda>out.
     and_then (put_cell olen out 0) (\<lambda>out.
     Inr (length out, out)))"

section \<open>Buffer bounds\<close>

lemma put_cell_ok: "length out < olen \<Longrightarrow> put_cell olen out c = Inr (out @ [c])"
  by (simp add: put_cell_def)

lemma b64_full_iff: "olen < 2 ^ 31 \<Longrightarrow> b64_full olen out \<longleftrightarrow> olen \<le> length out + 1"
proof -
  assume "olen < 2 ^ 31"
  then have "sint (of_nat olen :: uint32_t) = int olen"
    by (simp add: sint_uint unsigned_of_nat take_bit_nat_eq_self signed_take_bit_int_eq_self
        flip: take_bit_of_nat)
  then show ?thesis by (auto simp: b64_full_def)
qed

text \<open>Both inner loops stop one or two cells before the end of the buffer.\<close>

lemma b64_drain_bound:
  "olen < 2 ^ 31 \<Longrightarrow> length out + 1 < olen \<Longrightarrow>
   \<exists>full l' out'. b64_drain olen b l out = Inr (full, l', out') \<and> length out' < olen \<and>
     (\<not> full \<longrightarrow> length out' + 1 < olen \<and> l' < 6)"
proof (induction olen b l out rule: b64_drain.induct)
  case (1 olen b l out)
  show ?case
  proof (cases "l \<ge> 6")
    case True
    let ?out = "out @ [switch_b64_table ! unat (drop_bit (l - 6) b mod 64)]"
    have step: "b64_drain olen b l out =
        (if b64_full olen ?out then Inr (True, l - 6, ?out) else b64_drain olen b (l - 6) ?out)"
      using True "1.prems" by (simp add: b64_drain.simps [of olen b l] put_cell_ok)
    have "b64_full olen ?out \<longleftrightarrow> olen \<le> length ?out + 1" using "1.prems" by (intro b64_full_iff)
    with True "1.prems" "1.IH" [of ?out] show ?thesis
      unfolding step by (cases "b64_full olen ?out") (auto simp: put_cell_ok)
  next
    case False
    then have "b64_drain olen b l out = Inr (False, l, out)" by (simp add: b64_drain.simps [of olen b l])
    with False "1.prems" show ?thesis by auto
  qed
qed

lemma b64_pad_bound:
  "olen < 2 ^ 31 \<Longrightarrow> length out < olen \<Longrightarrow>
   \<exists>out'. b64_pad olen l out = Inr out' \<and> length out' < olen"
proof (induction olen l out rule: b64_pad.induct)
  case (1 olen l out)
  show ?case
  proof (cases "l < 6 \<and> \<not> b64_full olen out")
    case True
    then have "length out + 1 < olen" using "1.prems" by (simp add: b64_full_iff)
    with True "1.IH" [OF True, of "out @ [CHR ''='']"] "1.prems" show ?thesis
      by (simp add: b64_pad.simps [of olen l] put_cell_ok)
  next
    case False
    then show ?thesis using "1.prems" by (subst b64_pad.simps) auto
  qed
qed

lemma b64_encode_loop_bound:
  "olen < 2 ^ 31 \<Longrightarrow> length out + 1 < olen \<Longrightarrow>
   \<exists>out'. b64_encode_loop olen xs b l out = Inr out' \<and> length out' < olen"
proof (induction xs arbitrary: b l out)
  case Nil
  then show ?case
    using b64_pad_bound [of olen] by (auto simp: b64_finish_def put_cell_ok)
next
  case (Cons x xs)
  obtain full l' out' where "b64_drain olen (push_bit 8 b + ucast x) (l + 8) out = Inr (full, l', out')"
    "length out' < olen" "\<not> full \<longrightarrow> length out' + 1 < olen"
    using b64_drain_bound [OF Cons.prems] by blast
  with Cons show ?case by (cases full) auto
qed

lemma b64_emit_bound:
  "2 \<le> olen \<Longrightarrow> olen < size_mod \<Longrightarrow> length out + 1 < olen \<Longrightarrow>
   \<exists>full l' out'. b64_emit olen b l out = Inr (full, l', out') \<and> length out' < olen \<and>
     (\<not> full \<longrightarrow> length out' + 1 < olen)"
proof (induction olen b l out rule: b64_emit.induct)
  case (1 olen b l out)
  show ?case
  proof (cases "l \<ge> 8")
    case True
    let ?out = "out @ [ucast (signed_drop_bit (l - 8) b)]"
    have step: "b64_emit olen b l out =
        (if length ?out \<ge> olen - 2 then Inr (True, l - 8, ?out) else b64_emit olen b (l - 8) ?out)"
      using True "1.prems" by (simp add: b64_emit.simps [of olen b l] put_cell_ok size_sub_eq)
    show ?thesis
    proof (cases "length ?out \<ge> olen - 2")
      case True
      then show ?thesis using "1.prems" unfolding step by (intro exI [of _ True]) simp
    next
      case False
      then show ?thesis using \<open>l \<ge> 8\<close> "1.prems" "1.IH" [of ?out] unfolding step
        by (simp add: put_cell_ok size_sub_eq)
    qed
  next
    case False
    then have "b64_emit olen b l out = Inr (False, l, out)" by (simp add: b64_emit.simps [of olen b l])
    with "1.prems" show ?thesis by auto
  qed
qed

lemma b64_decode_loop_bound:
  "2 \<le> olen \<Longrightarrow> olen < size_mod \<Longrightarrow> length out + 1 < olen \<Longrightarrow>
   \<exists>out'. b64_decode_loop olen s b l out = Inr out' \<and> length out' < olen"
proof (induction s arbitrary: b l out)
  case (Cons ch s)
  let ?b = "push_bit 6 b + word_of_int (uint (b64_l64 ! of_char ch))"
  obtain full l' out' where "b64_emit olen ?b (l + 6) out = Inr (full, l', out')"
    "length out' < olen" "\<not> full \<longrightarrow> length out' + 1 < olen"
    using b64_emit_bound [OF Cons.prems] by blast
  with Cons show ?case by (cases full) (auto simp: Let_def)
qed simp

section \<open>The reverse table\<close>

lemma foldl_update_length: "length (foldl (\<lambda>l i. l[g i := f i]) l0 is) = length l0"
  by (induction "is" arbitrary: l0) simp_all

lemma foldl_update_miss: "j \<notin> g ` set is \<Longrightarrow> foldl (\<lambda>l i. l[g i := f i]) l0 is ! j = l0 ! j"
  by (induction "is" arbitrary: l0) auto

lemma foldl_update_hit:
  "distinct (map g is) \<Longrightarrow> i \<in> set is \<Longrightarrow> g i < length l0 \<Longrightarrow>
   foldl (\<lambda>l i. l[g i := f i]) l0 is ! g i = f i"
proof (induction "is" arbitrary: l0)
  case (Cons a as)
  then show ?case
  proof (cases "i = a")
    case True
    then show ?thesis using Cons.prems by (simp add: foldl_update_miss)
  qed auto
qed simp

lemma of_char_less: "of_char c < (256 :: nat)"
  by (metis of_char_mod_256 mod_less_divisor zero_less_numeral)

lemma distinct_b64_table: "distinct switch_b64_table" and length_b64_table: "length switch_b64_table = 64"
  by (simp_all add: switch_b64_table_def)

lemma b64_l64_table:
  assumes "i < 64"
  shows "b64_l64 ! of_char (switch_b64_table ! i) = of_nat i"
proof -
  let ?g = "\<lambda>i. of_char (switch_b64_table ! i) :: nat"
  have "map ?g [0..<64] = map of_char switch_b64_table"
    by (rule nth_equalityI) (simp_all add: length_b64_table)
  moreover have "distinct (map of_char switch_b64_table :: nat list)"
    using distinct_b64_table by (simp add: distinct_map inj_on_def)
  ultimately have "distinct (map ?g [0..<64])" by simp
  then show ?thesis
    unfolding b64_l64_def using assms of_char_less
    by (intro foldl_update_hit) simp_all
qed

lemma b64_l64_other:
  assumes "c \<notin> set switch_b64_table"
  shows "b64_l64 ! of_char c = - 1"
proof -
  have "(of_char c :: nat) \<notin> (\<lambda>i. of_char (switch_b64_table ! i)) ` set [0..<64]"
  proof
    assume "(of_char c :: nat) \<in> (\<lambda>i. of_char (switch_b64_table ! i)) ` set [0..<64]"
    then obtain i where "i < 64" "(of_char c :: nat) = of_char (switch_b64_table ! i)" by auto
    then have "c = switch_b64_table ! i" by simp
    with \<open>i < 64\<close> assms length_b64_table show False by simp
  qed
  then show ?thesis
    unfolding b64_l64_def by (subst foldl_update_miss) (simp_all only: nth_replicate of_char_less not_False_eq_True)
qed

text \<open>Every cell is read as a number from 0 to 255, so the test \<^verbatim>\<open>c == -1\<close> never succeeds.\<close>

lemma b64_never_minus_1: "uint (w :: byte) \<noteq> - 1"
  by (metis uint_ge_0 neg_0_le_iff_le not_one_le_zero)

section \<open>Three bytes are four digits\<close>

definition b64_digits :: "byte \<Rightarrow> byte \<Rightarrow> byte \<Rightarrow> nat list" where
  "b64_digits x y z =
     [unat x div 4, unat x mod 4 * 16 + unat y div 16, unat y mod 16 * 4 + unat z div 64, unat z mod 64]"

definition b64_acc :: "uint32_t \<Rightarrow> byte \<Rightarrow> uint32_t" where
  "b64_acc b x = push_bit 8 b + ucast x"

lemma window_mod: "k + m \<le> 32 \<Longrightarrow> (n mod 2 ^ 32) div 2 ^ k mod 2 ^ m = n div 2 ^ k mod (2 ^ m :: nat)"
  by (simp only: take_bit_eq_mod [symmetric] drop_bit_eq_div [symmetric])
     (auto intro!: bit_eqI simp: bit_simps)

lemma unat_shift: "unat (drop_bit k (w :: uint32_t)) = unat w div 2 ^ k"
  by (metis unat_drop_bit_eq drop_bit_eq_div)

lemma unat_acc: "unat (push_bit k b + w :: uint32_t) = (unat b * 2 ^ k + unat w) mod 2 ^ 32"
proof -
  have "unat (push_bit k b) = (unat b * 2 ^ k) mod 2 ^ 32"
    unfolding unsigned_push_bit_eq take_bit_eq_mod by (simp add: push_bit_eq_mult)
  then show ?thesis by (simp add: unat_word_ariths(1) mod_simps)
qed

lemma mod_acc: "(m mod M * k + y) mod M = (m * k + y) mod (M :: nat)"
  by (metis mod_add_left_eq mod_mult_left_eq)

lemma unat_byte: "unat (x :: byte) < 256"
proof -
  have "unat x < 2 ^ LENGTH(8)" by (rule unsigned_less)
  then show ?thesis by simp
qed

lemma unat_ucast_byte: "unat (ucast (x :: byte) :: uint32_t) = unat x"
  using unat_byte [of x] by (simp add: unsigned_ucast_eq take_bit_nat_eq_self_iff)

lemma b64_digit: "unat (drop_bit k (w :: uint32_t) mod 64) = unat w div 2 ^ k mod 64"
  by (simp only: unat_mod unat_shift) simp

lemma b64_byte:
  assumes "k \<le> 24"
  shows "unat (ucast (signed_drop_bit k (w :: uint32_t)) :: byte) = unat w div 2 ^ k mod 256"
proof -
  have "(ucast (signed_drop_bit k w) :: byte) = ucast (drop_bit k w)"
    using assms by (intro bit_word_eqI) (auto simp: bit_simps min_def)
  then show ?thesis
    by (simp only: unsigned_ucast_eq unat_shift take_bit_eq_mod) simp
qed

lemma window_eq: "n = (a * m + r) * c + s \<Longrightarrow> r < m \<Longrightarrow> s < c \<Longrightarrow> n div c mod m = (r :: nat)"
  by simp

lemma window_word:
  "unat w = n mod 2 ^ 32 \<Longrightarrow> k + m \<le> 32 \<Longrightarrow> n = (a * 2 ^ m + r) * 2 ^ k + s \<Longrightarrow> r < 2 ^ m \<Longrightarrow> s < 2 ^ k \<Longrightarrow>
   unat (w :: uint32_t) div 2 ^ k mod 2 ^ m = r"
  using window_mod [of k m n] window_eq [of n a "2 ^ m" r "2 ^ k" s] by simp

text \<open>The accumulator of the encoder after one, two and three bytes.\<close>

lemma b64_encode_windows:
  fixes b :: uint32_t and x y z :: byte
  defines "b1 \<equiv> push_bit 8 b + ucast x"
  defines "b2 \<equiv> push_bit 8 b1 + ucast y"
  defines "b3 \<equiv> push_bit 8 b2 + ucast z"
  shows "[unat (drop_bit 2 b1 mod 64), unat (drop_bit 4 b2 mod 64), unat (drop_bit 6 b3 mod 64), unat (b3 mod 64)] =
    b64_digits x y z"
proof -
  have n1: "unat b1 = (unat b * 256 + unat x) mod 2 ^ 32"
    unfolding b1_def unat_acc unat_ucast_byte by simp
  have n2: "unat b2 = ((unat b * 256 + unat x) * 256 + unat y) mod 2 ^ 32"
    unfolding b2_def unat_acc unat_ucast_byte n1 mod_acc by simp
  have n3: "unat b3 = (((unat b * 256 + unat x) * 256 + unat y) * 256 + unat z) mod 2 ^ 32"
    unfolding b3_def unat_acc unat_ucast_byte n2 mod_acc by simp
  note lt = unat_byte [of x] unat_byte [of y] unat_byte [of z]
  note dm = div_mult_mod_eq [of "unat x" 4, symmetric] div_mult_mod_eq [of "unat y" 16, symmetric]
    div_mult_mod_eq [of "unat z" 64, symmetric]
  have "unat b1 div 2 ^ 2 mod 2 ^ 6 = unat x div 4"
    by (rule window_word [OF n1, of _ _ "unat b" _ "unat x mod 4"]) (use lt dm in \<open>simp_all add: algebra_simps\<close>)
  moreover have "unat b2 div 2 ^ 4 mod 2 ^ 6 = unat x mod 4 * 16 + unat y div 16"
    by (rule window_word [OF n2, of _ _ "unat b * 64 + unat x div 4" _ "unat y mod 16"])
       (use lt dm in \<open>simp_all add: algebra_simps, linarith+\<close>)
  moreover have "unat b3 div 2 ^ 6 mod 2 ^ 6 = unat y mod 16 * 4 + unat z div 64"
    by (rule window_word [OF n3, of _ _ "(unat b * 256 + unat x) * 16 + unat y div 16" _ "unat z mod 64"])
       (use lt dm in \<open>simp_all add: algebra_simps, linarith+\<close>)
  moreover have "unat b3 div 2 ^ 0 mod 2 ^ 6 = unat z mod 64"
    by (rule window_word [OF n3, of _ _ "((unat b * 256 + unat x) * 256 + unat y) * 4 + unat z div 64" _ 0])
       (use lt dm in \<open>simp_all add: algebra_simps\<close>)
  ultimately show ?thesis
    by (simp only: b64_digits_def b64_digit) (simp add: unat_mod)
qed

lemma unat_digit: "d < 64 \<Longrightarrow> unat (word_of_int (uint (of_nat d :: byte)) :: uint32_t) = d"
  by (simp add: unsigned_of_nat take_bit_nat_eq_self flip: ucast_eq)

text \<open>The accumulator of the decoder after two, three and four digits.\<close>

lemma b64_decode_windows:
  fixes b w1 w2 w3 w4 :: uint32_t and x y z :: byte
  defines "b2 \<equiv> push_bit 6 (push_bit 6 b + w1) + w2"
  defines "b3 \<equiv> push_bit 6 b2 + w3"
  defines "b4 \<equiv> push_bit 6 b3 + w4"
  assumes w: "[unat w1, unat w2, unat w3, unat w4] = b64_digits x y z"
  shows "ucast (signed_drop_bit 4 b2) = x" and "ucast (signed_drop_bit 2 b3) = y"
    and "ucast (signed_drop_bit 0 b4) = z"
proof -
  have n2: "unat b2 = ((unat b * 64 + unat w1) * 64 + unat w2) mod 2 ^ 32"
    unfolding b2_def unat_acc mod_acc by simp
  have n3: "unat b3 = (((unat b * 64 + unat w1) * 64 + unat w2) * 64 + unat w3) mod 2 ^ 32"
    unfolding b3_def unat_acc n2 mod_acc by simp
  have n4: "unat b4 = ((((unat b * 64 + unat w1) * 64 + unat w2) * 64 + unat w3) * 64 + unat w4) mod 2 ^ 32"
    unfolding b4_def unat_acc n3 mod_acc by simp
  have d: "unat w1 = unat x div 4" "unat w2 = unat x mod 4 * 16 + unat y div 16"
    "unat w3 = unat y mod 16 * 4 + unat z div 64" "unat w4 = unat z mod 64"
    using w by (simp_all add: b64_digits_def)
  note lt = unat_byte [of x] unat_byte [of y] unat_byte [of z]
  note dm = div_mult_mod_eq [of "unat x" 4, symmetric] div_mult_mod_eq [of "unat y" 16, symmetric]
    div_mult_mod_eq [of "unat z" 64, symmetric]
  have "unat b2 div 2 ^ 4 mod 2 ^ 8 = unat x"
    by (rule window_word [OF n2, of _ _ "unat b" _ "unat y div 16"])
       (use lt dm in \<open>simp_all add: d algebra_simps, linarith\<close>)
  then show "ucast (signed_drop_bit 4 b2) = x"
    by (simp add: word_unat_eq_iff b64_byte)
  have "unat b3 div 2 ^ 2 mod 2 ^ 8 = unat y"
    by (rule window_word [OF n3, of _ _ "unat b * 256 + unat x" _ "unat z div 64"])
       (use lt dm in \<open>simp_all add: d algebra_simps, linarith\<close>)
  then show "ucast (signed_drop_bit 2 b3) = y"
    by (simp add: word_unat_eq_iff b64_byte)
  have "unat b4 div 2 ^ 0 mod 2 ^ 8 = unat z"
    by (rule window_word [OF n4, of _ _ "unat b * 65536 + unat x * 256 + unat y" _ 0])
       (use lt dm in \<open>simp_all add: d algebra_simps, linarith\<close>)
  then show "ucast (signed_drop_bit 0 b4) = z"
    by (simp only: word_unat_eq_iff b64_byte le0) simp
qed

section \<open>Round trip\<close>

definition b64_chars :: "byte \<Rightarrow> byte \<Rightarrow> byte \<Rightarrow> string" where
  "b64_chars x y z = map (\<lambda>d. switch_b64_table ! d) (b64_digits x y z)"

lemma length_b64_chars [simp]: "length (b64_chars x y z) = 4"
  by (simp add: b64_chars_def b64_digits_def)

lemma b64_digits_less: "d \<in> set (b64_digits x y z) \<Longrightarrow> d < 64"
proof -
  have "unat x mod 4 * 16 + unat y div 16 < 64" "unat y mod 16 * 4 + unat z div 64 < 64"
    using unat_byte [of y] unat_byte [of z] by linarith+
  then show "d \<in> set (b64_digits x y z) \<Longrightarrow> d < 64"
    using unat_byte [of x] by (auto simp: b64_digits_def)
qed

lemma b64_drain_once:
  assumes "olen < 2 ^ 31" "length out + 2 < olen" "6 \<le> l"
  shows "b64_drain olen b l out =
    b64_drain olen b (l - 6) (out @ [switch_b64_table ! unat (drop_bit (l - 6) b mod 64)])"
  using assms by (simp add: b64_drain.simps [of olen b l] put_cell_ok b64_full_iff)

lemma b64_drain_stop: "l < 6 \<Longrightarrow> b64_drain olen b l out = Inr (False, l, out)"
  by (simp add: b64_drain.simps)

lemma b64_encode_chunk:
  assumes "olen < 2 ^ 31" "length out + 5 < olen"
  shows "\<exists>b'. b64_encode_loop olen (x # y # z # xs) b 0 out =
    b64_encode_loop olen xs b' 0 (out @ b64_chars x y z)"
proof -
  let ?b1 = "push_bit 8 b + ucast x"
  let ?b2 = "push_bit 8 ?b1 + ucast y"
  let ?b3 = "push_bit 8 ?b2 + ucast z"
  have chars: "b64_chars x y z = map (\<lambda>d. switch_b64_table ! d)
      [unat (drop_bit 2 ?b1 mod 64), unat (drop_bit 4 ?b2 mod 64), unat (drop_bit 6 ?b3 mod 64), unat (?b3 mod 64)]"
    unfolding b64_chars_def b64_encode_windows ..
  show ?thesis
    unfolding chars using assms
    by (intro exI [of _ ?b3])
       (simp only: b64_encode_loop.simps Let_def, simp add: b64_drain_once b64_drain_stop)
qed

lemma b64_emit_stop: "l < 8 \<Longrightarrow> b64_emit olen b l out = Inr (False, l, out)"
  by (simp add: b64_emit.simps)

lemma b64_emit_once:
  assumes "olen < size_mod" "length out + 3 < olen" "8 \<le> l"
  shows "b64_emit olen b l out = b64_emit olen b (l - 8) (out @ [ucast (signed_drop_bit (l - 8) b)])"
proof -
  have "\<not> size_sub olen 2 \<le> Suc (length out)" using assms by (simp add: size_sub_eq)
  with assms show ?thesis by (subst b64_emit.simps) (simp add: put_cell_ok)
qed

lemma b64_decode_chunk:
  assumes "olen < size_mod" "length out + 5 < olen"
  shows "\<exists>b'. b64_decode_loop olen (b64_chars x y z @ s) b 0 out = b64_decode_loop olen s b' 0 (out @ [x, y, z])"
proof -
  obtain d1 d2 d3 d4 where d: "b64_digits x y z = [d1, d2, d3, d4]" by (simp add: b64_digits_def)
  then have lt: "d1 < 64" "d2 < 64" "d3 < 64" "d4 < 64" using b64_digits_less [of _ x y z] by auto
  define w where "w e = (word_of_int (uint (of_nat e :: byte)) :: uint32_t)" for e
  have u: "[unat (w d1), unat (w d2), unat (w d3), unat (w d4)] = b64_digits x y z"
    using lt by (simp only: d unat_digit w_def)
  note W = b64_decode_windows [OF u, of b]
  have step: "b64_decode_loop olen (switch_b64_table ! e # t) c l o1 =
      and_then (b64_emit olen (push_bit 6 c + w e) (l + 6) o1)
        (\<lambda>(full, l, out). if full then Inr out else b64_decode_loop olen t (push_bit 6 c + w e) l out)"
    if "e < 64" for e t c l o1
    using that b64_never_minus_1 by (simp only: b64_decode_loop.simps Let_def b64_l64_table if_False w_def)
  show ?thesis
    using assms
    by (intro exI [of _ "push_bit 6 (push_bit 6 (push_bit 6 (push_bit 6 b + w d1) + w d2) + w d3) + w d4"])
       (simp add: b64_chars_def d step lt b64_emit_once b64_emit_stop W [simplified] del: b64_decode_loop.simps)
qed

lemma b64_chunks:
  "length xs = 3 * n \<Longrightarrow> olen < 2 ^ 31 \<Longrightarrow> length out + 4 * n + 1 < olen \<Longrightarrow>
   dlen < size_mod \<Longrightarrow> length dout + 3 * n + 2 < dlen \<Longrightarrow>
   \<exists>s. b64_encode_loop olen xs b 0 out = Inr (out @ s) \<and> length s = 4 * n \<and> set s \<subseteq> set switch_b64_table \<and>
     (\<forall>b. b64_decode_loop dlen s b 0 dout = Inr (dout @ xs))"
proof (induction n arbitrary: xs b out dout)
  case 0
  then show ?case by (simp add: b64_finish_def)
next
  case (Suc n)
  then obtain x y z ys where xs: "xs = x # y # z # ys" "length ys = 3 * n"
    by (cases xs; cases "tl xs"; cases "tl (tl xs)") auto
  obtain b' where e: "b64_encode_loop olen xs b 0 out = b64_encode_loop olen ys b' 0 (out @ b64_chars x y z)"
    using b64_encode_chunk [of olen out x y z ys b] Suc.prems xs by auto
  obtain s where s: "b64_encode_loop olen ys b' 0 (out @ b64_chars x y z) = Inr ((out @ b64_chars x y z) @ s)"
      "length s = 4 * n" "set s \<subseteq> set switch_b64_table"
      "\<forall>b. b64_decode_loop dlen s b 0 (dout @ [x, y, z]) = Inr ((dout @ [x, y, z]) @ ys)"
    using Suc.IH [OF xs(2) Suc.prems(2) _ Suc.prems(4), of "out @ b64_chars x y z" "dout @ [x, y, z]" b'] Suc.prems
    by auto
  have "set (b64_chars x y z) \<subseteq> set switch_b64_table"
    using b64_digits_less length_b64_table by (auto simp: b64_chars_def)
  moreover have "b64_decode_loop dlen (b64_chars x y z @ s) b 0 dout = Inr (dout @ xs)" for b
    using b64_decode_chunk [of dlen dout x y z s b] Suc.prems s(4) xs by auto
  ultimately show ?case
    using e s by (intro exI [of _ "b64_chars x y z @ s"]) simp
qed

text \<open>No character is skipped: every six bits read produce their share of output bytes.\<close>

lemma b64_emit_count:
  assumes "l < 8" "olen < size_mod" "8 * length out + l + 6 < 8 * (olen - 2)"
  shows "\<exists>l' out'. b64_emit olen b (l + 6) out = Inr (False, l', out') \<and> l' < 8 \<and>
    8 * length out' + l' = 8 * length out + l + 6"
proof (cases "l < 2")
  case True
  then show ?thesis by (simp add: b64_emit_stop)
next
  case False
  then have "length out + 3 < olen" using assms(3) by linarith
  with False assms(1,2) show ?thesis by (auto simp: b64_emit_once b64_emit_stop)
qed

lemma b64_decode_count:
  "l < 8 \<Longrightarrow> olen < size_mod \<Longrightarrow> 8 * length out + l + 6 * length s < 8 * (olen - 2) \<Longrightarrow>
   \<exists>out'. b64_decode_loop olen s b l out = Inr out' \<and>
     length out' = (8 * length out + l + 6 * length s) div 8"
proof (induction s arbitrary: b l out)
  case (Cons ch s)
  let ?b = "push_bit 6 b + word_of_int (uint (b64_l64 ! of_char ch))"
  have "8 * length out + l + 6 < 8 * (olen - 2)" using Cons.prems by simp
  then obtain l' out' where e: "b64_emit olen ?b (l + 6) out = Inr (False, l', out')" "l' < 8"
      "8 * length out' + l' = 8 * length out + l + 6"
    using b64_emit_count Cons.prems by blast
  have "8 * length out' + l' + 6 * length s < 8 * (olen - 2)" using Cons.prems e(3) by simp
  then show ?case
    using Cons.IH [OF e(2) Cons.prems(2), of out' ?b] e b64_never_minus_1 [of "b64_l64 ! of_char ch"]
    by (auto simp: Let_def algebra_simps)
qed simp

section \<open>Properties\<close>

text \<open>C20: Encoding and decoding round-trip for every input whose length is a multiple of three, given
  room for the encoded text, the decoded bytes and their terminators; the encoded text has four
  characters of the alphabet for every three bytes.\<close>

theorem b64_roundtrip:
  assumes "length xs = 3 * n" and "4 * n + 1 < olen" and "olen < 2 ^ 31"
    and "3 * n + 2 < dlen" and "dlen < size_mod"
  shows "\<exists>s. switch_b64_encode xs olen = Inr (SWITCH_STATUS_SUCCESS, s @ [CHR 0x00]) \<and>
    length s = 4 * n \<and> set s \<subseteq> set switch_b64_table \<and>
    switch_b64_decode s dlen = Inr (3 * n + 1, xs @ [0])"
proof -
  obtain s where s: "b64_encode_loop olen xs 0 0 [] = Inr s" "length s = 4 * n"
      "set s \<subseteq> set switch_b64_table" "b64_decode_loop dlen s 0 0 [] = Inr xs"
    using b64_chunks [OF assms(1,3) _ assms(5), of "[]" "[]" 0] assms by auto
  with assms show ?thesis
    by (auto simp: switch_b64_encode_def switch_b64_decode_def put_cell_ok)
qed

theorem b64_roundtrip_witness:
  "\<exists>s. switch_b64_encode [1, 2, 255] 16 = Inr (SWITCH_STATUS_SUCCESS, s @ [CHR 0x00]) \<and>
    length s = 4 \<and> set s \<subseteq> set switch_b64_table \<and> switch_b64_decode s 16 = Inr (4, [1, 2, 255] @ [0])"
  using b64_roundtrip [of "[1, 2, 255]" 1 16 16] by (simp add: size_mod_def)

text \<open>C37: Neither coder writes outside an output buffer of at least two bytes, whatever the input,
  even when the buffer is too small for the result.\<close>

theorem b64_in_bounds:
  assumes "2 \<le> olen" and "olen < 2 ^ 31"
  shows "(\<exists>out. switch_b64_encode xs olen = Inr (SWITCH_STATUS_SUCCESS, out) \<and> length out \<le> olen) \<and>
    (\<exists>out. switch_b64_decode s olen = Inr (length out, out) \<and> length out \<le> olen)"
  using b64_encode_loop_bound [of olen "[]" xs 0 0] b64_decode_loop_bound [of olen "[]" s 0 0] assms
  by (auto simp: switch_b64_encode_def switch_b64_decode_def put_cell_ok size_mod_def)

theorem b64_in_bounds_witness:
  "(\<exists>out. switch_b64_encode [65, 66, 67] 2 = Inr (SWITCH_STATUS_SUCCESS, out) \<and> length out \<le> 2) \<and>
    (\<exists>out. switch_b64_decode ''QUJD'' 2 = Inr (length out, out) \<and> length out \<le> 2)"
  using b64_in_bounds [of 2 "[65, 66, 67]" "''QUJD''"] by simp

text \<open>On a target where \<^verbatim>\<open>char\<close> is unsigned the decoder skips no character at all: for every
  text, padding and line breaks included, it returns three bytes for every four characters. So
  text with padding never decodes to the bytes that were encoded.\<close>

theorem b64_decode_never_skips:
  assumes "6 * length s < 8 * (olen - 2)" and "olen < size_mod"
  shows "\<exists>out. switch_b64_decode s olen = Inr (6 * length s div 8 + 1, out) \<and>
    length out = 6 * length s div 8 + 1"
proof -
  obtain out where "b64_decode_loop olen s 0 0 [] = Inr out" "length out = 6 * length s div 8"
    using b64_decode_count [of 0 olen "[]" s 0] assms by auto
  moreover have "6 * length s div 8 < olen" using assms by linarith
  ultimately show ?thesis by (simp add: switch_b64_decode_def put_cell_ok)
qed

theorem b64_decode_never_skips_witness:
  "\<exists>out. switch_b64_decode ''QQ=='' 32 = Inr (4, out) \<and> length out = 4"
  using b64_decode_never_skips [of "''QQ==''" 32] by (simp add: size_mod_def)

end
