(* ===== verification/FS_Port_Allocator.thy ===== *)
theory FS_Port_Allocator
  imports FS_Prelude
begin

text \<open>
  \<^verbatim>\<open>src/switch_core_port_allocator.c\<close>: a range of ports with one tracking cell per port. A cell is 1
  while its port is handed out, 0 when it is free, and negative for a while after the port was given
  back or failed its test. Ports and counters are natural numbers, cut to 16 and 32 bits where the
  code cuts them. What \<^verbatim>\<open>rand\<close> and the socket tests return is given for each turn of the request
  loop.
\<close>

section \<open>Data\<close>

definition SPF_ODD :: uint32_t where "SPF_ODD = 1"
definition SPF_EVEN :: uint32_t where "SPF_EVEN = 2"
definition SPF_ROBUST_TCP :: uint32_t where "SPF_ROBUST_TCP = 4"
definition SPF_ROBUST_UDP :: uint32_t where "SPF_ROBUST_UDP = 8"

record switch_core_port_allocator =
  pa_ip :: string
  pa_start :: nat
  pa_end :: nat
  pa_next :: nat
  pa_track :: "int list"
  pa_track_len :: nat
  pa_track_used :: nat
  pa_flags :: uint32_t

definition port_mod :: nat where "port_mod = 2 ^ 16"

definition pa_even :: "switch_core_port_allocator \<Rightarrow> bool" where
  "pa_even alloc \<longleftrightarrow> test_flag (pa_flags alloc) SPF_EVEN"

definition pa_odd :: "switch_core_port_allocator \<Rightarrow> bool" where
  "pa_odd alloc \<longleftrightarrow> test_flag (pa_flags alloc) SPF_ODD"

section \<open>Operations\<close>

text \<open>\<open>runtime_flags\<close> is \<^verbatim>\<open>runtime.port_alloc_flags\<close>. The memory pool is assumed to be available;
  the tracking cells start at zero.\<close>

definition switch_core_port_allocator_new ::
  "string \<Rightarrow> nat \<Rightarrow> nat \<Rightarrow> uint32_t \<Rightarrow> uint32_t \<Rightarrow> switch_status_t \<times> switch_core_port_allocator" where
  "switch_core_port_allocator_new ip start en flags runtime_flags =
     (let even = test_flag flags SPF_EVEN;
          odd = test_flag flags SPF_ODD;
          (start, en) =
            (if \<not> (even \<and> odd) then
               (if even then (if start mod 2 \<noteq> 0 then (start + 1) mod port_mod else start,
                              if en mod 2 \<noteq> 0 then (en + port_mod - 1) mod port_mod else en)
                else if odd then (if start mod 2 = 0 then (start + 1) mod port_mod else start,
                                  if en mod 2 = 0 then (en + port_mod - 1) mod port_mod else en)
                else (start, en))
             else (start, en));
          track_len = nat ((int en - int start + 2) mod 2 ^ 32);
          track_len = (if \<not> (even \<and> odd) then track_len div 2 else track_len)
      in (SWITCH_STATUS_SUCCESS,
          \<lparr>pa_ip = ip, pa_start = start, pa_end = en, pa_next = start,
           pa_track = replicate ((track_len + 2) mod 2 ^ 32) 0,
           pa_track_len = track_len, pa_track_used = 0, pa_flags = flags OR runtime_flags\<rparr>))"

text \<open>The inner loop: walk up from \<open>index\<close> over cells in use, ageing the negative ones.\<close>

function pa_walk :: "nat \<Rightarrow> int list \<Rightarrow> nat \<Rightarrow> nat \<Rightarrow> nat \<times> nat \<times> int list" where
  "pa_walk len track index tries =
     (if track ! index \<noteq> 0 \<and> tries < len then
        (let track = (if track ! index < 0 then track[index := track ! index + 1] else track);
             index = (if index + 1 \<ge> len then 0 else index + 1)
         in pa_walk len track index (tries + 1))
      else (index, tries, track))"
  by pat_completeness auto
termination
  by (relation "measure (\<lambda>(len, track, index, tries). len - tries)") auto

declare pa_walk.simps [simp del]

definition pa_port :: "switch_core_port_allocator \<Rightarrow> nat \<Rightarrow> nat" where
  "pa_port alloc index =
     (if pa_even alloc \<and> pa_odd alloc then (index + pa_start alloc) mod port_mod
      else (((index + pa_start alloc div 2) mod port_mod) * 2) mod port_mod)"

text \<open>The outcome of the socket tests: the answer of the last one made counts.\<close>

definition pa_tested :: "switch_core_port_allocator \<Rightarrow> (nat \<Rightarrow> bool) \<Rightarrow> (nat \<Rightarrow> bool) \<Rightarrow> nat \<Rightarrow> bool" where
  "pa_tested alloc udp tcp port =
     (let r = True;
          r = (if test_flag (pa_flags alloc) SPF_ROBUST_UDP then udp port else r);
          r = (if test_flag (pa_flags alloc) SPF_ROBUST_TCP then tcp port else r)
      in r)"

text \<open>The outer loop. \<open>rnd\<close>, \<open>udp\<close> and \<open>tcp\<close> say what \<^verbatim>\<open>rand()\<close> and the two tests return on turn
  number \<open>k\<close>; the fuel bounds the number of turns, and \<open>None\<close> means that it did not suffice.\<close>

fun pa_request_loop ::
  "nat \<Rightarrow> nat \<Rightarrow> (nat \<Rightarrow> nat) \<Rightarrow> (nat \<Rightarrow> nat \<Rightarrow> bool) \<Rightarrow> (nat \<Rightarrow> nat \<Rightarrow> bool) \<Rightarrow> switch_core_port_allocator \<Rightarrow>
   (switch_status_t \<times> nat \<times> switch_core_port_allocator) option" where
  "pa_request_loop 0 k rnd udp tcp alloc = None"
| "pa_request_loop (Suc fuel) k rnd udp tcp alloc =
     (if pa_track_used alloc < pa_track_len alloc then
        (case pa_walk (pa_track_len alloc) (pa_track alloc) (rnd k mod pa_track_len alloc) 0 of
           (index, tries, track) \<Rightarrow>
             (let alloc = alloc\<lparr>pa_track := track\<rparr> in
              if tries < pa_track_len alloc then
                (let port = pa_port alloc index in
                 if pa_tested alloc (udp k) (tcp k) port then
                   Some (SWITCH_STATUS_SUCCESS, port,
                     alloc\<lparr>pa_track := track[index := 1], pa_track_used := (pa_track_used alloc + 1) mod 2 ^ 32\<rparr>)
                 else pa_request_loop fuel (k + 1) rnd udp tcp (alloc\<lparr>pa_track := track[index := - 4]\<rparr>))
              else pa_request_loop fuel (k + 1) rnd udp tcp alloc))
      else Some (SWITCH_STATUS_FALSE, 0, alloc))"

definition switch_core_port_allocator_request_port ::
  "nat \<Rightarrow> (nat \<Rightarrow> nat) \<Rightarrow> (nat \<Rightarrow> nat \<Rightarrow> bool) \<Rightarrow> (nat \<Rightarrow> nat \<Rightarrow> bool) \<Rightarrow> switch_core_port_allocator \<Rightarrow>
   (switch_status_t \<times> nat \<times> switch_core_port_allocator) option" where
  "switch_core_port_allocator_request_port fuel rnd udp tcp alloc = pa_request_loop fuel 0 rnd udp tcp alloc"

definition switch_core_port_allocator_free_port ::
  "switch_core_port_allocator \<Rightarrow> nat \<Rightarrow> (switch_status_t \<times> switch_core_port_allocator) c_result" where
  "switch_core_port_allocator_free_port alloc port =
     (if port < pa_start alloc then Inr (SWITCH_STATUS_GENERR, alloc)
      else
        (let index = port - pa_start alloc;
             index = (if \<not> (pa_even alloc \<and> pa_odd alloc) then index div 2 else index)
         in if index \<ge> length (pa_track alloc) then Inl Out_Of_Bounds
            else if pa_track alloc ! index > 0 then
              Inr (SWITCH_STATUS_SUCCESS,
                alloc\<lparr>pa_track := (pa_track alloc)[index := - 4],
                      pa_track_used := (pa_track_used alloc + 2 ^ 32 - 1) mod 2 ^ 32\<rparr>)
            else Inr (SWITCH_STATUS_FALSE, alloc)))"

section \<open>Invariant\<close>

definition cell_ok :: "int \<Rightarrow> bool" where
  "cell_ok c \<longleftrightarrow> c = 1 \<or> - 4 \<le> c \<and> c \<le> 0"

definition used_cells :: "nat \<Rightarrow> int list \<Rightarrow> nat set" where
  "used_cells n track = {i. i < n \<and> track ! i = 1}"

definition pa_inv :: "switch_core_port_allocator \<Rightarrow> bool" where
  "pa_inv a \<longleftrightarrow> length (pa_track a) = pa_track_len a + 2 \<and> pa_track_len a < 2 ^ 32 \<and>
     (\<forall>i<pa_track_len a. cell_ok (pa_track a ! i)) \<and>
     pa_track_used a = card (used_cells (pa_track_len a) (pa_track a))"

section \<open>The walk over the cells\<close>

definition aged :: "int \<Rightarrow> int" where
  "aged c = (if c < 0 then c + 1 else c)"

text \<open>One step of the walk.\<close>

lemma pa_walk_step:
  "pa_walk len track index tries =
     (if track ! index \<noteq> 0 \<and> tries < len
      then pa_walk len (track[index := aged (track ! index)]) (if index + 1 \<ge> len then 0 else index + 1) (tries + 1)
      else (index, tries, track))"
  by (subst pa_walk.simps) (simp add: aged_def Let_def list_update_id)

lemma aged_ok: "cell_ok c \<Longrightarrow> c \<noteq> 0 \<Longrightarrow> cell_ok (aged c) \<and> (aged c = 1 \<longleftrightarrow> c = 1)"
  by (auto simp: cell_ok_def aged_def)

lemma pa_walk_spec:
  "pa_walk len track index tries = (i, n, track') \<Longrightarrow> index < len \<Longrightarrow> len \<le> length track \<Longrightarrow> tries \<le> len \<Longrightarrow>
   (\<forall>j<len. cell_ok (track ! j)) \<Longrightarrow>
   i < len \<and> n \<le> len \<and> length track' = length track \<and> (\<forall>j<len. cell_ok (track' ! j)) \<and>
   used_cells len track' = used_cells len track \<and> (n < len \<longrightarrow> track' ! i = 0)"
proof (induction len track index tries rule: pa_walk.induct)
  case (1 len track index tries)
  show ?case
  proof (cases "track ! index \<noteq> 0 \<and> tries < len")
    case True
    let ?t = "track[index := aged (track ! index)]" and ?i = "if index + 1 \<ge> len then 0 else index + 1"
    have ok: "cell_ok (track ! index)" using "1.prems" by blast
    have w: "pa_walk len ?t ?i (tries + 1) = (i, n, track')"
      using "1.prems"(1) True by (subst (asm) pa_walk_step) simp
    have "?t = (if track ! index < 0 then track[index := track ! index + 1] else track)" by (simp add: aged_def)
    moreover have "\<forall>j<len. cell_ok (?t ! j)" using "1.prems" aged_ok [OF ok] True by (auto simp: nth_list_update)
    ultimately have "i < len \<and> n \<le> len \<and> length track' = length ?t \<and> (\<forall>j<len. cell_ok (track' ! j)) \<and>
        used_cells len track' = used_cells len ?t \<and> (n < len \<longrightarrow> track' ! i = 0)"
      using "1.IH" [OF True refl refl] w "1.prems" True by (auto simp del: list_update_id)
    moreover have "used_cells len ?t = used_cells len track"
      using "1.prems" aged_ok [OF ok] True by (auto simp: used_cells_def nth_list_update)
    ultimately show ?thesis by simp
  next
    case False
    then show ?thesis using "1.prems" by (subst (asm) pa_walk_step) (auto split: if_splits)
  qed
qed

text \<open>A walk that finds no free cell has passed every cell once.\<close>

lemma pa_walk_full:
  "pa_walk len track index tries = (i, n, track') \<Longrightarrow> index < len \<Longrightarrow> len \<le> length track \<Longrightarrow> tries \<le> len \<Longrightarrow>
   n = len \<Longrightarrow>
   (\<forall>p. track' ! p = (if \<exists>j<len - tries. p = (index + j) mod len then aged (track ! p) else track ! p)) \<and>
   (\<forall>j<len - tries. track ! ((index + j) mod len) \<noteq> 0)"
proof (induction len track index tries rule: pa_walk.induct)
  case (1 len track index tries)
  show ?case
  proof (cases "tries < len")
    case True
    have nz: "track ! index \<noteq> 0"
      using "1.prems" True by (subst (asm) pa_walk_step) (auto split: if_splits)
    let ?t = "track[index := aged (track ! index)]" and ?i = "if index + 1 \<ge> len then 0 else index + 1"
    have w: "pa_walk len ?t ?i (tries + 1) = (i, n, track')"
      using "1.prems"(1) True nz by (subst (asm) pa_walk_step) simp
    have t: "?t = (if track ! index < 0 then track[index := track ! index + 1] else track)" by (simp add: aged_def)
    have imod: "?i = (index + 1) mod len" using "1.prems"(2) by (auto simp: le_Suc_eq mod_if)
    have IH: "(\<forall>p. track' ! p = (if \<exists>j<len - (tries + 1). p = (?i + j) mod len then aged (?t ! p) else ?t ! p)) \<and>
        (\<forall>j<len - (tries + 1). ?t ! ((?i + j) mod len) \<noteq> 0)"
      using "1.IH" [OF _ refl refl] nz True w "1.prems" unfolding t [symmetric] by simp
    have shift: "(?i + j) mod len = (index + Suc j) mod len" for j
      unfolding imod by (simp add: mod_simps)
    have ne: "(index + Suc j) mod len \<noteq> index" if "j < len - (tries + 1)" for j
    proof
      assume "(index + Suc j) mod len = index"
      then have "Suc j mod len = 0"
        using "1.prems"(2) by (metis add.commute add_diff_cancel_left' mod_add_self1 mod_eq_dvd_iff_nat mod_less
            dvd_imp_mod_0 le_add1)
      then show False using that by (simp add: mod_less)
    qed
    have ex: "(\<exists>j<len - tries. p = (index + j) mod len) \<longleftrightarrow>
        p = index \<or> (\<exists>j<len - (tries + 1). p = (index + Suc j) mod len)" for p
      using True "1.prems"(2) by (auto simp: less_Suc_eq_0_disj Suc_diff_Suc [symmetric] simp del: Suc_diff_Suc)
    have il: "index < length track" using "1.prems" by simp
    have "track' ! p = (if \<exists>j<len - tries. p = (index + j) mod len then aged (track ! p) else track ! p)" for p
    proof (cases "p = index")
      case True
      moreover have "\<not> (\<exists>j<len - (tries + 1). index = (index + Suc j) mod len)" using ne by metis
      ultimately show ?thesis using IH il unfolding ex shift by auto
    next
      case False
      then show ?thesis using IH unfolding ex shift by auto
    qed
    moreover have "track ! ((index + j) mod len) \<noteq> 0" if "j < len - tries" for j
    proof (cases j)
      case 0
      then show ?thesis using nz "1.prems"(2) by simp
    next
      case (Suc j')
      then have "j' < len - (tries + 1)" using that by simp
      then show ?thesis using IH ne [of j'] Suc unfolding shift by (metis nth_list_update_neq)
    qed
    ultimately show ?thesis by blast
  next
    case False
    then show ?thesis using "1.prems" by (subst (asm) pa_walk_step) auto
  qed
qed

lemma pa_walk_ages:
  assumes "pa_walk len track index 0 = (i, len, track')" and "index < len" and "len \<le> length track" and "p < len"
  shows "track ! p \<noteq> 0" and "track' ! p = aged (track ! p)"
proof -
  note F = pa_walk_full [OF assms(1-3) _ refl, simplified]
  have "\<exists>j<len. p = (index + j) mod len"
  proof (cases "index \<le> p")
    case True
    then show ?thesis using assms(4) by (intro exI [of _ "p - index"]) simp
  next
    case False
    then show ?thesis using assms(2,4) by (intro exI [of _ "p + len - index"]) simp
  qed
  then show "track ! p \<noteq> 0" "track' ! p = aged (track ! p)" using F by auto
qed

section \<open>Requests succeed\<close>

definition tests_pass :: "switch_core_port_allocator \<Rightarrow> (nat \<Rightarrow> nat \<Rightarrow> bool) \<Rightarrow> (nat \<Rightarrow> nat \<Rightarrow> bool) \<Rightarrow> bool" where
  "tests_pass a udp tcp \<longleftrightarrow>
     (test_flag (pa_flags a) SPF_ROBUST_UDP \<longrightarrow> (\<forall>k p. udp k p)) \<and>
     (test_flag (pa_flags a) SPF_ROBUST_TCP \<longrightarrow> (\<forall>k p. tcp k p))"

lemma tests_pass_tested: "tests_pass a udp tcp \<Longrightarrow> pa_tested a (udp k) (tcp k) p"
  by (simp add: tests_pass_def pa_tested_def)

lemma used_cells_finite [simp]: "finite (used_cells n t)"
  by (simp add: used_cells_def)

lemma used_cells_card: "card (used_cells n t) \<le> n"
  using card_mono [of "{..<n}" "used_cells n t"] by (auto simp: used_cells_def)

lemma used_cells_update:
  assumes "i < n" and "i < length t"
  shows "used_cells n (t[i := 1]) = insert i (used_cells n t)"
  using assms by (auto simp: used_cells_def nth_list_update)

lemma used_cells_release:
  assumes "i < n" and "i < length t" and "c \<noteq> 1"
  shows "used_cells n (t[i := c]) = used_cells n t - {i}"
  using assms by (auto simp: used_cells_def nth_list_update)

text \<open>What a successful request leaves behind: a cell that was not in use is in use.\<close>

definition pa_taken :: "switch_core_port_allocator \<Rightarrow> nat \<Rightarrow> switch_core_port_allocator \<Rightarrow> bool" where
  "pa_taken a i a' \<longleftrightarrow>
     i < pa_track_len a \<and> i \<notin> used_cells (pa_track_len a) (pa_track a) \<and> pa_inv a' \<and>
     used_cells (pa_track_len a) (pa_track a') = insert i (used_cells (pa_track_len a) (pa_track a)) \<and>
     a' = a\<lparr>pa_track := pa_track a', pa_track_used := pa_track_used a'\<rparr>"

lemma pa_take:
  assumes inv: "pa_inv a" and less: "pa_track_used a < pa_track_len a"
    and w: "pa_walk (pa_track_len a) (pa_track a) (r mod pa_track_len a) 0 = (i, n, track')" and n: "n < pa_track_len a"
  shows "pa_taken a i (a\<lparr>pa_track := track'[i := 1], pa_track_used := (pa_track_used a + 1) mod 2 ^ 32\<rparr>)"
proof -
  have len: "r mod pa_track_len a < pa_track_len a" using less by (simp add: mod_less_divisor)
  have le: "pa_track_len a \<le> length (pa_track a)" and ok: "\<forall>j<pa_track_len a. cell_ok (pa_track a ! j)"
    and ln: "length (pa_track a) = pa_track_len a + 2" using inv by (simp_all add: pa_inv_def)
  note W0 = pa_walk_spec [OF w len le le0 ok]
  have l': "length track' = pa_track_len a + 2" using W0 ln by metis
  have z: "track' ! i = 0" using W0 n by blast
  note W = W0 [THEN conjunct1] l' W0 [THEN conjunct2, THEN conjunct2, THEN conjunct2, THEN conjunct1]
    W0 [THEN conjunct2, THEN conjunct2, THEN conjunct2, THEN conjunct2, THEN conjunct1] z
  have "i \<notin> used_cells (pa_track_len a) track'" using z by (simp add: used_cells_def)
  then have new: "i \<notin> used_cells (pa_track_len a) (pa_track a)" unfolding W(4) .
  have "i < length track'" using W(1,2) by simp
  then have u: "used_cells (pa_track_len a) (track'[i := 1]) = insert i (used_cells (pa_track_len a) (pa_track a))"
    unfolding W(4) [symmetric] by (rule used_cells_update [OF W(1)])
  have "(pa_track_used a + 1) mod 2 ^ 32 = pa_track_used a + 1" using less inv by (simp add: pa_inv_def)
  moreover have "card (insert i (used_cells (pa_track_len a) (pa_track a))) = pa_track_used a + 1"
    using new inv by (simp add: pa_inv_def)
  ultimately show ?thesis
    using W new u inv by (auto simp: pa_taken_def pa_inv_def nth_list_update cell_ok_def)
qed

text \<open>A cell that is \<open>d\<close> turns from being free makes a request succeed within \<open>d + 1\<close> turns.\<close>

lemma pa_request_within:
  "pa_inv a \<Longrightarrow> tests_pass a udp tcp \<Longrightarrow> p < pa_track_len a \<Longrightarrow> pa_track a ! p = - int d \<Longrightarrow> d < fuel \<Longrightarrow>
   \<exists>i a'. pa_request_loop fuel k rnd udp tcp a = Some (SWITCH_STATUS_SUCCESS, pa_port a i, a') \<and> pa_taken a i a'"
proof (induction fuel arbitrary: a d k)
  case (Suc fuel)
  let ?len = "pa_track_len a"
  have inv: "length (pa_track a) = ?len + 2" "\<forall>j<?len. cell_ok (pa_track a ! j)"
    "pa_track_used a = card (used_cells ?len (pa_track a))" using Suc.prems(1) by (simp_all add: pa_inv_def)
  have "p \<notin> used_cells ?len (pa_track a)" using Suc.prems(4) by (simp add: used_cells_def)
  then have "used_cells ?len (pa_track a) \<subset> {..<?len}" using Suc.prems(3) by (auto simp: used_cells_def)
  then have less: "pa_track_used a < ?len" using psubset_card_mono [of "{..<?len}"] inv(3) by simp
  obtain i n track' where w: "pa_walk ?len (pa_track a) (rnd k mod ?len) 0 = (i, n, track')" by (metis prod.exhaust)
  have r: "rnd k mod ?len < ?len" using less by (simp add: mod_less_divisor)
  have le: "?len \<le> length (pa_track a)" using inv(1) by simp
  note W = pa_walk_spec [OF w r le le0 inv(2)]
  have port: "pa_port (a\<lparr>pa_track := track'\<rparr>) i = pa_port a i" by (simp add: pa_port_def pa_even_def pa_odd_def)
  have test: "pa_tested (a\<lparr>pa_track := track'\<rparr>) (udp k) (tcp k) q" for q
    using tests_pass_tested [OF Suc.prems(2), of k q] by (simp add: pa_tested_def)
  show ?case
  proof (cases "n < ?len")
    case True
    have "pa_request_loop (Suc fuel) k rnd udp tcp a = Some (SWITCH_STATUS_SUCCESS, pa_port a i,
        a\<lparr>pa_track := track'[i := 1], pa_track_used := (pa_track_used a + 1) mod 2 ^ 32\<rparr>)"
      using less w True test port by (simp add: Let_def)
    with pa_take [OF Suc.prems(1) less w True] show ?thesis by blast
  next
    case False
    then have n: "n = ?len" using W by simp
    let ?a = "a\<lparr>pa_track := track'\<rparr>"
    note A = pa_walk_ages [OF w [unfolded n] r le Suc.prems(3)]
    obtain d' where d: "d = Suc d'" using A(1) Suc.prems(4) by (cases d) auto
    have "pa_track ?a ! p = - int d'" using A(2) Suc.prems(4) d by (simp add: aged_def)
    moreover have "pa_inv ?a" using W Suc.prems(1) by (simp add: pa_inv_def)
    moreover have "tests_pass ?a udp tcp" using Suc.prems(2) by (simp add: tests_pass_def)
    ultimately obtain j a' where j: "pa_request_loop fuel (k + 1) rnd udp tcp ?a = Some (SWITCH_STATUS_SUCCESS, pa_port ?a j, a')"
      "pa_taken ?a j a'" using Suc.IH [of ?a d' "k + 1"] Suc.prems(3,5) d by auto
    have "pa_taken a j a'" using j(2) W by (simp add: pa_taken_def)
    moreover have "pa_port ?a j = pa_port a j" by (simp add: pa_port_def pa_even_def pa_odd_def)
    moreover have "pa_request_loop (Suc fuel) k rnd udp tcp a = pa_request_loop fuel (k + 1) rnd udp tcp ?a"
      using less w n by (simp add: Let_def)
    ultimately show ?thesis using j(1) by auto
  qed
qed simp

lemma pa_request_ok:
  assumes "pa_inv a" and "tests_pass a udp tcp" and "pa_track_used a < pa_track_len a" and "5 \<le> fuel"
  shows "\<exists>i a'. switch_core_port_allocator_request_port fuel rnd udp tcp a = Some (SWITCH_STATUS_SUCCESS, pa_port a i, a') \<and>
    pa_taken a i a'"
proof -
  have "\<exists>p<pa_track_len a. pa_track a ! p \<noteq> 1"
  proof (rule ccontr)
    assume "\<not> (\<exists>p<pa_track_len a. pa_track a ! p \<noteq> 1)"
    then have "used_cells (pa_track_len a) (pa_track a) = {..<pa_track_len a}" by (auto simp: used_cells_def)
    then show False using assms(1,3) by (simp add: pa_inv_def)
  qed
  then obtain p where p: "p < pa_track_len a" "pa_track a ! p \<noteq> 1" by blast
  then have c: "- 4 \<le> pa_track a ! p" "pa_track a ! p \<le> 0" using assms(1) by (auto simp: pa_inv_def cell_ok_def)
  then have "pa_track a ! p = - int (nat (- (pa_track a ! p)))" "nat (- (pa_track a ! p)) < fuel" using assms(4) by auto
  from pa_request_within [OF assms(1,2) p(1) this] show ?thesis
    by (simp add: switch_core_port_allocator_request_port_def)
qed

lemma pa_request_full:
  assumes "\<not> pa_track_used a < pa_track_len a" and "0 < fuel"
  shows "switch_core_port_allocator_request_port fuel rnd udp tcp a = Some (SWITCH_STATUS_FALSE, 0, a)"
  using assms by (cases fuel) (simp_all add: switch_core_port_allocator_request_port_def)

text \<open>Whatever the tests answer, a request that returns has taken a free cell or found none.\<close>

lemma pa_port_track [simp]: "pa_port (a\<lparr>pa_track := t\<rparr>) i = pa_port a i"
  by (simp add: pa_port_def pa_even_def pa_odd_def)

lemma pa_taken_track:
  assumes "used_cells (pa_track_len a) t = used_cells (pa_track_len a) (pa_track a)" and "pa_taken (a\<lparr>pa_track := t\<rparr>) i a'"
  shows "pa_taken a i a'"
  using assms by (simp add: pa_taken_def)

text \<open>A cell whose port failed its test rests for a while; nothing is taken.\<close>

lemma pa_inv_cool:
  assumes "pa_inv (a\<lparr>pa_track := t\<rparr>)" and "i < pa_track_len a" and "t ! i = 0"
  shows "pa_inv (a\<lparr>pa_track := t[i := - 4]\<rparr>)" and "used_cells (pa_track_len a) (t[i := - 4]) = used_cells (pa_track_len a) t"
proof -
  have len: "i < length t" using assms(1,2) by (simp add: pa_inv_def)
  have "used_cells (pa_track_len a) (t[i := - 4]) = used_cells (pa_track_len a) t - {i}"
    using assms(2) len by (intro used_cells_release) simp_all
  also have "\<dots> = used_cells (pa_track_len a) t" using assms(3) by (auto simp: used_cells_def)
  finally show u: "used_cells (pa_track_len a) (t[i := - 4]) = used_cells (pa_track_len a) t" .
  then show "pa_inv (a\<lparr>pa_track := t[i := - 4]\<rparr>)"
    using assms(1) len by (auto simp: pa_inv_def nth_list_update cell_ok_def)
qed

lemma pa_request_sound:
  "pa_inv a \<Longrightarrow> pa_request_loop fuel k rnd udp tcp a = Some (st, port, a') \<Longrightarrow>
   (\<exists>i. st = SWITCH_STATUS_SUCCESS \<and> port = pa_port a i \<and> pa_taken a i a') \<or>
   st = SWITCH_STATUS_FALSE \<and> port = 0 \<and> \<not> pa_track_used a < pa_track_len a"
proof (induction fuel arbitrary: a k)
  case (Suc fuel)
  let ?len = "pa_track_len a"
  show ?case
  proof (cases "pa_track_used a < ?len")
    case less: True
    obtain i n track' where w: "pa_walk ?len (pa_track a) (rnd k mod ?len) 0 = (i, n, track')" by (metis prod.exhaust)
    have r: "rnd k mod ?len < ?len" using less by (simp add: mod_less_divisor)
    have le: "?len \<le> length (pa_track a)" and ok: "\<forall>j<?len. cell_ok (pa_track a ! j)"
      using Suc.prems(1) by (simp_all add: pa_inv_def)
    note W = pa_walk_spec [OF w r le le0 ok]
    have cont: ?thesis if "pa_request_loop fuel (k + 1) rnd udp tcp (a\<lparr>pa_track := t\<rparr>) = Some (st, port, a')"
      and "pa_inv (a\<lparr>pa_track := t\<rparr>)" and "used_cells ?len t = used_cells ?len (pa_track a)" for t
      using Suc.IH [OF that(2,1)] pa_taken_track [OF that(3)] by auto
    have inv: "pa_inv (a\<lparr>pa_track := track'\<rparr>)" using W Suc.prems(1) by (simp add: pa_inv_def)
    show ?thesis
    proof (cases "n < ?len")
      case n: True
      have "i < ?len" "track' ! i = 0" using W n by simp_all
      note C = pa_inv_cool [OF inv this]
      have u: "used_cells ?len (track'[i := - 4]) = used_cells ?len (pa_track a)" using C(2) W by metis
      show ?thesis
      proof (cases "pa_tested (a\<lparr>pa_track := track'\<rparr>) (udp k) (tcp k) (pa_port a i)")
        case True
        then show ?thesis using Suc.prems(2) less w n pa_take [OF Suc.prems(1) less w n] by (auto simp: Let_def)
      next
        case False
        then show ?thesis using Suc.prems(2) less w n by (intro cont [OF _ C(1) u]) (simp add: Let_def)
      qed
    next
      case False
      then show ?thesis using Suc.prems(2) less w W by (intro cont [OF _ inv]) (simp_all add: Let_def)
    qed
  next
    case False
    then show ?thesis using Suc.prems(2) by simp
  qed
qed simp

section \<open>Leases\<close>

datatype lease = Granted nat | Refused | Returned nat

text \<open>A log of leases over a set of ports: nothing is granted twice at a time, and a request is refused
  only when every port is out.\<close>

fun valid_log :: "nat set \<Rightarrow> nat set \<Rightarrow> lease list \<Rightarrow> bool" where
  "valid_log ports out [] \<longleftrightarrow> True"
| "valid_log ports out (Granted p # log) \<longleftrightarrow> p \<in> ports \<and> p \<notin> out \<and> valid_log ports (insert p out) log"
| "valid_log ports out (Refused # log) \<longleftrightarrow> out = ports \<and> valid_log ports out log"
| "valid_log ports out (Returned p # log) \<longleftrightarrow> valid_log ports (out - {p}) log"

text \<open>The client returns only what it was granted and has not returned yet.\<close>

fun disciplined :: "nat set \<Rightarrow> lease list \<Rightarrow> bool" where
  "disciplined out [] \<longleftrightarrow> True"
| "disciplined out (Granted p # log) \<longleftrightarrow> disciplined (insert p out) log"
| "disciplined out (Refused # log) \<longleftrightarrow> disciplined out log"
| "disciplined out (Returned p # log) \<longleftrightarrow> p \<in> out \<and> disciplined (out - {p}) log"

fun pool_run :: "('e \<Rightarrow> 's \<Rightarrow> (nat \<times> 's) option) \<Rightarrow> ('s \<Rightarrow> nat \<Rightarrow> 's) \<Rightarrow> ('e + nat) list \<Rightarrow> 's \<Rightarrow> lease list" where
  "pool_run acquire release [] s = []"
| "pool_run acquire release (Inl e # calls) s =
     (case acquire e s of None \<Rightarrow> Refused # pool_run acquire release calls s
      | Some (p, s') \<Rightarrow> Granted p # pool_run acquire release calls s')"
| "pool_run acquire release (Inr p # calls) s = Returned p # pool_run acquire release calls (release s p)"

text \<open>The contract of a pool of ports; \<open>env_ok\<close> says which environments never make a request fail.\<close>

locale lease_pool =
  fixes good :: "'s \<Rightarrow> bool" and ports :: "'s \<Rightarrow> nat set" and held :: "'s \<Rightarrow> nat set"
    and env_ok :: "'e \<Rightarrow> bool" and acquire :: "'e \<Rightarrow> 's \<Rightarrow> (nat \<times> 's) option" and release :: "'s \<Rightarrow> nat \<Rightarrow> 's"
  assumes acquire_some: "good s \<Longrightarrow> acquire e s = Some (p, s') \<Longrightarrow>
      good s' \<and> ports s' = ports s \<and> p \<in> ports s \<and> p \<notin> held s \<and> held s' = insert p (held s)"
    and acquire_none: "good s \<Longrightarrow> env_ok e \<Longrightarrow> acquire e s = None \<Longrightarrow> held s = ports s"
    and release_held: "good s \<Longrightarrow> p \<in> held s \<Longrightarrow>
      good (release s p) \<and> ports (release s p) = ports s \<and> held (release s p) = held s - {p}"
begin

lemma run_valid:
  "good s \<Longrightarrow> \<forall>e. Inl e \<in> set calls \<longrightarrow> env_ok e \<Longrightarrow> disciplined (held s) (pool_run acquire release calls s) \<Longrightarrow>
   valid_log (ports s) (held s) (pool_run acquire release calls s)"
proof (induction calls arbitrary: s)
  case (Cons c calls)
  show ?case
  proof (cases c)
    case (Inl e)
    show ?thesis
    proof (cases "acquire e s")
      case None
      then show ?thesis using Cons.prems Inl acquire_none [of s e] Cons.IH [of s] by auto
    next
      case (Some q)
      obtain p s' where q: "q = (p, s')" by (cases q)
      note A = acquire_some [OF Cons.prems(1) Some [unfolded q]]
      then show ?thesis using Cons.prems Inl Some q Cons.IH [of s'] by simp
    qed
  next
    case (Inr p)
    then have "p \<in> held s" using Cons.prems(3) by simp
    note R = release_held [OF Cons.prems(1) this]
    then show ?thesis using Cons.prems Inr Cons.IH [of "release s p"] by simp
  qed
qed simp

end

section \<open>Allocators of even ports\<close>

definition even_alloc :: "switch_core_port_allocator \<Rightarrow> bool" where
  "even_alloc a \<longleftrightarrow> pa_inv a \<and> pa_even a \<and> \<not> pa_odd a \<and> even (pa_start a) \<and> even (pa_end a) \<and>
     pa_start a \<le> pa_end a \<and> pa_end a < port_mod \<and> pa_track_len a = (pa_end a - pa_start a) div 2 + 1"

definition even_ports :: "switch_core_port_allocator \<Rightarrow> nat set" where
  "even_ports a = {p. pa_start a \<le> p \<and> p \<le> pa_end a \<and> even p}"

definition out_ports :: "switch_core_port_allocator \<Rightarrow> nat set" where
  "out_ports a = (\<lambda>i. pa_start a + 2 * i) ` used_cells (pa_track_len a) (pa_track a)"

definition tests_never_fail :: "(nat \<Rightarrow> nat) \<times> (nat \<Rightarrow> nat \<Rightarrow> bool) \<times> (nat \<Rightarrow> nat \<Rightarrow> bool) \<Rightarrow> bool" where
  "tests_never_fail = (\<lambda>(rnd, udp, tcp). \<forall>k p. udp k p \<and> tcp k p)"

definition pa_acquire ::
  "(nat \<Rightarrow> nat) \<times> (nat \<Rightarrow> nat \<Rightarrow> bool) \<times> (nat \<Rightarrow> nat \<Rightarrow> bool) \<Rightarrow> switch_core_port_allocator \<Rightarrow>
   (nat \<times> switch_core_port_allocator) option" where
  "pa_acquire = (\<lambda>(rnd, udp, tcp) a.
     case switch_core_port_allocator_request_port 5 rnd udp tcp a of
       Some (SWITCH_STATUS_SUCCESS, port, a') \<Rightarrow> Some (port, a') | _ \<Rightarrow> None)"

definition pa_release :: "switch_core_port_allocator \<Rightarrow> nat \<Rightarrow> switch_core_port_allocator" where
  "pa_release a port = (case switch_core_port_allocator_free_port a port of Inr (_, a') \<Rightarrow> a' | Inl _ \<Rightarrow> a)"

lemma even_port:
  assumes "even_alloc a" and "i < pa_track_len a"
  shows "pa_port a i = pa_start a + 2 * i" and "pa_start a + 2 * i \<in> even_ports a"
proof -
  have le: "pa_start a + 2 * i \<le> pa_end a" and lt: "pa_end a < port_mod" and ev: "even (pa_start a)"
    using assms by (auto simp: even_alloc_def)
  then show "pa_start a + 2 * i \<in> even_ports a" by (simp add: even_ports_def)
  obtain h where h: "pa_start a = 2 * h" using ev by (elim evenE)
  have "(i + h) mod port_mod = i + h" "(i + h) * 2 < port_mod" using le lt h by simp_all
  then show "pa_port a i = pa_start a + 2 * i"
    using assms h by (simp add: pa_port_def even_alloc_def pa_even_def pa_odd_def algebra_simps)
qed

lemma even_ports_index:
  assumes "even_alloc a" and "p \<in> even_ports a"
  shows "(p - pa_start a) div 2 < pa_track_len a" and "pa_start a + 2 * ((p - pa_start a) div 2) = p"
proof -
  have ev: "even (p - pa_start a)" "pa_start a \<le> p" "p \<le> pa_end a"
    using assms by (auto simp: even_alloc_def even_ports_def)
  then show "pa_start a + 2 * ((p - pa_start a) div 2) = p" by simp
  have "(p - pa_start a) div 2 \<le> (pa_end a - pa_start a) div 2" using ev by (intro div_le_mono) simp
  then show "(p - pa_start a) div 2 < pa_track_len a" using assms by (simp add: even_alloc_def)
qed

lemma out_ports_in: "even_alloc a \<Longrightarrow> out_ports a \<subseteq> even_ports a"
  using even_port(2) by (auto simp: out_ports_def used_cells_def)

lemma out_ports_mem: "pa_start a + 2 * i \<in> out_ports a \<longleftrightarrow> i \<in> used_cells (pa_track_len a) (pa_track a)"
  by (auto simp: out_ports_def)

lemma pa_taken_even:
  assumes "even_alloc a" and "pa_taken a i a'"
  shows "even_alloc a' \<and> even_ports a' = even_ports a \<and> pa_port a i \<in> even_ports a \<and> pa_port a i \<notin> out_ports a \<and>
    out_ports a' = insert (pa_port a i) (out_ports a)"
proof -
  have t: "i < pa_track_len a" "i \<notin> used_cells (pa_track_len a) (pa_track a)" "pa_inv a'"
    "used_cells (pa_track_len a) (pa_track a') = insert i (used_cells (pa_track_len a) (pa_track a))"
    "a' = a\<lparr>pa_track := pa_track a', pa_track_used := pa_track_used a'\<rparr>"
    using assms(2) by (simp_all add: pa_taken_def)
  have f: "pa_track_len a' = pa_track_len a" "pa_start a' = pa_start a" "pa_end a' = pa_end a" "pa_flags a' = pa_flags a"
    by (subst t(5), simp)+
  show ?thesis using assms(1) t(1-4) f even_port [OF assms(1) t(1)]
    by (auto simp: even_alloc_def even_ports_def out_ports_def pa_even_def pa_odd_def)
qed

lemma full_even:
  assumes "even_alloc a" and "\<not> pa_track_used a < pa_track_len a"
  shows "out_ports a = even_ports a"
proof -
  have "card (used_cells (pa_track_len a) (pa_track a)) = card {..<pa_track_len a}"
    using assms used_cells_card [of "pa_track_len a" "pa_track a"] by (simp add: even_alloc_def pa_inv_def)
  then have "used_cells (pa_track_len a) (pa_track a) = {..<pa_track_len a}"
    by (intro card_subset_eq) (auto simp: used_cells_def)
  then have "p \<in> out_ports a" if "p \<in> even_ports a" for p
    using even_ports_index [OF assms(1) that] out_ports_mem by (metis lessThan_iff)
  then show ?thesis using out_ports_in [OF assms(1)] by blast
qed

text \<open>Giving a port back.\<close>

lemma free_port_even:
  assumes "even_alloc a" and "p \<in> out_ports a"
  shows "\<exists>a'. switch_core_port_allocator_free_port a p = Inr (SWITCH_STATUS_SUCCESS, a') \<and> even_alloc a' \<and>
    even_ports a' = even_ports a \<and> out_ports a' = out_ports a - {p}"
proof -
  let ?i = "(p - pa_start a) div 2"
  let ?a = "a\<lparr>pa_track := (pa_track a)[?i := - 4], pa_track_used := (pa_track_used a + 2 ^ 32 - 1) mod 2 ^ 32\<rparr>"
  have pe: "p \<in> even_ports a" using assms out_ports_in by blast
  note I = even_ports_index [OF assms(1) pe]
  have used: "?i \<in> used_cells (pa_track_len a) (pa_track a)" using assms(2) I(2) out_ports_mem by metis
  have len: "?i < length (pa_track a)" "pa_track a ! ?i = 1" "pa_start a \<le> p"
    using I assms(1) used pe by (auto simp: even_alloc_def pa_inv_def used_cells_def even_ports_def)
  have u: "used_cells (pa_track_len a) ((pa_track a)[?i := - 4]) = used_cells (pa_track_len a) (pa_track a) - {?i}"
    using I(1) len(1) by (intro used_cells_release) simp_all
  have c: "pa_track_used a = card (used_cells (pa_track_len a) (pa_track a))" "pa_track_len a < 2 ^ 32"
    using assms(1) by (simp_all add: even_alloc_def pa_inv_def)
  have pos: "0 < pa_track_used a" "pa_track_used a \<le> pa_track_len a"
    using c(1) used used_cells_card by (auto simp: card_gt_0_iff)
  have "(pa_track_used a + 2 ^ 32 - 1) mod 2 ^ 32 = pa_track_used a - 1"
    using pos c(2) mod_add_self2 [of "pa_track_used a - 1" "2 ^ 32"] by simp
  then have inv: "pa_inv ?a"
    using assms(1) u used c len by (auto simp: even_alloc_def pa_inv_def nth_list_update cell_ok_def)
  then have ev: "even_alloc ?a" "even_ports ?a = even_ports a"
    using assms(1) by (simp_all add: even_alloc_def even_ports_def pa_even_def pa_odd_def)
  have "out_ports ?a = (\<lambda>i. pa_start a + 2 * i) ` (used_cells (pa_track_len a) (pa_track a) - {?i})"
    unfolding out_ports_def using u by simp
  also have "\<dots> = out_ports a - {pa_start a + 2 * ?i}" by (auto simp: out_ports_def)
  finally have out: "out_ports ?a = out_ports a - {p}" using I(2) by simp
  have "switch_core_port_allocator_free_port a p = Inr (SWITCH_STATUS_SUCCESS, ?a)"
    using len assms(1) by (simp add: switch_core_port_allocator_free_port_def even_alloc_def Let_def)
  with ev out show ?thesis by blast
qed

interpretation even_pool: lease_pool even_alloc even_ports out_ports tests_never_fail pa_acquire pa_release
proof
  fix s e p s'
  assume good: "even_alloc s" and acq: "pa_acquire e s = Some (p, s')"
  obtain rnd udp tcp where e: "e = (rnd, udp, tcp)" by (cases e)
  have "switch_core_port_allocator_request_port 5 rnd udp tcp s = Some (SWITCH_STATUS_SUCCESS, p, s')"
    using acq e by (auto simp: pa_acquire_def split: option.splits switch_status_t.splits)
  then obtain i where i: "p = pa_port s i" "pa_taken s i s'"
    using pa_request_sound [of s 5 0 rnd udp tcp] good
    by (auto simp: switch_core_port_allocator_request_port_def even_alloc_def)
  show "even_alloc s' \<and> even_ports s' = even_ports s \<and> p \<in> even_ports s \<and> p \<notin> out_ports s \<and>
    out_ports s' = insert p (out_ports s)" unfolding i(1) by (rule pa_taken_even [OF good i(2)])
next
  fix s e
  assume good: "even_alloc s" and ok: "tests_never_fail e" and acq: "pa_acquire e s = None"
  obtain rnd udp tcp where e: "e = (rnd, udp, tcp)" by (cases e)
  have "tests_pass s udp tcp" using ok e by (simp add: tests_never_fail_def tests_pass_def)
  then have "\<not> pa_track_used s < pa_track_len s"
    using pa_request_ok [of s udp tcp 5 rnd] acq e good by (auto simp: pa_acquire_def even_alloc_def)
  with good show "out_ports s = even_ports s" by (rule full_even)
next
  fix s p
  assume good: "even_alloc s" and p: "p \<in> out_ports s"
  then show "even_alloc (pa_release s p) \<and> even_ports (pa_release s p) = even_ports s \<and>
    out_ports (pa_release s p) = out_ports s - {p}" using free_port_even [OF good p] by (auto simp: pa_release_def)
qed

section \<open>Properties\<close>

lemma test_flag_or: "test_flag (f OR g) b \<longleftrightarrow> test_flag f b \<or> test_flag g b"
  by (auto simp: test_flag_def bit_eq_iff bit_simps)

lemma spf_distinct [simp]:
  "test_flag SPF_EVEN SPF_EVEN" "\<not> test_flag SPF_EVEN SPF_ODD" "test_flag SPF_ODD SPF_ODD" "\<not> test_flag SPF_ODD SPF_EVEN"
  by (simp_all add: test_flag_def SPF_EVEN_def SPF_ODD_def)

lemma nat_int_mod: "(x :: nat) < m \<Longrightarrow> nat (int x mod int m) = x"
  by simp

lemma half_len:
  assumes "s \<le> e" and "e < port_mod"
  shows "nat ((int e - int s + 2) mod 2 ^ 32) div 2 = (e - s) div 2 + 1"
proof -
  have i: "int e - int s + 2 = int (e - s + 2)" using assms(1) by simp
  have "e - s + 2 < 2 ^ 32" using assms(2) by (simp add: port_mod_def)
  from nat_int_mod [OF this] have "nat (int (e - s + 2) mod 2 ^ 32) = e - s + 2" by (simp del: of_nat_add of_nat_diff)
  then show ?thesis unfolding i by simp
qed

lemma wrap_pred: "0 < en \<Longrightarrow> en < port_mod \<Longrightarrow> (en + port_mod - 1) mod port_mod = en - 1"
  using mod_add_self2 [of "en - 1" port_mod] by (simp add: less_imp_diff_less)

text \<open>What the constructor builds from a range, for one parity.\<close>

lemma new_rounded:
  assumes "s \<le> e" and "e < port_mod" and "flags = SPF_EVEN \<or> flags = SPF_ODD"
    and "s = (if flags = SPF_EVEN then (if start mod 2 \<noteq> 0 then (start + 1) mod port_mod else start)
              else (if start mod 2 = 0 then (start + 1) mod port_mod else start))"
    and "e = (if flags = SPF_EVEN then (if en mod 2 \<noteq> 0 then (en + port_mod - 1) mod port_mod else en)
              else (if en mod 2 = 0 then (en + port_mod - 1) mod port_mod else en))"
  shows "snd (switch_core_port_allocator_new ip start en flags runtime_flags) =
    \<lparr>pa_ip = ip, pa_start = s, pa_end = e, pa_next = s, pa_track = replicate ((e - s) div 2 + 3) 0,
     pa_track_len = (e - s) div 2 + 1, pa_track_used = 0, pa_flags = flags OR runtime_flags\<rparr>"
proof -
  have ne: "SPF_ODD \<noteq> SPF_EVEN" by (simp add: SPF_EVEN_def SPF_ODD_def)
  have "(e - s) div 2 \<le> e" by simp
  then have m: "((e - s) div 2 + 1 + 2) mod 2 ^ 32 = (e - s) div 2 + 3" using assms(2) by (simp add: port_mod_def)
  have "(let even = test_flag flags SPF_EVEN; odd = test_flag flags SPF_ODD
         in if \<not> (even \<and> odd) then
               (if even then (if start mod 2 \<noteq> 0 then (start + 1) mod port_mod else start,
                              if en mod 2 \<noteq> 0 then (en + port_mod - 1) mod port_mod else en)
                else if odd then (if start mod 2 = 0 then (start + 1) mod port_mod else start,
                                  if en mod 2 = 0 then (en + port_mod - 1) mod port_mod else en)
                else (start, en))
             else (start, en)) = (s, e)" using assms(3-5) ne by auto
  moreover have "\<not> (test_flag flags SPF_EVEN \<and> test_flag flags SPF_ODD)" using assms(3) by auto
  ultimately show ?thesis using half_len [OF assms(1,2)] m
    by (simp add: switch_core_port_allocator_new_def Let_def del: One_nat_def add_2_eq_Suc add_2_eq_Suc')
qed

lemma even_new:
  assumes "start + start mod 2 \<le> en - en mod 2" and "en < port_mod" and "\<not> test_flag runtime_flags SPF_ODD"
    and "a = snd (switch_core_port_allocator_new ip start en SPF_EVEN runtime_flags)"
  shows "even_alloc a" and "even_ports a = {p. start \<le> p \<and> p \<le> en \<and> even p}" and "out_ports a = {}"
proof -
  let ?s = "start + start mod 2" and ?e = "en - en mod 2"
  have lt: "?e < port_mod" using assms(2) by simp
  have s: "?s = (if start mod 2 \<noteq> 0 then (start + 1) mod port_mod else start)"
    using assms(1) lt by (auto simp: mod2_eq_if split: if_splits)
  have e: "?e = (if en mod 2 \<noteq> 0 then (en + port_mod - 1) mod port_mod else en)"
    using wrap_pred [OF _ assms(2)] by (auto simp: mod2_eq_if odd_pos)
  have ev: "even ?s" "even ?e" by (auto simp: mod2_eq_if)
  note a = new_rounded [OF assms(1) lt, of SPF_EVEN start en ip runtime_flags, folded assms(4)]
  have a': "a = \<lparr>pa_ip = ip, pa_start = ?s, pa_end = ?e, pa_next = ?s, pa_track = replicate ((?e - ?s) div 2 + 3) 0,
     pa_track_len = (?e - ?s) div 2 + 1, pa_track_used = 0, pa_flags = SPF_EVEN OR runtime_flags\<rparr>"
    by (rule a) (use s e in simp_all)
  have "(?e - ?s) div 2 \<le> ?e" by simp
  then have n: "(?e - ?s) div 2 + 1 < 2 ^ 32" using lt by (simp add: port_mod_def)
  have u: "used_cells k (replicate m 0) = {}" if "k \<le> m" for k m
    using that by (auto simp: used_cells_def)
  show "even_alloc a" unfolding a' using n ev lt assms(1,3)
    by (auto simp: even_alloc_def pa_inv_def pa_even_def pa_odd_def test_flag_or u cell_ok_def)
  show "even_ports a = {p. start \<le> p \<and> p \<le> en \<and> even p}" unfolding a' even_ports_def
    by (auto simp: mod2_eq_if) presburger+
  show "out_ports a = {}" unfolding a' out_ports_def by (simp add: u)
qed

text \<open>C8: An allocator of even ports over a range that contains one keeps its books: whatever clients
  request and give back, as long as they give back only what they hold and the socket tests succeed, no
  port is handed out twice at a time, every port handed out is even and lies in the range, and a request
  is refused only when every even port of the range is out.\<close>

theorem port_allocator_leases:
  assumes "start + start mod 2 \<le> en - en mod 2" and "en < port_mod" and "\<not> test_flag runtime_flags SPF_ODD"
    and "\<forall>e. Inl e \<in> set calls \<longrightarrow> tests_never_fail e"
    and "log = pool_run pa_acquire pa_release calls
      (snd (switch_core_port_allocator_new ip start en SPF_EVEN runtime_flags))"
    and "disciplined {} log"
  shows "valid_log {p. start \<le> p \<and> p \<le> en \<and> even p} {} log"
proof -
  note new = even_new [OF assms(1-3) refl, of ip]
  show ?thesis using even_pool.run_valid [OF new(1) assms(4)] assms(5,6) new(2,3) by simp
qed

theorem port_allocator_leases_witness:
  "valid_log {p. 16384 \<le> p \<and> p \<le> 32768 \<and> even p} {}
     (pool_run pa_acquire pa_release [Inl (\<lambda>_. 7, \<lambda>_ _. True, \<lambda>_ _. True), Inl (\<lambda>_. 7, \<lambda>_ _. True, \<lambda>_ _. True)]
        (snd (switch_core_port_allocator_new ''127.0.0.1'' 16384 32768 SPF_EVEN 0)))"
  by (rule port_allocator_leases [OF _ _ _ _ refl])
    (simp_all add: port_mod_def tests_never_fail_def split: option.split)

lemma track_frame:
  "pa_tested (a\<lparr>pa_track := t\<rparr>) u v p = pa_tested a u v p" "pa_port (a\<lparr>pa_track := t\<rparr>) i = pa_port a i"
  by (simp_all add: pa_tested_def pa_port_def pa_even_def pa_odd_def)

lemma pa_request_spins:
  "pa_inv a \<Longrightarrow> \<forall>k. \<forall>i < pa_track_len a. \<not> pa_tested a (udp k) (tcp k) (pa_port a i) \<Longrightarrow> pa_track_used a < pa_track_len a \<Longrightarrow>
   pa_request_loop fuel k rnd udp tcp a = None"
proof (induction fuel arbitrary: a k)
  case (Suc fuel)
  let ?len = "pa_track_len a"
  obtain i n track' where w: "pa_walk ?len (pa_track a) (rnd k mod ?len) 0 = (i, n, track')" by (metis prod.exhaust)
  have r: "rnd k mod ?len < ?len" using Suc.prems(3) by (simp add: mod_less_divisor)
  have le: "?len \<le> length (pa_track a)" and ok: "\<forall>j<?len. cell_ok (pa_track a ! j)"
    using Suc.prems(1) by (simp_all add: pa_inv_def)
  note W = pa_walk_spec [OF w r le le0 ok]
  have cont: "pa_request_loop fuel (k + 1) rnd udp tcp (a\<lparr>pa_track := t\<rparr>) = None" if "pa_inv (a\<lparr>pa_track := t\<rparr>)" for t
    using Suc.IH [OF that] Suc.prems(2,3) by (simp add: track_frame)
  have inv: "pa_inv (a\<lparr>pa_track := track'\<rparr>)" using W Suc.prems(1) by (simp add: pa_inv_def)
  show ?case
  proof (cases "n < ?len")
    case True
    then have "i < ?len" "track' ! i = 0" using W by simp_all
    then show ?thesis using Suc.prems(2,3) w True cont [OF pa_inv_cool(1) [OF inv]] by (simp add: Let_def track_frame)
  next
    case False
    then show ?thesis using Suc.prems(3) w cont [OF inv] by (simp add: Let_def)
  qed
qed simp

text \<open>C39: A request never returns, whatever the fuel, while a port is free but the socket test that decides fails for every port of the allocator: the TCP
  test when \<^verbatim>\<open>SPF_ROBUST_TCP\<close> is set, which overrides the answer of the UDP test, and otherwise the UDP test when \<^verbatim>\<open>SPF_ROBUST_UDP\<close> is
  set, the flag the core sets for the RTP ports. The loop has no other exit.\<close>

theorem port_request_never_returns:
  assumes "pa_inv a" and "pa_track_used a < pa_track_len a"
    and "if test_flag (pa_flags a) SPF_ROBUST_TCP then \<forall>k. \<forall>i < pa_track_len a. \<not> tcp k (pa_port a i)
         else test_flag (pa_flags a) SPF_ROBUST_UDP \<and> (\<forall>k. \<forall>i < pa_track_len a. \<not> udp k (pa_port a i))"
  shows "switch_core_port_allocator_request_port fuel rnd udp tcp a = None"
  unfolding switch_core_port_allocator_request_port_def using assms
  by (intro pa_request_spins) (auto simp: pa_tested_def split: if_splits)

theorem port_request_never_returns_witness:
  "switch_core_port_allocator_request_port 1000 (\<lambda>k. k) (\<lambda>_ port. port < 10 \<or> 12 < port) (\<lambda>_ _. True)
     \<lparr>pa_ip = ''127.0.0.1'', pa_start = 10, pa_end = 12, pa_next = 10, pa_track = [1, 0, 0, 0],
       pa_track_len = 2, pa_track_used = 1, pa_flags = SPF_EVEN OR SPF_ROBUST_UDP\<rparr> = None"
proof (rule port_request_never_returns)
  have "used_cells 2 [1, 0, 0, 0] = {0}" by (auto simp: used_cells_def less_2_cases_iff)
  then show "pa_inv \<lparr>pa_ip = ''127.0.0.1'', pa_start = 10, pa_end = 12, pa_next = 10, pa_track = [1, 0, 0, 0],
      pa_track_len = 2, pa_track_used = 1, pa_flags = SPF_EVEN OR SPF_ROBUST_UDP\<rparr>"
    by (simp add: pa_inv_def cell_ok_def less_2_cases_iff)
qed (auto simp: test_flag_def SPF_EVEN_def SPF_ODD_def SPF_ROBUST_TCP_def SPF_ROBUST_UDP_def pa_port_def pa_even_def pa_odd_def port_mod_def less_2_cases_iff)

text \<open>An allocator of odd ports.\<close>

lemma odd_new:
  assumes "start \<le> en" and "en < port_mod" and "odd start" and "odd en" and "\<not> test_flag runtime_flags SPF_EVEN"
    and "a = snd (switch_core_port_allocator_new ip start en SPF_ODD runtime_flags)"
  shows "a = \<lparr>pa_ip = ip, pa_start = start, pa_end = en, pa_next = start, pa_track = replicate ((en - start) div 2 + 3) 0,
     pa_track_len = (en - start) div 2 + 1, pa_track_used = 0, pa_flags = SPF_ODD OR runtime_flags\<rparr>"
  unfolding assms(6) using assms(1-4)
  by (intro new_rounded) (auto simp: SPF_EVEN_def SPF_ODD_def odd_iff_mod_2_eq_one)

text \<open>An allocator of odd ports hands out even ones, and does not take the first of them back.\<close>

theorem port_allocator_odd:
  assumes "start \<le> en" and "en < port_mod" and "odd start" and "odd en" and "\<not> test_flag runtime_flags SPF_EVEN"
    and "a = snd (switch_core_port_allocator_new ip start en SPF_ODD runtime_flags)"
    and "switch_core_port_allocator_request_port fuel rnd udp tcp a = Some (SWITCH_STATUS_SUCCESS, port, a')"
  shows "even port \<and> (\<exists>st. st \<noteq> SWITCH_STATUS_SUCCESS \<and> switch_core_port_allocator_free_port a' port = Inr (st, a'))"
proof -
  note a = odd_new [OF assms(1-6)]
  have n: "(en - start) div 2 + 1 < 2 ^ 32" using assms(2) by (simp add: port_mod_def)
  have inv: "pa_inv a" and par: "\<not> pa_even a" "pa_start a = start" "pa_end a = en" and empty: "used_cells (pa_track_len a) (pa_track a) = {}"
    unfolding a using n assms(5) by (auto simp: pa_inv_def pa_even_def test_flag_or used_cells_def cell_ok_def)
  obtain i where i: "port = pa_port a i" "pa_taken a i a'"
    using pa_request_sound [OF inv assms(7) [unfolded switch_core_port_allocator_request_port_def]] by blast
  have t: "i < pa_track_len a" "pa_inv a'" "used_cells (pa_track_len a) (pa_track a') = {i}"
    "a' = a\<lparr>pa_track := pa_track a', pa_track_used := pa_track_used a'\<rparr>" using i(2) empty by (simp_all add: pa_taken_def)
  have f: "pa_track_len a' = pa_track_len a" "pa_start a' = start" "\<not> pa_even a'"
    using par by (subst t(4), simp add: pa_even_def)+
  obtain h where h: "start = 2 * h + 1" using assms(3) by (elim oddE)
  have "start + 2 * i \<le> en" using t(1) a assms(1) by simp
  then have p: "port = 2 * h + 2 * i" unfolding i(1) pa_port_def using par h assms(2)
    by (simp add: port_mod_def)
  have free: "switch_core_port_allocator_free_port a' port =
      (if i = 0 then Inr (SWITCH_STATUS_GENERR, a') else Inr (SWITCH_STATUS_FALSE, a'))"
  proof (cases i)
    case 0
    then show ?thesis using p h f by (simp add: switch_core_port_allocator_free_port_def)
  next
    case (Suc j)
    have "j \<notin> used_cells (pa_track_len a) (pa_track a')" using t(3) Suc by simp
    moreover have "cell_ok (pa_track a' ! j)" "j < length (pa_track a')" using t(1,2) Suc f(1) by (auto simp: pa_inv_def)
    ultimately have "\<not> 0 < pa_track a' ! j" using t(1) Suc by (auto simp: used_cells_def cell_ok_def)
    moreover have "(port - start) div 2 = j" "\<not> port < start" using p h Suc by simp_all
    ultimately show ?thesis using Suc f \<open>j < length (pa_track a')\<close>
      by (simp add: switch_core_port_allocator_free_port_def)
  qed
  show ?thesis using p free by (cases "i = 0") auto
qed

theorem port_allocator_odd_witness:
  "\<exists>port a'. switch_core_port_allocator_request_port 5 (\<lambda>_. 0) (\<lambda>_ _. True) (\<lambda>_ _. True)
       (snd (switch_core_port_allocator_new ''127.0.0.1'' 5 9 SPF_ODD 0)) = Some (SWITCH_STATUS_SUCCESS, port, a') \<and>
     even port \<and> (\<exists>st. st \<noteq> SWITCH_STATUS_SUCCESS \<and> switch_core_port_allocator_free_port a' port = Inr (st, a'))"
proof -
  let ?a = "snd (switch_core_port_allocator_new ''127.0.0.1'' 5 9 SPF_ODD 0)"
  have a: "?a = \<lparr>pa_ip = ''127.0.0.1'', pa_start = 5, pa_end = 9, pa_next = 5, pa_track = replicate ((9 - 5) div 2 + 3) 0,
      pa_track_len = (9 - 5) div 2 + 1, pa_track_used = 0, pa_flags = SPF_ODD OR 0\<rparr>"
    by (rule odd_new) (simp_all add: port_mod_def)
  have "pa_inv ?a" unfolding a by (auto simp: pa_inv_def cell_ok_def used_cells_def)
  moreover have "tests_pass ?a (\<lambda>_ _. True) (\<lambda>_ _. True)" by (simp add: tests_pass_def)
  moreover have "pa_track_used ?a < pa_track_len ?a" unfolding a by simp
  ultimately obtain i a' where r: "switch_core_port_allocator_request_port 5 (\<lambda>_. 0) (\<lambda>_ _. True) (\<lambda>_ _. True) ?a =
      Some (SWITCH_STATUS_SUCCESS, pa_port ?a i, a')" using pa_request_ok [of ?a _ _ 5 "\<lambda>_. 0"] by blast
  have "even (pa_port ?a i) \<and> (\<exists>st. st \<noteq> SWITCH_STATUS_SUCCESS \<and>
      switch_core_port_allocator_free_port a' (pa_port ?a i) = Inr (st, a'))"
    by (rule port_allocator_odd [OF _ _ _ _ _ refl r]) (simp_all add: port_mod_def)
  with r show ?thesis by blast
qed

end
