(* ===== verification/FS_Network.thy ===== *)
theory FS_Network
  imports FS_Core_Hash
begin

text \<open>
  The access lists of \<^verbatim>\<open>src/switch_utils.c\<close> and \<^verbatim>\<open>switch_check_network_list_ip_token\<close> of \<^verbatim>\<open>src/switch_core.c\<close>: networks in CIDR
  notation, each allowed or denied, and the decision for an address. An \<^verbatim>\<open>ip_t\<close> is the union of a 32-bit word and the
  sixteen bytes of an IPv6 address: it is kept as its bytes, and its word is read from the first four (the machine is little
  endian). \<^verbatim>\<open>inet_pton\<close> of the C library is an argument; where it rejects its text the destination
  keeps what it had, which for a local variable is arbitrary, so these contents are arguments, too.
\<close>

section \<open>Addresses\<close>

type_synonym ip_t = "byte list"

text \<open>\<^verbatim>\<open>inet_pton\<close>: the bytes in network order.\<close>

record inet =
  pton4 :: "string \<Rightarrow> byte list option"
  pton6 :: "string \<Rightarrow> byte list option"

definition le_word :: "byte list \<Rightarrow> uint32_t" where
  "le_word bs = foldr (\<lambda>b w. push_bit 8 w OR ucast b) bs 0"

definition le_bytes :: "uint32_t \<Rightarrow> byte list" where
  "le_bytes w = map (\<lambda>i. ucast (drop_bit (8 * i) w)) [0, 1, 2, 3]"

definition ip_v4 :: "ip_t \<Rightarrow> uint32_t" where
  "ip_v4 ip = le_word (take 4 ip)"

definition set_v4 :: "uint32_t \<Rightarrow> ip_t \<Rightarrow> ip_t" where
  "set_v4 w ip = le_bytes w @ drop 4 ip"

definition htonl :: "uint32_t \<Rightarrow> uint32_t" where
  "htonl w = le_word (rev (le_bytes w))"

definition switch_inet_pton4 :: "inet \<Rightarrow> string \<Rightarrow> ip_t \<Rightarrow> ip_t" where
  "switch_inet_pton4 net src dst = (case pton4 net src of None \<Rightarrow> dst | Some bs \<Rightarrow> bs @ drop 4 dst)"

definition switch_inet_pton6 :: "inet \<Rightarrow> string \<Rightarrow> ip_t \<Rightarrow> ip_t" where
  "switch_inet_pton6 net src dst = (case pton6 net src of None \<Rightarrow> dst | Some bs \<Rightarrow> bs)"

definition switch_test_subnet :: "uint32_t \<Rightarrow> uint32_t \<Rightarrow> uint32_t \<Rightarrow> bool" where
  "switch_test_subnet ip net msk =
     (if msk \<noteq> 0 then net AND msk = ip AND msk else if net \<noteq> 0 then net = ip else True)"

definition and_mask :: "ip_t \<Rightarrow> ip_t \<Rightarrow> ip_t" where
  "and_mask = map2 (AND)"

definition unspecified :: "ip_t \<Rightarrow> bool" where
  "unspecified ip \<longleftrightarrow> list_all (\<lambda>b. b = 0) ip"

definition switch_testv6_subnet :: "ip_t \<Rightarrow> ip_t \<Rightarrow> ip_t \<Rightarrow> bool" where
  "switch_testv6_subnet ip net msk =
     (if \<not> unspecified msk then and_mask net msk = and_mask ip msk
      else if \<not> unspecified net then net = ip else True)"

section \<open>Networks\<close>

definition AF_INET :: int where "AF_INET = 2"
definition AF_INET6 :: int where "AF_INET6 = 10"

record switch_network_node =
  nn_ip :: ip_t
  nn_mask :: ip_t
  nn_bits :: uint32_t
  nn_family :: int
  nn_ok :: bool
  nn_token :: "string option"
  nn_str :: string

record switch_network_list =
  nl_nodes :: "switch_network_node list"
  nl_default_type :: bool
  nl_name :: string

definition switch_network_list_create :: "string \<Rightarrow> bool \<Rightarrow> switch_network_list" where
  "switch_network_list_create name default_type = \<lparr>nl_nodes = [], nl_default_type = default_type, nl_name = name\<rparr>"

fun mask6_loop :: "nat \<Rightarrow> nat \<Rightarrow> byte list" where
  "mask6_loop 0 n = []"
| "mask6_loop (Suc i) n = (if 8 \<le> n then 0xFF # mask6_loop i (n - 8) else (0xFF AND NOT (drop_bit n 0xFF)) # mask6_loop i 0)"

definition cidr_mask :: "nat \<Rightarrow> uint32_t" where
  "cidr_mask bits = 0xFFFFFFFF AND NOT (drop_bit bits 0xFFFFFFFF)"

text \<open>The shift by 32 bits, which C leaves open, gives zero on this machine. The result is the return value, \<^verbatim>\<open>*ip\<close>, \<^verbatim>\<open>*mask\<close>
  and \<^verbatim>\<open>*bitp\<close>.\<close>

definition switch_parse_cidr :: "inet \<Rightarrow> string \<Rightarrow> ip_t \<Rightarrow> ip_t \<Rightarrow> uint32_t \<Rightarrow> int \<times> ip_t \<times> ip_t \<times> uint32_t" where
  "switch_parse_cidr net str ip msk bitp =
     (let text = take 126 str;
          host = takeWhile (\<lambda>c. c \<noteq> CHR ''/'') text
      in if CHR ''/'' \<notin> set text then (- 1, ip, msk, bitp)
         else (let bits = c_atoi (drop (length host + 1) text) in
           if CHR '':'' \<in> set str then
             (if bits < 0 \<or> 128 < bits then (- 2, ip, msk, bitp)
              else (0, switch_inet_pton6 net host ip, mask6_loop 16 (nat bits), of_int bits))
           else
             (if bits < 0 \<or> 32 < bits then (- 2, ip, msk, bitp)
              else (let ip = switch_inet_pton4 net host ip in
                (0, set_v4 (htonl (ip_v4 ip)) ip, set_v4 (cidr_mask (nat bits)) msk, of_int bits)))))"

definition switch_network_ipv4_mapped_ipv6_addr :: "string \<Rightarrow> string option" where
  "switch_network_ipv4_mapped_ipv6_addr ip_str = (if starts_with_ci ''::ffff:'' ip_str then Some (drop 7 ip_str) else None)"

text \<open>What the stack holds when a function starts: the arbitrary contents of its \<^verbatim>\<open>ip\<close>, \<^verbatim>\<open>mask\<close> and \<^verbatim>\<open>bits\<close>.\<close>

record stack =
  junk_ip :: ip_t
  junk_mask :: ip_t
  junk_bits :: uint32_t

definition switch_network_list_perform_add_cidr_token ::
  "inet \<Rightarrow> stack \<Rightarrow> string \<Rightarrow> bool \<Rightarrow> string option \<Rightarrow> switch_network_list \<Rightarrow> switch_status_t \<times> switch_network_list" where
  "switch_network_list_perform_add_cidr_token net j cidr_str ok token lst =
     (let cidr_str = (case switch_network_ipv4_mapped_ipv6_addr cidr_str of Some ipv4 \<Rightarrow> ipv4 | None \<Rightarrow> cidr_str);
          (r, ip, msk, bits) = switch_parse_cidr net cidr_str (junk_ip j) (junk_mask j) (junk_bits j)
      in if r \<noteq> 0 then (SWITCH_STATUS_GENERR, lst)
         else (SWITCH_STATUS_SUCCESS, lst\<lparr>nl_nodes :=
           \<lparr>nn_ip = ip, nn_mask = msk, nn_bits = bits, nn_family = (if CHR '':'' \<in> set cidr_str then AF_INET6 else AF_INET),
            nn_ok = ok, nn_token = (if token = None \<or> token = Some [] then None else token), nn_str = cidr_str\<rparr> # nl_nodes lst\<rparr>))"

fun add_cidr_loop ::
  "inet \<Rightarrow> stack \<Rightarrow> bool \<Rightarrow> string option \<Rightarrow> string list \<Rightarrow> switch_status_t \<Rightarrow> switch_network_list \<Rightarrow> switch_status_t \<times> switch_network_list" where
  "add_cidr_loop net j ok token [] status lst = (status, lst)"
| "add_cidr_loop net j ok token (arg # args) status lst =
     (let (this_status, lst) = switch_network_list_perform_add_cidr_token net j arg ok token lst
      in add_cidr_loop net j ok token args (if this_status \<noteq> SWITCH_STATUS_SUCCESS then this_status else status) lst)"

definition switch_network_list_add_cidr_token ::
  "inet \<Rightarrow> stack \<Rightarrow> string \<Rightarrow> bool \<Rightarrow> string option \<Rightarrow> switch_network_list \<Rightarrow> (switch_status_t \<times> switch_network_list) c_result" where
  "switch_network_list_add_cidr_token net j cidr_str ok token lst =
     (if CHR '','' \<in> set cidr_str then
        and_then (switch_separate_string (Some cidr_str) CHR '','' 32) (\<lambda>argv. Inr (add_cidr_loop net j ok token argv SWITCH_STATUS_SUCCESS lst))
      else Inr (switch_network_list_perform_add_cidr_token net j cidr_str ok token lst))"

text \<open>The number of bits that are set, counted in parallel.\<close>

definition count_bits :: "uint32_t \<Rightarrow> uint32_t" where
  "count_bits v =
     (let v = v - (drop_bit 1 v AND 0x55555555);
          v = (v AND 0x33333333) + (drop_bit 2 v AND 0x33333333)
      in drop_bit 24 (((v + drop_bit 4 v) AND 0xF0F0F0F) * 0x1010101))"

text \<open>The new node is zeroed, and its \<^verbatim>\<open>family\<close> is not set.\<close>

definition switch_network_list_add_host_mask ::
  "inet \<Rightarrow> stack \<Rightarrow> string \<Rightarrow> string \<Rightarrow> bool \<Rightarrow> switch_network_list \<Rightarrow> switch_status_t \<times> switch_network_list" where
  "switch_network_list_add_host_mask net j host mask_str ok lst =
     (let ip = switch_inet_pton4 net host (junk_ip j);
          msk = switch_inet_pton4 net mask_str (junk_mask j);
          zero = replicate 16 0
      in (SWITCH_STATUS_SUCCESS, lst\<lparr>nl_nodes :=
           \<lparr>nn_ip = set_v4 (htonl (ip_v4 ip)) zero, nn_mask = set_v4 (htonl (ip_v4 msk)) zero, nn_bits = count_bits (ip_v4 msk),
            nn_family = 0, nn_ok = ok, nn_token = None, nn_str = host @ '':'' @ mask_str\<rparr> # nl_nodes lst\<rparr>))"

section \<open>Decisions\<close>

text \<open>The loops of the two routines: \<open>test\<close> is the test of a node. \<^verbatim>\<open>*token\<close> keeps its value when no node matches.\<close>

fun validate_loop ::
  "(switch_network_node \<Rightarrow> bool) \<Rightarrow> switch_network_node list \<Rightarrow> bool \<Rightarrow> uint32_t \<Rightarrow> string option \<Rightarrow> bool \<times> string option" where
  "validate_loop test [] ok bits token = (ok, token)"
| "validate_loop test (node # nodes) ok bits token =
     (if nn_bits node \<ge> bits \<and> test node then validate_loop test nodes (nn_ok node) (nn_bits node) (nn_token node)
      else validate_loop test nodes ok bits token)"

definition switch_network_list_validate_ip6_token :: "switch_network_list \<Rightarrow> ip_t \<Rightarrow> string option \<Rightarrow> bool \<times> string option" where
  "switch_network_list_validate_ip6_token lst ip token =
     validate_loop (\<lambda>node. nn_family node \<noteq> AF_INET \<and> switch_testv6_subnet ip (nn_ip node) (nn_mask node)) (nl_nodes lst) (nl_default_type lst) 0 token"

definition switch_network_list_validate_ip_token :: "switch_network_list \<Rightarrow> uint32_t \<Rightarrow> string option \<Rightarrow> bool \<times> string option" where
  "switch_network_list_validate_ip_token lst ip token =
     validate_loop (\<lambda>node. nn_family node \<noteq> AF_INET6 \<and> switch_test_subnet ip (ip_v4 (nn_ip node)) (ip_v4 (nn_mask node)))
       (nl_nodes lst) (nl_default_type lst) 0 token"

text \<open>A list name that is not the name of a list can be networks; a text that is not one leaves the variables alone.\<close>

fun check_cidrs ::
  "inet \<Rightarrow> (ip_t \<Rightarrow> ip_t \<Rightarrow> bool) \<Rightarrow> string list \<Rightarrow> ip_t \<Rightarrow> ip_t \<Rightarrow> uint32_t \<Rightarrow> bool \<Rightarrow> bool" where
  "check_cidrs net test [] ip msk bits ok = ok"
| "check_cidrs net test (arg # args) ip msk bits ok =
     (let (_, ip, msk, bits) = switch_parse_cidr net arg ip msk bits
      in if test ip msk then True else check_cidrs net test args ip msk bits False)"

definition switch_check_network_list_ip_token ::
  "inet \<Rightarrow> stack \<Rightarrow> ip_t \<Rightarrow> (string, switch_network_list) switch_hashtable \<Rightarrow> string \<Rightarrow> string option \<Rightarrow> string option \<Rightarrow> (bool \<times> string option) c_result" where
  "switch_check_network_list_ip_token net j junk hash ip_str list_name token =
     (case list_name of
        None \<Rightarrow> Inr (False, token)
      | Some name \<Rightarrow>
          (let mapped = switch_network_ipv4_mapped_ipv6_addr ip_str;
               ipv6 = (mapped = None \<and> CHR '':'' \<in> set ip_str);
               ip_str = (case mapped of Some s \<Rightarrow> s | None \<Rightarrow> ip_str);
               ip = (if ipv6 then switch_inet_pton6 net ip_str junk
                     else (let ip = switch_inet_pton4 net ip_str junk in set_v4 (htonl (ip_v4 ip)) ip));
               test = (\<lambda>n m. if ipv6 then switch_testv6_subnet ip n m else switch_test_subnet (ip_v4 ip) (ip_v4 n) (ip_v4 m))
           in case switch_core_hash_find hash name of
                Some lst \<Rightarrow> Inr (if ipv6 then switch_network_list_validate_ip6_token lst ip token
                                else switch_network_list_validate_ip_token lst (ip_v4 ip) token)
              | None \<Rightarrow>
                  if CHR ''/'' \<notin> set name then Inr (False, token)
                  else and_then (if CHR '','' \<in> set name then switch_separate_string (Some name) CHR '','' 32 else Inr [name]) (\<lambda>argv.
                    Inr (check_cidrs net test argv (junk_ip j) (junk_mask j) (junk_bits j) False, token))))"

section \<open>Bytes and words\<close>

lemma le_word_bytes [simp]: "le_word (le_bytes w) = w"
proof (rule bit_word_eqI)
  fix n assume "n < LENGTH(32)"
  then consider "n < 8" | "8 \<le> n" "n < 16" | "16 \<le> n" "n < 24" | "24 \<le> n" "n < 32" by fastforce
  then show "bit (le_word (le_bytes w)) n = bit w n"
    by cases (auto simp: le_word_def le_bytes_def bit_or_iff bit_push_bit_iff bit_ucast_iff bit_drop_bit_eq)
qed

lemma length_le_bytes [simp]: "length (le_bytes w) = 4"
  by (simp add: le_bytes_def)

lemma ip_v4_set [simp]: "ip_v4 (set_v4 w ip) = w"
  by (simp add: ip_v4_def set_v4_def)

lemma le_bytes_word: "length bs = 4 \<Longrightarrow> le_bytes (le_word bs) = bs"
proof -
  assume "length bs = 4"
  then obtain a b c d where "bs = [a, b, c, d]" by (auto simp: length_Suc_conv eval_nat_numeral)
  moreover have "le_bytes (le_word [a, b, c, d]) = [a, b, c, d]"
    by (auto simp: le_bytes_def le_word_def intro!: bit_word_eqI)
      (auto simp: bit_or_iff bit_push_bit_iff bit_ucast_iff bit_drop_bit_eq dest: bit_imp_le_length)
  ultimately show ?thesis by simp
qed

lemma bit_cidr_mask: "bit (cidr_mask n) i \<longleftrightarrow> i < 32 \<and> 32 \<le> n + i"
proof -
  have ones: "bit (0xFFFFFFFF :: uint32_t) k \<longleftrightarrow> k < 32" for k
    using bit_mask_iff [where 'a = uint32_t, of 32 k] by (simp add: mask_eq_exp_minus_1)
  show ?thesis unfolding cidr_mask_def bit_and_iff bit_not_iff bit_drop_bit_eq comp_def ones by auto
qed

lemma cidr_mask_0 [simp]: "cidr_mask n = 0 \<longleftrightarrow> n = 0"
proof (cases "n = 0")
  case False
  then have "bit (cidr_mask n) 31" by (simp add: bit_cidr_mask)
  with False show ?thesis by auto
qed (auto intro!: bit_word_eqI simp: bit_cidr_mask)

lemma prefix_mask:
  assumes "n \<le> 32"
  shows "a AND cidr_mask n = b AND cidr_mask n \<longleftrightarrow> drop_bit (32 - n) a = drop_bit (32 - n) b" (is "?l \<longleftrightarrow> ?r")
proof
  assume l: ?l
  show ?r
  proof (rule bit_word_eqI)
    fix i
    have "bit (a AND cidr_mask n) (32 - n + i) = bit (b AND cidr_mask n) (32 - n + i)" using l by simp
    then show "bit (drop_bit (32 - n) a) i = bit (drop_bit (32 - n) b) i"
      using assms bit_imp_le_length [of a "32 - n + i"] bit_imp_le_length [of b "32 - n + i"]
      by (auto simp: bit_and_iff bit_cidr_mask bit_drop_bit_eq)
  qed
next
  assume r: ?r
  show ?l
  proof (rule bit_word_eqI)
    fix i
    have "bit (drop_bit (32 - n) a) (i - (32 - n)) = bit (drop_bit (32 - n) b) (i - (32 - n))" using r by simp
    then have "bit a i = bit b i" if "32 \<le> n + i" using that assms by (simp add: bit_drop_bit_eq)
    then show "bit (a AND cidr_mask n) i = bit (b AND cidr_mask n) i" by (auto simp: bit_and_iff bit_cidr_mask)
  qed
qed

text \<open>The network of an address and a prefix length.\<close>

definition covers :: "uint32_t \<Rightarrow> nat \<Rightarrow> uint32_t \<Rightarrow> bool" where
  "covers addr n ip \<longleftrightarrow> (if n = 0 then addr = 0 \<or> addr = ip else drop_bit (32 - n) addr = drop_bit (32 - n) ip)"

lemma test_subnet_covers: "n \<le> 32 \<Longrightarrow> switch_test_subnet ip addr (cidr_mask n) \<longleftrightarrow> covers addr n ip"
  using prefix_mask [of n addr ip] by (auto simp: switch_test_subnet_def covers_def)

section \<open>The longest prefix decides\<close>

lemma validate_longest:
  "((\<forall>m\<in>set ns. test m \<longrightarrow> nn_bits m < b) \<and> validate_loop test ns ok b token = (ok, token)) \<or>
   (\<exists>pre n post. ns = pre @ n # post \<and> test n \<and> b \<le> nn_bits n \<and> (\<forall>m\<in>set pre. test m \<longrightarrow> nn_bits m \<le> nn_bits n) \<and>
     (\<forall>m\<in>set post. test m \<longrightarrow> nn_bits m < nn_bits n) \<and> validate_loop test ns ok b token = (nn_ok n, nn_token n))"
proof (induction ns arbitrary: ok b token)
  case (Cons node ns)
  show ?case
  proof (cases "b \<le> nn_bits node \<and> test node")
    case True
    from Cons [of "nn_bits node" "nn_ok node" "nn_token node"] show ?thesis
    proof (elim disjE exE conjE)
      assume "\<forall>m\<in>set ns. test m \<longrightarrow> nn_bits m < nn_bits node"
        and "validate_loop test ns (nn_ok node) (nn_bits node) (nn_token node) = (nn_ok node, nn_token node)"
      with True show ?thesis by (intro disjI2 exI [of _ "[]"] exI [of _ node] exI [of _ ns]) simp
    next
      fix pre n post
      assume "ns = pre @ n # post" "test n" "nn_bits node \<le> nn_bits n" "\<forall>m\<in>set pre. test m \<longrightarrow> nn_bits m \<le> nn_bits n"
        "\<forall>m\<in>set post. test m \<longrightarrow> nn_bits m < nn_bits n"
        "validate_loop test ns (nn_ok node) (nn_bits node) (nn_token node) = (nn_ok n, nn_token n)"
      with True show ?thesis by (intro disjI2 exI [of _ "node # pre"] exI [of _ n] exI [of _ post]) auto
    qed
  next
    case False
    from Cons [of b ok token] show ?thesis
    proof (elim disjE exE conjE)
      assume "\<forall>m\<in>set ns. test m \<longrightarrow> nn_bits m < b" "validate_loop test ns ok b token = (ok, token)"
      with False show ?thesis by (intro disjI1) auto
    next
      fix pre n post
      assume "ns = pre @ n # post" "test n" "b \<le> nn_bits n" "\<forall>m\<in>set pre. test m \<longrightarrow> nn_bits m \<le> nn_bits n"
        "\<forall>m\<in>set post. test m \<longrightarrow> nn_bits m < nn_bits n" "validate_loop test ns ok b token = (nn_ok n, nn_token n)"
      with False show ?thesis by (intro disjI2 exI [of _ "node # pre"] exI [of _ n] exI [of _ post]) auto
    qed
  qed
qed simp

section \<open>Lists of networks\<close>

text \<open>An entry of an access list: the host, the text of its prefix length, and whether it is allowed.\<close>

type_synonym entry = "string \<times> string \<times> bool"

definition entry_addr :: "inet \<Rightarrow> entry \<Rightarrow> uint32_t" where
  "entry_addr net e = le_word (rev (the (pton4 net (fst e))))"

definition entry_bits :: "entry \<Rightarrow> nat" where
  "entry_bits e = nat (c_atoi (fst (snd e)))"

definition entry_text :: "entry \<Rightarrow> string" where
  "entry_text e = fst e @ ''/'' @ fst (snd e)"

definition entry_ok :: "inet \<Rightarrow> entry \<Rightarrow> bool" where
  "entry_ok net e \<longleftrightarrow> (\<exists>bs. pton4 net (fst e) = Some bs \<and> length bs = 4) \<and> length (entry_text e) \<le> 126 \<and>
     set (entry_text e) \<inter> {CHR '':'', CHR '',''} = {} \<and> CHR ''/'' \<notin> set (fst e) \<and>
     0 \<le> c_atoi (fst (snd e)) \<and> c_atoi (fst (snd e)) \<le> 32"

definition entry_covers :: "inet \<Rightarrow> uint32_t \<Rightarrow> entry \<Rightarrow> bool" where
  "entry_covers net ip e \<longleftrightarrow> covers (entry_addr net e) (entry_bits e) ip"

text \<open>Adding the entries one after the other.\<close>

fun add_entries :: "inet \<Rightarrow> stack \<Rightarrow> entry list \<Rightarrow> switch_network_list \<Rightarrow> switch_network_list c_result" where
  "add_entries net j [] lst = Inr lst"
| "add_entries net j (e # es) lst =
     and_then (switch_network_list_add_cidr_token net j (entry_text e) (snd (snd e)) None lst) (\<lambda>(status, lst).
       if status = SWITCH_STATUS_SUCCESS then add_entries net j es lst else Inl Assert_Failed)"

definition entry_node :: "inet \<Rightarrow> stack \<Rightarrow> entry \<Rightarrow> switch_network_node" where
  "entry_node net j e =
     \<lparr>nn_ip = set_v4 (entry_addr net e) (the (pton4 net (fst e)) @ drop 4 (junk_ip j)), nn_mask = set_v4 (cidr_mask (entry_bits e)) (junk_mask j),
      nn_bits = of_nat (entry_bits e), nn_family = AF_INET, nn_ok = snd (snd e), nn_token = None, nn_str = entry_text e\<rparr>"

lemma tolower_colon: "c_tolower c = CHR '':'' \<longleftrightarrow> c = CHR '':''"
proof
  assume "c_tolower c = CHR '':''"
  then have "(of_char (c_tolower c) :: nat) = 58" by simp
  then have "(of_char c :: nat) = of_char CHR '':''" by (auto simp: c_tolower_def lower_lane_def split: if_splits)
  then show "c = CHR '':''" by (simp only: of_char_eq_iff)
qed (simp add: c_tolower_def lower_lane_def char_of_def bit_0)

lemma not_mapped: "CHR '':'' \<notin> set s \<Longrightarrow> switch_network_ipv4_mapped_ipv6_addr s = None"
  using tolower_colon [of "CHR '':''"] tolower_colon [of "hd s"]
  by (cases s) (auto simp: switch_network_ipv4_mapped_ipv6_addr_def starts_with_ci_def)

lemma add_entry:
  assumes "entry_ok net e"
  shows "switch_network_list_add_cidr_token net j (entry_text e) (snd (snd e)) None lst =
    Inr (SWITCH_STATUS_SUCCESS, lst\<lparr>nl_nodes := entry_node net j e # nl_nodes lst\<rparr>)"
proof -
  obtain host bits ok where e: "e = (host, bits, ok)" by (cases e)
  obtain bs where bs: "pton4 net host = Some bs" "length bs = 4" using assms e by (auto simp: entry_ok_def)
  have t: "entry_text e = host @ ''/'' @ bits" by (simp add: e entry_text_def)
  have c: "CHR '':'' \<notin> set (entry_text e)" "CHR '','' \<notin> set (entry_text e)" "length (entry_text e) \<le> 126" "CHR ''/'' \<notin> set host"
      "0 \<le> c_atoi bits" "c_atoi bits \<le> 32"
    using assms by (auto simp: entry_ok_def e)
  have host: "takeWhile (\<lambda>c. c \<noteq> CHR ''/'') (host @ ''/'' @ bits) = host"
    using c(4) by (subst takeWhile_append2) auto
  have swap: "htonl (ip_v4 (switch_inet_pton4 net host (junk_ip j))) = entry_addr net e"
    using bs by (simp add: htonl_def ip_v4_def switch_inet_pton4_def le_bytes_word entry_addr_def e)
  have "switch_parse_cidr net (entry_text e) (junk_ip j) (junk_mask j) (junk_bits j) =
      (0, set_v4 (entry_addr net e) (bs @ drop 4 (junk_ip j)), set_v4 (cidr_mask (entry_bits e)) (junk_mask j), of_nat (entry_bits e))"
    using c bs host swap unfolding t
    by (simp add: switch_parse_cidr_def Let_def entry_bits_def e) (simp add: switch_inet_pton4_def)
  then show ?thesis using c(1,2) bs
    by (simp add: switch_network_list_add_cidr_token_def switch_network_list_perform_add_cidr_token_def not_mapped entry_node_def Let_def e)
qed

lemma add_entries_nodes:
  "list_all (entry_ok net) es \<Longrightarrow> add_entries net j es lst = Inr (lst\<lparr>nl_nodes := map (entry_node net j) (rev es) @ nl_nodes lst\<rparr>)"
  by (induction es arbitrary: lst) (simp_all add: add_entry)

lemma entry_node_test:
  assumes "entry_ok net e"
  shows "switch_test_subnet ip (ip_v4 (nn_ip (entry_node net j e))) (ip_v4 (nn_mask (entry_node net j e))) \<longleftrightarrow> entry_covers net ip e"
  using assms by (simp add: entry_node_def entry_covers_def test_subnet_covers entry_bits_def entry_ok_def nat_le_iff)

lemma entry_bits_le:
  assumes "entry_ok net a" and "entry_ok net b"
  shows "nn_bits (entry_node net j a) \<le> nn_bits (entry_node net j b) \<longleftrightarrow> entry_bits a \<le> entry_bits b"
    "nn_bits (entry_node net j a) < nn_bits (entry_node net j b) \<longleftrightarrow> entry_bits a < entry_bits b"
proof -
  have "entry_bits a \<le> 32" "entry_bits b \<le> 32" using assms by (auto simp: entry_ok_def entry_bits_def)
  then have "unat (of_nat (entry_bits a) :: uint32_t) = entry_bits a" "unat (of_nat (entry_bits b) :: uint32_t) = entry_bits b"
    by (simp_all add: unat_of_nat)
  then show "nn_bits (entry_node net j a) \<le> nn_bits (entry_node net j b) \<longleftrightarrow> entry_bits a \<le> entry_bits b"
    "nn_bits (entry_node net j a) < nn_bits (entry_node net j b) \<longleftrightarrow> entry_bits a < entry_bits b"
    by (simp_all add: entry_node_def word_le_nat_alt word_less_nat_alt)
qed

definition decided :: "inet \<Rightarrow> uint32_t \<Rightarrow> entry list \<Rightarrow> bool \<times> string option \<Rightarrow> bool \<times> string option \<Rightarrow> bool" where
  "decided net ip es none r \<longleftrightarrow>
     ((\<forall>e\<in>set es. \<not> entry_covers net ip e) \<and> r = none) \<or>
     (\<exists>pre e post. es = pre @ e # post \<and> entry_covers net ip e \<and> (\<forall>m\<in>set pre. entry_covers net ip m \<longrightarrow> entry_bits m < entry_bits e) \<and>
       (\<forall>m\<in>set post. entry_covers net ip m \<longrightarrow> entry_bits m \<le> entry_bits e) \<and> r = (snd (snd e), None))"

lemma validate_decided:
  assumes ok: "list_all (entry_ok net) es" and l: "nl_nodes lst = map (entry_node net j) (rev es)"
  shows "decided net ip es (nl_default_type lst, token) (switch_network_list_validate_ip_token lst ip token)"
proof -
  let ?node = "entry_node net j"
  let ?test = "\<lambda>node. nn_family node \<noteq> AF_INET6 \<and> switch_test_subnet ip (ip_v4 (nn_ip node)) (ip_v4 (nn_mask node))"
  let ?r = "switch_network_list_validate_ip_token lst ip token"
  have okm: "entry_ok net e" if "e \<in> set es" for e using ok that by (simp add: list_all_iff)
  have test: "?test (?node e) \<longleftrightarrow> entry_covers net ip e" if "e \<in> set es" for e
    using entry_node_test [OF okm [OF that]] by (simp add: entry_node_def AF_INET_def AF_INET6_def)
  have r: "?r = validate_loop ?test (map ?node (rev es)) (nl_default_type lst) 0 token"
    by (simp add: switch_network_list_validate_ip_token_def l)
  consider "\<forall>m\<in>set (map ?node (rev es)). ?test m \<longrightarrow> nn_bits m < 0" "?r = (nl_default_type lst, token)"
    | pre n post where "map ?node (rev es) = pre @ n # post" "?test n" "\<forall>m\<in>set pre. ?test m \<longrightarrow> nn_bits m \<le> nn_bits n"
      "\<forall>m\<in>set post. ?test m \<longrightarrow> nn_bits m < nn_bits n" "?r = (nn_ok n, nn_token n)"
    using validate_longest [of "map ?node (rev es)" ?test 0 "nl_default_type lst" token, folded r] by blast
  then show ?thesis
  proof cases
    case 1
    then show ?thesis using test by (auto simp: decided_def)
  next
    case n: (2 pre n post)
    obtain us vs where uv: "rev es = us @ vs" "map ?node us = pre" "map ?node vs = n # post"
      using n(1) by (auto simp: map_eq_append_conv)
    then obtain e ws where e: "vs = e # ws" "?node e = n" "map ?node ws = post" by (cases vs) auto
    have es: "es = rev ws @ e # rev us" using uv(1) e(1) by (metis append_Cons append_Nil append_assoc rev.simps(2) rev_append rev_rev_ident)
    have "entry_covers net ip e" using n(2) e(2) test [of e] es by simp
    moreover have "entry_bits m < entry_bits e" if "m \<in> set ws" "entry_covers net ip m" for m
      using n(4) e that test [of m] entry_bits_le(2) [of net m e j] okm es by auto
    moreover have "entry_bits m \<le> entry_bits e" if "m \<in> set us" "entry_covers net ip m" for m
      using n(3) uv(2) e(2) that test [of m] entry_bits_le(1) [of net m e j] okm es by auto
    moreover have "?r = (snd (snd e), None)" using n(5) e(2) by (auto simp: entry_node_def)
    ultimately show ?thesis using es unfolding decided_def
      by (intro disjI2 exI [of _ "rev ws"] exI [of _ e] exI [of _ "rev us"]) auto
  qed
qed

text \<open>C9: Access lists decide by the longest prefix. A list to which well-formed networks were added decides an IPv4 address by the network with the
  longest prefix among those that cover the address, the one added first when several are equally long, and by the default of the list when
  none covers it. A network covers the addresses that agree with it in the bits of the prefix; an empty prefix, however,
  covers only the network's own address unless that is 0.0.0.0.\<close>

theorem access_list_decides:
  assumes "list_all (entry_ok net) es" and "pton4 net ip_str = Some bs" and "length bs = 4" and "CHR '':'' \<notin> set ip_str"
  shows "\<exists>lst. add_entries net j es (switch_network_list_create name dflt) = Inr lst \<and>
    (\<forall>hash. switch_core_hash_find hash name = Some lst \<longrightarrow>
      (\<exists>r. switch_check_network_list_ip_token net j' junk hash ip_str (Some name) token = Inr r \<and>
        decided net (le_word (rev bs)) es (dflt, token) r))"
proof -
  let ?lst = "(switch_network_list_create name dflt)\<lparr>nl_nodes := map (entry_node net j) (rev es)\<rparr>"
  have ip: "ip_v4 (set_v4 (htonl (ip_v4 (switch_inet_pton4 net ip_str junk))) (switch_inet_pton4 net ip_str junk)) = le_word (rev bs)"
    using assms(2,3) by (simp add: htonl_def ip_v4_def switch_inet_pton4_def le_bytes_word) (simp add: set_v4_def)
  have "switch_check_network_list_ip_token net j' junk hash ip_str (Some name) token =
      Inr (switch_network_list_validate_ip_token ?lst (le_word (rev bs)) token)"
    if "switch_core_hash_find hash name = Some ?lst" for hash
    using that assms(4) ip by (simp add: switch_check_network_list_ip_token_def not_mapped Let_def)
  moreover have "decided net (le_word (rev bs)) es (dflt, token) (switch_network_list_validate_ip_token ?lst (le_word (rev bs)) token)"
    using validate_decided [OF assms(1), of ?lst j] by (simp add: switch_network_list_create_def)
  ultimately show ?thesis
    using add_entries_nodes [OF assms(1), of j] by (intro exI [of _ ?lst]) (simp add: switch_network_list_create_def)
qed

definition demo_net :: inet where
  "demo_net = \<lparr>pton4 = (\<lambda>s. if s = ''10.0.0.0'' then Some [10, 0, 0, 0] else if s = ''10.1.0.0'' then Some [10, 1, 0, 0]
       else if s = ''10.1.2.3'' then Some [10, 1, 2, 3] else if s = ''255.255.0.0'' then Some [255, 255, 0, 0] else None), pton6 = (\<lambda>_. None)\<rparr>"

definition demo_stack :: stack where
  "demo_stack = \<lparr>junk_ip = replicate 16 7, junk_mask = replicate 16 7, junk_bits = 7\<rparr>"

lemma demo_entries: "list_all (entry_ok demo_net) [(''10.1.0.0'', ''16'', False), (''10.0.0.0'', ''8'', True)]"
  by (simp add: entry_ok_def entry_text_def demo_net_def c_atoi_def digits_value_def c_isspace_def c_isdigit_def)

theorem access_list_decides_witness:
  "\<exists>lst. add_entries demo_net demo_stack [(''10.1.0.0'', ''16'', False), (''10.0.0.0'', ''8'', True)] (switch_network_list_create ''acl'' True) = Inr lst \<and>
     (\<forall>hash. switch_core_hash_find hash ''acl'' = Some lst \<longrightarrow>
       switch_check_network_list_ip_token demo_net demo_stack (junk_ip demo_stack) hash ''10.1.2.3'' (Some ''acl'') None = Inr (False, None))"
proof -
  let ?es = "[(''10.1.0.0'', ''16'', False), (''10.0.0.0'', ''8'', True)]"
  have p: "pton4 demo_net ''10.1.2.3'' = Some [10, 1, 2, 3]" by (simp add: demo_net_def)
  have c: "entry_covers demo_net (le_word (rev [10, 1, 2, 3])) (''10.1.0.0'', ''16'', False)"
    by (simp add: entry_covers_def covers_def entry_addr_def entry_bits_def demo_net_def le_word_def c_atoi_def digits_value_def c_isspace_def c_isdigit_def)
  have b: "entry_bits (''10.0.0.0'', ''8'', True) < entry_bits (''10.1.0.0'', ''16'', False)"
    by (simp add: entry_bits_def c_atoi_def digits_value_def c_isspace_def c_isdigit_def)
  have "r = (False, None)" if "decided demo_net (le_word (rev [10, 1, 2, 3])) ?es (True, None) r" for r
    using that c b by (auto simp: decided_def Cons_eq_append_conv)
  moreover have "length [10, 1, 2, 3 :: byte] = 4" "CHR '':'' \<notin> set ''10.1.2.3''" by simp_all
  ultimately show ?thesis
    using access_list_decides [OF demo_entries p, of demo_stack "''acl''" True demo_stack "junk_ip demo_stack" None] by metis
qed

section \<open>Hosts with a netmask\<close>

lemma htonl_htonl [simp]: "htonl (htonl w) = w"
  by (simp add: htonl_def le_bytes_word)

lemma count_bits_mask: "n \<le> 32 \<Longrightarrow> count_bits (htonl (cidr_mask n)) = of_nat n"
proof -
  have "list_all (\<lambda>n. count_bits (htonl (cidr_mask n)) = of_nat n) [0..<33]" by code_simp
  then show "n \<le> 32 \<Longrightarrow> ?thesis" by (simp add: list_all_iff)
qed

lemma and_mask_append: "length a = length c \<Longrightarrow> and_mask (a @ b) (c @ d) = and_mask a c @ and_mask b d"
  by (simp add: and_mask_def)

lemma and_mask_bytes: "and_mask (le_bytes a) (le_bytes b) = le_bytes (a AND b)"
  by (simp add: and_mask_def le_bytes_def) (auto intro!: bit_word_eqI simp: bit_and_iff bit_ucast_iff bit_drop_bit_eq)

lemma and_mask_zero: "and_mask xs (replicate (length xs) 0) = replicate (length xs) 0"
  by (induction xs) (simp_all add: and_mask_def)

lemma le_bytes_inject [simp]: "le_bytes a = le_bytes b \<longleftrightarrow> a = b"
  by (metis le_word_bytes)

lemma unspecified_bytes: "unspecified (le_bytes w @ replicate n 0) \<longleftrightarrow> w = 0"
proof
  assume "unspecified (le_bytes w @ replicate n 0)"
  then have "le_bytes w = le_bytes 0" by (simp add: unspecified_def le_bytes_def)
  then show "w = 0" by simp
qed (simp add: unspecified_def le_bytes_def list_all_iff)

text \<open>The test of IPv6 addresses on the node of a host with a netmask.\<close>

lemma host_mask_v6:
  assumes "length rest = 12" and "0 < n" and "n \<le> 32"
  shows "switch_testv6_subnet (le_bytes w @ rest) (set_v4 a (replicate 16 0)) (set_v4 (cidr_mask n) (replicate 16 0)) \<longleftrightarrow> covers a n w"
proof -
  have z: "set_v4 x (replicate 16 0) = le_bytes x @ replicate 12 0" for x
    by (simp add: set_v4_def)
  have "and_mask (le_bytes w @ rest) (le_bytes (cidr_mask n) @ replicate 12 0) = le_bytes (w AND cidr_mask n) @ replicate 12 0"
    using assms(1) and_mask_zero [of rest] by (simp add: and_mask_append and_mask_bytes)
  moreover have "and_mask (le_bytes a @ replicate 12 0) (le_bytes (cidr_mask n) @ replicate 12 0) = le_bytes (a AND cidr_mask n) @ replicate 12 0"
    using and_mask_zero [of "replicate 12 0"] by (simp add: and_mask_append and_mask_bytes)
  ultimately show ?thesis
    using assms(2,3) prefix_mask [OF assms(3), of a w] by (simp add: switch_testv6_subnet_def z unspecified_bytes covers_def)
qed

lemma validate_loop_head:
  assumes "test a = test b" and "nn_bits a = nn_bits b" and "nn_ok a = nn_ok b" and "nn_token a = nn_token b"
  shows "validate_loop test (a # ns) ok bits token = validate_loop test (b # ns) ok bits token"
  using assms by simp

text \<open>A host with a netmask. When the netmask is one of \<open>n\<close> leading ones, the entry decides every IPv4 address exactly as the network in CIDR notation
  with a prefix of \<open>n\<close> bits; the bits are counted right. But the entry has no address family: in a list with a single such entry,
  an IPv6 address is decided by it whenever the first four bytes, read as a little endian number, lie in the IPv4 network.\<close>

theorem host_mask_like_cidr:
  assumes "entry_ok net (host, b, ok)" and "pton4 net mask_str = Some (rev (le_bytes (cidr_mask n)))" and "n = nat (c_atoi b)"
  shows "switch_network_list_validate_ip_token (snd (switch_network_list_add_host_mask net j host mask_str ok lst)) ip token =
      switch_network_list_validate_ip_token (snd (switch_network_list_perform_add_cidr_token net j' (host @ ''/'' @ b) ok None lst)) ip token \<and>
    (0 < n \<and> length rest = 12 \<longrightarrow>
      switch_network_list_validate_ip6_token
        (snd (switch_network_list_add_host_mask net j host mask_str ok (switch_network_list_create name dflt))) (le_bytes w @ rest) token =
      (if covers (entry_addr net (host, b, ok)) n w then (ok, None) else (dflt, token)))"
proof -
  let ?e = "(host, b, ok)"
  obtain bs where bs: "pton4 net host = Some bs" "length bs = 4" using assms(1) by (auto simp: entry_ok_def)
  have n: "n \<le> 32" "n = entry_bits ?e" using assms(1,3) by (auto simp: entry_ok_def entry_bits_def)
  have mask: "ip_v4 (switch_inet_pton4 net mask_str (junk_mask j)) = htonl (cidr_mask n)"
    using assms(2) by (simp add: switch_inet_pton4_def ip_v4_def htonl_def)
  have addr: "htonl (ip_v4 (switch_inet_pton4 net host (junk_ip j))) = entry_addr net ?e"
    using bs by (simp add: htonl_def ip_v4_def switch_inet_pton4_def le_bytes_word entry_addr_def)
  let ?h = "\<lparr>nn_ip = set_v4 (entry_addr net ?e) (replicate 16 0), nn_mask = set_v4 (cidr_mask n) (replicate 16 0), nn_bits = of_nat n,
      nn_family = 0, nn_ok = ok, nn_token = None, nn_str = host @ '':'' @ mask_str\<rparr>"
  have h: "snd (switch_network_list_add_host_mask net j host mask_str ok l) = l\<lparr>nl_nodes := ?h # nl_nodes l\<rparr>" for l
    using mask addr count_bits_mask [OF n(1)] by (simp add: switch_network_list_add_host_mask_def Let_def)
  have "CHR '','' \<notin> set (host @ ''/'' @ b)" using assms(1) by (auto simp: entry_ok_def entry_text_def)
  then have c: "snd (switch_network_list_perform_add_cidr_token net j' (host @ ''/'' @ b) ok None l) = l\<lparr>nl_nodes := entry_node net j' ?e # nl_nodes l\<rparr>" for l
    using add_entry [OF assms(1), of j' l] by (simp add: switch_network_list_add_cidr_token_def entry_text_def)
  have "switch_network_list_validate_ip_token (lst\<lparr>nl_nodes := ?h # nl_nodes lst\<rparr>) ip token =
      switch_network_list_validate_ip_token (lst\<lparr>nl_nodes := entry_node net j' ?e # nl_nodes lst\<rparr>) ip token"
    unfolding switch_network_list_validate_ip_token_def
    by (simp del: validate_loop.simps, rule validate_loop_head) (simp_all add: entry_node_def n(2) AF_INET_def AF_INET6_def)
  moreover have "switch_network_list_validate_ip6_token ((switch_network_list_create name dflt)\<lparr>nl_nodes := [?h]\<rparr>) (le_bytes w @ rest) token =
      (if covers (entry_addr net ?e) n w then (ok, None) else (dflt, token))" if "0 < n" "length rest = 12"
    using host_mask_v6 [OF that(2,1) n(1)] by (simp add: switch_network_list_validate_ip6_token_def switch_network_list_create_def AF_INET_def)
  ultimately show ?thesis unfolding h c by (simp add: switch_network_list_create_def)
qed

theorem host_mask_like_cidr_witness:
  "switch_network_list_validate_ip6_token
     (snd (switch_network_list_add_host_mask demo_net demo_stack ''10.1.0.0'' ''255.255.0.0'' True (switch_network_list_create ''acl'' False)))
     ([3, 2, 1, 10] @ replicate 12 9) None = (True, None)"
proof -
  let ?net = "switch_network_list_validate_ip6_token
     (snd (switch_network_list_add_host_mask demo_net demo_stack ''10.1.0.0'' ''255.255.0.0'' True (switch_network_list_create ''acl'' False)))"
  have e: "entry_ok demo_net (''10.1.0.0'', ''16'', True)" using demo_entries by (simp add: entry_ok_def entry_text_def)
  have m: "pton4 demo_net ''255.255.0.0'' = Some (rev (le_bytes (cidr_mask 16)))" by (simp add: demo_net_def) code_simp
  have b: "(16 :: nat) = nat (c_atoi ''16'')" by (simp add: c_atoi_def digits_value_def c_isspace_def c_isdigit_def)
  have l: "le_bytes 0x0A010203 = [3, 2, 1, 10]" by code_simp
  have c: "covers (entry_addr demo_net (''10.1.0.0'', ''16'', True)) 16 0x0A010203"
    by (simp add: covers_def entry_addr_def demo_net_def le_word_def)
  have "?net (le_bytes 0x0A010203 @ replicate 12 9) None =
      (if covers (entry_addr demo_net (''10.1.0.0'', ''16'', True)) 16 0x0A010203 then (True, None) else (False, None))"
    by (rule mp [OF conjunct2 [OF host_mask_like_cidr [OF e m b]]]) simp
  with c show ?thesis unfolding l by (simp only: if_True)
qed

end
