(* ===== verification/FS_Caller.thy ===== *)
theory FS_Caller
  imports FS_Event
begin

text \<open>
  \<^verbatim>\<open>src/switch_caller.c\<close> with the cleaning functions of \<^verbatim>\<open>switch_utils.h\<close> it uses: caller profiles (creation,
  duplication, access by field name, publication in an event) and dialplan extensions (the list of
  applications a channel executes, and the loop of \<^verbatim>\<open>src/switch_core_state_machine.c\<close> that executes them). A C string pointer is an optional string. Pointers from a profile to
  other profiles are addresses; the functions here only leave them empty. Memory pools are assumed to be
  available; the identifier \<^verbatim>\<open>switch_uuid_str\<close> makes is an argument.
\<close>

section \<open>Cleaning strings\<close>

text \<open>\<^verbatim>\<open>switch_string_var_check\<close>: \<open>buf\<close> is the string before \<^verbatim>\<open>p\<close>, \<open>dol\<close> the position of the last dollar sign that can
  still start a variable.\<close>

fun var_check_loop :: "bool \<Rightarrow> string \<Rightarrow> nat option \<Rightarrow> string \<Rightarrow> bool \<times> string" where
  "var_check_loop disable buf dol [] = (False, buf)"
| "var_check_loop disable buf dol (c # rest) =
     (if c = CHR ''$'' then var_check_loop disable (buf @ [c]) (Some (length buf)) rest
      else case dol of
        None \<Rightarrow> var_check_loop disable (buf @ [c]) None rest
      | Some d \<Rightarrow>
          (if c = CHR ''{'' then
             (if disable then var_check_loop disable ((buf @ [c])[d := CHR ''%'']) None rest
              else (True, buf @ c # rest))
           else var_check_loop disable (buf @ [c]) (if c \<noteq> CHR 0x5C then None else dol) rest))"

definition switch_string_var_check :: "string \<Rightarrow> bool \<Rightarrow> bool \<times> string" where
  "switch_string_var_check s disable = var_check_loop disable [] None s"

fun var_check_const_loop :: "bool \<Rightarrow> string \<Rightarrow> bool" where
  "var_check_const_loop dol [] = False"
| "var_check_const_loop dol (c # rest) =
     (if c = CHR ''$'' then var_check_const_loop True rest
      else if dol then
        (if c = CHR ''{'' then True else var_check_const_loop (c = CHR 0x5C) rest)
      else var_check_const_loop False rest)"

definition switch_string_var_check_const :: "string \<Rightarrow> bool" where
  "switch_string_var_check_const s = var_check_const_loop False s"

definition switch_var_clean_string :: "string \<Rightarrow> string" where
  "switch_var_clean_string s = snd (switch_string_var_check s True)"

definition switch_clean_string :: "string \<Rightarrow> string" where
  "switch_clean_string s =
     map (\<lambda>c. let x = of_char c :: nat in if x < 32 \<and> x \<noteq> 10 \<and> x \<noteq> 13 then CHR '' '' else c) s"

section \<open>Data\<close>

definition zstr :: "string option \<Rightarrow> bool" where
  "zstr s \<longleftrightarrow> s = None \<or> s = Some []"

definition profile_dup :: "string option \<Rightarrow> string option" where
  "profile_dup a = (if \<not> zstr a then a else Some [])"

definition profile_dup_clean :: "string option \<Rightarrow> string option" where
  "profile_dup_clean a =
     (if \<not> zstr a then map_option (\<lambda>s. switch_var_clean_string (switch_clean_string s)) a else Some [])"

datatype switch_call_direction_t = SWITCH_CALL_DIRECTION_INBOUND | SWITCH_CALL_DIRECTION_OUTBOUND

definition SWITCH_CPF_SCREEN :: uint32_t where "SWITCH_CPF_SCREEN = 1"
definition SWITCH_CPF_HIDE_NAME :: uint32_t where "SWITCH_CPF_HIDE_NAME = 2"
definition SWITCH_CPF_HIDE_NUMBER :: uint32_t where "SWITCH_CPF_HIDE_NUMBER = 4"

definition SWITCH_TON_UNDEF :: nat where "SWITCH_TON_UNDEF = 255"
definition SWITCH_NUMPLAN_UNDEF :: nat where "SWITCH_NUMPLAN_UNDEF = 255"
definition SWITCH_DEFAULT_CLID_NAME :: string where "SWITCH_DEFAULT_CLID_NAME = ''''"
definition SWITCH_DEFAULT_CLID_NUMBER :: string where "SWITCH_DEFAULT_CLID_NUMBER = ''0000000000''"

record switch_channel_timetable =
  tt_profile_created :: int
  tt_created :: int
  tt_answered :: int
  tt_progress :: int
  tt_progress_media :: int
  tt_hungup :: int
  tt_transferred :: int
  tt_resurrected :: int
  tt_bridged :: int
  tt_last_hold :: int
  tt_hold_accum :: int

definition no_times :: switch_channel_timetable where
  "no_times = \<lparr>tt_profile_created = 0, tt_created = 0, tt_answered = 0, tt_progress = 0, tt_progress_media = 0, tt_hungup = 0, tt_transferred = 0, tt_resurrected = 0, tt_bridged = 0, tt_last_hold = 0, tt_hold_accum = 0\<rparr>"

record switch_caller_profile =
  cp_username :: "string option"
  cp_dialplan :: "string option"
  cp_caller_id_name :: "string option"
  cp_caller_id_number :: "string option"
  cp_orig_caller_id_name :: "string option"
  cp_orig_caller_id_number :: "string option"
  cp_callee_id_name :: "string option"
  cp_callee_id_number :: "string option"
  cp_caller_ton :: nat
  cp_caller_numplan :: nat
  cp_network_addr :: "string option"
  cp_ani :: "string option"
  cp_ani_ton :: nat
  cp_ani_numplan :: nat
  cp_aniii :: "string option"
  cp_rdnis :: "string option"
  cp_rdnis_ton :: nat
  cp_rdnis_numplan :: nat
  cp_destination_number :: "string option"
  cp_destination_number_ton :: nat
  cp_destination_number_numplan :: nat
  cp_source :: "string option"
  cp_chan_name :: "string option"
  cp_uuid :: "string option"
  cp_context :: "string option"
  cp_profile_index :: "string option"
  cp_flags :: uint32_t
  cp_originator_caller_profile :: "nat option"
  cp_originatee_caller_profile :: "nat option"
  cp_times :: "switch_channel_timetable option"
  cp_old_times :: "switch_channel_timetable option"
  cp_direction :: switch_call_direction_t
  cp_logical_direction :: switch_call_direction_t
  cp_soft :: "(string \<times> string option) list"
  cp_uuid_str :: "string option"
  cp_clone_of :: "string option"
  cp_transfer_source :: "string option"

section \<open>Caller profiles\<close>

text \<open>The zeroed fields of a new profile are null pointers, zero flags and inbound directions.\<close>

definition switch_caller_profile_new ::
  "string \<Rightarrow> string option \<Rightarrow> string option \<Rightarrow> string option \<Rightarrow> string option \<Rightarrow> string option \<Rightarrow> string option \<Rightarrow> string option \<Rightarrow>
   string option \<Rightarrow> string option \<Rightarrow> string option \<Rightarrow> string option \<Rightarrow> switch_caller_profile" where
  "switch_caller_profile_new uuid username dialplan caller_id_name caller_id_number network_addr ani aniii rdnis source
     context destination_number =
     (let context = (case context of None \<Rightarrow> Some ''default'' | Some c \<Rightarrow> Some c);
          caller_id_name = (if zstr caller_id_name then Some SWITCH_DEFAULT_CLID_NAME else caller_id_name);
          caller_id_number = (if zstr caller_id_number then Some SWITCH_DEFAULT_CLID_NUMBER else caller_id_number);
          ani = (if zstr ani then caller_id_number else ani)
      in \<lparr>cp_username = profile_dup_clean username, cp_dialplan = profile_dup_clean dialplan,
          cp_caller_id_name = profile_dup_clean caller_id_name,
          cp_caller_id_number = profile_dup_clean caller_id_number,
          cp_orig_caller_id_name = profile_dup_clean caller_id_name,
          cp_orig_caller_id_number = profile_dup_clean caller_id_number, cp_callee_id_name = Some [],
          cp_callee_id_number = Some [], cp_caller_ton = SWITCH_TON_UNDEF,
          cp_caller_numplan = SWITCH_NUMPLAN_UNDEF, cp_network_addr = profile_dup_clean network_addr,
          cp_ani = profile_dup_clean ani, cp_ani_ton = SWITCH_TON_UNDEF,
          cp_ani_numplan = SWITCH_NUMPLAN_UNDEF, cp_aniii = profile_dup_clean aniii,
          cp_rdnis = profile_dup_clean rdnis, cp_rdnis_ton = SWITCH_TON_UNDEF,
          cp_rdnis_numplan = SWITCH_NUMPLAN_UNDEF,
          cp_destination_number = profile_dup_clean destination_number,
          cp_destination_number_ton = SWITCH_TON_UNDEF,
          cp_destination_number_numplan = SWITCH_NUMPLAN_UNDEF, cp_source = profile_dup_clean source,
          cp_chan_name = Some [], cp_uuid = Some [], cp_context = profile_dup_clean context,
          cp_profile_index = None, cp_flags = set_flag 0 SWITCH_CPF_SCREEN,
          cp_originator_caller_profile = None, cp_originatee_caller_profile = None, cp_times = None,
          cp_old_times = None, cp_direction = SWITCH_CALL_DIRECTION_INBOUND,
          cp_logical_direction = SWITCH_CALL_DIRECTION_INBOUND, cp_soft = [], cp_uuid_str = Some uuid,
          cp_clone_of = None, cp_transfer_source = None\<rparr>)"

text \<open>The copy and the profile copied from, which gets a new timetable when it had none.\<close>

definition switch_caller_profile_dup ::
  "string \<Rightarrow> switch_caller_profile \<Rightarrow> switch_caller_profile \<times> switch_caller_profile" where
  "switch_caller_profile_dup uuid tocopy =
     (\<lparr>cp_username = profile_dup (cp_username tocopy), cp_dialplan = profile_dup (cp_dialplan tocopy),
          cp_caller_id_name = profile_dup (cp_caller_id_name tocopy),
          cp_caller_id_number = profile_dup (cp_caller_id_number tocopy),
          cp_orig_caller_id_name = profile_dup (cp_orig_caller_id_name tocopy),
          cp_orig_caller_id_number = profile_dup (cp_orig_caller_id_number tocopy),
          cp_callee_id_name = profile_dup (cp_callee_id_name tocopy),
          cp_callee_id_number = profile_dup (cp_callee_id_number tocopy),
          cp_caller_ton = cp_caller_ton tocopy, cp_caller_numplan = cp_caller_numplan tocopy,
          cp_network_addr = profile_dup (cp_network_addr tocopy), cp_ani = profile_dup (cp_ani tocopy),
          cp_ani_ton = cp_ani_ton tocopy, cp_ani_numplan = cp_ani_numplan tocopy,
          cp_aniii = profile_dup (cp_aniii tocopy), cp_rdnis = profile_dup (cp_rdnis tocopy),
          cp_rdnis_ton = cp_rdnis_ton tocopy, cp_rdnis_numplan = cp_rdnis_numplan tocopy,
          cp_destination_number = profile_dup (cp_destination_number tocopy),
          cp_destination_number_ton = cp_destination_number_ton tocopy,
          cp_destination_number_numplan = cp_destination_number_numplan tocopy,
          cp_source = profile_dup (cp_source tocopy), cp_chan_name = profile_dup (cp_chan_name tocopy),
          cp_uuid = profile_dup (cp_uuid tocopy), cp_context = profile_dup (cp_context tocopy),
          cp_profile_index = None, cp_flags = cp_flags tocopy, cp_originator_caller_profile = None,
          cp_originatee_caller_profile = None, cp_times = None, cp_old_times = cp_times tocopy,
          cp_direction = cp_direction tocopy, cp_logical_direction = SWITCH_CALL_DIRECTION_INBOUND,
          cp_soft = cp_soft tocopy, cp_uuid_str = Some uuid, cp_clone_of = cp_uuid_str tocopy,
          cp_transfer_source = None\<rparr>,
      if cp_times tocopy = None then tocopy\<lparr>cp_times := Some no_times\<rparr> else tocopy)"

definition switch_caller_profile_clone ::
  "string \<Rightarrow> switch_caller_profile \<Rightarrow> switch_caller_profile \<times> switch_caller_profile" where
  "switch_caller_profile_clone uuid tocopy = switch_caller_profile_dup uuid tocopy"

text \<open>Access by name. The names are tried in the order of the code; a time is printed from the timetable,
  which the code does not test for null.\<close>

definition flag_text :: "switch_caller_profile \<Rightarrow> uint32_t \<Rightarrow> string" where
  "flag_text p f = (if test_flag (cp_flags p) f then ''true'' else ''false'')"

definition profile_time :: "switch_caller_profile \<Rightarrow> (switch_channel_timetable \<Rightarrow> int) \<Rightarrow> string option c_result" where
  "profile_time p time = (case cp_times p of None \<Rightarrow> Inl Null_Access | Some t \<Rightarrow> Inr (Some (show_int (time t))))"

definition profile_fields :: "switch_caller_profile \<Rightarrow> (string \<times> string option c_result) list" where
  "profile_fields p =
     [(''dialplan'', Inr (cp_dialplan p)),
      (''username'', Inr (cp_username p)),
      (''caller_id_name'', Inr (cp_caller_id_name p)),
      (''caller_id_number'', Inr (cp_caller_id_number p)),
      (''orig_caller_id_name'', Inr (cp_orig_caller_id_name p)),
      (''orig_caller_id_number'', Inr (cp_orig_caller_id_number p)),
      (''callee_id_name'', Inr (cp_callee_id_name p)),
      (''callee_id_number'', Inr (cp_callee_id_number p)),
      (''ani'', Inr (cp_ani p)),
      (''aniii'', Inr (cp_aniii p)),
      (''network_addr'', Inr (cp_network_addr p)),
      (''rdnis'', Inr (cp_rdnis p)),
      (''destination_number'', Inr (cp_destination_number p)),
      (''uuid'', Inr (cp_uuid p)),
      (''source'', Inr (cp_source p)),
      (''transfer_source'', Inr (cp_transfer_source p)),
      (''context'', Inr (cp_context p)),
      (''chan_name'', Inr (cp_chan_name p)),
      (''profile_index'', Inr (cp_profile_index p)),
      (''caller_ton'', Inr (Some (show_nat (cp_caller_ton p)))),
      (''caller_numplan'', Inr (Some (show_nat (cp_caller_numplan p)))),
      (''destination_number_ton'', Inr (Some (show_nat (cp_destination_number_ton p)))),
      (''destination_number_numplan'', Inr (Some (show_nat (cp_destination_number_numplan p)))),
      (''ani_ton'', Inr (Some (show_nat (cp_ani_ton p)))),
      (''ani_numplan'', Inr (Some (show_nat (cp_ani_numplan p)))),
      (''rdnis_ton'', Inr (Some (show_nat (cp_rdnis_ton p)))),
      (''rdnis_numplan'', Inr (Some (show_nat (cp_rdnis_numplan p)))),
      (''screen_bit'', Inr (Some (flag_text p SWITCH_CPF_SCREEN))),
      (''privacy_hide_name'', Inr (Some (flag_text p SWITCH_CPF_HIDE_NAME))),
      (''privacy_hide_number'', Inr (Some (flag_text p SWITCH_CPF_HIDE_NUMBER))),
      (''profile_created_time'', profile_time p tt_profile_created),
      (''created_time'', profile_time p tt_created),
      (''answered_time'', profile_time p tt_answered),
      (''progress_time'', profile_time p tt_progress),
      (''progress_media_time'', profile_time p tt_progress_media),
      (''hungup_time'', profile_time p tt_hungup),
      (''transferred_time'', profile_time p tt_transferred)]"

fun field_lookup :: "string \<Rightarrow> (string \<times> 'a) list \<Rightarrow> 'a option" where
  "field_lookup name [] = None"
| "field_lookup name ((n, v) # fs) = (if strcasecmp_eq name n then Some v else field_lookup name fs)"

definition switch_caller_get_field_by_name :: "switch_caller_profile \<Rightarrow> string \<Rightarrow> string option c_result" where
  "switch_caller_get_field_by_name p name =
     (case field_lookup name (profile_fields p) of None \<Rightarrow> Inr None | Some v \<Rightarrow> v)"

text \<open>Publication in an event: the headers in the order of the code. A header guarded by a test appears with the
  field the test looks at; two guards look at another field than the one published.\<close>

definition direction_text :: "switch_call_direction_t \<Rightarrow> string" where
  "direction_text d = (if d = SWITCH_CALL_DIRECTION_INBOUND then ''inbound'' else ''outbound'')"

definition guarded :: "string option \<Rightarrow> string \<Rightarrow> string option \<Rightarrow> (string \<times> string option) list" where
  "guarded test name value = (if \<not> zstr test then [(name, value)] else [])"

definition guarded_fields :: "switch_caller_profile \<Rightarrow> (string option \<times> string \<times> string option) list" where
  "guarded_fields p =
     [(cp_username p, ''-Username'', cp_username p),
      (cp_dialplan p, ''-Dialplan'', cp_dialplan p),
      (cp_caller_id_name p, ''-Caller-ID-Name'', cp_caller_id_name p),
      (cp_caller_id_number p, ''-Caller-ID-Number'', cp_caller_id_number p),
      (cp_caller_id_name p, ''-Orig-Caller-ID-Name'', cp_orig_caller_id_name p),
      (cp_caller_id_number p, ''-Orig-Caller-ID-Number'', cp_orig_caller_id_number p),
      (cp_callee_id_name p, ''-Callee-ID-Name'', cp_callee_id_name p),
      (cp_callee_id_number p, ''-Callee-ID-Number'', cp_callee_id_number p),
      (cp_network_addr p, ''-Network-Addr'', cp_network_addr p),
      (cp_ani p, ''-ANI'', cp_ani p),
      (cp_aniii p, ''-ANI-II'', cp_aniii p),
      (cp_destination_number p, ''-Destination-Number'', cp_destination_number p),
      (cp_uuid p, ''-Unique-ID'', cp_uuid p),
      (cp_source p, ''-Source'', cp_source p),
      (cp_transfer_source p, ''-Transfer-Source'', cp_transfer_source p),
      (cp_context p, ''-Context'', cp_context p),
      (cp_rdnis p, ''-RDNIS'', cp_rdnis p),
      (cp_chan_name p, ''-Channel-Name'', cp_chan_name p),
      (cp_profile_index p, ''-Profile-Index'', cp_profile_index p)]"

definition profile_headers :: "switch_caller_profile \<Rightarrow> (string \<times> string option) list" where
  "profile_headers p =
     [(''-Direction'', Some (direction_text (cp_direction p))),
      (''-Logical-Direction'', Some (direction_text (cp_logical_direction p)))] @
     concat (map (\<lambda>(test, name, v). guarded test name v) (guarded_fields p))"

definition time_headers :: "switch_caller_profile \<Rightarrow> (string \<times> string option) list" where
  "time_headers p =
     (case (case cp_times p of None \<Rightarrow> cp_old_times p | Some t \<Rightarrow> Some t) of
        None \<Rightarrow> []
      | Some t \<Rightarrow>
          [(''-Profile-Created-Time'', Some (show_int (tt_profile_created t))),
           (''-Channel-Created-Time'', Some (show_int (tt_created t))),
           (''-Channel-Answered-Time'', Some (show_int (tt_answered t))),
           (''-Channel-Progress-Time'', Some (show_int (tt_progress t))),
           (''-Channel-Progress-Media-Time'', Some (show_int (tt_progress_media t))),
           (''-Channel-Hangup-Time'', Some (show_int (tt_hungup t))),
           (''-Channel-Transfer-Time'', Some (show_int (tt_transferred t))),
           (''-Channel-Resurrect-Time'', Some (show_int (tt_resurrected t))),
           (''-Channel-Bridged-Time'', Some (show_int (tt_bridged t))),
           (''-Channel-Last-Hold'', Some (show_int (tt_last_hold t))),
           (''-Channel-Hold-Accum'', Some (show_int (tt_hold_accum t)))])"

definition flag_headers :: "switch_caller_profile \<Rightarrow> (string \<times> string option) list" where
  "flag_headers p =
     [(''-Screen-Bit'', Some (flag_text p SWITCH_CPF_SCREEN)),
      (''-Privacy-Hide-Name'', Some (flag_text p SWITCH_CPF_HIDE_NAME)),
      (''-Privacy-Hide-Number'', Some (flag_text p SWITCH_CPF_HIDE_NUMBER))]"

text \<open>Header names are printed into a buffer of 1024 bytes.\<close>

definition prefixed :: "string \<Rightarrow> (string \<times> string option) list \<Rightarrow> (string \<times> string option) list" where
  "prefixed prefix hs = map (\<lambda>(n, v). (snprintf_keep 1024 (prefix @ n), v)) hs"

definition switch_caller_profile_event_set_data ::
  "switch_caller_profile \<Rightarrow> string \<Rightarrow> switch_event \<Rightarrow> switch_event c_result" where
  "switch_caller_profile_event_set_data p prefix event =
     for_each (\<lambda>(n, v). add_string SWITCH_STACK_BOTTOM n v)
       (prefixed prefix (profile_headers p) @ cp_soft p @ prefixed prefix (time_headers p) @ prefixed prefix (flag_headers p))
       event"

section \<open>Extensions\<close>

record switch_caller_application =
  ca_application_name :: "string option"
  ca_application_data :: "string option"

text \<open>The pointers to applications are positions in the list of applications.\<close>

record switch_caller_extension =
  ce_extension_name :: "string option"
  ce_extension_number :: "string option"
  ce_applications :: "switch_caller_application list"
  ce_current_application :: "nat option"
  ce_last_application :: "nat option"

definition switch_caller_extension_new :: "string option \<Rightarrow> string option \<Rightarrow> switch_caller_extension" where
  "switch_caller_extension_new extension_name extension_number =
     \<lparr>ce_extension_name = extension_name, ce_extension_number = extension_number, ce_applications = [],
      ce_current_application = None, ce_last_application = None\<rparr>"

text \<open>Linking behind the last application; what was behind it is lost. Without a last application the new one
  becomes the last one but is not linked, which counts as none.\<close>

definition link_application :: "switch_caller_extension \<Rightarrow> switch_caller_application \<Rightarrow> switch_caller_extension" where
  "link_application e ap =
     (if ce_applications e = [] then e\<lparr>ce_applications := [ap], ce_last_application := Some 0\<rparr>
      else case ce_last_application e of
        Some l \<Rightarrow> e\<lparr>ce_applications := take (l + 1) (ce_applications e) @ [ap], ce_last_application := Some (l + 1)\<rparr>
      | None \<Rightarrow> e\<lparr>ce_last_application := None\<rparr>)"

definition switch_caller_extension_add_application ::
  "switch_caller_extension \<Rightarrow> string option \<Rightarrow> string option \<Rightarrow> switch_caller_extension" where
  "switch_caller_extension_add_application e application_name application_data =
     (if (case application_data of None \<Rightarrow> False | Some d \<Rightarrow> strstr d [CHR 0x5C, CHR 0x27] \<noteq> None) then e
      else
        (let e = link_application e \<lparr>ca_application_name = application_name, ca_application_data = application_data\<rparr>
         in e\<lparr>ce_current_application := (if ce_applications e = [] then None else Some 0)\<rparr>))"

definition switch_caller_extension_add_application_printf ::
  "switch_caller_extension \<Rightarrow> string option \<Rightarrow> string option \<Rightarrow> switch_caller_extension" where
  "switch_caller_extension_add_application_printf e application_name formatted =
     (case formatted of
        None \<Rightarrow> e
      | Some d \<Rightarrow>
          (if strstr d [CHR 0x5C, CHR 0x27] \<noteq> None then e
           else switch_caller_extension_add_application e application_name (Some d)))"

fun clone_applications ::
  "nat \<Rightarrow> nat option \<Rightarrow> bool \<Rightarrow> switch_caller_application list \<Rightarrow> switch_caller_extension \<Rightarrow> switch_caller_extension" where
  "clone_applications i current match [] e = e"
| "clone_applications i current match (ap # aps) e =
     (let match = (match \<or> Some i = current) in
      if \<not> match then clone_applications (i + 1) current match aps e
      else
        (let e = link_application e ap;
             e = (if Some i = current then e\<lparr>ce_current_application := ce_last_application e\<rparr> else e)
         in clone_applications (i + 1) current match aps e))"

definition switch_caller_extension_clone :: "switch_caller_extension \<Rightarrow> switch_status_t \<times> switch_caller_extension" where
  "switch_caller_extension_clone orig =
     (SWITCH_STATUS_SUCCESS,
      clone_applications 0 (ce_current_application orig) False (ce_applications orig)
        (switch_caller_extension_new (ce_extension_name orig) (ce_extension_number orig)))"

section \<open>Cleaned strings\<close>

text \<open>Reading a string with the automaton of \<^verbatim>\<open>switch_string_var_check_const\<close>: the state behind it, if it finds
  nothing.\<close>

fun scan :: "bool \<Rightarrow> string \<Rightarrow> bool option" where
  "scan q [] = Some q"
| "scan q (c # cs) =
     (if c = CHR ''$'' then scan True cs
      else if q then (if c = CHR ''{'' then None else scan (c = CHR 0x5C) cs)
      else scan False cs)"

lemma scan_check: "var_check_const_loop q s \<longleftrightarrow> scan q s = None"
  by (induction s arbitrary: q) auto

lemma scan_append: "scan q (s @ t) = (case scan q s of None \<Rightarrow> None | Some q' \<Rightarrow> scan q' t)"
  by (induction s arbitrary: q) auto

lemma scan_slashes: "scan False (replicate k (CHR 0x5C)) = Some False"
  by (induction k) auto

text \<open>While a dollar sign is pending, only backslashes follow it.\<close>

definition pending :: "string \<Rightarrow> nat option \<Rightarrow> bool" where
  "pending buf dol \<longleftrightarrow>
     (case dol of None \<Rightarrow> scan False buf = Some False
      | Some d \<Rightarrow> \<exists>pre k. buf = pre @ CHR ''$'' # replicate k (CHR 0x5C) \<and> length pre = d \<and> scan False pre \<noteq> None)"

lemma pending_scan: "pending buf dol \<Longrightarrow> scan False buf \<noteq> None"
proof (cases dol)
  case (Some d)
  assume "pending buf dol"
  then obtain pre k q where p: "buf = pre @ CHR ''$'' # replicate k (CHR 0x5C)" "scan False pre = Some q"
    using Some by (auto simp: pending_def)
  have "scan True (replicate k (CHR 0x5C)) \<noteq> None" by (induction k) auto
  then show ?thesis using p by (simp add: scan_append)
qed (simp add: pending_def)

lemma clean_pending: "pending buf dol \<Longrightarrow> scan False (snd (var_check_loop True buf dol s)) \<noteq> None"
proof (induction s arbitrary: buf dol)
  case (Cons c s)
  obtain q where q: "scan False buf = Some q" using pending_scan [OF Cons.prems] by blast
  show ?case
  proof (cases "c = CHR ''$''")
    case True
    then have "pending (buf @ [c]) (Some (length buf))"
      unfolding pending_def using q by (auto intro!: exI [of _ buf] exI [of _ "0 :: nat"])
    from Cons.IH [OF this] True show ?thesis by simp
  next
    case dollar: False
    show ?thesis
    proof (cases dol)
      case None
      then have "pending (buf @ [c]) None" using Cons.prems dollar by (simp add: pending_def scan_append)
      from Cons.IH [OF this] None dollar show ?thesis by simp
    next
      case (Some d)
      then obtain pre k where p: "buf = pre @ CHR ''$'' # replicate k (CHR 0x5C)" "length pre = d" "scan False pre \<noteq> None"
        using Cons.prems by (auto simp: pending_def)
      consider "c = CHR ''{''" | "c = CHR 0x5C" | "c \<noteq> CHR ''{''" "c \<noteq> CHR 0x5C" by blast
      then show ?thesis
      proof cases
        case 1
        have "(buf @ [c])[d := CHR ''%''] = pre @ CHR ''%'' # replicate k (CHR 0x5C) @ [c]"
          using p(2) by (simp add: p(1) list_update_append)
        moreover have "scan False \<dots> = Some False" using p(3) 1 by (auto simp: scan_append scan_slashes)
        ultimately have "pending ((buf @ [c])[d := CHR ''%'']) None" by (simp add: pending_def)
        from Cons.IH [OF this] 1 Some dollar show ?thesis by simp
      next
        case 2
        have "pending (buf @ [c]) (Some d)" unfolding pending_def using p 2
          by (auto simp: replicate_append_same [symmetric] intro!: exI [of _ pre] exI [of _ "Suc k"])
        from Cons.IH [OF this] 2 Some dollar show ?thesis by simp
      next
        case 3
        have "scan True (replicate k (CHR 0x5C) @ [c]) = Some False" using 3 dollar by (induction k) auto
        then have "pending (buf @ [c]) None" using p by (auto simp: pending_def scan_append)
        from Cons.IH [OF this] 3 Some dollar show ?thesis by simp
      qed
    qed
  qed
qed (use pending_scan in simp)

lemma var_clean_safe: "\<not> switch_string_var_check_const (switch_var_clean_string s)"
  using clean_pending [of "[]" None s]
  by (simp add: switch_string_var_check_const_def scan_check switch_var_clean_string_def switch_string_var_check_def pending_def)

lemma line_end_chars: "of_char c = (10::nat) \<longleftrightarrow> c = CHR 0x0A" "of_char c = (13::nat) \<longleftrightarrow> c = CHR 0x0D"
  using of_char_eq_iff [of c "CHR 0x0A", where ?'a = nat] of_char_eq_iff [of c "CHR 0x0D", where ?'a = nat] by simp_all

lemma clean_string_safe: "c \<in> set (switch_clean_string s) \<Longrightarrow> 32 \<le> (of_char c :: nat) \<or> c = CHR 0x0A \<or> c = CHR 0x0D"
  by (auto simp: switch_clean_string_def line_end_chars Let_def split: if_splits)

lemma var_check_set: "set (snd (var_check_loop d buf dol s)) \<subseteq> insert (CHR ''%'') (set buf \<union> set s)"
proof (induction s arbitrary: buf dol)
  case (Cons c s)
  have "set ((buf @ [c])[i := CHR ''%'']) \<subseteq> insert (CHR ''%'') (set buf \<union> set (c # s))" for i
    using set_update_subset_insert [of "buf @ [c]" i "CHR ''%''"] by auto
  then show ?case using Cons.IH [of "buf @ [c]"] Cons.IH [of "(buf @ [c])[_ := CHR ''%'']" None]
    by (auto split: option.split) blast+
qed auto

text \<open>A string that is safe to expand and has no character below 32 but line feeds and carriage returns.\<close>

definition clean_text :: "string \<Rightarrow> bool" where
  "clean_text s \<longleftrightarrow> \<not> switch_string_var_check_const s \<and> (\<forall>c\<in>set s. 32 \<le> (of_char c :: nat) \<or> c = CHR 0x0A \<or> c = CHR 0x0D)"

lemma profile_dup_clean_text: "\<exists>t. profile_dup_clean a = Some t \<and> clean_text t"
proof (cases "zstr a")
  case True
  then show ?thesis by (simp add: profile_dup_clean_def clean_text_def switch_string_var_check_const_def)
next
  case False
  then obtain s where s: "a = Some s" by (auto simp: zstr_def)
  have "32 \<le> (of_char c :: nat) \<or> c = CHR 0x0A \<or> c = CHR 0x0D" if "c \<in> set (switch_var_clean_string (switch_clean_string s))" for c
  proof -
    have "c = CHR ''%'' \<or> c \<in> set (switch_clean_string s)"
      using that var_check_set [of True "[]" None "switch_clean_string s"]
      by (auto simp: switch_var_clean_string_def switch_string_var_check_def)
    then show ?thesis using clean_string_safe by auto
  qed
  then show ?thesis using False s var_clean_safe by (simp add: profile_dup_clean_def clean_text_def)
qed

lemma clean_text_Nil [simp]: "clean_text []"
  by (simp add: clean_text_def switch_string_var_check_const_def)

section \<open>Fields by name\<close>

lemma field_lookup_mem:
  assumes "distinct (map (\<lambda>(n, v). map c_tolower n) fs)" and "(n, v) \<in> set fs" and "strcasecmp_eq name n"
  shows "field_lookup name fs = Some v"
  using assms
proof (induction fs)
  case (Cons f fs)
  obtain m u where f: "f = (m, u)" by (cases f)
  show ?case
  proof (cases "(n, v) = (m, u)")
    case True
    then show ?thesis using Cons.prems(3) f by simp
  next
    case False
    then have "(n, v) \<in> set fs" using Cons.prems(2) f by auto
    moreover from this have "map c_tolower n \<noteq> map c_tolower m" using Cons.prems(1) f by (auto simp: rev_image_eqI)
    ultimately show ?thesis using Cons f by (simp add: strcasecmp_eq_def)
  qed
qed simp

definition profile_names :: "string list" where
  "profile_names =
     [''dialplan'', ''username'', ''caller_id_name'', ''caller_id_number'', ''orig_caller_id_name'',
     ''orig_caller_id_number'', ''callee_id_name'', ''callee_id_number'', ''ani'', ''aniii'',
     ''network_addr'', ''rdnis'', ''destination_number'', ''uuid'', ''source'', ''transfer_source'',
     ''context'', ''chan_name'', ''profile_index'', ''caller_ton'', ''caller_numplan'',
     ''destination_number_ton'', ''destination_number_numplan'', ''ani_ton'', ''ani_numplan'', ''rdnis_ton'',
     ''rdnis_numplan'', ''screen_bit'', ''privacy_hide_name'', ''privacy_hide_number'',
     ''profile_created_time'', ''created_time'', ''answered_time'', ''progress_time'',
     ''progress_media_time'', ''hungup_time'', ''transferred_time'']"

lemma profile_fields_names: "map fst (profile_fields p) = profile_names"
  by (simp add: profile_names_def profile_fields_def)

definition lower_letters :: string where
  "lower_letters = ''abcdefghijklmnopqrstuvwxyz_''"

lemma tolower_letters [simp]:
  "c_tolower CHR ''A'' = CHR ''a''" "c_tolower CHR ''B'' = CHR ''b''" "c_tolower CHR ''C'' = CHR ''c''"
  "c_tolower CHR ''D'' = CHR ''d''" "c_tolower CHR ''E'' = CHR ''e''" "c_tolower CHR ''F'' = CHR ''f''"
  "c_tolower CHR ''G'' = CHR ''g''" "c_tolower CHR ''H'' = CHR ''h''" "c_tolower CHR ''I'' = CHR ''i''"
  "c_tolower CHR ''J'' = CHR ''j''" "c_tolower CHR ''K'' = CHR ''k''" "c_tolower CHR ''L'' = CHR ''l''"
  "c_tolower CHR ''M'' = CHR ''m''" "c_tolower CHR ''N'' = CHR ''n''" "c_tolower CHR ''O'' = CHR ''o''"
  "c_tolower CHR ''P'' = CHR ''p''" "c_tolower CHR ''Q'' = CHR ''q''" "c_tolower CHR ''R'' = CHR ''r''"
  "c_tolower CHR ''S'' = CHR ''s''" "c_tolower CHR ''T'' = CHR ''t''" "c_tolower CHR ''U'' = CHR ''u''"
  "c_tolower CHR ''V'' = CHR ''v''" "c_tolower CHR ''W'' = CHR ''w''" "c_tolower CHR ''X'' = CHR ''x''"
  "c_tolower CHR ''Y'' = CHR ''y''" "c_tolower CHR ''Z'' = CHR ''z''" "c_tolower CHR ''a'' = CHR ''a''"
  "c_tolower CHR ''b'' = CHR ''b''" "c_tolower CHR ''c'' = CHR ''c''" "c_tolower CHR ''d'' = CHR ''d''"
  "c_tolower CHR ''e'' = CHR ''e''" "c_tolower CHR ''f'' = CHR ''f''" "c_tolower CHR ''g'' = CHR ''g''"
  "c_tolower CHR ''h'' = CHR ''h''" "c_tolower CHR ''i'' = CHR ''i''" "c_tolower CHR ''j'' = CHR ''j''"
  "c_tolower CHR ''k'' = CHR ''k''" "c_tolower CHR ''l'' = CHR ''l''" "c_tolower CHR ''m'' = CHR ''m''"
  "c_tolower CHR ''n'' = CHR ''n''" "c_tolower CHR ''o'' = CHR ''o''" "c_tolower CHR ''p'' = CHR ''p''"
  "c_tolower CHR ''q'' = CHR ''q''" "c_tolower CHR ''r'' = CHR ''r''" "c_tolower CHR ''s'' = CHR ''s''"
  "c_tolower CHR ''t'' = CHR ''t''" "c_tolower CHR ''u'' = CHR ''u''" "c_tolower CHR ''v'' = CHR ''v''"
  "c_tolower CHR ''w'' = CHR ''w''" "c_tolower CHR ''x'' = CHR ''x''" "c_tolower CHR ''y'' = CHR ''y''"
  "c_tolower CHR ''z'' = CHR ''z''" "c_tolower CHR ''-'' = CHR ''-''" "c_tolower CHR ''_'' = CHR ''_''"
  by (simp_all add: c_tolower_def lower_lane_def char_of_def bit_0)

lemma lower_letters_fixed: "c \<in> set lower_letters \<Longrightarrow> c_tolower c = c"
  unfolding lower_letters_def by (simp, elim disjE; simp)

lemma profile_names_lower: "\<forall>n\<in>set profile_names. set n \<subseteq> set lower_letters"
  by (simp add: profile_names_def lower_letters_def)

lemma profile_names_distinct: "distinct (map (map c_tolower) profile_names)"
proof -
  have "map (map c_tolower) profile_names = profile_names"
    using profile_names_lower lower_letters_fixed by (intro map_idI) (auto intro: map_idI)
  moreover have "distinct profile_names" by (simp add: profile_names_def)
  ultimately show ?thesis by simp
qed

lemma get_field_mem:
  assumes "(n, v) \<in> set (profile_fields p)" and "strcasecmp_eq name n"
  shows "switch_caller_get_field_by_name p name = v"
proof -
  have "map (\<lambda>(n, v). map c_tolower n) (profile_fields p) = map (map c_tolower) (map fst (profile_fields p))" by auto
  then have "distinct (map (\<lambda>(n, v). map c_tolower n) (profile_fields p))"
    using profile_names_distinct by (simp only: profile_fields_names)
  from field_lookup_mem [OF this assms] show ?thesis by (simp add: switch_caller_get_field_by_name_def)
qed

section \<open>Publishing many headers\<close>

lemma add_all:
  "ev_inv e \<Longrightarrow> length (ev_headers e) + length nvs < 1000000 \<Longrightarrow>
   \<forall>(n, v)\<in>set nvs. plain_name n \<and> \<not> has_header e n \<and> (\<exists>d. v = Some d \<and> plain_data d) \<Longrightarrow>
   distinct (map (\<lambda>(n, v). map c_tolower n) nvs) \<Longrightarrow>
   for_each (\<lambda>(n, v). add_string SWITCH_STACK_BOTTOM n v) nvs e =
     Inr (with_headers (ev_headers e @ map (\<lambda>(n, v). scalar_header n (the v)) nvs) e)"
proof (induction nvs arbitrary: e)
  case Nil
  then show ?case by simp
next
  case (Cons nv nvs)
  obtain n d where nv: "nv = (n, Some d)" "plain_name n" "\<not> has_header e n" "plain_data d" using Cons.prems(3) by (cases nv) auto
  let ?e = "with_headers (ev_headers e @ [scalar_header n d]) e"
  have add: "add_string SWITCH_STACK_BOTTOM n (Some d) e = Inr ?e"
    using add_scalar [OF Cons.prems(1) _ nv(2,4), of SWITCH_STACK_BOTTOM] Cons.prems(2) others_absent [OF nv(3)]
    by (simp add: add_string_eq)
  have inv: "ev_inv ?e" using Cons.prems(1) by (auto simp: ev_inv_with_headers ev_inv_def)
  have "\<not> has_header ?e m" if "(m, v) \<in> set nvs" for m v
  proof -
    have "\<not> has_header e m" "map c_tolower m \<noteq> map c_tolower n" using Cons.prems(3,4) that nv(1) by (auto simp: rev_image_eqI)
    then show ?thesis by (auto simp: has_header_def strcasecmp_eq_def)
  qed
  then have "\<forall>(m, v)\<in>set nvs. plain_name m \<and> \<not> has_header ?e m \<and> (\<exists>d. v = Some d \<and> plain_data d)" using Cons.prems(3) by auto
  from Cons.IH [OF inv _ this] add nv(1) Cons.prems(2,4) show ?case by simp
qed

lemma added_found:
  assumes "ev_inv e" and "\<forall>(n, v)\<in>set nvs. \<not> has_header e n \<and> (\<exists>d. v = Some d)"
    and "distinct (map (\<lambda>(n, v). map c_tolower n) nvs)" and "(n, Some d) \<in> set nvs"
  shows "switch_event_get_header (with_headers (ev_headers e @ map (\<lambda>(n, v). scalar_header n (the v)) nvs) e) (Some n) = Inr (Some d)"
proof -
  have inv: "ev_inv (with_headers (ev_headers e @ map (\<lambda>(n, v). scalar_header n (the v)) nvs) e)"
    using assms(1) by (auto simp: ev_inv_with_headers ev_inv_def)
  have "find (same_name n) (ev_headers e) = None" using assms(2,4) by (auto simp: has_header_def find_None_iff)
  moreover have "find (same_name n) (map (\<lambda>(n, v). scalar_header n (the v)) nvs) = Some (scalar_header n d)"
    using assms(3,4)
  proof (induction nvs)
    case (Cons nv nvs)
    then show ?case by (cases nv) (auto simp: strcasecmp_eq_def rev_image_eqI)
  qed simp
  ultimately show ?thesis by (simp add: get_header_find [OF inv] find_append)
qed

section \<open>The published headers\<close>

definition guarded_names :: "string list" where
  "guarded_names = [''-Username'', ''-Dialplan'', ''-Caller-ID-Name'', ''-Caller-ID-Number'', ''-Orig-Caller-ID-Name'',
     ''-Orig-Caller-ID-Number'', ''-Callee-ID-Name'', ''-Callee-ID-Number'', ''-Network-Addr'', ''-ANI'', ''-ANI-II'',
     ''-Destination-Number'', ''-Unique-ID'', ''-Source'', ''-Transfer-Source'', ''-Context'', ''-RDNIS'', ''-Channel-Name'',
     ''-Profile-Index'']"

definition other_names :: "string list" where
  "other_names = [''-Direction'', ''-Logical-Direction'', ''-Profile-Created-Time'', ''-Channel-Created-Time'',
     ''-Channel-Answered-Time'', ''-Channel-Progress-Time'', ''-Channel-Progress-Media-Time'', ''-Channel-Hangup-Time'',
     ''-Channel-Transfer-Time'', ''-Channel-Resurrect-Time'', ''-Channel-Bridged-Time'', ''-Channel-Last-Hold'',
     ''-Channel-Hold-Accum'', ''-Screen-Bit'', ''-Privacy-Hide-Name'', ''-Privacy-Hide-Number'']"

lemma published_names_distinct: "distinct (map (map c_tolower) (guarded_names @ other_names))"
  by (simp add: guarded_names_def other_names_def)

lemma guarded_fields_names: "map (fst \<circ> snd) (guarded_fields p) = guarded_names"
  by (simp add: guarded_fields_def guarded_names_def)

text \<open>Dropping some of the headers keeps the names distinct.\<close>

lemma concat_guarded_names:
  "mset (map fst (concat (map (\<lambda>(test, name, v). guarded test name v) fs))) \<subseteq># mset (map (fst \<circ> snd) fs)"
proof (induction fs)
  case (Cons f fs)
  obtain t n v where f: "f = (t, n, v)" by (cases f)
  show ?case
  proof (cases "zstr t")
    case True
    then show ?thesis using subset_mset.order_trans [OF Cons mset_subset_eq_add_right [of _ "{#n#}"]] f by (simp add: guarded_def)
  next
    case False
    then show ?thesis using Cons f by (simp add: guarded_def)
  qed
qed simp

definition published :: "switch_caller_profile \<Rightarrow> (string \<times> string option) list" where
  "published p = profile_headers p @ time_headers p @ flag_headers p"

lemma published_names: "mset (map fst (published p)) \<subseteq># mset (guarded_names @ other_names)"
proof -
  let ?g = "map fst (concat (map (\<lambda>(test, name, v). guarded test name v) (guarded_fields p)))"
  have g: "mset ?g \<subseteq># mset guarded_names" using concat_guarded_names [of "guarded_fields p"] by (simp only: guarded_fields_names)
  have t: "mset (''-Direction'' # ''-Logical-Direction'' # map fst (time_headers p) @ map fst (flag_headers p)) \<subseteq># mset other_names"
    by (cases "case cp_times p of None \<Rightarrow> cp_old_times p | Some t \<Rightarrow> Some t")
      (simp_all add: time_headers_def flag_headers_def other_names_def)
  have "mset (map fst (published p)) = mset ?g + mset (''-Direction'' # ''-Logical-Direction'' # map fst (time_headers p) @ map fst (flag_headers p))"
    by (simp add: published_def profile_headers_def)
  then show ?thesis using subset_mset.add_mono [OF g t] by simp
qed

lemma distinct_submset:
  assumes "mset xs \<subseteq># mset ys" and "distinct ys"
  shows "distinct xs"
  unfolding distinct_count_atmost_1
proof
  fix a
  have "count (mset xs) a \<le> count (mset ys) a" using assms(1) by (rule mset_subset_eq_count)
  also have "\<dots> \<le> 1" using assms(2) by (simp add: distinct_count_atmost_1)
  finally show "count (mset xs) a = (if a \<in> set xs then 1 else 0)"
    by (cases "a \<in> set xs") (auto simp: count_mset_0_iff not_in_iff le_Suc_eq)
qed

lemma published_distinct: "distinct (map (\<lambda>(n, v). map c_tolower n) (published p))"
proof -
  have "map (\<lambda>(n, v). map c_tolower n) (published p) = map (map c_tolower) (map fst (published p))" by auto
  moreover have "mset (map (map c_tolower) (map fst (published p))) \<subseteq># mset (map (map c_tolower) (guarded_names @ other_names))"
    unfolding mset_map [of "map c_tolower"] by (intro image_mset_subseteq_mono published_names)
  ultimately show ?thesis using distinct_submset published_names_distinct by metis
qed

lemma published_names_plain: "(n, v) \<in> set (published p) \<Longrightarrow> CHR ''['' \<notin> set n \<and> CHR ''-'' \<in> set n \<and> length n < 30"
proof -
  assume "(n, v) \<in> set (published p)"
  then have "n \<in># mset (map fst (published p))" by force
  then have "n \<in> set (guarded_names @ other_names)" using published_names [of p] by (metis mset_subset_eqD set_mset_mset)
  moreover have "\<forall>m\<in>set (guarded_names @ other_names). CHR ''['' \<notin> set m \<and> CHR ''-'' \<in> set m \<and> length m < 30"
    by (simp add: guarded_names_def other_names_def)
  ultimately show ?thesis by blast
qed

lemma show_nat_not_Nil: "show_nat n \<noteq> []"
  by (subst show_nat.simps) simp

lemma show_nat_digits: "\<forall>c\<in>set (show_nat n). c \<noteq> CHR ''A''"
proof (induction n rule: show_nat.induct)
  case (1 n)
  have "char_of (48 + k) \<noteq> CHR ''A''" if "k < 10" for k :: nat
  proof
    assume "char_of (48 + k) = CHR ''A''"
    then have "of_char (char_of (48 + k) :: char) = (65 :: nat)" by simp
    then show False using that by simp
  qed
  then show ?case using 1 by (subst show_nat.simps) auto
qed

lemma show_int_plain: "plain_data (show_int n)"
proof -
  have "plain_data (show_nat k)" for k
  proof (cases "show_nat k")
    case Nil
    then show ?thesis using show_nat_not_Nil by simp
  next
    case (Cons c cs)
    then have "c \<noteq> CHR ''A''" using show_nat_digits [of k] by simp
    then show ?thesis using Cons by (simp add: plain_data_def)
  qed
  moreover have "plain_data (CHR ''-'' # cs)" for cs by (simp add: plain_data_def)
  ultimately show ?thesis by (simp add: show_int_def)
qed

lemma flag_text_plain: "plain_data (flag_text p f)"
  by (simp add: plain_data_def flag_text_def)

section \<open>Extensions\<close>

text \<open>An extension in use: the pointers agree with the list.\<close>

definition ext_ok :: "switch_caller_extension \<Rightarrow> bool" where
  "ext_ok e \<longleftrightarrow> ce_last_application e = (if ce_applications e = [] then None else Some (length (ce_applications e) - 1)) \<and>
     (case ce_current_application e of None \<Rightarrow> True | Some i \<Rightarrow> i < length (ce_applications e))"

lemma link_application_ok:
  assumes "ce_last_application e = (if ce_applications e = [] then None else Some (length (ce_applications e) - 1))"
  shows "ce_applications (link_application e ap) = ce_applications e @ [ap]"
    and "ce_last_application (link_application e ap) = Some (length (ce_applications e))"
    and "ce_current_application (link_application e ap) = ce_current_application e"
    and "ce_extension_name (link_application e ap) = ce_extension_name e"
    and "ce_extension_number (link_application e ap) = ce_extension_number e"
  using assms by (auto simp: link_application_def)

lemma clone_rest:
  "ce_last_application e = (if ce_applications e = [] then None else Some (length (ce_applications e) - 1)) \<Longrightarrow>
   (case current of None \<Rightarrow> True | Some j \<Rightarrow> j < i) \<Longrightarrow>
   \<exists>l. clone_applications i current True aps e = e\<lparr>ce_applications := ce_applications e @ aps, ce_last_application := l\<rparr> \<and>
     l = (if ce_applications e @ aps = [] then None else Some (length (ce_applications e @ aps) - 1))"
proof (induction aps arbitrary: i e)
  case (Cons ap aps)
  let ?e = "link_application e ap"
  note L = link_application_ok [OF Cons.prems(1), of ap]
  have ne: "Some i \<noteq> current" using Cons.prems(2) by auto
  have e: "?e = e\<lparr>ce_applications := ce_applications e @ [ap], ce_last_application := Some (length (ce_applications e))\<rparr>"
    using L by simp
  have "\<exists>l. clone_applications (i + 1) current True aps ?e =
      ?e\<lparr>ce_applications := ce_applications ?e @ aps, ce_last_application := l\<rparr> \<and>
      l = (if ce_applications ?e @ aps = [] then None else Some (length (ce_applications ?e @ aps) - 1))"
    using L Cons.prems(2) by (intro Cons.IH) (auto split: option.splits)
  then show ?case using ne L(1) by (simp add: Let_def e)
qed simp

lemma clone_skip:
  "current = Some (i + k) \<Longrightarrow> k < length aps \<Longrightarrow>
   clone_applications i current False aps e = clone_applications (i + k) current False (drop k aps) e"
proof (induction k arbitrary: i aps)
  case (Suc k)
  then obtain ap aps' where a: "aps = ap # aps'" by (cases aps) auto
  have "clone_applications (i + 1) current False aps' e = clone_applications (i + 1 + k) current False (drop k aps') e"
    using Suc a by (intro Suc.IH) simp_all
  then show ?case using Suc.prems(1) a by (simp add: Let_def)
qed simp

lemma clone_spec:
  assumes "ce_current_application e = Some k" and "k < length (ce_applications e)"
  shows "switch_caller_extension_clone e = (SWITCH_STATUS_SUCCESS,
    e\<lparr>ce_applications := drop k (ce_applications e), ce_current_application := Some 0,
      ce_last_application := Some (length (ce_applications e) - k - 1)\<rparr>)"
proof -
  let ?n = "switch_caller_extension_new (ce_extension_name e) (ce_extension_number e)"
  obtain ap aps where a: "drop k (ce_applications e) = ap # aps" using assms(2) by (cases "drop k (ce_applications e)") auto
  have len: "length aps = length (ce_applications e) - k - 1" using arg_cong [OF a, of length] by simp
  let ?m = "?n\<lparr>ce_applications := [ap], ce_last_application := Some 0, ce_current_application := Some 0\<rparr>"
  have "clone_applications 0 (Some k) False (ce_applications e) ?n = clone_applications k (Some k) False (ap # aps) ?n"
    using clone_skip [of "Some k" 0 k "ce_applications e" ?n] assms(2) a by simp
  also have "\<dots> = clone_applications (k + 1) (Some k) True aps ?m"
    by (simp add: Let_def link_application_def switch_caller_extension_new_def)
  also have "\<dots> = ?m\<lparr>ce_applications := ap # aps, ce_last_application := Some (length aps)\<rparr>"
    using clone_rest [where e = ?m and current = "Some k" and i = "k + 1" and aps = aps] by simp
  finally show ?thesis using assms(1) a len by (cases e) (simp add: switch_caller_extension_clone_def switch_caller_extension_new_def)
qed

definition add_applications :: "(string option \<times> string option) list \<Rightarrow> switch_caller_extension \<Rightarrow> switch_caller_extension" where
  "add_applications aps e = foldl (\<lambda>e (n, d). switch_caller_extension_add_application e n d) e aps"

definition accepted :: "string option \<times> string option \<Rightarrow> bool" where
  "accepted ap \<longleftrightarrow> (case snd ap of None \<Rightarrow> True | Some d \<Rightarrow> strstr d [CHR 0x5C, CHR 0x27] = None)"

lemma add_application_ok:
  assumes "ce_last_application e = (if ce_applications e = [] then None else Some (length (ce_applications e) - 1))"
  shows "switch_caller_extension_add_application e n d =
    (if accepted (n, d) then
       e\<lparr>ce_applications := ce_applications e @ [\<lparr>ca_application_name = n, ca_application_data = d\<rparr>],
         ce_last_application := Some (length (ce_applications e)), ce_current_application := Some 0\<rparr>
     else e)"
proof -
  let ?ap = "\<lparr>ca_application_name = n, ca_application_data = d\<rparr>"
  note L = link_application_ok [OF assms, of ?ap]
  have "link_application e ?ap = e\<lparr>ce_applications := ce_applications e @ [?ap],
      ce_last_application := Some (length (ce_applications e))\<rparr>" using L by simp
  then show ?thesis by (auto simp: switch_caller_extension_add_application_def accepted_def split: option.splits)
qed

lemma add_applications_ok:
  "ce_last_application e = (if ce_applications e = [] then None else Some (length (ce_applications e) - 1)) \<Longrightarrow>
   ce_current_application e = (if ce_applications e = [] then None else Some 0) \<Longrightarrow>
   ce_applications (add_applications aps e) =
     ce_applications e @ map (\<lambda>(n, d). \<lparr>ca_application_name = n, ca_application_data = d\<rparr>) (filter accepted aps) \<and>
   ce_current_application (add_applications aps e) = (if ce_applications (add_applications aps e) = [] then None else Some 0)"
proof (induction aps arbitrary: e)
  case Nil
  then show ?case by (simp add: add_applications_def)
next
  case (Cons ap aps)
  obtain n d where ap: "ap = (n, d)" by (cases ap)
  let ?e = "switch_caller_extension_add_application e n d"
  have step: "add_applications (ap # aps) e = add_applications aps ?e" by (simp add: add_applications_def ap)
  show ?case
  proof (cases "accepted ap")
    case True
    then show ?thesis using Cons.IH [of ?e] unfolding step by (simp add: add_application_ok [OF Cons.prems(1)] ap)
  next
    case False
    then show ?thesis using Cons.IH [of ?e] Cons.prems unfolding step by (simp add: add_application_ok [OF Cons.prems(1)] ap)
  qed
qed

section \<open>Executing an extension\<close>

text \<open>The loop of \<^verbatim>\<open>switch_core_standard_on_execute\<close> over the applications of an extension. \<open>executing\<close> and \<open>resetting\<close> say of a session whether
  its channel is in \<^verbatim>\<open>CS_EXECUTE\<close> and whether \<^verbatim>\<open>CF_RESET\<close> is set; \<open>run\<close> executes an application, which may change the extension and the session. The
  loop moves to the next application before it executes the current one. It is left at its end, by a failing application, or by a reset, upon which the
  function starts again with the extension the channel then has. Applications may move the extension back for ever, so that the loop takes fuel;
  an index outside the list stands for a pointer that does not point to an application.\<close>

datatype exec_end = Exec_Done | Exec_Failed | Exec_Reset | Exec_Fault

definition application_at :: "switch_caller_extension \<Rightarrow> nat \<Rightarrow> nat option" where
  "application_at e i = (if i < length (ce_applications e) then Some i else None)"

fun execute_loop ::
  "nat \<Rightarrow> ('s \<Rightarrow> bool) \<Rightarrow> ('s \<Rightarrow> bool) \<Rightarrow>
   (switch_caller_application \<Rightarrow> switch_caller_extension \<Rightarrow> 's \<Rightarrow> switch_status_t \<times> switch_caller_extension \<times> 's) \<Rightarrow>
   switch_caller_extension \<Rightarrow> 's \<Rightarrow> (exec_end \<times> switch_caller_extension \<times> 's) option" where
  "execute_loop 0 executing resetting run e s = None"
| "execute_loop (Suc fuel) executing resetting run e s =
     (if \<not> executing s then Some (Exec_Done, e, s)
      else case ce_current_application e of
             None \<Rightarrow> Some (Exec_Done, e, s)
           | Some i \<Rightarrow>
               (if i \<ge> length (ce_applications e) then Some (Exec_Fault, e, s)
                else case run (ce_applications e ! i) (e\<lparr>ce_current_application := application_at e (i + 1)\<rparr>) s of
                       (status, e, s) \<Rightarrow>
                         (if status \<noteq> SWITCH_STATUS_SUCCESS then Some (Exec_Failed, e, s)
                          else if resetting s then Some (Exec_Reset, e, s)
                          else execute_loop fuel executing resetting run e s)))"

declare execute_loop.simps [simp del]

text \<open>The specification. \<open>session_after step aps i s\<close> is the session after the first \<open>i\<close> applications have been executed one after the other. When the loop is
  left for the reason \<open>r\<close> after \<open>m\<close> applications, the channel was in \<^verbatim>\<open>CS_EXECUTE\<close> before each of them, all but the last one succeeded without
  a reset, and the reason holds.\<close>

definition session_after :: "('a \<Rightarrow> 's \<Rightarrow> switch_status_t \<times> 's) \<Rightarrow> 'a list \<Rightarrow> nat \<Rightarrow> 's \<Rightarrow> 's" where
  "session_after step aps i s = fold (\<lambda>ap s. snd (step ap s)) (take i aps) s"

definition went_on :: "('s \<Rightarrow> bool) \<Rightarrow> ('a \<Rightarrow> 's \<Rightarrow> switch_status_t \<times> 's) \<Rightarrow> 'a list \<Rightarrow> 's \<Rightarrow> nat \<Rightarrow> bool" where
  "went_on resetting step aps s i \<longleftrightarrow> fst (step (aps ! i) (session_after step aps i s)) = SWITCH_STATUS_SUCCESS \<and> \<not> resetting (session_after step aps (Suc i) s)"

definition left_after ::
  "('s \<Rightarrow> bool) \<Rightarrow> ('s \<Rightarrow> bool) \<Rightarrow> ('a \<Rightarrow> 's \<Rightarrow> switch_status_t \<times> 's) \<Rightarrow> 'a list \<Rightarrow> 's \<Rightarrow> exec_end \<Rightarrow> nat \<Rightarrow> bool" where
  "left_after executing resetting step aps s r m \<longleftrightarrow>
     m \<le> length aps \<and> (\<forall>i<m. executing (session_after step aps i s)) \<and> (\<forall>i. Suc i < m \<longrightarrow> went_on resetting step aps s i) \<and>
     (case r of
        Exec_Done \<Rightarrow> (m = length aps \<or> \<not> executing (session_after step aps m s)) \<and> (\<forall>i<m. went_on resetting step aps s i)
      | Exec_Failed \<Rightarrow> 0 < m \<and> fst (step (aps ! (m - 1)) (session_after step aps (m - 1) s)) \<noteq> SWITCH_STATUS_SUCCESS
      | Exec_Reset \<Rightarrow> 0 < m \<and> fst (step (aps ! (m - 1)) (session_after step aps (m - 1) s)) = SWITCH_STATUS_SUCCESS \<and> resetting (session_after step aps m s)
      | Exec_Fault \<Rightarrow> False)"

lemma session_after_simps [simp]: "session_after step aps 0 s = s" "session_after step (ap # aps) (Suc i) s = session_after step aps i (snd (step ap s))"
  by (simp_all add: session_after_def)

lemma went_on_Suc [simp]: "went_on resetting step (ap # aps) s (Suc i) = went_on resetting step aps (snd (step ap s)) i"
  by (simp add: went_on_def)

lemma left_after_Suc:
  assumes "left_after executing resetting step aps (snd (step ap s)) r m" and "executing s"
    and "fst (step ap s) = SWITCH_STATUS_SUCCESS" and "\<not> resetting (snd (step ap s))"
  shows "left_after executing resetting step (ap # aps) s r (Suc m)"
proof -
  have w: "went_on resetting step (ap # aps) s i" if "i < Suc m" "0 < i \<longrightarrow> went_on resetting step aps (snd (step ap s)) (i - 1)" for i
    using that assms(3,4) by (cases i) (simp_all add: went_on_def)
  have x: "executing (session_after step (ap # aps) i s)" if "i < Suc m" for i
    using that assms(1,2) by (cases i) (simp_all add: left_after_def)
  show ?thesis using assms(1) w x by (cases m) (auto simp: left_after_def split: exec_end.splits)
qed

lemma execute_loop_from:
  assumes "\<And>ap e s. run ap e s = (fst (step ap s), e, snd (step ap s))"
  shows "drop k (ce_applications e) = aps \<Longrightarrow> k \<le> length (ce_applications e) \<Longrightarrow> ce_current_application e = application_at e k \<Longrightarrow>
    \<exists>r m. execute_loop (Suc (length aps)) executing resetting run e s =
        Some (r, e\<lparr>ce_current_application := application_at e (k + m)\<rparr>, session_after step aps m s) \<and> left_after executing resetting step aps s r m"
proof (induction aps arbitrary: k e s)
  case Nil
  then have k: "k = length (ce_applications e)" by simp
  then have e: "e\<lparr>ce_current_application := application_at e k\<rparr> = e" using Nil.prems(3) by simp
  show ?case using Nil k e by (intro exI [of _ Exec_Done] exI [of _ 0]) (simp add: execute_loop.simps application_at_def left_after_def)
next
  case (Cons ap aps)
  have "k < length (ce_applications e)" using Cons.prems(1) by (metis drop_all list.distinct(1) not_le)
  then have k: "k < length (ce_applications e)" "ce_applications e ! k = ap" "drop (Suc k) (ce_applications e) = aps"
    using Cons_nth_drop_Suc [of k "ce_applications e"] Cons.prems(1) by simp_all
  let ?e = "e\<lparr>ce_current_application := application_at e (k + 1)\<rparr>"
  have cur: "ce_current_application e = Some k" using Cons.prems(3) k(1) by (simp add: application_at_def)
  show ?case
  proof (cases "executing s \<and> fst (step ap s) = SWITCH_STATUS_SUCCESS \<and> \<not> resetting (snd (step ap s))")
    case True
    have at: "application_at ?e i = application_at e i" for i by (simp add: application_at_def)
    obtain r m where r: "execute_loop (Suc (length aps)) executing resetting run ?e (snd (step ap s)) =
        Some (r, ?e\<lparr>ce_current_application := application_at ?e (k + 1 + m)\<rparr>, session_after step aps m (snd (step ap s)))"
        "left_after executing resetting step aps (snd (step ap s)) r m"
      using Cons.IH [of "k + 1" ?e "snd (step ap s)"] k(1,3) at by auto
    have "execute_loop (Suc (length (ap # aps))) executing resetting run e s = execute_loop (Suc (length aps)) executing resetting run ?e (snd (step ap s))"
      using True k cur by (subst execute_loop.simps) (simp add: assms)
    then show ?thesis using r left_after_Suc [of executing resetting step aps ap s r m] True at
      by (intro exI [of _ r] exI [of _ "Suc m"]) simp
  next
    case False
    let ?r = "if \<not> executing s then Exec_Done else if fst (step ap s) \<noteq> SWITCH_STATUS_SUCCESS then Exec_Failed else Exec_Reset"
    have e: "e\<lparr>ce_current_application := application_at e k\<rparr> = e" using Cons.prems(3) by simp
    have "execute_loop (Suc (length (ap # aps))) executing resetting run e s =
        (if executing s then Some (?r, ?e, snd (step ap s)) else Some (?r, e, s))"
      using False k cur by (subst execute_loop.simps) (simp add: assms)
    then show ?thesis using False e
      by (intro exI [of _ ?r] exI [of _ "if executing s then 1 else 0"]) (auto simp: left_after_def)
  qed
qed

section \<open>Properties\<close>

definition profile_strings :: "switch_caller_profile \<Rightarrow> string option list" where
  "profile_strings p =
     [cp_username p, cp_dialplan p, cp_caller_id_name p, cp_caller_id_number p, cp_orig_caller_id_name p,
      cp_orig_caller_id_number p, cp_callee_id_name p, cp_callee_id_number p, cp_network_addr p, cp_ani p, cp_aniii p,
      cp_rdnis p, cp_destination_number p, cp_source p, cp_chan_name p, cp_uuid p, cp_context p]"

text \<open>C27: Whatever texts a call arrives with, no text of its new caller profile contains a reference to a variable
  or a character below 32 other than line feed and carriage return, which pass unchanged (as does the character 127): a profile can be expanded in the
  dialplan without evaluating what the caller sent.\<close>

theorem caller_profile_clean:
  assumes "v \<in> set (profile_strings (switch_caller_profile_new u username dialplan caller_id_name caller_id_number
    network_addr ani aniii rdnis source context destination_number))"
  shows "\<exists>t. v = Some t \<and> \<not> switch_string_var_check_const t \<and> (\<forall>c\<in>set t. 32 \<le> (of_char c :: nat) \<or> c = CHR 0x0A \<or> c = CHR 0x0D)"
proof -
  have "v = Some [] \<or> (\<exists>a. v = profile_dup_clean a)"
    using assms by (auto simp: profile_strings_def switch_caller_profile_new_def Let_def)
  then show ?thesis using profile_dup_clean_text clean_text_Nil by (auto simp: clean_text_def)
qed

theorem caller_profile_clean_witness:
  "\<exists>t. profile_dup_clean (Some ''${bad}'') = Some t \<and> \<not> switch_string_var_check_const t \<and>
    (\<forall>c\<in>set t. 32 \<le> (of_char c :: nat) \<or> c = CHR 0x0A \<or> c = CHR 0x0D)"
  by (rule caller_profile_clean [of _ "[]" None None "Some ''${bad}''" None None None None None None None None])
    (simp add: profile_strings_def switch_caller_profile_new_def zstr_def Let_def)

definition copied_names :: "string list" where
  "copied_names = filter (\<lambda>n. n \<notin> {''transfer_source'', ''profile_index'', ''profile_created_time'', ''created_time'',
     ''answered_time'', ''progress_time'', ''progress_media_time'', ''hungup_time'', ''transferred_time''}) profile_names"

text \<open>A duplicated profile answers every field name as the original does, with a blank text for a missing one,
  except the transfer source, the profile index and the times, which are not copied.\<close>

theorem caller_profile_dup_fields:
  assumes "n \<in> set copied_names" and "strcasecmp_eq name n"
  shows "switch_caller_get_field_by_name (fst (switch_caller_profile_dup u p)) name =
    and_then (switch_caller_get_field_by_name p name) (\<lambda>v. Inr (profile_dup v))"
proof -
  have shown: "profile_dup (Some (show_nat k)) = Some (show_nat k)" "profile_dup (Some (c # cs)) = Some (c # cs)" for k c cs
    by (simp_all add: profile_dup_def zstr_def show_nat_not_Nil)
  have "\<exists>v. (n, Inr v) \<in> set (profile_fields p) \<and>
      (n, Inr (profile_dup v)) \<in> set (profile_fields (fst (switch_caller_profile_dup u p)))"
    using assms(1) unfolding copied_names_def profile_names_def
    by (simp add: profile_fields_def switch_caller_profile_dup_def) (elim disjE; simp add: shown flag_text_def)
  then show ?thesis using get_field_mem [OF _ assms(2)] by fastforce
qed

theorem caller_profile_dup_fields_witness:
  "switch_caller_get_field_by_name (fst (switch_caller_profile_dup ''u'' (switch_caller_profile_new [] None None None None None None None None None None (Some ''1000'')))) ''Destination_Number'' =
   and_then (switch_caller_get_field_by_name (switch_caller_profile_new [] None None None None None None None None None None (Some ''1000'')) ''Destination_Number'') (\<lambda>v. Inr (profile_dup v))"
  by (rule caller_profile_dup_fields [of "''destination_number''"])
    (simp_all add: copied_names_def profile_names_def strcasecmp_eq_def)

text \<open>The profile with every guarded field filled in and the soft variables left out is published header by
  header.\<close>

lemma published_plain:
  assumes "\<forall>(n, v)\<in>set (profile_headers p). \<exists>d. v = Some d \<and> plain_data d" and "(n, v) \<in> set (published p)"
  shows "\<exists>d. v = Some d \<and> plain_data d"
proof -
  have "\<exists>d. v = Some d \<and> plain_data d" if "(n, v) \<in> set (time_headers p @ flag_headers p)"
    using that show_int_plain flag_text_plain by (auto simp: time_headers_def flag_headers_def split: option.splits)
  then show ?thesis using assms by (auto simp: published_def)
qed

text \<open>Publishing a profile in an event makes every published field readable under the prefixed name of its header,
  when the event has no such header yet and the texts are plain.\<close>

theorem caller_event_data:
  assumes "ev_inv e" and "length (ev_headers e) < 900000" and "length prefix < 900" and "CHR ''['' \<notin> set prefix"
    and "cp_soft p = []" and plain: "\<forall>(n, v)\<in>set (profile_headers p). \<exists>d. v = Some d \<and> plain_data d"
    and absent: "\<forall>(n, v)\<in>set (published p). \<not> has_header e (prefix @ n)"
  shows "\<exists>e'. switch_caller_profile_event_set_data p prefix e = Inr e' \<and>
    (\<forall>(n, v)\<in>set (published p). switch_event_get_header e' (Some (prefix @ n)) = Inr v)"
proof -
  let ?nvs = "map (\<lambda>(n, v). (prefix @ n, v)) (published p)"
  have keep: "snprintf_keep 1024 (prefix @ n) = prefix @ n" if "(n, v) \<in> set (published p)" for n v
    using published_names_plain [OF that] assms(3) by (intro snprintf_all) simp
  have nvs: "prefixed prefix (profile_headers p) @ cp_soft p @ prefixed prefix (time_headers p) @ prefixed prefix (flag_headers p) = ?nvs"
    using keep assms(5) by (auto simp: prefixed_def published_def)
  have len: "length ?nvs < 100"
    using size_mset_mono [OF published_names [of p]] by (simp add: guarded_names_def other_names_def)
  have dist: "distinct (map (\<lambda>(n, v). map c_tolower n) ?nvs)"
  proof -
    have "map (\<lambda>(n, v). map c_tolower n) ?nvs = map (\<lambda>s. map c_tolower prefix @ s) (map (\<lambda>(n, v). map c_tolower n) (published p))"
      by auto
    then show ?thesis using published_distinct [of p] by (simp only: distinct_map [of "\<lambda>s. map c_tolower prefix @ s"]) (simp add: inj_on_def)
  qed
  have ok: "\<forall>(n, v)\<in>set ?nvs. plain_name n \<and> \<not> has_header e n \<and> (\<exists>d. v = Some d \<and> plain_data d)"
  proof -
    have "plain_name (prefix @ n)" if "(n, v) \<in> set (published p)" for n v
    proof -
      have "CHR ''-'' \<in> set (prefix @ n)" using published_names_plain [OF that] by simp
      then have "prefix @ n \<noteq> ''_body''" by (rule contrapos_pn) simp
      then show ?thesis using published_names_plain [OF that] assms(4) by (simp add: plain_name_def)
    qed
    then show ?thesis using absent published_plain [OF plain] by auto
  qed
  note all = add_all [OF assms(1) _ ok dist]
  have "switch_event_get_header (with_headers (ev_headers e @ map (\<lambda>(n, v). scalar_header n (the v)) ?nvs) e) (Some (prefix @ n)) = Inr v"
    if nv: "(n, v) \<in> set (published p)" for n v
  proof -
    obtain d where d: "v = Some d" using published_plain [OF plain nv] by blast
    have mem: "(prefix @ n, Some d) \<in> set ?nvs" using nv d by force
    have "\<forall>(n, v)\<in>set ?nvs. \<not> has_header e n \<and> (\<exists>d. v = Some d)" using ok by fast
    from added_found [OF assms(1) this dist mem] show ?thesis unfolding d .
  qed
  then show ?thesis using all len assms(2) unfolding switch_caller_profile_event_set_data_def nvs by auto
qed

definition demo_profile :: switch_caller_profile where
  "demo_profile = switch_caller_profile_new ''u1'' None (Some ''XML'') (Some ''Alice'') (Some ''1000'') None None None None None None (Some ''2000'')"

lemma plain_text: "c \<noteq> CHR ''A'' \<Longrightarrow> plain_data (c # cs)" "cs = [] \<or> hd cs \<noteq> CHR ''R'' \<Longrightarrow> plain_data (CHR ''A'' # cs)"
  by (cases cs; simp add: plain_data_def)+

theorem caller_event_data_witness:
  "\<exists>e'. switch_caller_profile_event_set_data demo_profile ''Caller'' blank_event = Inr e' \<and>
    (\<forall>(n, v)\<in>set (published demo_profile). switch_event_get_header e' (Some (''Caller'' @ n)) = Inr v)"
proof (rule caller_event_data)
  have c: "profile_dup_clean (Some ''XML'') = Some ''XML''" "profile_dup_clean (Some ''Alice'') = Some ''Alice''"
    "profile_dup_clean (Some ''1000'') = Some ''1000''" "profile_dup_clean (Some ''2000'') = Some ''2000''"
    "profile_dup_clean (Some ''default'') = Some ''default''" "profile_dup_clean None = Some []"
    by (simp_all add: profile_dup_clean_def zstr_def switch_var_clean_string_def switch_string_var_check_def switch_clean_string_def)
  show "\<forall>(n, v)\<in>set (profile_headers demo_profile). \<exists>d. v = Some d \<and> plain_data d"
    by (simp add: profile_headers_def guarded_fields_def guarded_def demo_profile_def switch_caller_profile_new_def zstr_def c
        direction_text_def plain_text Let_def)
qed (simp_all add: blank_event_ok has_header_def demo_profile_def switch_caller_profile_new_def Let_def)

text \<open>C28: Applications added to a new extension are listed in the order of the calls, those with an invalid character sequence left out, and the first one is
  current. The loop that executes the extension then ends, and has executed the first \<open>m\<close> applications of the list, in order and each once: all of
  them, unless the channel left the state \<^verbatim>\<open>CS_EXECUTE\<close>, the last one executed failed, or it asked for a reset; provided the applications do not
  change the extension themselves. A clone made while application \<open>k\<close> is current holds exactly the applications from \<open>k\<close> on and starts with
  the first of them.\<close>

theorem caller_extension_runs:
  assumes "e = add_applications aps (switch_caller_extension_new name number)"
    and "\<And>ap e s. run ap e s = (fst (step ap s), e, snd (step ap s))"
  shows "ce_applications e = map (\<lambda>(n, d). \<lparr>ca_application_name = n, ca_application_data = d\<rparr>) (filter accepted aps) \<and>
    ce_current_application e = (if filter accepted aps = [] then None else Some 0) \<and>
    (\<exists>r m. execute_loop (Suc (length (ce_applications e))) executing resetting run e s =
        Some (r, e\<lparr>ce_current_application := application_at e m\<rparr>, session_after step (ce_applications e) m s) \<and>
      left_after executing resetting step (ce_applications e) s r m) \<and>
    (\<forall>k<length (ce_applications e).
       ce_applications (snd (switch_caller_extension_clone (e\<lparr>ce_current_application := Some k\<rparr>))) = drop k (ce_applications e) \<and>
       ce_current_application (snd (switch_caller_extension_clone (e\<lparr>ce_current_application := Some k\<rparr>))) = Some 0)"
proof -
  have l: "ce_applications e = map (\<lambda>(n, d). \<lparr>ca_application_name = n, ca_application_data = d\<rparr>) (filter accepted aps)"
    "ce_current_application e = (if ce_applications e = [] then None else Some 0)"
    unfolding assms(1) using add_applications_ok [of "switch_caller_extension_new name number" aps]
    by (simp_all add: switch_caller_extension_new_def)
  moreover have "\<exists>r m. execute_loop (Suc (length (ce_applications e))) executing resetting run e s =
        Some (r, e\<lparr>ce_current_application := application_at e m\<rparr>, session_after step (ce_applications e) m s) \<and>
      left_after executing resetting step (ce_applications e) s r m"
    using execute_loop_from [where run = run and step = step and k = 0 and e = e and aps = "ce_applications e"] assms(2) l(2)
    by (simp add: application_at_def)
  moreover have "switch_caller_extension_clone (e\<lparr>ce_current_application := Some k\<rparr>) = (SWITCH_STATUS_SUCCESS,
      (e\<lparr>ce_current_application := Some k\<rparr>)\<lparr>ce_applications := drop k (ce_applications e), ce_current_application := Some 0,
        ce_last_application := Some (length (ce_applications e) - k - 1)\<rparr>)" if "k < length (ce_applications e)" for k
    using clone_spec [of "e\<lparr>ce_current_application := Some k\<rparr>" k] that by simp
  ultimately show ?thesis by auto
qed

text \<open>Two applications; the session is the list of the names of those that were executed.\<close>

definition demo_extension :: switch_caller_extension where
  "demo_extension = add_applications [(Some ''answer'', None), (Some ''echo'', Some ''x'')] (switch_caller_extension_new None None)"

theorem caller_extension_runs_witness:
  "ce_applications demo_extension = [\<lparr>ca_application_name = Some ''answer'', ca_application_data = None\<rparr>,
     \<lparr>ca_application_name = Some ''echo'', ca_application_data = Some ''x''\<rparr>] \<and>
   (\<exists>e'. execute_loop 3 (\<lambda>_. True) (\<lambda>_. False) (\<lambda>ap e s. (SWITCH_STATUS_SUCCESS, e, s @ [ca_application_name ap])) demo_extension [] =
      Some (Exec_Done, e', [Some ''answer'', Some ''echo'']))"
proof -
  let ?step = "\<lambda>ap s. (SWITCH_STATUS_SUCCESS, s @ [ca_application_name ap])"
    and ?run = "\<lambda>ap e s. (SWITCH_STATUS_SUCCESS, e, s @ [ca_application_name ap])"
  note R = caller_extension_runs [OF demo_extension_def, of ?run ?step "\<lambda>_. True" "\<lambda>_. False" "[]"]
  have X: "ce_applications demo_extension = [\<lparr>ca_application_name = Some ''answer'', ca_application_data = None\<rparr>,
     \<lparr>ca_application_name = Some ''echo'', ca_application_data = Some ''x''\<rparr>]"
    using R by (simp add: accepted_def)
  have "\<exists>r m. execute_loop (Suc (length (ce_applications demo_extension))) (\<lambda>_. True) (\<lambda>_. False) ?run demo_extension [] =
        Some (r, demo_extension\<lparr>ce_current_application := application_at demo_extension m\<rparr>, session_after ?step (ce_applications demo_extension) m []) \<and>
      left_after (\<lambda>_. True) (\<lambda>_. False) ?step (ce_applications demo_extension) [] r m"
    using R [THEN conjunct2, THEN conjunct2, THEN conjunct1] by simp
  then obtain r m where r: "execute_loop 3 (\<lambda>_. True) (\<lambda>_. False) ?run demo_extension [] =
        Some (r, demo_extension\<lparr>ce_current_application := application_at demo_extension m\<rparr>, session_after ?step (ce_applications demo_extension) m [])"
      "left_after (\<lambda>_. True) (\<lambda>_. False) ?step (ce_applications demo_extension) [] r m" by (auto simp: numeral_3_eq_3 X)
  then have "r = Exec_Done \<and> m = 2" by (auto simp: left_after_def X split: exec_end.splits)
  then show ?thesis using X r(1) by (simp add: session_after_def)
qed

end
