(* ===== verification/FS_Channel.thy ===== *)
theory FS_Channel
  imports FS_Caller
begin
text \<open>
  \<^verbatim>\<open>src/switch_channel.c\<close>: the channel of a call. Modelled are its state and call state, its flags, the change of
  states, the table of state handlers, its variables and the names of states and hangup causes.

  Calls to other parts of the core (events, video threads, the device list, the session's thread) are
  recorded in the log \<open>ch_log\<close> in the order they are made; the headers of fired events are left out. The time
  and the global variables are the environment \<open>chan_env\<close>; every reading of the clock in one call gives the
  same time. The functions are protected by the channel's mutexes and are modelled as atomic.
  A failed \<^verbatim>\<open>switch_assert\<close> is a fault.
\<close>

section \<open>States\<close>

datatype switch_channel_state_t =
    CS_NEW | CS_INIT | CS_ROUTING | CS_SOFT_EXECUTE | CS_EXECUTE | CS_EXCHANGE_MEDIA | CS_PARK
  | CS_CONSUME_MEDIA | CS_HIBERNATE | CS_RESET | CS_HANGUP | CS_REPORTING | CS_DESTROY | CS_NONE

fun cs_num :: "switch_channel_state_t \<Rightarrow> nat" where
  "cs_num CS_NEW = 0"
| "cs_num CS_INIT = 1"
| "cs_num CS_ROUTING = 2"
| "cs_num CS_SOFT_EXECUTE = 3"
| "cs_num CS_EXECUTE = 4"
| "cs_num CS_EXCHANGE_MEDIA = 5"
| "cs_num CS_PARK = 6"
| "cs_num CS_CONSUME_MEDIA = 7"
| "cs_num CS_HIBERNATE = 8"
| "cs_num CS_RESET = 9"
| "cs_num CS_HANGUP = 10"
| "cs_num CS_REPORTING = 11"
| "cs_num CS_DESTROY = 12"
| "cs_num CS_NONE = 13"

lemma cs_num_inject [simp]: "cs_num a = cs_num b \<longleftrightarrow> a = b"
  by (cases a; cases b) simp_all

text \<open>The enumeration is ordered by its numbers.\<close>

instantiation switch_channel_state_t :: linorder
begin

definition less_eq_switch_channel_state_t where
  "(a :: switch_channel_state_t) \<le> b \<longleftrightarrow> cs_num a \<le> cs_num b"

definition less_switch_channel_state_t where
  "(a :: switch_channel_state_t) < b \<longleftrightarrow> cs_num a < cs_num b"

instance
  by standard (auto simp: less_eq_switch_channel_state_t_def less_switch_channel_state_t_def)

end

lemmas cs_order = less_eq_switch_channel_state_t_def less_switch_channel_state_t_def

definition cs_of_num :: "nat \<Rightarrow> switch_channel_state_t" where
  "cs_of_num n =
     [CS_NEW, CS_INIT, CS_ROUTING, CS_SOFT_EXECUTE, CS_EXECUTE, CS_EXCHANGE_MEDIA, CS_PARK, CS_CONSUME_MEDIA,
      CS_HIBERNATE, CS_RESET, CS_HANGUP, CS_REPORTING, CS_DESTROY, CS_NONE] ! n"

definition state_names :: "string list" where
  "state_names =
     [''CS_NEW'', ''CS_INIT'', ''CS_ROUTING'', ''CS_SOFT_EXECUTE'', ''CS_EXECUTE'', ''CS_EXCHANGE_MEDIA'',
      ''CS_PARK'', ''CS_CONSUME_MEDIA'', ''CS_HIBERNATE'', ''CS_RESET'', ''CS_HANGUP'', ''CS_REPORTING'',
      ''CS_DESTROY'', ''CS_NONE'']"

definition switch_channel_state_name :: "switch_channel_state_t \<Rightarrow> string" where
  "switch_channel_state_name state = state_names ! cs_num state"

fun name_state_loop :: "string \<Rightarrow> nat \<Rightarrow> string list \<Rightarrow> switch_channel_state_t" where
  "name_state_loop name x [] = CS_DESTROY"
| "name_state_loop name x (n # ns) = (if strcasecmp_eq n name then cs_of_num x else name_state_loop name (Suc x) ns)"

definition switch_channel_name_state :: "string \<Rightarrow> switch_channel_state_t" where
  "switch_channel_name_state name = name_state_loop name 0 state_names"

datatype switch_channel_callstate_t =
    CCS_DOWN | CCS_DIALING | CCS_RINGING | CCS_EARLY | CCS_ACTIVE | CCS_HELD | CCS_RING_WAIT | CCS_HANGUP | CCS_UNHELD

fun ccs_num :: "switch_channel_callstate_t \<Rightarrow> int" where
  "ccs_num CCS_DOWN = 0"
| "ccs_num CCS_DIALING = 1"
| "ccs_num CCS_RINGING = 2"
| "ccs_num CCS_EARLY = 3"
| "ccs_num CCS_ACTIVE = 4"
| "ccs_num CCS_HELD = 5"
| "ccs_num CCS_RING_WAIT = 6"
| "ccs_num CCS_HANGUP = 7"
| "ccs_num CCS_UNHELD = 8"

text \<open>The charts of names: the code of a value and back. A name that starts with a digit is a number.\<close>

type_synonym switch_call_cause_t = int

fun chart_name :: "(string \<times> int) list \<Rightarrow> int \<Rightarrow> string" where
  "chart_name [] v = ''UNKNOWN''"
| "chart_name ((n, c) # rest) v = (if c = v then n else chart_name rest v)"

fun chart_value :: "(string \<times> int) list \<Rightarrow> string \<Rightarrow> int \<Rightarrow> int" where
  "chart_value [] s dflt = dflt"
| "chart_value ((n, c) # rest) s dflt = (if strcasecmp_eq n s then c else chart_value rest s dflt)"

definition CALLSTATE_CHART :: "(string \<times> int) list" where
  "CALLSTATE_CHART =
     [(''DOWN'', 0), (''DIALING'', 1), (''RINGING'', 2), (''EARLY'', 3), (''ACTIVE'', 4), (''HELD'', 5),
      (''RING_WAIT'', 6), (''HANGUP'', 7), (''UNHELD'', 8)]"

definition switch_channel_callstate2str :: "switch_channel_callstate_t \<Rightarrow> string" where
  "switch_channel_callstate2str callstate = chart_name CALLSTATE_CHART (ccs_num callstate)"

definition switch_channel_str2callstate :: "string \<Rightarrow> int" where
  "switch_channel_str2callstate str =
     (if str \<noteq> [] \<and> c_isdigit (hd str) then c_atoi str else chart_value CALLSTATE_CHART str 0)"

definition SWITCH_CAUSE_NONE :: switch_call_cause_t where "SWITCH_CAUSE_NONE = 0"
definition SWITCH_CAUSE_NORMAL_CLEARING :: switch_call_cause_t where "SWITCH_CAUSE_NORMAL_CLEARING = 16"
definition SWITCH_CAUSE_WRONG_CALL_STATE :: switch_call_cause_t where "SWITCH_CAUSE_WRONG_CALL_STATE = 101"
definition SWITCH_CAUSE_INTERWORKING :: switch_call_cause_t where "SWITCH_CAUSE_INTERWORKING = 127"

definition CAUSE_CHART :: "(string \<times> switch_call_cause_t) list" where
  "CAUSE_CHART =
    [(''NONE'', 0), (''UNALLOCATED_NUMBER'', 1), (''NO_ROUTE_TRANSIT_NET'', 2),
     (''NO_ROUTE_DESTINATION'', 3), (''CHANNEL_UNACCEPTABLE'', 6), (''CALL_AWARDED_DELIVERED'', 7),
     (''NORMAL_CLEARING'', 16), (''USER_BUSY'', 17), (''NO_USER_RESPONSE'', 18), (''NO_ANSWER'', 19),
     (''SUBSCRIBER_ABSENT'', 20), (''CALL_REJECTED'', 21), (''NUMBER_CHANGED'', 22),
     (''REDIRECTION_TO_NEW_DESTINATION'', 23), (''EXCHANGE_ROUTING_ERROR'', 25),
     (''DESTINATION_OUT_OF_ORDER'', 27), (''INVALID_NUMBER_FORMAT'', 28), (''FACILITY_REJECTED'', 29),
     (''RESPONSE_TO_STATUS_ENQUIRY'', 30), (''NORMAL_UNSPECIFIED'', 31),
     (''NORMAL_CIRCUIT_CONGESTION'', 34), (''NETWORK_OUT_OF_ORDER'', 38),
     (''NORMAL_TEMPORARY_FAILURE'', 41), (''SWITCH_CONGESTION'', 42), (''ACCESS_INFO_DISCARDED'', 43),
     (''REQUESTED_CHAN_UNAVAIL'', 44), (''PRE_EMPTED'', 45), (''FACILITY_NOT_SUBSCRIBED'', 50),
     (''OUTGOING_CALL_BARRED'', 52), (''INCOMING_CALL_BARRED'', 54), (''BEARERCAPABILITY_NOTAUTH'', 57),
     (''BEARERCAPABILITY_NOTAVAIL'', 58), (''SERVICE_UNAVAILABLE'', 63),
     (''BEARERCAPABILITY_NOTIMPL'', 65), (''CHAN_NOT_IMPLEMENTED'', 66),
     (''FACILITY_NOT_IMPLEMENTED'', 69), (''SERVICE_NOT_IMPLEMENTED'', 79),
     (''INVALID_CALL_REFERENCE'', 81), (''INCOMPATIBLE_DESTINATION'', 88),
     (''INVALID_MSG_UNSPECIFIED'', 95), (''MANDATORY_IE_MISSING'', 96), (''MESSAGE_TYPE_NONEXIST'', 97),
     (''WRONG_MESSAGE'', 98), (''IE_NONEXIST'', 99), (''INVALID_IE_CONTENTS'', 100),
     (''WRONG_CALL_STATE'', 101), (''RECOVERY_ON_TIMER_EXPIRE'', 102),
     (''MANDATORY_IE_LENGTH_ERROR'', 103), (''PROTOCOL_ERROR'', 111), (''INTERWORKING'', 127),
     (''SUCCESS'', 142), (''ORIGINATOR_CANCEL'', 487), (''CRASH'', 500), (''SYSTEM_SHUTDOWN'', 501),
     (''LOSE_RACE'', 502), (''MANAGER_REQUEST'', 503), (''BLIND_TRANSFER'', 600),
     (''ATTENDED_TRANSFER'', 601), (''ALLOTTED_TIMEOUT'', 602), (''USER_CHALLENGE'', 603),
     (''MEDIA_TIMEOUT'', 604), (''PICKED_OFF'', 605), (''USER_NOT_REGISTERED'', 606),
     (''PROGRESS_TIMEOUT'', 607), (''INVALID_GATEWAY'', 608), (''GATEWAY_DOWN'', 609),
     (''INVALID_URL'', 610), (''INVALID_PROFILE'', 611), (''NO_PICKUP'', 612),
     (''SRTP_READ_ERROR'', 613)]"

definition switch_channel_cause2str :: "switch_call_cause_t \<Rightarrow> string" where
  "switch_channel_cause2str cause = chart_name CAUSE_CHART cause"

definition switch_channel_str2cause :: "string option \<Rightarrow> switch_call_cause_t" where
  "switch_channel_str2cause str =
     (case str of
        None \<Rightarrow> SWITCH_CAUSE_NORMAL_CLEARING
      | Some s \<Rightarrow>
          if s = [] then SWITCH_CAUSE_NORMAL_CLEARING
          else if c_isdigit (hd s) then c_atoi s
          else chart_value CAUSE_CHART s SWITCH_CAUSE_NORMAL_CLEARING)"

definition switch_channel_cause_q850 :: "switch_call_cause_t \<Rightarrow> switch_call_cause_t" where
  "switch_channel_cause_q850 cause = (if cause \<le> SWITCH_CAUSE_INTERWORKING then cause else SWITCH_CAUSE_NORMAL_CLEARING)"

section \<open>The channel\<close>

type_synonym switch_channel_flag_t = nat

definition CF_ANSWERED :: switch_channel_flag_t where "CF_ANSWERED = 1"
definition CF_OUTBOUND :: switch_channel_flag_t where "CF_OUTBOUND = 2"
definition CF_EARLY_MEDIA :: switch_channel_flag_t where "CF_EARLY_MEDIA = 3"
definition CF_BRIDGE_ORIGINATOR :: switch_channel_flag_t where "CF_BRIDGE_ORIGINATOR = 4"
definition CF_TRANSFER :: switch_channel_flag_t where "CF_TRANSFER = 6"
definition CF_REDIRECT :: switch_channel_flag_t where "CF_REDIRECT = 8"
definition CF_BRIDGED :: switch_channel_flag_t where "CF_BRIDGED = 9"
definition CF_TAGGED :: switch_channel_flag_t where "CF_TAGGED = 12"
definition CF_PROXY_MODE :: switch_channel_flag_t where "CF_PROXY_MODE = 15"
definition CF_BREAK :: switch_channel_flag_t where "CF_BREAK = 21"
definition CF_BROADCAST :: switch_channel_flag_t where "CF_BROADCAST = 22"
definition CF_VIDEO :: switch_channel_flag_t where "CF_VIDEO = 24"
definition CF_RESET :: switch_channel_flag_t where "CF_RESET = 27"
definition CF_STOP_BROADCAST :: switch_channel_flag_t where "CF_STOP_BROADCAST = 29"
definition CF_BLOCK_STATE :: switch_channel_flag_t where "CF_BLOCK_STATE = 36"
definition CF_REPORTING :: switch_channel_flag_t where "CF_REPORTING = 38"
definition CF_ORIGINATOR :: switch_channel_flag_t where "CF_ORIGINATOR = 41"
definition CF_THREAD_SLEEPING :: switch_channel_flag_t where "CF_THREAD_SLEEPING = 44"
definition CF_NOT_READY :: switch_channel_flag_t where "CF_NOT_READY = 46"
definition CF_LEG_HOLDING :: switch_channel_flag_t where "CF_LEG_HOLDING = 50"
definition CF_EARLY_HANGUP :: switch_channel_flag_t where "CF_EARLY_HANGUP = 52"
definition CF_RECOVERED :: switch_channel_flag_t where "CF_RECOVERED = 57"
definition CF_DIALPLAN :: switch_channel_flag_t where "CF_DIALPLAN = 60"
definition CF_ZOMBIE_EXEC :: switch_channel_flag_t where "CF_ZOMBIE_EXEC = 68"
definition CF_RECOVERING :: switch_channel_flag_t where "CF_RECOVERING = 86"
definition CF_RECOVERING_BRIDGE :: switch_channel_flag_t where "CF_RECOVERING_BRIDGE = 87"
definition CF_NO_CDR :: switch_channel_flag_t where "CF_NO_CDR = 90"
definition CF_VIDEO_PASSIVE :: switch_channel_flag_t where "CF_VIDEO_PASSIVE = 115"
definition CF_VIDEO_ECHO :: switch_channel_flag_t where "CF_VIDEO_ECHO = 118"
definition CF_VIDEO_BLANK :: switch_channel_flag_t where "CF_VIDEO_BLANK = 119"
definition CF_HANGUP_HELD :: switch_channel_flag_t where "CF_HANGUP_HELD = 128"
definition CF_VIDEO_DECODED_READ :: switch_channel_flag_t where "CF_VIDEO_DECODED_READ = 130"
definition CF_VIDEO_READY :: switch_channel_flag_t where "CF_VIDEO_READY = 134"
definition CF_FLAG_MAX :: switch_channel_flag_t where "CF_FLAG_MAX = 143"

lemmas cf_defs = CF_ANSWERED_def CF_OUTBOUND_def CF_EARLY_MEDIA_def CF_BRIDGE_ORIGINATOR_def CF_TRANSFER_def CF_REDIRECT_def CF_BRIDGED_def CF_TAGGED_def CF_PROXY_MODE_def CF_BREAK_def CF_BROADCAST_def CF_VIDEO_def CF_RESET_def CF_STOP_BROADCAST_def CF_BLOCK_STATE_def CF_REPORTING_def CF_ORIGINATOR_def CF_THREAD_SLEEPING_def CF_NOT_READY_def CF_LEG_HOLDING_def CF_EARLY_HANGUP_def CF_RECOVERED_def CF_DIALPLAN_def CF_ZOMBIE_EXEC_def CF_RECOVERING_def CF_RECOVERING_BRIDGE_def CF_NO_CDR_def CF_VIDEO_PASSIVE_def CF_VIDEO_ECHO_def CF_VIDEO_BLANK_def CF_HANGUP_HELD_def CF_VIDEO_DECODED_READ_def CF_VIDEO_READY_def CF_FLAG_MAX_def

definition SWITCH_EVENT_CHANNEL_CREATE :: switch_event_types_t where "SWITCH_EVENT_CHANNEL_CREATE = 2"
definition SWITCH_EVENT_CHANNEL_STATE :: switch_event_types_t where "SWITCH_EVENT_CHANNEL_STATE = 4"
definition SWITCH_EVENT_CHANNEL_CALLSTATE :: switch_event_types_t where "SWITCH_EVENT_CHANNEL_CALLSTATE = 5"
definition SWITCH_EVENT_CHANNEL_HANGUP :: switch_event_types_t where "SWITCH_EVENT_CHANNEL_HANGUP = 7"
definition SWITCH_EVENT_CHANNEL_HANGUP_COMPLETE :: switch_event_types_t where "SWITCH_EVENT_CHANNEL_HANGUP_COMPLETE = 8"
definition SWITCH_EVENT_CHANNEL_HOLD :: switch_event_types_t where "SWITCH_EVENT_CHANNEL_HOLD = 11"
definition SWITCH_EVENT_CHANNEL_UNHOLD :: switch_event_types_t where "SWITCH_EVENT_CHANNEL_UNHOLD = 12"
definition SWITCH_EVENT_CHANNEL_ORIGINATE :: switch_event_types_t where "SWITCH_EVENT_CHANNEL_ORIGINATE = 21"

definition SWITCH_MAX_STATE_HANDLERS :: nat where "SWITCH_MAX_STATE_HANDLERS = 30"
definition SSH_FLAG_STICKY :: uint32_t where "SSH_FLAG_STICKY = 1"
definition SSH_FLAG_PRE_EXEC :: uint32_t where "SSH_FLAG_PRE_EXEC = 2"
definition OCF_HANGUP :: uint32_t where "OCF_HANGUP = 1"

text \<open>The calls a channel makes to other parts of the core, and the handlers its session runs.\<close>

datatype handler_source = Driver | Channel_Table nat | Core_Table nat | Standard

datatype chan_effect =
    Fire_Event switch_event_types_t
  | Check_Device_State switch_channel_callstate_t
  | Signal_State_Change
  | Request_Video_Refresh
  | Start_Video_Thread
  | Wake_Video_Thread
  | Recovery_Track
  | Recovery_Untrack
  | Transfer_Recordings
  | Set_Partner_Variable string "string option"
  | Thread_Launch
  | Kill_Channel
  | Gen_Key_Frame
  | Remove_Media_Bugs
  | Set_Timestamps
  | Set_Media_Stats
  | Api_Hook string bool
  | Process_Device_Hangup
  | Clear_Device_Record
  | Presence string
  | Ran handler_source switch_channel_state_t

record switch_hold_record =
  hr_on :: int
  hr_off :: int
  hr_uuid :: "string option"

record switch_device_node =
  dn_callstate :: switch_channel_callstate_t
  dn_direction :: switch_call_direction_t

record switch_channel =
  ch_direction :: switch_call_direction_t
  ch_logical_direction :: switch_call_direction_t
  ch_state :: switch_channel_state_t
  ch_running_state :: switch_channel_state_t
  ch_callstate :: switch_channel_callstate_t
  ch_flags :: "switch_channel_flag_t \<Rightarrow> uint32_t"
  ch_caps :: "nat \<Rightarrow> uint32_t"
  ch_state_flags :: "switch_channel_flag_t \<Rightarrow> byte"
  ch_private_flags :: uint32_t
  ch_caller_profile :: "switch_caller_profile option"
  ch_hunt_profile :: "switch_caller_profile option"
  ch_originator_profile :: "switch_caller_profile option"
  ch_originatee_profile :: "switch_caller_profile option"
  ch_hunt_originator_profile :: "switch_caller_profile option"
  ch_hunt_originatee_profile :: "switch_caller_profile option"
  ch_state_handlers :: "nat option list"
  ch_state_handler_index :: nat
  ch_variables :: "switch_event option"
  ch_scope_variables :: "switch_event list"
  ch_hangup_cause :: switch_call_cause_t
  ch_opaque_flags :: uint32_t
  ch_hold_record :: "switch_hold_record list"
  ch_device_node :: "switch_device_node option"
  ch_log :: "chan_effect list"

record chan_env =
  ce_now :: int
  ce_globals :: "string \<Rightarrow> string option"

definition emit :: "chan_effect \<Rightarrow> switch_channel \<Rightarrow> switch_channel" where
  "emit e ch = ch\<lparr>ch_log := ch_log ch @ [e]\<rparr>"

section \<open>Variables\<close>

definition switch_is_number :: "string \<Rightarrow> bool" where
  "switch_is_number str =
     (let s = (if str \<noteq> [] \<and> (hd str = CHR ''-'' \<or> hd str = CHR ''+'') then tl str else str)
      in list_all (\<lambda>c. c = CHR ''.'' \<or> c_isdigit c) s)"

definition switch_true :: "string option \<Rightarrow> bool" where
  "switch_true expr =
     (case expr of
        None \<Rightarrow> False
      | Some s \<Rightarrow>
          list_ex (strcasecmp_eq s) [''yes'', ''on'', ''true'', ''t'', ''enabled'', ''active'', ''allow''] \<or>
          (switch_is_number s \<and> c_atoi s \<noteq> 0))"

fun scope_lookup :: "switch_event list \<Rightarrow> string \<Rightarrow> int \<Rightarrow> string option c_result" where
  "scope_lookup [] varname idx = Inr None"
| "scope_lookup (ep # rest) varname idx =
     and_then (switch_event_get_header_idx ep (Some varname) idx) (\<lambda>v.
       if v \<noteq> None then Inr v else scope_lookup rest varname idx)"

definition switch_channel_get_caller_profile :: "switch_channel \<Rightarrow> switch_caller_profile option" where
  "switch_channel_get_caller_profile channel =
     (if ch_caller_profile channel \<noteq> None \<and> ch_hunt_profile channel \<noteq> None then ch_hunt_profile channel
      else ch_caller_profile channel)"

text \<open>The caller profile, or that of one leg, and what is left of the name. The legs are those of the profile that is read, the hunt profile where
  there is one.\<close>

definition profile_legs :: "switch_channel \<Rightarrow> switch_caller_profile option \<times> switch_caller_profile option" where
  "profile_legs channel =
     (if ch_caller_profile channel \<noteq> None \<and> ch_hunt_profile channel \<noteq> None
      then (ch_hunt_originator_profile channel, ch_hunt_originatee_profile channel)
      else (ch_originator_profile channel, ch_originatee_profile channel))"

definition leg_profile :: "switch_channel \<Rightarrow> string \<Rightarrow> switch_caller_profile option \<times> string" where
  "leg_profile channel varname =
     (case switch_channel_get_caller_profile channel of
        None \<Rightarrow> (None, varname)
      | Some cp \<Rightarrow>
          if starts_with ''aleg_'' varname then (fst (profile_legs channel), drop 5 varname)
          else if starts_with ''bleg_'' varname then (snd (profile_legs channel), drop 5 varname)
          else (Some cp, varname))"

definition switch_channel_get_variable_dup :: "chan_env \<Rightarrow> switch_channel \<Rightarrow> string option \<Rightarrow> int \<Rightarrow> string option c_result" where
  "switch_channel_get_variable_dup env channel varname idx =
     (if zstr varname then Inr None
      else (let name = the varname in
        and_then (scope_lookup (ch_scope_variables channel) name idx) (\<lambda>v.
        if v \<noteq> None then Inr v
        else and_then (case ch_variables channel of
                         None \<Rightarrow> Inr None
                       | Some e \<Rightarrow> switch_event_get_header_idx e (Some name) idx) (\<lambda>v.
        if v \<noteq> None then Inr v
        else (let (cp, name) = leg_profile channel name in
          and_then (case cp of None \<Rightarrow> Inr None | Some p \<Rightarrow> switch_caller_get_field_by_name p name) (\<lambda>v.
          if v \<noteq> None then Inr v else Inr (ce_globals env name)))))))"

definition switch_channel_get_variable :: "chan_env \<Rightarrow> switch_channel \<Rightarrow> string \<Rightarrow> string option c_result" where
  "switch_channel_get_variable env channel varname = switch_channel_get_variable_dup env channel (Some varname) (-1)"

definition switch_channel_add_variable_var_check ::
  "switch_channel \<Rightarrow> string option \<Rightarrow> string option \<Rightarrow> bool \<Rightarrow> uint32_t \<Rightarrow> (switch_status_t \<times> switch_channel) c_result" where
  "switch_channel_add_variable_var_check channel varname value var_check stack =
     (case ch_variables channel of
        None \<Rightarrow> Inr (SWITCH_STATUS_FALSE, channel)
      | Some e \<Rightarrow>
          if zstr varname then Inr (SWITCH_STATUS_FALSE, channel)
          else if zstr value then
            and_then (switch_event_del_header e (the varname)) (\<lambda>(_, e).
              Inr (SWITCH_STATUS_SUCCESS, channel\<lparr>ch_variables := Some e\<rparr>))
          else if var_check \<and> switch_string_var_check_const (the value) then Inr (SWITCH_STATUS_SUCCESS, channel)
          else and_then (add_string stack (the varname) value e) (\<lambda>e.
            Inr (SWITCH_STATUS_SUCCESS, channel\<lparr>ch_variables := Some e\<rparr>)))"

definition switch_channel_set_variable_var_check ::
  "switch_channel \<Rightarrow> string option \<Rightarrow> string option \<Rightarrow> bool \<Rightarrow> (switch_status_t \<times> switch_channel) c_result" where
  "switch_channel_set_variable_var_check channel varname value var_check =
     switch_channel_add_variable_var_check channel varname value var_check SWITCH_STACK_BOTTOM"

definition switch_channel_set_variable :: "string \<Rightarrow> string option \<Rightarrow> switch_channel \<Rightarrow> switch_channel c_result" where
  "switch_channel_set_variable varname value channel =
     and_then (switch_channel_set_variable_var_check channel (Some varname) value True) (\<lambda>(_, ch). Inr ch)"

definition switch_channel_set_scope_variables :: "switch_event option \<Rightarrow> switch_channel \<Rightarrow> switch_channel" where
  "switch_channel_set_scope_variables event channel =
     (case event of
        Some e \<Rightarrow> channel\<lparr>ch_scope_variables := e # ch_scope_variables channel\<rparr>
      | None \<Rightarrow> channel\<lparr>ch_scope_variables := tl (ch_scope_variables channel)\<rparr>)"

text \<open>\<^verbatim>\<open>switch_channel_get_scope_variables\<close> collects the headers of all scopes; it looks in the new event for the
  value of a header, not for its name.\<close>

definition collect_scope :: "switch_event_header \<Rightarrow> switch_event \<Rightarrow> switch_event c_result" where
  "collect_scope hp new_event =
     and_then (switch_event_get_header new_event (eh_value hp)) (\<lambda>v.
       if v = None then add_string SWITCH_STACK_BOTTOM (eh_name hp) (eh_value hp) new_event else Inr new_event)"

definition switch_channel_get_scope_variables ::
  "delivery_env \<Rightarrow> switch_channel \<Rightarrow> (switch_status_t \<times> switch_event option) c_result" where
  "switch_channel_get_scope_variables denv channel =
     (if ch_scope_variables channel = [] then Inr (SWITCH_STATUS_FALSE, None)
      else and_then (switch_event_create_plain denv SWITCH_EVENT_CHANNEL_DATA) (\<lambda>(_, new_event).
        case new_event of
          None \<Rightarrow> Inl Null_Access
        | Some e \<Rightarrow>
            and_then (for_each collect_scope (concat (map ev_headers (ch_scope_variables channel))) e) (\<lambda>e.
              Inr (SWITCH_STATUS_SUCCESS, Some e))))"

definition switch_channel_get_partner_uuid :: "chan_env \<Rightarrow> switch_channel \<Rightarrow> string option c_result" where
  "switch_channel_get_partner_uuid env channel =
     and_then (switch_channel_get_variable env channel ''signal_bond'') (\<lambda>uuid.
       if uuid \<noteq> None then Inr uuid else switch_channel_get_variable env channel ''originate_signal_bond'')"

section \<open>Call states and flags\<close>

definition switch_channel_perform_set_callstate :: "switch_channel_callstate_t \<Rightarrow> switch_channel \<Rightarrow> switch_channel" where
  "switch_channel_perform_set_callstate callstate channel =
     (if ch_callstate channel = callstate \<or> ch_callstate channel = CCS_HANGUP then channel
      else emit (Fire_Event SWITCH_EVENT_CHANNEL_CALLSTATE)
        (emit (Check_Device_State callstate)
          (channel\<lparr>ch_callstate := callstate,
            ch_device_node := map_option (\<lambda>d. d\<lparr>dn_callstate := callstate\<rparr>) (ch_device_node channel)\<rparr>)))"

abbreviation chan_flag :: "switch_channel \<Rightarrow> switch_channel_flag_t \<Rightarrow> bool" where
  "chan_flag channel flag \<equiv> ch_flags channel flag \<noteq> 0"

definition put_flag :: "switch_channel_flag_t \<Rightarrow> uint32_t \<Rightarrow> switch_channel \<Rightarrow> switch_channel" where
  "put_flag flag value channel = channel\<lparr>ch_flags := (ch_flags channel)(flag := value)\<rparr>"

definition device_direction :: "switch_call_direction_t \<Rightarrow> switch_channel \<Rightarrow> switch_channel" where
  "device_direction d channel =
     channel\<lparr>ch_device_node := map_option (\<lambda>n. n\<lparr>dn_direction := d\<rparr>) (ch_device_node channel)\<rparr>"

text \<open>\<^verbatim>\<open>channel->caller_profile->times\<close>: both pointers are followed without a test.\<close>

definition with_times ::
  "(switch_channel_timetable \<Rightarrow> switch_channel_timetable) \<Rightarrow> switch_channel \<Rightarrow> switch_channel c_result" where
  "with_times f channel =
     (case ch_caller_profile channel of
        None \<Rightarrow> Inl Null_Access
      | Some p \<Rightarrow>
          (case cp_times p of
             None \<Rightarrow> Inl Null_Access
           | Some t \<Rightarrow> Inr (channel\<lparr>ch_caller_profile := Some (p\<lparr>cp_times := Some (f t)\<rparr>)\<rparr>)))"

definition start_hold :: "chan_env \<Rightarrow> switch_channel \<Rightarrow> switch_channel c_result" where
  "start_hold env channel =
     and_then (switch_channel_get_partner_uuid env channel) (\<lambda>brto.
     and_then (with_times (\<lambda>t. t\<lparr>tt_last_hold := ce_now env\<rparr>)
         (switch_channel_perform_set_callstate CCS_HELD channel)) (\<lambda>ch.
       Inr (ch\<lparr>ch_hold_record := \<lparr>hr_on = ce_now env, hr_off = 0, hr_uuid = brto\<rparr> # ch_hold_record ch\<rparr>)))"

definition switch_channel_set_flag_value :: "chan_env \<Rightarrow> switch_channel_flag_t \<Rightarrow> uint32_t \<Rightarrow> switch_channel \<Rightarrow> switch_channel c_result" where
  "switch_channel_set_flag_value env flag value channel =
     (let HELD = (flag = CF_LEG_HOLDING \<and> \<not> chan_flag channel flag \<and> chan_flag channel CF_ANSWERED);
          just_set = (ch_flags channel flag \<noteq> value);
          ch = put_flag flag value channel;
          ch = (if flag = CF_VIDEO_READY \<and> just_set then emit Request_Video_Refresh ch else ch);
          ch = (if flag = CF_ORIGINATOR \<and> chan_flag ch CF_ANSWERED \<and> ch_state ch < CS_HANGUP
                then switch_channel_perform_set_callstate CCS_RING_WAIT ch else ch);
          ch = (if flag = CF_DIALPLAN then
                  (if ch_direction ch = SWITCH_CALL_DIRECTION_INBOUND
                   then device_direction SWITCH_CALL_DIRECTION_INBOUND (ch\<lparr>ch_logical_direction := SWITCH_CALL_DIRECTION_OUTBOUND\<rparr>)
                   else device_direction SWITCH_CALL_DIRECTION_OUTBOUND (ch\<lparr>ch_logical_direction := SWITCH_CALL_DIRECTION_INBOUND\<rparr>))
                else ch)
      in and_then (if HELD then start_hold env ch else Inr ch) (\<lambda>ch.
         and_then (if flag = CF_OUTBOUND then switch_channel_set_variable ''is_outbound'' (Some ''true'') ch else Inr ch) (\<lambda>ch.
         and_then (if flag = CF_RECOVERED then switch_channel_set_variable ''recovered'' (Some ''true'') ch else Inr ch) (\<lambda>ch.
           let ch = (if flag = CF_VIDEO_ECHO \<or> flag = CF_VIDEO_BLANK \<or> flag = CF_VIDEO_DECODED_READ \<or> flag = CF_VIDEO_PASSIVE
                     then emit Start_Video_Thread ch else ch)
           in Inr (if flag = CF_VIDEO_DECODED_READ \<and> chan_flag ch CF_VIDEO then emit Request_Video_Refresh ch else ch)))))"

abbreviation switch_channel_set_flag :: "chan_env \<Rightarrow> switch_channel_flag_t \<Rightarrow> switch_channel \<Rightarrow> switch_channel c_result" where
  "switch_channel_set_flag env flag \<equiv> switch_channel_set_flag_value env flag 1"

definition end_hold :: "chan_env \<Rightarrow> switch_channel \<Rightarrow> switch_channel c_result" where
  "end_hold env channel =
     and_then (with_times (\<lambda>t. if tt_last_hold t \<noteq> 0
           then t\<lparr>tt_hold_accum := tt_hold_accum t + (ce_now env - tt_last_hold t)\<rparr> else t)
         (switch_channel_perform_set_callstate CCS_UNHELD channel)) (\<lambda>ch.
       let ch = (case ch_hold_record ch of [] \<Rightarrow> ch | r # rs \<Rightarrow> ch\<lparr>ch_hold_record := r\<lparr>hr_off := ce_now env\<rparr> # rs\<rparr>)
       in Inr (if chan_flag ch CF_PROXY_MODE \<and> chan_flag ch CF_BRIDGED
               then switch_channel_perform_set_callstate CCS_ACTIVE ch else ch))"

definition switch_channel_clear_flag :: "chan_env \<Rightarrow> switch_channel_flag_t \<Rightarrow> switch_channel \<Rightarrow> switch_channel c_result" where
  "switch_channel_clear_flag env flag channel =
     (let ACTIVE = (flag = CF_LEG_HOLDING \<and> chan_flag channel flag \<and> chan_flag channel CF_ANSWERED);
          passive = (flag = CF_VIDEO_PASSIVE \<and> chan_flag channel CF_VIDEO);
          CLEAR = (passive \<and> chan_flag channel flag);
          ch = put_flag flag 0 (if passive then put_flag CF_VIDEO_READY 1 channel else channel);
          ch = (if flag = CF_DIALPLAN \<and> ch_direction ch = SWITCH_CALL_DIRECTION_OUTBOUND
                then device_direction SWITCH_CALL_DIRECTION_INBOUND (ch\<lparr>ch_logical_direction := SWITCH_CALL_DIRECTION_OUTBOUND\<rparr>)
                else ch)
      in and_then (if ACTIVE then end_hold env ch else Inr ch) (\<lambda>ch.
         let ch = (if flag = CF_ORIGINATOR \<and> chan_flag ch CF_ANSWERED \<and> ch_state ch < CS_HANGUP
                   then switch_channel_perform_set_callstate CCS_ACTIVE ch else ch)
         in and_then (if flag = CF_OUTBOUND then switch_channel_set_variable ''is_outbound'' None ch else Inr ch) (\<lambda>ch.
            and_then (if flag = CF_RECOVERED then switch_channel_set_variable ''recovered'' None ch else Inr ch) (\<lambda>ch.
              let ch = (if CLEAR then emit Wake_Video_Thread ch else ch)
              in Inr (if flag = CF_RECOVERING \<and> ch_hangup_cause ch = 0 then emit Recovery_Track ch else ch)))))"

definition switch_channel_set_flag_recursive :: "switch_channel_flag_t \<Rightarrow> switch_channel \<Rightarrow> switch_channel c_result" where
  "switch_channel_set_flag_recursive flag channel =
     (let ch = put_flag flag (ch_flags channel flag + 1) channel
      in and_then (if flag = CF_OUTBOUND then switch_channel_set_variable ''is_outbound'' (Some ''true'') ch else Inr ch) (\<lambda>ch.
         if flag = CF_RECOVERED then switch_channel_set_variable ''recovered'' (Some ''true'') ch else Inr ch))"

definition switch_channel_clear_flag_recursive :: "switch_channel_flag_t \<Rightarrow> switch_channel \<Rightarrow> switch_channel c_result" where
  "switch_channel_clear_flag_recursive flag channel =
     (let ch = (if chan_flag channel flag then put_flag flag (ch_flags channel flag - 1) channel else channel)
      in if flag = CF_OUTBOUND then switch_channel_set_variable ''is_outbound'' None ch else Inr ch)"

definition switch_channel_set_private_flag :: "uint32_t \<Rightarrow> switch_channel \<Rightarrow> switch_channel" where
  "switch_channel_set_private_flag flags channel = channel\<lparr>ch_private_flags := ch_private_flags channel OR flags\<rparr>"

definition switch_channel_clear_private_flag :: "uint32_t \<Rightarrow> switch_channel \<Rightarrow> switch_channel" where
  "switch_channel_clear_private_flag flags channel = channel\<lparr>ch_private_flags := ch_private_flags channel AND NOT flags\<rparr>"

definition switch_channel_test_private_flag :: "switch_channel \<Rightarrow> uint32_t \<Rightarrow> uint32_t" where
  "switch_channel_test_private_flag channel flags = ch_private_flags channel AND flags"

definition switch_channel_set_cap_value :: "nat \<Rightarrow> uint32_t \<Rightarrow> switch_channel \<Rightarrow> switch_channel" where
  "switch_channel_set_cap_value cap value channel = channel\<lparr>ch_caps := (ch_caps channel)(cap := value)\<rparr>"

definition switch_channel_clear_cap :: "nat \<Rightarrow> switch_channel \<Rightarrow> switch_channel" where
  "switch_channel_clear_cap cap channel = channel\<lparr>ch_caps := (ch_caps channel)(cap := 0)\<rparr>"

definition switch_channel_test_cap :: "switch_channel \<Rightarrow> nat \<Rightarrow> uint32_t" where
  "switch_channel_test_cap channel cap = (if ch_caps channel cap \<noteq> 0 then 1 else 0)"

definition switch_channel_set_state_flag :: "switch_channel_flag_t \<Rightarrow> switch_channel \<Rightarrow> switch_channel" where
  "switch_channel_set_state_flag flag channel =
     channel\<lparr>ch_state_flags := (ch_state_flags channel)(0 := 1, flag := 1)\<rparr>"

definition switch_channel_clear_state_flag :: "switch_channel_flag_t \<Rightarrow> switch_channel \<Rightarrow> switch_channel" where
  "switch_channel_clear_state_flag flag channel =
     channel\<lparr>ch_state_flags := (ch_state_flags channel)(flag := 0)\<rparr>"

definition switch_channel_mark_hold :: "chan_env \<Rightarrow> bool \<Rightarrow> switch_channel \<Rightarrow> switch_channel c_result" where
  "switch_channel_mark_hold env on channel =
     and_then (if on = chan_flag channel CF_LEG_HOLDING then Inr channel
               else and_then (if on then switch_channel_set_flag env CF_LEG_HOLDING channel
                              else switch_channel_clear_flag env CF_LEG_HOLDING channel) (\<lambda>ch.
                 Inr (emit (Fire_Event (if on then SWITCH_EVENT_CHANNEL_HOLD else SWITCH_EVENT_CHANNEL_UNHOLD)) ch))) (\<lambda>ch.
     if on then
       and_then (switch_channel_get_variable env ch ''flip_record_on_hold'') (\<lambda>v.
         Inr (if switch_true v then emit Transfer_Recordings ch else ch))
     else Inr ch)"

section \<open>State changes\<close>

text \<open>The \<^verbatim>\<open>switch\<close> of \<^verbatim>\<open>switch_channel_perform_set_state\<close>.\<close>

fun change_ok :: "switch_channel_state_t \<Rightarrow> switch_channel_state_t \<Rightarrow> bool" where
  "change_ok CS_NEW state = True"
| "change_ok CS_RESET state = True"
| "change_ok CS_INIT state \<longleftrightarrow>
     state \<in> {CS_EXCHANGE_MEDIA, CS_SOFT_EXECUTE, CS_ROUTING, CS_EXECUTE, CS_PARK, CS_CONSUME_MEDIA, CS_HIBERNATE, CS_RESET}"
| "change_ok CS_EXCHANGE_MEDIA state \<longleftrightarrow>
     state \<in> {CS_SOFT_EXECUTE, CS_ROUTING, CS_EXECUTE, CS_PARK, CS_CONSUME_MEDIA, CS_HIBERNATE, CS_RESET}"
| "change_ok CS_SOFT_EXECUTE state \<longleftrightarrow>
     state \<in> {CS_EXCHANGE_MEDIA, CS_ROUTING, CS_EXECUTE, CS_PARK, CS_CONSUME_MEDIA, CS_HIBERNATE, CS_RESET}"
| "change_ok CS_PARK state \<longleftrightarrow>
     state \<in> {CS_EXCHANGE_MEDIA, CS_ROUTING, CS_EXECUTE, CS_SOFT_EXECUTE, CS_HIBERNATE, CS_RESET, CS_CONSUME_MEDIA}"
| "change_ok CS_CONSUME_MEDIA state \<longleftrightarrow>
     state \<in> {CS_EXCHANGE_MEDIA, CS_ROUTING, CS_EXECUTE, CS_SOFT_EXECUTE, CS_HIBERNATE, CS_RESET, CS_PARK}"
| "change_ok CS_HIBERNATE state \<longleftrightarrow>
     state \<in> {CS_EXCHANGE_MEDIA, CS_INIT, CS_ROUTING, CS_EXECUTE, CS_SOFT_EXECUTE, CS_PARK, CS_CONSUME_MEDIA, CS_RESET}"
| "change_ok CS_ROUTING state \<longleftrightarrow>
     state \<in> {CS_EXCHANGE_MEDIA, CS_EXECUTE, CS_SOFT_EXECUTE, CS_PARK, CS_CONSUME_MEDIA, CS_HIBERNATE, CS_RESET}"
| "change_ok CS_EXECUTE state \<longleftrightarrow>
     state \<in> {CS_EXCHANGE_MEDIA, CS_SOFT_EXECUTE, CS_ROUTING, CS_PARK, CS_CONSUME_MEDIA, CS_HIBERNATE, CS_RESET}"
| "change_ok CS_HANGUP state \<longleftrightarrow> state \<in> {CS_REPORTING, CS_DESTROY}"
| "change_ok CS_REPORTING state \<longleftrightarrow> state \<in> {CS_DESTROY}"
| "change_ok CS_DESTROY state = False"
| "change_ok CS_NONE state = False"

definition switch_channel_perform_set_state :: "switch_channel_state_t \<Rightarrow> switch_channel \<Rightarrow> switch_channel c_result" where
  "switch_channel_perform_set_state state channel =
     (let last_state = ch_state channel in
      if \<not> state \<le> CS_DESTROY \<or> \<not> last_state \<le> CS_DESTROY then Inl Assert_Failed
      else if last_state = state then Inr channel
      else if CS_HANGUP \<le> last_state \<and> state < last_state then Inr channel
      else if change_ok last_state state then
        (let ch = channel\<lparr>ch_state := state\<rparr>;
             ch = (if state = CS_HANGUP \<and> ch_hangup_cause ch = 0
                   then ch\<lparr>ch_hangup_cause := SWITCH_CAUSE_NORMAL_CLEARING\<rparr> else ch)
         in Inr (emit Signal_State_Change ch))
      else if CS_HANGUP \<le> ch_state channel then Inr channel
      else Inl Assert_Failed)"

text \<open>The flags that are to be set with the next state.\<close>

definition state_flag_step :: "switch_channel_flag_t \<Rightarrow> switch_channel \<Rightarrow> switch_channel" where
  "state_flag_step x ch =
     (if ch_state_flags ch x \<noteq> 0
      then ch\<lparr>ch_flags := (ch_flags ch)(x := 1), ch_state_flags := (ch_state_flags ch)(x := 0)\<rparr> else ch)"

definition take_state_flags :: "switch_channel \<Rightarrow> switch_channel" where
  "take_state_flags channel =
     (if ch_state_flags channel 0 \<noteq> 0
      then (let ch = fold state_flag_step [1..<CF_FLAG_MAX] channel in ch\<lparr>ch_state_flags := (ch_state_flags ch)(0 := 0)\<rparr>)
      else channel)"

definition switch_channel_perform_set_running_state ::
  "chan_env \<Rightarrow> switch_channel_state_t \<Rightarrow> switch_channel \<Rightarrow> switch_channel c_result" where
  "switch_channel_perform_set_running_state env state channel =
     and_then (switch_channel_clear_flag env CF_TAGGED (take_state_flags channel)) (\<lambda>ch.
       let ch = ch\<lparr>ch_running_state := state\<rparr> in
       Inr (if state \<le> CS_DESTROY then
              emit (Fire_Event SWITCH_EVENT_CHANNEL_STATE)
                (if ch_direction ch = SWITCH_CALL_DIRECTION_INBOUND \<and> state < CS_HANGUP then
                   (if state = CS_ROUTING then switch_channel_perform_set_callstate CCS_RINGING ch
                    else if chan_flag ch CF_ANSWERED then switch_channel_perform_set_callstate CCS_ACTIVE ch
                    else if chan_flag ch CF_EARLY_MEDIA then switch_channel_perform_set_callstate CCS_EARLY ch
                    else ch)
                 else ch)
            else ch))"

section \<open>State handlers\<close>

definition switch_channel_add_state_handler :: "nat \<Rightarrow> switch_channel \<Rightarrow> int \<times> switch_channel" where
  "switch_channel_add_state_handler state_handler channel =
     (case find (\<lambda>x. ch_state_handlers channel ! x = Some state_handler) [0..<SWITCH_MAX_STATE_HANDLERS] of
        Some x \<Rightarrow> (int x, channel)
      | None \<Rightarrow>
          (let index = ch_state_handler_index channel;
               ch = channel\<lparr>ch_state_handler_index := Suc index\<rparr>
           in if SWITCH_MAX_STATE_HANDLERS \<le> ch_state_handler_index ch then (-1, ch)
              else (int index, ch\<lparr>ch_state_handlers := (ch_state_handlers ch)[index := Some state_handler]\<rparr>)))"

definition switch_channel_get_state_handler :: "switch_channel \<Rightarrow> nat \<Rightarrow> nat option" where
  "switch_channel_get_state_handler channel index =
     (if SWITCH_MAX_STATE_HANDLERS \<le> index \<or> ch_state_handler_index channel < index then None
      else ch_state_handlers channel ! index)"

text \<open>The loop that collects the handlers to keep, on the local array \<^verbatim>\<open>new_handlers\<close>: both arrays have
  \<^verbatim>\<open>SWITCH_MAX_STATE_HANDLERS\<close> cells.\<close>

fun keep_handlers ::
  "(nat option \<Rightarrow> bool) \<Rightarrow> nat option list \<Rightarrow> nat list \<Rightarrow> nat option list \<Rightarrow> nat \<Rightarrow> (nat option list \<times> nat) c_result" where
  "keep_handlers keep hs [] new n = Inr (new, n)"
| "keep_handlers keep hs (index # rest) new n =
     (if length hs \<le> index then Inl Out_Of_Bounds
      else if keep (hs ! index) then
        (if length new \<le> n then Inl Out_Of_Bounds
         else keep_handlers keep hs rest (new[n := hs ! index]) (Suc n))
      else keep_handlers keep hs rest new n)"

definition keep_handler :: "(nat \<Rightarrow> uint32_t) \<Rightarrow> nat option \<Rightarrow> nat option \<Rightarrow> bool" where
  "keep_handler table_flags state_handler h =
     (case state_handler of
        Some a \<Rightarrow> h \<noteq> Some a
      | None \<Rightarrow> (case h of None \<Rightarrow> False | Some b \<Rightarrow> test_flag (table_flags b) SSH_FLAG_STICKY))"

definition switch_channel_clear_state_handler ::
  "(nat \<Rightarrow> uint32_t) \<Rightarrow> nat option \<Rightarrow> switch_channel \<Rightarrow> switch_channel c_result" where
  "switch_channel_clear_state_handler table_flags state_handler channel =
     and_then (keep_handlers (keep_handler table_flags state_handler) (ch_state_handlers channel)
         [0..<ch_state_handler_index channel] (replicate SWITCH_MAX_STATE_HANDLERS None) 0) (\<lambda>(new, n).
       Inr (channel\<lparr>ch_state_handlers := take n new @ replicate (SWITCH_MAX_STATE_HANDLERS - n) None,
                    ch_state_handler_index := n\<rparr>))"

section \<open>Readiness\<close>

text \<open>The session says whether the caller runs in its thread and whether it has both codecs. Signals are parsed first
  and are calls of their own.\<close>

definition switch_channel_state_change_pending :: "bool \<Rightarrow> switch_channel \<Rightarrow> bool" where
  "switch_channel_state_change_pending in_thread channel =
     (if CS_HANGUP \<le> ch_state channel \<or> \<not> in_thread then False else ch_running_state channel \<noteq> ch_state channel)"

definition switch_channel_test_ready :: "bool \<Rightarrow> bool \<Rightarrow> bool \<Rightarrow> bool \<Rightarrow> switch_channel \<Rightarrow> bool" where
  "switch_channel_test_ready in_thread codecs check_ready check_media channel =
     (let media = ((chan_flag channel CF_ANSWERED \<or> chan_flag channel CF_EARLY_MEDIA) \<and>
                   \<not> chan_flag channel CF_PROXY_MODE \<and> codecs)
      in if check_media \<and> \<not> media then False
         else if \<not> check_ready then check_media \<and> media
         else ch_hangup_cause channel = 0 \<and> CS_ROUTING < ch_state channel \<and> ch_state channel < CS_HANGUP \<and>
              ch_state channel \<noteq> CS_RESET \<and> \<not> chan_flag channel CF_TRANSFER \<and> \<not> chan_flag channel CF_NOT_READY \<and>
              \<not> switch_channel_state_change_pending in_thread channel)"

section \<open>Creation\<close>

definition switch_channel_alloc :: "delivery_env \<Rightarrow> switch_call_direction_t \<Rightarrow> switch_channel c_result" where
  "switch_channel_alloc denv direction =
     and_then (switch_event_create_plain denv SWITCH_EVENT_CHANNEL_DATA) (\<lambda>(_, variables).
       switch_channel_set_variable ''direction'' (Some (direction_text direction))
         \<lparr>ch_direction = direction, ch_logical_direction = direction, ch_state = CS_NEW, ch_running_state = CS_NEW,
          ch_callstate = CCS_DOWN, ch_flags = (\<lambda>_. 0), ch_caps = (\<lambda>_. 0), ch_state_flags = (\<lambda>_. 0), ch_private_flags = 0,
          ch_caller_profile = None, ch_hunt_profile = None, ch_originator_profile = None, ch_originatee_profile = None,
          ch_hunt_originator_profile = None, ch_hunt_originatee_profile = None,
          ch_state_handlers = replicate SWITCH_MAX_STATE_HANDLERS None, ch_state_handler_index = 0,
          ch_variables = variables, ch_scope_variables = [], ch_hangup_cause = SWITCH_CAUSE_NONE, ch_opaque_flags = 0,
          ch_hold_record = [], ch_device_node = None, ch_log = []\<rparr>)"

definition switch_channel_init ::
  "chan_env \<Rightarrow> switch_channel_state_t \<Rightarrow> switch_channel_flag_t \<Rightarrow> switch_channel \<Rightarrow> switch_channel c_result" where
  "switch_channel_init env state flag channel =
     and_then (switch_channel_set_flag env flag (channel\<lparr>ch_state := state\<rparr>)) (\<lambda>ch. Inr (ch\<lparr>ch_running_state := CS_NONE\<rparr>))"

section \<open>Well-formed channels\<close>

text \<open>The names a channel's variables can have, in lower case: fewer than a million, with those the core uses itself.\<close>

definition names_ok :: "string set \<Rightarrow> bool" where
  "names_ok V \<longleftrightarrow> finite V \<and> card V < 1000000 \<and>
     {''is_outbound'', ''recovered'', ''last_bridge_role'', ''hangup_cause'', ''hangup_cause_q850'', ''call_uuid''} \<subseteq> V"

definition vars_ok :: "string set \<Rightarrow> switch_event \<Rightarrow> bool" where
  "vars_ok V e \<longleftrightarrow> ev_inv e \<and> uniq_names e \<and> test_flag (ev_flags e) EF_UNIQ_HEADERS \<and>
     (\<forall>h\<in>set (ev_headers e). map c_tolower (eh_name h) \<in> V)"

definition profile_ok :: "switch_caller_profile option \<Rightarrow> bool" where
  "profile_ok p \<longleftrightarrow> (\<forall>q. p = Some q \<longrightarrow> cp_times q \<noteq> None)"

definition chan_ok :: "string set \<Rightarrow> switch_channel \<Rightarrow> bool" where
  "chan_ok V ch \<longleftrightarrow> (\<exists>e. ch_variables ch = Some e \<and> vars_ok V e) \<and> ch_caller_profile ch \<noteq> None \<and>
     profile_ok (ch_caller_profile ch) \<and> profile_ok (ch_hunt_profile ch) \<and> profile_ok (ch_originator_profile ch) \<and>
     profile_ok (ch_originatee_profile ch) \<and> profile_ok (ch_hunt_originator_profile ch) \<and> profile_ok (ch_hunt_originatee_profile ch)"

lemma vars_length:
  assumes "names_ok V" and "vars_ok V e"
  shows "length (ev_headers e) < 1000000"
proof -
  let ?ns = "map (\<lambda>h. map c_tolower (eh_name h)) (ev_headers e)"
  have "set ?ns \<subseteq> V" using assms(2) by (auto simp: vars_ok_def)
  then have "card (set ?ns) \<le> card V" using assms(1) by (auto simp: names_ok_def intro: card_mono)
  moreover have "card (set ?ns) = length (ev_headers e)"
    using assms(2) distinct_card [of ?ns] by (simp add: vars_ok_def uniq_names_def)
  ultimately show ?thesis using assms(1) by (simp add: names_ok_def)
qed

lemma vars_ok_filter: "vars_ok V e \<Longrightarrow> vars_ok V (with_headers (filter P (ev_headers e)) e)"
  by (auto simp: vars_ok_def ev_inv_with_headers ev_inv_def uniq_names_def distinct_map_filter)

lemma vars_ok_snoc:
  assumes "vars_ok V e" and "map c_tolower n \<in> V"
  shows "vars_ok V (with_headers (filter (\<lambda>h. \<not> same_name n h) (ev_headers e) @ [scalar_header n d]) e)"
proof -
  have "eh_name (scalar_header n d) = n" by (simp add: scalar_header_def)
  with assms show ?thesis
    by (auto simp: vars_ok_def ev_inv_with_headers ev_inv_def uniq_names_def distinct_map_filter same_name_iff)
qed

definition value_ok :: "string option \<Rightarrow> bool" where
  "value_ok v \<longleftrightarrow> zstr v \<or> plain_data (the v)"

text \<open>What setting a variable does to the variables.\<close>

definition var_update :: "string \<Rightarrow> string option \<Rightarrow> switch_event \<Rightarrow> switch_event" where
  "var_update n v e =
     (if n = [] then e
      else if zstr v then drop_header n e
      else if switch_string_var_check_const (the v) then e
      else with_headers (filter (\<lambda>h. \<not> same_name n h) (ev_headers e) @ [scalar_header n (the v)]) e)"

lemma vars_ok_update: "vars_ok V e \<Longrightarrow> map c_tolower n \<in> V \<Longrightarrow> vars_ok V (var_update n v e)"
  by (simp add: var_update_def drop_header_with vars_ok_filter vars_ok_snoc)

lemma set_variable_eq:
  assumes "names_ok V" and "ch_variables ch = Some e" and "vars_ok V e" and "plain_name n" and "value_ok v"
  shows "switch_channel_set_variable n v ch = Inr (ch\<lparr>ch_variables := Some (var_update n v e)\<rparr>)"
proof -
  have len: "length (ev_headers e) < 1000000" and inv: "ev_inv e" and u: "test_flag (ev_flags e) EF_UNIQ_HEADERS"
    using vars_length [OF assms(1,3)] assms(3) by (simp_all add: vars_ok_def)
  have same: "ch = ch\<lparr>ch_variables := Some e\<rparr>" using assms(2) by simp
  show ?thesis
  proof (cases "n = [] \<or> \<not> zstr v \<and> switch_string_var_check_const (the v)")
    case True
    then show ?thesis using same assms(2)
      by (auto simp: switch_channel_set_variable_def switch_channel_set_variable_var_check_def zstr_def var_update_def
          switch_channel_add_variable_var_check_def)
  next
    case False
    note defs = switch_channel_set_variable_def switch_channel_set_variable_var_check_def zstr_def
      switch_channel_add_variable_var_check_def
    show ?thesis
    proof (cases "zstr v")
      case True
      with False del_header_drop [OF inv len, of n] assms(2) show ?thesis by (auto simp: defs var_update_def)
    next
      case v: False
      then obtain d where d: "v = Some d" "plain_data d" using assms(5) by (auto simp: value_ok_def zstr_def)
      then have "d \<noteq> []" by (simp add: plain_data_def)
      with False v d add_scalar [OF inv len assms(4) d(2), of SWITCH_STACK_BOTTOM] assms(2) u show ?thesis
        by (simp add: defs var_update_def add_string_eq others_def)
    qed
  qed
qed

lemma field_ok: "profile_ok (Some p) \<Longrightarrow> \<exists>v. switch_caller_get_field_by_name p name = Inr v"
proof -
  assume "profile_ok (Some p)"
  then have "\<forall>(n, v)\<in>set (profile_fields p). \<exists>w. v = Inr w"
    by (auto simp: profile_ok_def profile_fields_def profile_time_def)
  moreover have "field_lookup name fs = Some v \<Longrightarrow> \<exists>n. (n, v) \<in> set fs" for fs :: "(string \<times> string option c_result) list" and v
    by (induction fs) (auto split: if_splits)
  ultimately show ?thesis
    by (fastforce simp: switch_caller_get_field_by_name_def split: option.splits)
qed

lemma header_idx_ok: "\<exists>v. switch_event_get_header_idx e (Some n) idx = Inr v"
  by (auto simp: switch_event_get_header_idx_def Let_def split: option.splits)

lemma scope_lookup_ok: "\<exists>v. scope_lookup es n idx = Inr v"
proof (induction es)
  case (Cons e es)
  then show ?case using header_idx_ok [of e n idx] by auto
qed simp

lemma get_variable_dup_ok:
  assumes "chan_ok V ch"
  shows "\<exists>v. switch_channel_get_variable_dup env ch n idx = Inr v"
proof (cases "zstr n")
  case False
  then obtain m where m: "n = Some m" by (auto simp: zstr_def)
  obtain v where v: "scope_lookup (ch_scope_variables ch) m idx = Inr v" using scope_lookup_ok by blast
  have "\<exists>w. (case ch_variables ch of None \<Rightarrow> Inr None | Some e \<Rightarrow> switch_event_get_header_idx e (Some m) idx) = Inr w"
    by (simp add: header_idx_ok split: option.split)
  then obtain w where w: "(case ch_variables ch of None \<Rightarrow> Inr None | Some e \<Rightarrow> switch_event_get_header_idx e (Some m) idx) = Inr w" ..
  obtain cp k where cp: "leg_profile ch m = (cp, k)" by (cases "leg_profile ch m")
  with assms have "profile_ok cp"
    by (auto simp: leg_profile_def profile_legs_def switch_channel_get_caller_profile_def chan_ok_def split: option.splits if_splits)
  then have "\<exists>x. (case cp of None \<Rightarrow> Inr None | Some p \<Rightarrow> switch_caller_get_field_by_name p k) = Inr x"
    by (auto simp: field_ok split: option.split)
  then obtain x where x: "(case cp of None \<Rightarrow> Inr None | Some p \<Rightarrow> switch_caller_get_field_by_name p k) = Inr x" ..
  show ?thesis using False m v w cp x by (simp add: switch_channel_get_variable_dup_def)
qed (simp add: switch_channel_get_variable_dup_def)

lemma get_variable_ok: "chan_ok V ch \<Longrightarrow> \<exists>v. switch_channel_get_variable env ch n = Inr v"
  by (simp add: switch_channel_get_variable_def get_variable_dup_ok)

lemma partner_uuid_ok: "chan_ok V ch \<Longrightarrow> \<exists>v. switch_channel_get_partner_uuid env ch = Inr v"
  using get_variable_ok [of V ch env "''signal_bond''"] get_variable_ok [of V ch env "''originate_signal_bond''"]
  by (auto simp: switch_channel_get_partner_uuid_def)


section \<open>What the operations keep\<close>

named_theorems chan_keeps \<open>operations that keep the state of a channel\<close>
named_theorems chan_sound \<open>operations that run without a fault\<close>

text \<open>Effects other than the end of a call and the runs of state handlers.\<close>

fun quiet :: "chan_effect \<Rightarrow> bool" where
  "quiet (Fire_Event e) \<longleftrightarrow> e \<noteq> SWITCH_EVENT_CHANNEL_HANGUP \<and> e \<noteq> SWITCH_EVENT_CHANNEL_HANGUP_COMPLETE"
| "quiet (Ran s st) \<longleftrightarrow> False"
| "quiet e \<longleftrightarrow> True"

definition keeps :: "switch_channel \<Rightarrow> switch_channel \<Rightarrow> bool" where
  "keeps a b \<longleftrightarrow> ch_state b = ch_state a \<and> ch_opaque_flags b = ch_opaque_flags a \<and> ch_hangup_cause b = ch_hangup_cause a \<and>
     ch_state_handlers b = ch_state_handlers a \<and> ch_state_handler_index b = ch_state_handler_index a \<and> ch_scope_variables b = ch_scope_variables a \<and>
     (ch_callstate a = CCS_HANGUP \<longrightarrow> ch_callstate b = CCS_HANGUP) \<and>
     (\<exists>es. ch_log b = ch_log a @ es \<and> list_all quiet es)"

definition rkeeps :: "switch_channel \<Rightarrow> switch_channel c_result \<Rightarrow> bool" where
  "rkeeps a r \<longleftrightarrow> (\<forall>b. r = Inr b \<longrightarrow> keeps a b)"

definition rsound :: "string set \<Rightarrow> switch_channel c_result \<Rightarrow> bool" where
  "rsound V r \<longleftrightarrow> (\<exists>b. r = Inr b \<and> chan_ok V b)"

lemma keeps_refl [chan_keeps]: "keeps a a"
  by (simp add: keeps_def)

lemma keeps_trans: "keeps a b \<Longrightarrow> keeps b c \<Longrightarrow> keeps a c"
  unfolding keeps_def by (elim conjE exE) (simp, blast?)

lemma keeps_emit [chan_keeps]: "quiet e \<Longrightarrow> keeps a b \<Longrightarrow> keeps a (emit e b)"
  by (auto simp: keeps_def emit_def)

lemma keeps_updates [chan_keeps]:
  "keeps a b \<Longrightarrow> keeps a (put_flag f v b)"
  "keeps a b \<Longrightarrow> keeps a (device_direction d b)"
  "keeps a b \<Longrightarrow> keeps a (b\<lparr>ch_logical_direction := l\<rparr>)"
  "keeps a b \<Longrightarrow> keeps a (b\<lparr>ch_hold_record := hr\<rparr>)"
  "keeps a b \<Longrightarrow> keeps a (b\<lparr>ch_caller_profile := p\<rparr>)"
  "keeps a b \<Longrightarrow> keeps a (b\<lparr>ch_variables := vs\<rparr>)"
  "keeps a b \<Longrightarrow> keeps a (b\<lparr>ch_running_state := st\<rparr>)"
  "keeps a b \<Longrightarrow> keeps a (b\<lparr>ch_state_flags := sf\<rparr>)"
  by (auto simp: keeps_def put_flag_def device_direction_def)

lemma keeps_callstate [chan_keeps]: "keeps a b \<Longrightarrow> keeps a (switch_channel_perform_set_callstate cs b)"
  by (auto simp: switch_channel_perform_set_callstate_def keeps_def emit_def SWITCH_EVENT_CHANNEL_CALLSTATE_def
      SWITCH_EVENT_CHANNEL_HANGUP_def SWITCH_EVENT_CHANNEL_HANGUP_COMPLETE_def)

lemma rkeeps_intros [chan_keeps]:
  "keeps a b \<Longrightarrow> rkeeps a (Inr b)"
  "rkeeps a (Inl e)"
  by (simp_all add: rkeeps_def)

lemma rkeeps_then [chan_keeps]: "rkeeps a r \<Longrightarrow> (\<And>b. keeps a b \<Longrightarrow> rkeeps a (g b)) \<Longrightarrow> rkeeps a (and_then r g)"
  by (cases r) (auto simp: rkeeps_def)

lemma rkeeps_value [chan_keeps]: "(\<And>v. rkeeps a (g v)) \<Longrightarrow> rkeeps a (and_then (switch_channel_get_variable env b n) g)"
  "(\<And>v. rkeeps a (g v)) \<Longrightarrow> rkeeps a (and_then (switch_channel_get_partner_uuid env b) g)"
  by (cases "switch_channel_get_variable env b n"; simp add: rkeeps_def) (cases "switch_channel_get_partner_uuid env b"; simp add: rkeeps_def)

lemma rkeeps_if [chan_keeps]: "(c \<Longrightarrow> rkeeps a r) \<Longrightarrow> (\<not> c \<Longrightarrow> rkeeps a s) \<Longrightarrow> rkeeps a (if c then r else s)"
  by simp

lemma keeps_if [chan_keeps]: "(c \<Longrightarrow> keeps a r) \<Longrightarrow> (\<not> c \<Longrightarrow> keeps a s) \<Longrightarrow> keeps a (if c then r else s)"
  by simp

lemma rkeeps_set_variable [chan_keeps]: "keeps a b \<Longrightarrow> rkeeps a (switch_channel_set_variable n v b)"
  by (auto simp: switch_channel_set_variable_def switch_channel_set_variable_var_check_def and_then_eq_Inr rkeeps_def
      switch_channel_add_variable_var_check_def split: option.splits if_splits intro: keeps_updates)

lemma rkeeps_times [chan_keeps]: "keeps a b \<Longrightarrow> rkeeps a (with_times f b)"
  by (auto simp: with_times_def rkeeps_def intro: keeps_updates split: option.splits)

lemma rkeeps_start_hold [chan_keeps]: "keeps a b \<Longrightarrow> rkeeps a (start_hold env b)"
  unfolding start_hold_def by (intro chan_keeps)

lemma keeps_hold_record [chan_keeps]:
  "keeps a b \<Longrightarrow> (\<And>r rs. keeps a (g r rs)) \<Longrightarrow> keeps a (case xs of [] \<Rightarrow> b | r # rs \<Rightarrow> g r rs)"
  by (cases xs) simp_all

lemma rkeeps_end_hold [chan_keeps]: "keeps a b \<Longrightarrow> rkeeps a (end_hold env b)"
  unfolding end_hold_def Let_def by (intro chan_keeps)

lemma rkeeps_set_flag [chan_keeps]: "keeps a b \<Longrightarrow> rkeeps a (switch_channel_set_flag_value env f v b)"
  unfolding switch_channel_set_flag_value_def Let_def by (intro chan_keeps; simp)

lemma rkeeps_clear_flag [chan_keeps]: "keeps a b \<Longrightarrow> rkeeps a (switch_channel_clear_flag env f b)"
  unfolding switch_channel_clear_flag_def Let_def by (intro chan_keeps; simp)

lemmas channel_events = SWITCH_EVENT_CHANNEL_HOLD_def SWITCH_EVENT_CHANNEL_UNHOLD_def SWITCH_EVENT_CHANNEL_STATE_def
  SWITCH_EVENT_CHANNEL_HANGUP_def SWITCH_EVENT_CHANNEL_HANGUP_COMPLETE_def SWITCH_EVENT_CHANNEL_CREATE_def
  SWITCH_EVENT_CHANNEL_ORIGINATE_def SWITCH_EVENT_CHANNEL_CALLSTATE_def

lemma rkeeps_mark_hold [chan_keeps]: "keeps a b \<Longrightarrow> rkeeps a (switch_channel_mark_hold env on b)"
  unfolding switch_channel_mark_hold_def by (intro chan_keeps; simp add: channel_events)

lemma keeps_state_flags [chan_keeps]: "keeps a b \<Longrightarrow> keeps a (take_state_flags b)"
proof -
  have step: "keeps a (state_flag_step x c)" if "keeps a c" for x c
    using that by (auto simp: state_flag_step_def keeps_def)
  have "keeps a (fold state_flag_step xs c)" if "keeps a c" for xs c
    using that by (induction xs arbitrary: c) (simp_all add: step)
  then show "keeps a b \<Longrightarrow> keeps a (take_state_flags b)"
    by (simp add: take_state_flags_def Let_def keeps_updates)
qed

lemma rkeeps_running_state [chan_keeps]: "keeps a b \<Longrightarrow> rkeeps a (switch_channel_perform_set_running_state env st b)"
  unfolding switch_channel_perform_set_running_state_def Let_def by (intro chan_keeps; simp add: channel_events)

text \<open>The same operations run without a fault on well-formed channels.\<close>

lemma chan_ok_updates [chan_sound]:
  "chan_ok V b \<Longrightarrow> chan_ok V (emit e b)"
  "chan_ok V b \<Longrightarrow> chan_ok V (put_flag f v b)"
  "chan_ok V b \<Longrightarrow> chan_ok V (device_direction d b)"
  "chan_ok V b \<Longrightarrow> chan_ok V (b\<lparr>ch_logical_direction := l\<rparr>)"
  "chan_ok V b \<Longrightarrow> chan_ok V (b\<lparr>ch_hold_record := hr\<rparr>)"
  "chan_ok V b \<Longrightarrow> chan_ok V (b\<lparr>ch_running_state := st\<rparr>)"
  "chan_ok V b \<Longrightarrow> chan_ok V (b\<lparr>ch_state := st\<rparr>)"
  "chan_ok V b \<Longrightarrow> chan_ok V (b\<lparr>ch_hangup_cause := c\<rparr>)"
  "chan_ok V b \<Longrightarrow> chan_ok V (b\<lparr>ch_opaque_flags := o'\<rparr>)"
  "chan_ok V b \<Longrightarrow> chan_ok V (switch_channel_perform_set_callstate cs b)"
  "chan_ok V b \<Longrightarrow> chan_ok V (state_flag_step x b)"
  "chan_ok V b \<Longrightarrow> chan_ok V (switch_channel_set_state_flag f b)"
  "chan_ok V b \<Longrightarrow> chan_ok V (b\<lparr>ch_state_flags := sf\<rparr>)"
  by (simp_all add: chan_ok_def emit_def put_flag_def device_direction_def switch_channel_perform_set_callstate_def
      state_flag_step_def switch_channel_set_state_flag_def)

lemma chan_ok_take_flags [chan_sound]: "chan_ok V b \<Longrightarrow> chan_ok V (take_state_flags b)"
proof -
  have "chan_ok V (fold state_flag_step xs c)" if "chan_ok V c" for xs c
    using that by (induction xs arbitrary: c) (simp_all add: chan_ok_updates)
  then show "chan_ok V b \<Longrightarrow> chan_ok V (take_state_flags b)" by (simp add: take_state_flags_def Let_def chan_ok_updates)
qed

lemma chan_ok_cases [chan_sound]:
  "(c \<Longrightarrow> chan_ok V r) \<Longrightarrow> (\<not> c \<Longrightarrow> chan_ok V s) \<Longrightarrow> chan_ok V (if c then r else s)"
  "chan_ok V b \<Longrightarrow> (\<And>r rs. chan_ok V (g r rs)) \<Longrightarrow> chan_ok V (case xs of [] \<Rightarrow> b | r # rs \<Rightarrow> g r rs)"
  by (simp_all split: list.split)

lemma rsound_intros [chan_sound]:
  "chan_ok V b \<Longrightarrow> rsound V (Inr b)"
  "(c \<Longrightarrow> rsound V r) \<Longrightarrow> (\<not> c \<Longrightarrow> rsound V s) \<Longrightarrow> rsound V (if c then r else s)"
  by (simp_all add: rsound_def)

lemma rsound_then [chan_sound]: "rsound V r \<Longrightarrow> (\<And>b. chan_ok V b \<Longrightarrow> rsound V (g b)) \<Longrightarrow> rsound V (and_then r g)"
  by (auto simp: rsound_def)

lemma rsound_value [chan_sound]:
  "chan_ok V b \<Longrightarrow> (\<And>v. rsound V (g v)) \<Longrightarrow> rsound V (and_then (switch_channel_get_variable env b n) g)"
  "chan_ok V b \<Longrightarrow> (\<And>v. rsound V (g v)) \<Longrightarrow> rsound V (and_then (switch_channel_get_partner_uuid env b) g)"
  using get_variable_ok [of V b env n] partner_uuid_ok [of V b env] by auto

lemma rsound_set_variable:
  assumes "names_ok V" and "chan_ok V b" and "map c_tolower n \<in> V" and "plain_name n" and "value_ok v"
  shows "rsound V (switch_channel_set_variable n v b)"
proof -
  obtain e where e: "ch_variables b = Some e" "vars_ok V e" using assms(2) by (auto simp: chan_ok_def)
  from set_variable_eq [OF assms(1) e assms(4,5)] vars_ok_update [OF e(2) assms(3)] assms(2) show ?thesis
    by (auto simp: rsound_def chan_ok_def)
qed

text \<open>The variables the core sets itself.\<close>

lemma tolower_digits [simp]:
  "c_tolower CHR ''0'' = CHR ''0''" "c_tolower CHR ''5'' = CHR ''5''" "c_tolower CHR ''8'' = CHR ''8''"
  by (simp_all add: c_tolower_def lower_lane_def char_of_def bit_0)

lemma rsound_core_variable [chan_sound]:
  assumes "names_ok V" and "chan_ok V b" and "value_ok v"
  shows "rsound V (switch_channel_set_variable ''is_outbound'' v b)" "rsound V (switch_channel_set_variable ''recovered'' v b)"
    "rsound V (switch_channel_set_variable ''last_bridge_role'' v b)" "rsound V (switch_channel_set_variable ''hangup_cause'' v b)"
    "rsound V (switch_channel_set_variable ''hangup_cause_q850'' v b)" "rsound V (switch_channel_set_variable ''call_uuid'' v b)"
  using assms by (intro rsound_set_variable; simp add: names_ok_def plain_name_def)+

lemma rsound_times [chan_sound]: "chan_ok V b \<Longrightarrow> rsound V (with_times f b)"
  by (auto simp: with_times_def rsound_def chan_ok_def profile_ok_def split: option.splits)

lemma rsound_start_hold [chan_sound]: "chan_ok V b \<Longrightarrow> rsound V (start_hold env b)"
  unfolding start_hold_def by (intro chan_sound)

lemma rsound_end_hold [chan_sound]: "chan_ok V b \<Longrightarrow> rsound V (end_hold env b)"
  unfolding end_hold_def Let_def by (intro chan_sound)

lemma value_ok_simps [chan_sound]: "value_ok None" "value_ok (Some ''true'')" "value_ok (Some ''originator'')" "value_ok (Some ''originatee'')"
  by (simp_all add: value_ok_def zstr_def plain_data_def)

lemma rsound_set_flag [chan_sound]: "names_ok V \<Longrightarrow> chan_ok V b \<Longrightarrow> rsound V (switch_channel_set_flag_value env f v b)"
  unfolding switch_channel_set_flag_value_def Let_def by (intro chan_sound)

lemma rsound_clear_flag [chan_sound]: "names_ok V \<Longrightarrow> chan_ok V b \<Longrightarrow> rsound V (switch_channel_clear_flag env f b)"
  unfolding switch_channel_clear_flag_def Let_def by (intro chan_sound)

lemma rsound_mark_hold [chan_sound]: "names_ok V \<Longrightarrow> chan_ok V b \<Longrightarrow> rsound V (switch_channel_mark_hold env on b)"
  unfolding switch_channel_mark_hold_def by (intro chan_sound)

lemma rsound_running_state [chan_sound]:
  "names_ok V \<Longrightarrow> chan_ok V b \<Longrightarrow> rsound V (switch_channel_perform_set_running_state env st b)"
  unfolding switch_channel_perform_set_running_state_def Let_def by (intro chan_sound)

section \<open>Names\<close>

lemma chart_name_mem:
  "distinct (map snd chart) \<Longrightarrow> (n, c) \<in> set chart \<Longrightarrow> chart_name chart c = n"
  by (induction chart) (force simp: image_iff)+

lemma chart_value_mem:
  "distinct (map (\<lambda>p. map c_tolower (fst p)) chart) \<Longrightarrow> (n, c) \<in> set chart \<Longrightarrow> chart_value chart n d = c"
proof (induction chart)
  case (Cons p chart)
  obtain m e where p: "p = (m, e)" by (cases p)
  show ?case
  proof (cases "p = (n, c)")
    case True
    then show ?thesis by (simp add: strcasecmp_eq_def)
  next
    case False
    with Cons.prems have m: "(n, c) \<in> set chart" by auto
    with Cons.prems(1) p have "map c_tolower m \<noteq> map c_tolower n" by (force simp: image_iff)
    with Cons m p show ?thesis by (simp add: strcasecmp_eq_def)
  qed
qed simp

definition upper_letters :: string where
  "upper_letters = ''ABCDEFGHIJKLMNOPQRSTUVWXYZ_''"

lemma upper_inj: "inj_on c_tolower (set upper_letters)"
  by (simp add: upper_letters_def inj_on_def)

lemma upper_distinct:
  assumes "distinct ns" and "\<forall>n\<in>set ns. set n \<subseteq> set upper_letters"
  shows "distinct (map (map c_tolower) ns)"
proof -
  have "inj_on c_tolower (set m \<union> set n)" if "m \<in> set ns" "n \<in> set ns" for m n
    using assms(2) that by (intro inj_on_subset [OF upper_inj]) blast
  then have "inj_on (map c_tolower) (set ns)" by (intro inj_onI) (blast intro: map_inj_on)
  with assms(1) show ?thesis by (simp add: distinct_map)
qed

lemma state_names_ok: "distinct state_names" "\<forall>n\<in>set state_names. set n \<subseteq> set upper_letters"
  by (simp_all add: state_names_def upper_letters_def)

lemma cause_names_ok: "distinct (map fst CAUSE_CHART)" "\<forall>n\<in>set (map fst CAUSE_CHART). set n \<subseteq> set upper_letters"
  by (simp_all add: CAUSE_CHART_def upper_letters_def)

lemma cause_codes: "distinct (map snd CAUSE_CHART)"
  by (simp add: CAUSE_CHART_def)

lemma callstate_names: "distinct (map snd CALLSTATE_CHART)" "distinct (map fst CALLSTATE_CHART)"
    "\<forall>n\<in>set (map fst CALLSTATE_CHART). set n \<subseteq> set upper_letters"
  by (simp_all add: CALLSTATE_CHART_def upper_letters_def)

lemma name_state_nth:
  "distinct (map (map c_tolower) ns) \<Longrightarrow> i < length ns \<Longrightarrow> name_state_loop (ns ! i) x ns = cs_of_num (x + i)"
proof (induction ns arbitrary: i x)
  case (Cons n ns)
  show ?case
  proof (cases i)
    case (Suc j)
    with Cons.prems have j: "j < length ns" by simp
    then have "map c_tolower n \<noteq> map c_tolower (ns ! j)" using Cons.prems(1) by (auto simp: image_iff)
    with Cons.IH [OF _ j, of "Suc x"] Cons.prems(1) Suc show ?thesis by (simp add: strcasecmp_eq_def)
  qed (simp add: strcasecmp_eq_def)
qed simp

lemma cs_of_num_num [simp]: "cs_of_num (cs_num s) = s" "cs_num s < length state_names"
  by (cases s; simp add: cs_of_num_def state_names_def)+

lemma first_letter: "set n \<subseteq> set upper_letters \<Longrightarrow> n \<noteq> [] \<Longrightarrow> \<not> c_isdigit (hd n)"
proof -
  assume "set n \<subseteq> set upper_letters" "n \<noteq> []"
  then have "hd n \<in> set upper_letters" by auto
  then show ?thesis by (auto simp: upper_letters_def c_isdigit_def)
qed

lemma chart_roundtrip:
  assumes "distinct (map snd chart)" "distinct (map fst chart)" "\<forall>n\<in>set (map fst chart). set n \<subseteq> set upper_letters"
    and "c \<in> set (map snd chart)"
  shows "\<exists>n. (n, c) \<in> set chart \<and> chart_name chart c = n \<and> chart_value chart n d = c"
proof -
  obtain n where n: "(n, c) \<in> set chart" using assms(4) by auto
  have "distinct (map (\<lambda>p. map c_tolower (fst p)) chart)" using upper_distinct [OF assms(2,3)] by (simp add: comp_def)
  with n chart_name_mem [OF assms(1) n] chart_value_mem [of chart n c d] show ?thesis by blast
qed

lemma chart_nonempty: "\<forall>n\<in>set (map fst CAUSE_CHART). n \<noteq> []" "\<forall>n\<in>set (map fst CALLSTATE_CHART). n \<noteq> []"
  by (simp_all add: CAUSE_CHART_def CALLSTATE_CHART_def)

lemma callstate_charted: "ccs_num cs \<in> set (map snd CALLSTATE_CHART)"
  by (cases cs) (simp_all add: CALLSTATE_CHART_def)

text \<open>The names of states, of call states and of hangup causes can be read back: looking up the name of any
  state, of any call state or of any charted cause gives the value, and every cause code that has no name is shown
  as \<^verbatim>\<open>UNKNOWN\<close>, which is read as a normal clearing.\<close>

theorem channel_names_roundtrip:
  "switch_channel_name_state (switch_channel_state_name s) = s \<and>
   switch_channel_str2callstate (switch_channel_callstate2str cs) = ccs_num cs \<and>
   switch_channel_str2cause (Some (switch_channel_cause2str c)) =
     (if c \<in> set (map snd CAUSE_CHART) then c else SWITCH_CAUSE_NORMAL_CLEARING)"
proof (intro conjI)
  show "switch_channel_name_state (switch_channel_state_name s) = s"
    using name_state_nth [OF upper_distinct [OF state_names_ok], of "cs_num s" 0]
    by (simp add: switch_channel_name_state_def switch_channel_state_name_def)
  show "switch_channel_str2callstate (switch_channel_callstate2str cs) = ccs_num cs"
    using chart_roundtrip [OF callstate_names callstate_charted [of cs], of 0] chart_nonempty(2) callstate_names(3)
    by (force simp: switch_channel_str2callstate_def switch_channel_callstate2str_def first_letter)
  show "switch_channel_str2cause (Some (switch_channel_cause2str c)) =
      (if c \<in> set (map snd CAUSE_CHART) then c else SWITCH_CAUSE_NORMAL_CLEARING)"
  proof (cases "c \<in> set (map snd CAUSE_CHART)")
    case True
    from chart_roundtrip [OF cause_codes cause_names_ok True, of SWITCH_CAUSE_NORMAL_CLEARING] chart_nonempty(1) cause_names_ok(2)
    show ?thesis using True by (force simp: switch_channel_str2cause_def switch_channel_cause2str_def first_letter)
  next
    case False
    have "chart_name chart c = ''UNKNOWN''" if "c \<notin> set (map snd chart)" for chart
      using that by (induction chart) auto
    moreover have "chart_value CAUSE_CHART ''UNKNOWN'' d = d" for d
      by (simp add: CAUSE_CHART_def strcasecmp_eq_def)
    ultimately show ?thesis using False by (simp add: switch_channel_str2cause_def switch_channel_cause2str_def c_isdigit_def)
  qed
qed

section \<open>Changing the state\<close>

lemma change_ok_running:
  "s < CS_HANGUP \<Longrightarrow> s \<noteq> st \<Longrightarrow> st \<le> CS_DESTROY \<Longrightarrow>
   change_ok s st \<longleftrightarrow> s \<in> {CS_NEW, CS_RESET} \<or> (st \<notin> {CS_NEW, CS_INIT} \<and> st < CS_HANGUP) \<or> (s = CS_HIBERNATE \<and> st = CS_INIT)"
  by (cases s; cases st) (simp_all add: cs_order)

lemma change_ok_ending:
  "CS_HANGUP \<le> s \<Longrightarrow> s < st \<Longrightarrow> st \<le> CS_DESTROY \<Longrightarrow> change_ok s st"
  by (cases s; cases st) (simp_all add: cs_order)

text \<open>C6: A request to change the state of a channel has exactly these outcomes. Before hangup a channel can go to
  every state between routing and reset; it can be initialised only when it is new, in reset or hibernating; and only
  from new and reset can it be sent to hangup or beyond: every other request crashes the process. From hangup on the
  state only grows: requests for an earlier state are ignored and never crash. The state changes and the session's
  thread is woken only when a change is accepted.\<close>

theorem channel_set_state:
  assumes "ch_state ch \<le> CS_DESTROY" and "st \<le> CS_DESTROY"
  shows "switch_channel_perform_set_state st ch =
    (if ch_state ch = st then Inr ch
     else if CS_HANGUP \<le> ch_state ch then
       Inr (if ch_state ch < st then emit Signal_State_Change (ch\<lparr>ch_state := st\<rparr>) else ch)
     else if ch_state ch \<in> {CS_NEW, CS_RESET} \<or> CS_ROUTING \<le> st \<and> st \<le> CS_RESET \<or> ch_state ch = CS_HIBERNATE \<and> st = CS_INIT then
       Inr (emit Signal_State_Change (ch\<lparr>ch_state := st,
         ch_hangup_cause := (if st = CS_HANGUP \<and> ch_hangup_cause ch = 0 then SWITCH_CAUSE_NORMAL_CLEARING else ch_hangup_cause ch)\<rparr>))
     else Inl Assert_Failed)"
proof (cases "ch_state ch = st")
  case ne: False
  have range: "CS_ROUTING \<le> st \<and> st \<le> CS_RESET \<longleftrightarrow> st \<notin> {CS_NEW, CS_INIT} \<and> st < CS_HANGUP"
    by (cases st) (simp_all add: cs_order)
  show ?thesis
  proof (cases "CS_HANGUP \<le> ch_state ch")
    case True
    then show ?thesis using ne assms change_ok_ending [of "ch_state ch" st]
      by (auto simp: switch_channel_perform_set_state_def Let_def emit_def)
  next
    case False
    then show ?thesis using ne assms change_ok_running [of "ch_state ch" st] range
      by (auto simp: switch_channel_perform_set_state_def Let_def)
  qed
qed (use assms in \<open>simp add: switch_channel_perform_set_state_def\<close>)

text \<open>A blank channel for examples.\<close>

definition demo_channel :: switch_channel where
  "demo_channel =
     \<lparr>ch_direction = SWITCH_CALL_DIRECTION_INBOUND, ch_logical_direction = SWITCH_CALL_DIRECTION_INBOUND, ch_state = CS_NEW,
      ch_running_state = CS_NONE, ch_callstate = CCS_DOWN, ch_flags = (\<lambda>_. 0), ch_caps = (\<lambda>_. 0), ch_state_flags = (\<lambda>_. 0),
      ch_private_flags = 0, ch_caller_profile = Some (demo_profile\<lparr>cp_times := Some no_times\<rparr>), ch_hunt_profile = None, ch_originator_profile = None,
      ch_originatee_profile = None, ch_hunt_originator_profile = None, ch_hunt_originatee_profile = None, ch_state_handlers = replicate SWITCH_MAX_STATE_HANDLERS None, ch_state_handler_index = 0,
      ch_variables = Some (blank_event\<lparr>ev_flags := EF_UNIQ_HEADERS\<rparr>), ch_scope_variables = [], ch_hangup_cause = 0,
      ch_opaque_flags = 0, ch_hold_record = [], ch_device_node = None, ch_log = []\<rparr>"

theorem channel_set_state_witness:
  "switch_channel_perform_set_state CS_INIT demo_channel =
     Inr (emit Signal_State_Change (demo_channel\<lparr>ch_state := CS_INIT, ch_hangup_cause := 0\<rparr>)) \<and>
   switch_channel_perform_set_state CS_HANGUP (demo_channel\<lparr>ch_state := CS_EXECUTE\<rparr>) = Inl Assert_Failed"
  using channel_set_state [of demo_channel CS_INIT] channel_set_state [of "demo_channel\<lparr>ch_state := CS_EXECUTE\<rparr>" CS_HANGUP]
  by (simp add: cs_order demo_channel_def)

section \<open>The table of state handlers\<close>

definition has_handlers :: "nat list \<Rightarrow> switch_channel \<Rightarrow> bool" where
  "has_handlers hs ch \<longleftrightarrow> distinct hs \<and> length hs < SWITCH_MAX_STATE_HANDLERS \<and> ch_state_handler_index ch = length hs \<and>
     ch_state_handlers ch = map Some hs @ replicate (SWITCH_MAX_STATE_HANDLERS - length hs) None"

lemma has_handlers_nth:
  "has_handlers hs ch \<Longrightarrow> i < SWITCH_MAX_STATE_HANDLERS \<Longrightarrow>
   ch_state_handlers ch ! i = (if i < length hs then Some (hs ! i) else None)"
  by (auto simp: has_handlers_def nth_append)

lemma get_handler: "has_handlers hs ch \<Longrightarrow> switch_channel_get_state_handler ch i = (if i < length hs then Some (hs ! i) else None)"
  using has_handlers_nth [of hs ch i] by (auto simp: switch_channel_get_state_handler_def has_handlers_def)

lemma find_handler:
  assumes "has_handlers hs ch"
  shows "find (\<lambda>x. ch_state_handlers ch ! x = Some a) [0..<SWITCH_MAX_STATE_HANDLERS] = None \<longleftrightarrow> a \<notin> set hs"
proof -
  have "length hs < SWITCH_MAX_STATE_HANDLERS" using assms by (simp add: has_handlers_def)
  moreover have "ch_state_handlers ch ! i = Some a \<longleftrightarrow> i < length hs \<and> hs ! i = a" if "i < SWITCH_MAX_STATE_HANDLERS" for i
    using has_handlers_nth [OF assms that] by auto
  ultimately show ?thesis by (auto simp: find_None_iff in_set_conv_nth) (metis less_trans)
qed

lemma add_handler_known:
  assumes "has_handlers hs ch" and "a \<in> set hs"
  shows "\<exists>i. i < length hs \<and> hs ! i = a \<and> switch_channel_add_state_handler a ch = (int i, ch)"
proof -
  obtain i where i: "find (\<lambda>x. ch_state_handlers ch ! x = Some a) [0..<SWITCH_MAX_STATE_HANDLERS] = Some i"
    using find_handler [OF assms(1), of a] assms(2) by auto
  then have "i < SWITCH_MAX_STATE_HANDLERS" "ch_state_handlers ch ! i = Some a" by (auto simp: find_Some_iff)
  with has_handlers_nth [OF assms(1), of i] i show ?thesis
    by (auto simp: switch_channel_add_state_handler_def split: if_splits)
qed

lemma add_handler_new:
  assumes "has_handlers hs ch" and "a \<notin> set hs" and "Suc (length hs) < SWITCH_MAX_STATE_HANDLERS"
  shows "\<exists>ch'. switch_channel_add_state_handler a ch = (int (length hs), ch') \<and> has_handlers (hs @ [a]) ch'"
proof -
  obtain k where k: "SWITCH_MAX_STATE_HANDLERS - length hs = Suc k" using assms(3) by (cases "SWITCH_MAX_STATE_HANDLERS - length hs") auto
  then have k': "SWITCH_MAX_STATE_HANDLERS - Suc (length hs) = k" by simp
  have "(map Some hs @ replicate (Suc k) None)[length hs := Some a] = map Some (hs @ [a]) @ replicate k None"
    by (simp add: list_update_append)
  moreover have "find (\<lambda>x. ch_state_handlers ch ! x = Some a) [0..<SWITCH_MAX_STATE_HANDLERS] = None"
    using find_handler [OF assms(1)] assms(2) by simp
  ultimately show ?thesis using assms k k'
    by (simp add: switch_channel_add_state_handler_def has_handlers_def Let_def)
qed

lemma add_handler_full:
  assumes "find (\<lambda>x. ch_state_handlers ch ! x = Some a) [0..<SWITCH_MAX_STATE_HANDLERS] = None"
    and "SWITCH_MAX_STATE_HANDLERS \<le> Suc (ch_state_handler_index ch)"
  shows "switch_channel_add_state_handler a ch = (-1, ch\<lparr>ch_state_handler_index := Suc (ch_state_handler_index ch)\<rparr>)"
  using assms by (simp add: switch_channel_add_state_handler_def)

lemma keep_handlers_kept:
  "i \<le> n \<Longrightarrow> n \<le> length hs \<Longrightarrow> k \<le> i \<Longrightarrow> length new = length hs \<Longrightarrow>
   \<exists>new'. keep_handlers keep hs [i..<n] new k = Inr (new', k + length (filter keep (map ((!) hs) [i..<n]))) \<and>
     length new' = length hs \<and>
     take (k + length (filter keep (map ((!) hs) [i..<n]))) new' = take k new @ filter keep (map ((!) hs) [i..<n])"
proof (induction "n - i" arbitrary: i k new)
  case (Suc m)
  then have up: "[i..<n] = i # [Suc i..<n]" by (simp add: upt_conv_Cons)
  show ?case
  proof (cases "keep (hs ! i)")
    case True
    let ?new = "new[k := hs ! i]"
    have "take (Suc k) ?new = take k new @ [hs ! i]" using Suc.prems Suc.hyps(2) by (simp add: take_Suc_conv_app_nth)
    moreover have "\<exists>new'. keep_handlers keep hs [Suc i..<n] ?new (Suc k) =
        Inr (new', Suc k + length (filter keep (map ((!) hs) [Suc i..<n]))) \<and> length new' = length hs \<and>
        take (Suc k + length (filter keep (map ((!) hs) [Suc i..<n]))) new' =
          take (Suc k) ?new @ filter keep (map ((!) hs) [Suc i..<n])"
      using Suc.hyps(2) Suc.prems by (intro Suc.hyps(1)) auto
    ultimately show ?thesis using True up Suc.prems Suc.hyps(2) by auto
  next
    case False
    with Suc.hyps(1) [of "Suc i" k new] Suc.hyps(2) Suc.prems up show ?thesis by auto
  qed
qed auto

lemma keep_handlers_overrun:
  "i \<le> length hs \<Longrightarrow> length hs < n \<Longrightarrow> k \<le> i \<Longrightarrow> length new = length hs \<Longrightarrow>
   keep_handlers keep hs [i..<n] new k = Inl Out_Of_Bounds"
proof (induction "n - i" arbitrary: i k new)
  case (Suc m)
  then have up: "[i..<n] = i # [Suc i..<n]" by (simp add: upt_conv_Cons)
  show ?case
  proof (cases "i = length hs")
    case False
    with Suc.hyps(1) [of "Suc i" k new] Suc.hyps(1) [of "Suc i" "Suc k" "new[k := hs ! i]"] Suc.hyps(2) Suc.prems up
    show ?thesis by auto
  next
    case True
    show ?thesis unfolding up using True by simp
  qed
qed auto

lemma clear_handlers:
  assumes "has_handlers hs ch"
  shows "\<exists>ch'. switch_channel_clear_state_handler tf h ch = Inr ch' \<and> has_handlers (filter (\<lambda>a. keep_handler tf h (Some a)) hs) ch'"
proof -
  let ?keep = "keep_handler tf h"
  let ?F = "filter ?keep (map ((!) (ch_state_handlers ch)) [0..<length hs])"
  have len: "length (ch_state_handlers ch) = SWITCH_MAX_STATE_HANDLERS" and lt: "length hs < SWITCH_MAX_STATE_HANDLERS"
    and idx: "ch_state_handler_index ch = length hs" using assms by (auto simp: has_handlers_def)
  have "map ((!) (ch_state_handlers ch)) [0..<length hs] = map Some hs"
    using has_handlers_nth [OF assms] lt by (intro nth_equalityI) auto
  then have F: "?F = map Some (filter (\<lambda>a. ?keep (Some a)) hs)" by (simp add: filter_map comp_def)
  obtain new where new: "keep_handlers ?keep (ch_state_handlers ch) [0..<length hs] (replicate SWITCH_MAX_STATE_HANDLERS None) 0 =
      Inr (new, length ?F)" "take (length ?F) new = ?F"
    using keep_handlers_kept [of 0 "length hs" "ch_state_handlers ch" 0 "replicate SWITCH_MAX_STATE_HANDLERS None" ?keep] len lt by auto
  have "length (filter (\<lambda>a. ?keep (Some a)) hs) < SWITCH_MAX_STATE_HANDLERS"
    using lt length_filter_le [of _ hs] le_less_trans by blast
  with new F idx assms show ?thesis
    by (simp add: switch_channel_clear_state_handler_def has_handlers_def)
qed

datatype handler_call = Add_Handler nat | Clear_Handler "nat option"

definition handler_step :: "(nat \<Rightarrow> uint32_t) \<Rightarrow> handler_call \<Rightarrow> switch_channel \<Rightarrow> switch_channel c_result" where
  "handler_step tf c ch =
     (case c of Add_Handler a \<Rightarrow> Inr (snd (switch_channel_add_state_handler a ch))
      | Clear_Handler h \<Rightarrow> switch_channel_clear_state_handler tf h ch)"

text \<open>The handlers as a list without repetitions.\<close>

fun list_step :: "(nat \<Rightarrow> uint32_t) \<Rightarrow> handler_call \<Rightarrow> nat list \<Rightarrow> nat list" where
  "list_step tf (Add_Handler a) hs = (if a \<in> set hs then hs else hs @ [a])"
| "list_step tf (Clear_Handler (Some a)) hs = filter (\<lambda>b. b \<noteq> a) hs"
| "list_step tf (Clear_Handler None) hs = filter (\<lambda>b. test_flag (tf b) SSH_FLAG_STICKY) hs"

definition added_handlers :: "handler_call list \<Rightarrow> nat set" where
  "added_handlers cs = {a. Add_Handler a \<in> set cs}"

lemma handler_run:
  assumes "has_handlers hs ch" and "card (set hs \<union> added_handlers cs) < SWITCH_MAX_STATE_HANDLERS"
  shows "\<exists>ch'. for_each (handler_step tf) cs ch = Inr ch' \<and> has_handlers (fold (list_step tf) cs hs) ch'"
  using assms
proof (induction cs arbitrary: ch hs)
  case (Cons c cs)
  have fin: "finite (added_handlers ds)" for ds
    by (rule finite_subset [of _ "(\<lambda>c. case c of Add_Handler a \<Rightarrow> a | _ \<Rightarrow> 0) ` set ds"]) (auto simp: added_handlers_def intro: rev_image_eqI)
  have sub: "set (list_step tf c hs) \<union> added_handlers cs \<subseteq> set hs \<union> added_handlers (c # cs)"
    by (cases "(tf, c, hs)" rule: list_step.cases) (auto simp: added_handlers_def)
  then have small: "card (set (list_step tf c hs) \<union> added_handlers cs) < SWITCH_MAX_STATE_HANDLERS"
    using Cons.prems(2) card_mono [OF _ sub] fin by (meson List.finite_set finite_UnI le_less_trans)
  have "\<exists>ch1. handler_step tf c ch = Inr ch1 \<and> has_handlers (list_step tf c hs) ch1"
  proof (cases c)
    case (Add_Handler a)
    show ?thesis
    proof (cases "a \<in> set hs")
      case True
      with add_handler_known [OF Cons.prems(1) True] Add_Handler Cons.prems(1) show ?thesis by (auto simp: handler_step_def)
    next
      case False
      have "card (set (hs @ [a])) \<le> card (set hs \<union> added_handlers (c # cs))"
        using Add_Handler fin by (intro card_mono) (auto simp: added_handlers_def)
      moreover have "distinct (hs @ [a])" using Cons.prems(1) False by (simp add: has_handlers_def)
      ultimately have "Suc (length hs) < SWITCH_MAX_STATE_HANDLERS"
        using Cons.prems(2) distinct_card [of "hs @ [a]"] by simp
      from add_handler_new [OF Cons.prems(1) False this] Add_Handler False show ?thesis by (auto simp: handler_step_def)
    qed
  next
    case (Clear_Handler h)
    then have "list_step tf c hs = filter (\<lambda>a. keep_handler tf h (Some a)) hs" by (cases h) (simp_all add: keep_handler_def)
    with clear_handlers [OF Cons.prems(1), of tf h] Clear_Handler show ?thesis by (auto simp: handler_step_def)
  qed
  then obtain ch1 where ch1: "handler_step tf c ch = Inr ch1" "has_handlers (list_step tf c hs) ch1" by blast
  from Cons.IH [OF ch1(2) small] ch1(1) show ?case by simp
qed simp

lemma demo_handlers: "has_handlers [] demo_channel"
  by (simp add: has_handlers_def demo_channel_def SWITCH_MAX_STATE_HANDLERS_def)

text \<open>C16: The table of state handlers is a list without repetitions. Any sequence of calls that add at most 29
  different handlers, remove single handlers or clear all that are not sticky runs on a channel without handlers without
  a fault, and afterwards the handlers are found at the positions 0, 1, ... in the order of their addition, with no gaps
  and nothing behind the last one.\<close>

theorem channel_handlers:
  assumes "has_handlers [] ch" and "card (added_handlers cs) < SWITCH_MAX_STATE_HANDLERS"
  shows "\<exists>ch'. for_each (handler_step tf) cs ch = Inr ch' \<and>
    (\<forall>i. switch_channel_get_state_handler ch' i =
       (let hs = fold (list_step tf) cs [] in if i < length hs then Some (hs ! i) else None))"
  using handler_run [OF assms(1), of cs tf] assms(2) by (auto simp: get_handler Let_def)

theorem channel_handlers_witness:
  "\<exists>ch'. for_each (handler_step (\<lambda>_. 0)) [Add_Handler 7, Add_Handler 8, Add_Handler 7, Clear_Handler (Some 7)] demo_channel = Inr ch' \<and>
     switch_channel_get_state_handler ch' 0 = Some 8"
proof -
  have "added_handlers [Add_Handler 7, Add_Handler 8, Add_Handler 7, Clear_Handler (Some 7)] = {7, 8}"
    by (auto simp: added_handlers_def)
  then show ?thesis
    using channel_handlers [OF demo_handlers, of "[Add_Handler 7, Add_Handler 8, Add_Handler 7, Clear_Handler (Some 7)]" "\<lambda>_. 0"]
    by (auto simp: SWITCH_MAX_STATE_HANDLERS_def Let_def)
qed

text \<open>Refused handlers are counted. When two more handlers are added to a channel that holds 29, both calls
  answer -1, but every later call that removes handlers reads behind the end of the table.\<close>

theorem channel_handlers_overrun:
  assumes "has_handlers hs ch" and "length hs = 29" and "a \<notin> set hs" and "b \<notin> set hs"
  shows "\<exists>ch1 ch2. switch_channel_add_state_handler a ch = (-1, ch1) \<and> switch_channel_add_state_handler b ch1 = (-1, ch2) \<and>
    switch_channel_clear_state_handler tf h ch2 = Inl Out_Of_Bounds"
proof -
  let ?ch1 = "ch\<lparr>ch_state_handler_index := 30\<rparr>" and ?ch2 = "ch\<lparr>ch_state_handler_index := 31\<rparr>"
  have idx: "ch_state_handler_index ch = 29" and len: "length (ch_state_handlers ch) = 30"
    using assms(1,2) by (auto simp: has_handlers_def SWITCH_MAX_STATE_HANDLERS_def)
  have "switch_channel_add_state_handler a ch = (-1, ?ch1)"
    using add_handler_full [of ch a] find_handler [OF assms(1), of a] assms(3) idx by (simp add: SWITCH_MAX_STATE_HANDLERS_def)
  moreover have "switch_channel_add_state_handler b ?ch1 = (-1, ?ch2)"
    using add_handler_full [of ?ch1 b] find_handler [OF assms(1), of b] assms(4) by (simp add: SWITCH_MAX_STATE_HANDLERS_def)
  moreover have "keep_handlers (keep_handler tf h) (ch_state_handlers ch) [0..<31] (replicate 30 None) 0 = Inl Out_Of_Bounds"
    using keep_handlers_overrun [of 0 "ch_state_handlers ch" 31 0 "replicate 30 None"] len by simp
  ultimately show ?thesis
    by (intro exI [of _ ?ch1] exI [of _ ?ch2]) (simp add: switch_channel_clear_state_handler_def SWITCH_MAX_STATE_HANDLERS_def)
qed

definition crowded_channel :: switch_channel where
  "crowded_channel = demo_channel\<lparr>ch_state_handlers := map Some [0..<29] @ [None], ch_state_handler_index := 29\<rparr>"

theorem channel_handlers_overrun_witness:
  "\<exists>ch1 ch2. switch_channel_add_state_handler 50 crowded_channel = (-1, ch1) \<and>
     switch_channel_add_state_handler 51 ch1 = (-1, ch2) \<and>
     switch_channel_clear_state_handler (\<lambda>_. 0) None ch2 = Inl Out_Of_Bounds"
proof -
  have "has_handlers [0..<29] crowded_channel"
    by (simp add: has_handlers_def crowded_channel_def SWITCH_MAX_STATE_HANDLERS_def)
  then show ?thesis by (rule channel_handlers_overrun) simp_all
qed

section \<open>Reading variables\<close>

lemma get_idx_find: "ev_inv e \<Longrightarrow> switch_event_get_header_idx e (Some n) (- 1) =
    Inr (case find (same_name n) (ev_headers e) of
           Some h \<Rightarrow> eh_value h | None \<Rightarrow> if n = ''_body'' then ev_body e else None)"
  using get_header_find [of e n] by (simp add: switch_event_get_header_def)

lemma var_update_get:
  assumes "vars_ok V e" and "n \<noteq> []" and "plain_name m" and "v \<noteq> []" and "\<not> switch_string_var_check_const v"
  shows "switch_event_get_header_idx (var_update n (Some v) e) (Some m) (- 1) =
    (if strcasecmp_eq n m then Inr (Some v) else switch_event_get_header_idx e (Some m) (- 1))"
proof -
  have inv: "ev_inv e" using assms(1) by (simp add: vars_ok_def)
  let ?e = "with_headers (filter (\<lambda>h. \<not> same_name n h) (ev_headers e) @ [scalar_header n v]) e"
  have upd: "var_update n (Some v) e = ?e" using assms(2,4,5) by (simp add: var_update_def zstr_def)
  have inv': "ev_inv ?e" using inv by (auto simp: ev_inv_with_headers ev_inv_def)
  show ?thesis unfolding upd using inv inv' assms(3)
    by (auto simp: get_idx_find find_append find_without plain_name_def split: option.splits)
qed

lemma get_variable_unfold:
  "m \<noteq> [] \<Longrightarrow> switch_channel_get_variable env ch m =
     and_then (scope_lookup (ch_scope_variables ch) m (- 1)) (\<lambda>v.
       if v \<noteq> None then Inr v
       else and_then (case ch_variables ch of None \<Rightarrow> Inr None | Some e \<Rightarrow> switch_event_get_header_idx e (Some m) (- 1)) (\<lambda>v.
         if v \<noteq> None then Inr v
         else (let (cp, name) = leg_profile ch m in
           and_then (case cp of None \<Rightarrow> Inr None | Some p \<Rightarrow> switch_caller_get_field_by_name p name) (\<lambda>v.
             if v \<noteq> None then Inr v else Inr (ce_globals env name)))))"
  by (simp add: switch_channel_get_variable_def switch_channel_get_variable_dup_def zstr_def)

lemma leg_profile_variables [simp]: "leg_profile (ch\<lparr>ch_variables := vs\<rparr>) m = leg_profile ch m"
  by (simp add: leg_profile_def profile_legs_def switch_channel_get_caller_profile_def split: option.split)

text \<open>C15: Channel variables. Setting a variable to a plain value without a variable reference succeeds; reading a name
  then gives the value of the innermost scope that has it, otherwise the new value if the names agree up to case, and
  otherwise what it gave before. A value with a variable reference is not stored. A pushed scope hides the variables
  below it until it is popped.\<close>

theorem channel_variables:
  assumes "names_ok V" and "chan_ok V ch" and "n \<noteq> []" and "plain_name n"
    and "plain_data v" and "\<not> switch_string_var_check_const v" and "switch_string_var_check_const w" and "plain_data w"
    and "m \<noteq> []" and "plain_name m"
  shows "\<exists>ch'. switch_channel_set_variable n (Some v) ch = Inr ch' \<and>
      switch_channel_get_variable env ch' m =
        (if strcasecmp_eq n m then and_then (scope_lookup (ch_scope_variables ch) m (- 1)) (\<lambda>s. Inr (if s \<noteq> None then s else Some v))
         else switch_channel_get_variable env ch m) \<and>
      switch_channel_set_variable n (Some w) ch = Inr ch \<and>
      (\<forall>scope d. switch_event_get_header scope (Some m) = Inr (Some d) \<longrightarrow>
        switch_channel_get_variable env (switch_channel_set_scope_variables (Some scope) ch') m = Inr (Some d) \<and>
        switch_channel_set_scope_variables None (switch_channel_set_scope_variables (Some scope) ch') = ch')"
proof -
  obtain e where e: "ch_variables ch = Some e" "vars_ok V e" using assms(2) by (auto simp: chan_ok_def)
  let ?ch = "ch\<lparr>ch_variables := Some (var_update n (Some v) e)\<rparr>"
  have v: "v \<noteq> []" "w \<noteq> []" using assms(5,8) by (simp_all add: plain_data_def)
  have "value_ok (Some v)" "value_ok (Some w)" using assms(5,8) by (simp_all add: value_ok_def)
  then have set: "switch_channel_set_variable n (Some v) ch = Inr ?ch"
      "switch_channel_set_variable n (Some w) ch = Inr (ch\<lparr>ch_variables := Some (var_update n (Some w) e)\<rparr>)"
    by (simp_all add: set_variable_eq [OF assms(1) e assms(4)])
  have "var_update n (Some w) e = e" using assms(3,7) v by (simp add: var_update_def zstr_def)
  then have same: "ch\<lparr>ch_variables := Some (var_update n (Some w) e)\<rparr> = ch" using e by simp
  obtain s where s: "scope_lookup (ch_scope_variables ch) m (- 1) = Inr s" using scope_lookup_ok by blast
  have get: "switch_channel_get_variable env ?ch m =
      (if strcasecmp_eq n m then and_then (scope_lookup (ch_scope_variables ch) m (- 1)) (\<lambda>s. Inr (if s \<noteq> None then s else Some v))
       else switch_channel_get_variable env ch m)"
    using var_update_get [OF e(2) assms(3,10) v(1) assms(6)] e(1) s by (simp add: get_variable_unfold [OF assms(9)] cong: if_cong)
  show ?thesis
    using set same get assms(9)
    by (intro exI [of _ ?ch]) (auto simp: switch_channel_set_scope_variables_def get_variable_unfold switch_event_get_header_def)
qed

definition demo_names :: "string set" where
  "demo_names = {''is_outbound'', ''recovered'', ''last_bridge_role'', ''hangup_cause'', ''hangup_cause_q850'', ''call_uuid'', ''color''}"

lemma demo_names_ok: "names_ok demo_names"
proof -
  have "card demo_names \<le> length [''is_outbound'', ''recovered'', ''last_bridge_role'', ''hangup_cause'', ''hangup_cause_q850'', ''call_uuid'', ''color'']"
    unfolding demo_names_def by (rule order_trans [OF _ card_length]) simp
  then show ?thesis by (simp add: names_ok_def demo_names_def)
qed

lemma demo_channel_ok: "chan_ok V demo_channel"
  by (simp add: chan_ok_def demo_channel_def profile_ok_def vars_ok_def
      blank_event_def ev_inv_def tail_of_def uniq_names_def test_flag_def EF_UNIQ_HEADERS_def Let_def)

theorem channel_variables_witness:
  "\<exists>ch'. switch_channel_set_variable ''color'' (Some ''red'') demo_channel = Inr ch' \<and>
     switch_channel_get_variable \<lparr>ce_now = 1, ce_globals = (\<lambda>_. None)\<rparr> ch' ''Color'' = Inr (Some ''red'')"
proof -
  have "plain_name ''color''" "plain_name ''Color''" "plain_data ''red''" "plain_data ''${x}''"
    "\<not> switch_string_var_check_const ''red''" "switch_string_var_check_const ''${x}''"
    by (simp_all add: plain_name_def plain_data_def switch_string_var_check_const_def)
  from channel_variables [OF demo_names_ok demo_channel_ok _ this(1,3,5,6,4) _ this(2), of "\<lparr>ce_now = 1, ce_globals = (\<lambda>_. None)\<rparr>"]
  show ?thesis by (auto simp: strcasecmp_eq_def demo_channel_def)
qed

section \<open>Holding a call\<close>

lemma chan_times: "chan_ok V ch \<Longrightarrow> \<exists>p t. ch_caller_profile ch = Some p \<and> cp_times p = Some t"
  by (auto simp: chan_ok_def profile_ok_def)

lemma hold_on:
  assumes ok: "chan_ok V ch" and a: "chan_flag ch CF_ANSWERED" and h: "\<not> chan_flag ch CF_LEG_HOLDING"
    and cs: "ch_callstate ch \<noteq> CCS_HELD" "ch_callstate ch \<noteq> CCS_HANGUP"
    and p: "ch_caller_profile ch = Some p" "cp_times p = Some t"
  shows "\<exists>ch' uuid. switch_channel_mark_hold env True ch = Inr ch' \<and> chan_ok V ch' \<and> ch_callstate ch' = CCS_HELD \<and>
    ch_flags ch' = (ch_flags ch)(CF_LEG_HOLDING := 1) \<and>
    ch_caller_profile ch' = Some (p\<lparr>cp_times := Some (t\<lparr>tt_last_hold := ce_now env\<rparr>)\<rparr>) \<and>
    ch_hold_record ch' = \<lparr>hr_on = ce_now env, hr_off = 0, hr_uuid = uuid\<rparr> # ch_hold_record ch"
proof -
  let ?c = "put_flag CF_LEG_HOLDING 1 ch"
  obtain u where u: "switch_channel_get_partner_uuid env ?c = Inr u" using partner_uuid_ok chan_ok_updates(2) [OF ok] by blast
  let ?d = "switch_channel_perform_set_callstate CCS_HELD ?c"
  let ?e = "?d\<lparr>ch_caller_profile := Some (p\<lparr>cp_times := Some (t\<lparr>tt_last_hold := ce_now env\<rparr>)\<rparr>),
    ch_hold_record := \<lparr>hr_on = ce_now env, hr_off = 0, hr_uuid = u\<rparr> # ch_hold_record ch\<rparr>"
  have d: "ch_caller_profile ?d = Some p" "ch_hold_record ?d = ch_hold_record ch" "ch_callstate ?d = CCS_HELD" "ch_flags ?d = ch_flags ?c"
    using p cs by (simp_all add: switch_channel_perform_set_callstate_def emit_def put_flag_def)
  have hold: "start_hold env ?c = Inr ?e" using u d p by (simp add: start_hold_def with_times_def)
  have set: "switch_channel_set_flag env CF_LEG_HOLDING ch = Inr ?e"
    using a h hold by (simp add: switch_channel_set_flag_value_def cf_defs)
  let ?f = "emit (Fire_Event SWITCH_EVENT_CHANNEL_HOLD) ?e"
  have "chan_ok V ?f" using rsound_start_hold [OF chan_ok_updates(2) [OF ok], of env CF_LEG_HOLDING 1] hold
    by (auto simp: rsound_def intro: chan_ok_updates)
  moreover from this obtain x where "switch_channel_get_variable env ?f ''flip_record_on_hold'' = Inr x" using get_variable_ok by blast
  ultimately show ?thesis using h set d
    by (simp add: switch_channel_mark_hold_def chan_ok_updates) (simp add: emit_def put_flag_def)
qed

lemma hold_off:
  assumes ok: "chan_ok V ch" and a: "chan_flag ch CF_ANSWERED" and h: "chan_flag ch CF_LEG_HOLDING"
    and cs: "ch_callstate ch = CCS_HELD" and r: "ch_hold_record ch = r # rs"
    and p: "ch_caller_profile ch = Some p" "cp_times p = Some t"
  shows "\<exists>ch'. switch_channel_mark_hold env False ch = Inr ch' \<and> chan_ok V ch' \<and>
    ch_callstate ch' = (if chan_flag ch CF_PROXY_MODE \<and> chan_flag ch CF_BRIDGED then CCS_ACTIVE else CCS_UNHELD) \<and>
    ch_flags ch' = (ch_flags ch)(CF_LEG_HOLDING := 0) \<and>
    ch_caller_profile ch' = Some (p\<lparr>cp_times := Some (if tt_last_hold t \<noteq> 0
        then t\<lparr>tt_hold_accum := tt_hold_accum t + (ce_now env - tt_last_hold t)\<rparr> else t)\<rparr>) \<and>
    ch_hold_record ch' = r\<lparr>hr_off := ce_now env\<rparr> # rs"
proof -
  let ?c = "put_flag CF_LEG_HOLDING 0 ch"
  let ?d = "switch_channel_perform_set_callstate CCS_UNHELD ?c"
  let ?t = "if tt_last_hold t \<noteq> 0 then t\<lparr>tt_hold_accum := tt_hold_accum t + (ce_now env - tt_last_hold t)\<rparr> else t"
  let ?e = "?d\<lparr>ch_caller_profile := Some (p\<lparr>cp_times := Some ?t\<rparr>), ch_hold_record := r\<lparr>hr_off := ce_now env\<rparr> # rs\<rparr>"
  let ?f = "if chan_flag ch CF_PROXY_MODE \<and> chan_flag ch CF_BRIDGED then switch_channel_perform_set_callstate CCS_ACTIVE ?e else ?e"
  have d: "ch_caller_profile ?d = Some p" "ch_hold_record ?d = r # rs" "ch_callstate ?d = CCS_UNHELD" "ch_flags ?d = ch_flags ?c"
    using p r cs by (simp_all add: switch_channel_perform_set_callstate_def emit_def put_flag_def)
  have other: "ch_flags ?c CF_PROXY_MODE = ch_flags ch CF_PROXY_MODE" "ch_flags ?c CF_BRIDGED = ch_flags ch CF_BRIDGED"
    by (simp_all add: put_flag_def cf_defs)
  have off: "end_hold env ?c = Inr ?f" using d p other by (simp add: end_hold_def with_times_def Let_def)
  have clear: "switch_channel_clear_flag env CF_LEG_HOLDING ch = Inr ?f"
    using a h off by (simp add: switch_channel_clear_flag_def cf_defs)
  have "chan_ok V ?f" using rsound_end_hold [OF chan_ok_updates(2) [OF ok], of env CF_LEG_HOLDING 0] off by (auto simp: rsound_def)
  with clear h d show ?thesis
    by (auto simp: switch_channel_mark_hold_def chan_ok_updates) (auto simp: emit_def put_flag_def switch_channel_perform_set_callstate_def)
qed

text \<open>C33: Holding a call. Putting an answered call on hold and taking it off again runs without a fault. Meanwhile
  the call is held; afterwards it is no longer held, or active at once when the channel is bridged in proxy mode. The
  newest hold record has both times, older ones are unchanged, and the accumulated hold time grows by the time between
  the two calls.\<close>

theorem channel_hold:
  assumes "chan_ok V ch" and "chan_flag ch CF_ANSWERED" and "\<not> chan_flag ch CF_LEG_HOLDING"
    and "ch_callstate ch \<noteq> CCS_HELD" and "ch_callstate ch \<noteq> CCS_HANGUP"
    and "ch_caller_profile ch = Some p" and "cp_times p = Some t" and "ce_now on \<noteq> 0"
  shows "\<exists>held ch'. switch_channel_mark_hold on True ch = Inr held \<and> switch_channel_mark_hold off False held = Inr ch' \<and>
    ch_callstate held = CCS_HELD \<and>
    ch_callstate ch' = (if chan_flag ch CF_PROXY_MODE \<and> chan_flag ch CF_BRIDGED then CCS_ACTIVE else CCS_UNHELD) \<and>
    (\<exists>uuid. ch_hold_record ch' = \<lparr>hr_on = ce_now on, hr_off = ce_now off, hr_uuid = uuid\<rparr> # ch_hold_record ch) \<and>
    ch_caller_profile ch' = Some (p\<lparr>cp_times := Some (t\<lparr>tt_last_hold := ce_now on,
      tt_hold_accum := tt_hold_accum t + (ce_now off - ce_now on)\<rparr>)\<rparr>)"
proof -
  obtain held uuid where held: "switch_channel_mark_hold on True ch = Inr held" "chan_ok V held" "ch_callstate held = CCS_HELD"
    "ch_flags held = (ch_flags ch)(CF_LEG_HOLDING := 1)"
    "ch_caller_profile held = Some (p\<lparr>cp_times := Some (t\<lparr>tt_last_hold := ce_now on\<rparr>)\<rparr>)"
    "ch_hold_record held = \<lparr>hr_on = ce_now on, hr_off = 0, hr_uuid = uuid\<rparr> # ch_hold_record ch"
    using hold_on [OF assms(1-7), of on] by blast
  have fl: "chan_flag held CF_ANSWERED" "chan_flag held CF_LEG_HOLDING" "chan_flag held CF_PROXY_MODE = chan_flag ch CF_PROXY_MODE"
    "chan_flag held CF_BRIDGED = chan_flag ch CF_BRIDGED"
    using held(4) assms(2) by (simp_all add: cf_defs)
  have times: "cp_times (p\<lparr>cp_times := Some (t\<lparr>tt_last_hold := ce_now on\<rparr>)\<rparr>) = Some (t\<lparr>tt_last_hold := ce_now on\<rparr>)" by simp
  obtain ch' where ch': "switch_channel_mark_hold off False held = Inr ch'"
    "ch_callstate ch' = (if chan_flag held CF_PROXY_MODE \<and> chan_flag held CF_BRIDGED then CCS_ACTIVE else CCS_UNHELD)"
    "ch_hold_record ch' = \<lparr>hr_on = ce_now on, hr_off = ce_now off, hr_uuid = uuid\<rparr> # ch_hold_record ch"
    "ch_caller_profile ch' = Some (p\<lparr>cp_times := Some (t\<lparr>tt_last_hold := ce_now on,
      tt_hold_accum := tt_hold_accum t + (ce_now off - ce_now on)\<rparr>)\<rparr>)"
    using hold_off [OF held(2) fl(1,2) held(3,6,5) times, of off] assms(8) by auto
  show ?thesis by (intro exI [of _ held] exI [of _ ch'] exI [of _ uuid] conjI held ch' ch'(2) [unfolded fl(3,4)])
qed

theorem channel_hold_witness:
  "\<exists>held ch'. switch_channel_mark_hold \<lparr>ce_now = 10, ce_globals = (\<lambda>_. None)\<rparr> True (put_flag CF_ANSWERED 1 demo_channel) = Inr held \<and>
     switch_channel_mark_hold \<lparr>ce_now = 25, ce_globals = (\<lambda>_. None)\<rparr> False held = Inr ch' \<and> ch_callstate ch' = CCS_UNHELD"
proof -
  let ?ch = "put_flag CF_ANSWERED 1 demo_channel"
  have "chan_ok {} ?ch" using demo_channel_ok by (rule chan_ok_updates)
  moreover have "chan_flag ?ch CF_ANSWERED" "\<not> chan_flag ?ch CF_LEG_HOLDING" "ch_callstate ?ch \<noteq> CCS_HELD" "ch_callstate ?ch \<noteq> CCS_HANGUP"
    "\<not> chan_flag ?ch CF_PROXY_MODE" by (simp_all add: put_flag_def cf_defs demo_channel_def)
  moreover obtain p t where "ch_caller_profile ?ch = Some p" "cp_times p = Some t" using chan_times calculation(1) by blast
  ultimately show ?thesis
    using channel_hold [of "{}" ?ch p t "\<lparr>ce_now = 10, ce_globals = (\<lambda>_. None)\<rparr>" "\<lparr>ce_now = 25, ce_globals = (\<lambda>_. None)\<rparr>"]
    by auto
qed

end
