(* ===== verification/FS_Dtmf.thy ===== *)
theory FS_Dtmf
  imports FS_Channel "HOL-Library.Multiset" "HOL-Library.Signed_Division"
begin

text \<open>
  Touch tones: the digits a channel receives wait in a queue until the application takes them, and then go to a log from which
  the record of the call is made (\<^verbatim>\<open>src/switch_channel.c\<close>, with \<^verbatim>\<open>switch_core_session_recv_dtmf\<close> of \<^verbatim>\<open>src/switch_core_io.c\<close> and the limits of
  the duration in \<^verbatim>\<open>src/switch_core.c\<close>). The queues are bounded FIFO queues of the portability library. The records in
  them are allocated one by one: each has an address, and the addresses that are freed are recorded, so that what happens to the memory can
  be stated. All operations run under the mutex of the queue.
\<close>

section \<open>Durations\<close>

definition SWITCH_DEFAULT_DTMF_DURATION :: uint32_t where "SWITCH_DEFAULT_DTMF_DURATION = 2000"
definition SWITCH_MIN_DTMF_DURATION :: uint32_t where "SWITCH_MIN_DTMF_DURATION = 400"
definition SWITCH_MAX_DTMF_DURATION :: uint32_t where "SWITCH_MAX_DTMF_DURATION = 192000"

record dtmf_limits =
  dl_max :: uint32_t
  dl_default :: uint32_t
  dl_min :: uint32_t

definition dtmf_limits_init :: dtmf_limits where
  "dtmf_limits_init = \<lparr>dl_max = SWITCH_MAX_DTMF_DURATION, dl_default = SWITCH_DEFAULT_DTMF_DURATION, dl_min = SWITCH_MIN_DTMF_DURATION\<rparr>"

definition in_range :: "uint32_t \<Rightarrow> uint32_t" where
  "in_range duration =
     (let duration = (if duration > SWITCH_MAX_DTMF_DURATION then SWITCH_MAX_DTMF_DURATION else duration)
      in if duration < SWITCH_MIN_DTMF_DURATION then SWITCH_MIN_DTMF_DURATION else duration)"

definition switch_core_max_dtmf_duration :: "uint32_t \<Rightarrow> dtmf_limits \<Rightarrow> uint32_t \<times> dtmf_limits" where
  "switch_core_max_dtmf_duration duration rt =
     (let rt = (if duration \<noteq> 0 then
                  (let d = in_range duration; rt = rt\<lparr>dl_max := d\<rparr> in if d < dl_min rt then rt\<lparr>dl_min := d\<rparr> else rt)
                else rt)
      in (dl_max rt, rt))"

definition switch_core_default_dtmf_duration :: "uint32_t \<Rightarrow> dtmf_limits \<Rightarrow> uint32_t \<times> dtmf_limits" where
  "switch_core_default_dtmf_duration duration rt =
     (let rt = (if duration \<noteq> 0 then
                  (let d = in_range duration; rt = rt\<lparr>dl_default := d\<rparr>;
                       rt = (if d < dl_min rt then rt\<lparr>dl_min := d\<rparr> else rt)
                   in if d > dl_max rt then rt\<lparr>dl_max := d\<rparr> else rt)
                else rt)
      in (dl_default rt, rt))"

definition switch_core_min_dtmf_duration :: "uint32_t \<Rightarrow> dtmf_limits \<Rightarrow> uint32_t \<times> dtmf_limits" where
  "switch_core_min_dtmf_duration duration rt =
     (let rt = (if duration \<noteq> 0 then
                  (let d = in_range duration; rt = rt\<lparr>dl_min := d\<rparr> in if d > dl_max rt then rt\<lparr>dl_max := d\<rparr> else rt)
                else rt)
      in (dl_min rt, rt))"

section \<open>Digits and queues\<close>

datatype switch_dtmf_source_t = SWITCH_DTMF_UNKNOWN | SWITCH_DTMF_INBAND_AUDIO | SWITCH_DTMF_RTP | SWITCH_DTMF_ENDPOINT | SWITCH_DTMF_APP

definition DTMF_FLAG_SKIP_PROCESS :: uint32_t where "DTMF_FLAG_SKIP_PROCESS = 1"
definition DTMF_FLAG_SENSITIVE :: uint32_t where "DTMF_FLAG_SENSITIVE = 2"

record switch_dtmf_t =
  dt_digit :: char
  dt_duration :: uint32_t
  dt_flags :: uint32_t
  dt_source :: switch_dtmf_source_t

abbreviation sensitive :: "switch_dtmf_t \<Rightarrow> bool" where
  "sensitive d \<equiv> test_flag (dt_flags d) DTMF_FLAG_SENSITIVE"

definition is_dtmf :: "char \<Rightarrow> bool" where
  "is_dtmf c =
     (let key = (of_char c :: nat)
      in (key > 47 \<and> key < 58) \<or> (key > 64 \<and> key < 69) \<or> (key > 96 \<and> key < 101) \<or> key = 35 \<or> key = 42 \<or> key = 87 \<or> key = 119 \<or>
         key = 70 \<or> key = 102)"

definition SWITCH_DTMF_LOG_LEN :: nat where "SWITCH_DTMF_LOG_LEN = 1000"

definition trypush :: "'a \<Rightarrow> 'a list \<Rightarrow> 'a list option" where
  "trypush x q = (if length q < SWITCH_DTMF_LOG_LEN then Some (q @ [x]) else None)"

fun trypop :: "'a list \<Rightarrow> ('a \<times> 'a list) option" where
  "trypop [] = None"
| "trypop (x # q) = Some (x, q)"

text \<open>\<open>dq_next\<close> is the next address the allocator gives out, \<open>dq_fired\<close> the digits announced by events, \<open>dq_heard\<close> those that the digit
  machine and the hooks of the session have seen.\<close>

record dtmf_state =
  dq_queue :: "(nat \<times> switch_dtmf_t) list"
  dq_log :: "(nat \<times> switch_dtmf_t) list"
  dq_next :: nat
  dq_freed :: "nat list"
  dq_fired :: "switch_dtmf_t list"
  dq_heard :: "switch_dtmf_t list"

text \<open>The queues of a new channel.\<close>

definition dtmf_start :: dtmf_state where
  "dtmf_start = \<lparr>dq_queue = [], dq_log = [], dq_next = 0, dq_freed = [], dq_fired = [], dq_heard = []\<rparr>"

definition free_dt :: "nat \<Rightarrow> dtmf_state \<Rightarrow> dtmf_state" where
  "free_dt a st = st\<lparr>dq_freed := dq_freed st @ [a]\<rparr>"

definition switch_channel_has_dtmf :: "dtmf_state \<Rightarrow> nat" where
  "switch_channel_has_dtmf st = length (dq_queue st)"

section \<open>Receiving a digit\<close>

text \<open>What a session does with digits: signals that bring the channel down, its digit machine and its hooks.\<close>

record recv_env =
  re_signal :: bool
  re_dmachine :: bool
  re_hooks :: "(switch_dtmf_t \<Rightarrow> switch_status_t) list"

definition limit_duration :: "dtmf_limits \<Rightarrow> switch_dtmf_t \<Rightarrow> switch_dtmf_t" where
  "limit_duration rt d =
     (if dt_duration d > dl_max rt then d\<lparr>dt_duration := dl_max rt\<rparr>
      else if dt_duration d < dl_min rt then d\<lparr>dt_duration := dl_min rt\<rparr>
      else if dt_duration d = 0 then d\<lparr>dt_duration := dl_default rt\<rparr> else d)"

fun run_hooks :: "(switch_dtmf_t \<Rightarrow> switch_status_t) list \<Rightarrow> switch_dtmf_t \<Rightarrow> switch_status_t option" where
  "run_hooks [] d = None"
| "run_hooks (h # hs) d = (if h d \<noteq> SWITCH_STATUS_SUCCESS then Some (h d) else run_hooks hs d)"

definition switch_core_session_recv_dtmf ::
  "recv_env \<Rightarrow> switch_channel \<Rightarrow> dtmf_limits \<Rightarrow> switch_dtmf_t \<Rightarrow> dtmf_state \<Rightarrow> switch_status_t \<times> dtmf_state" where
  "switch_core_session_recv_dtmf re ch rt dtmf st =
     (if re_signal re \<or> CS_HANGUP \<le> ch_state ch then (SWITCH_STATUS_FALSE, st)
      else if sensitive dtmf then (SWITCH_STATUS_SUCCESS, st)
      else
        (let new_dtmf = limit_duration rt dtmf;
             skip = test_flag (dt_flags dtmf) DTMF_FLAG_SKIP_PROCESS;
             fed = (\<not> skip \<and> re_dmachine re);
             st = (if fed \<or> \<not> skip \<and> re_hooks re \<noteq> [] then st\<lparr>dq_heard := dq_heard st @ [dtmf]\<rparr> else st)
         in case (if skip then None else run_hooks (re_hooks re) new_dtmf) of
              Some status \<Rightarrow> (status, st)
            | None \<Rightarrow> (if fed then SWITCH_STATUS_FALSE else SWITCH_STATUS_SUCCESS, st)))"

text \<open>Full queues lose their oldest digit.\<close>

function push_loop :: "nat \<Rightarrow> nat \<times> switch_dtmf_t \<Rightarrow> dtmf_state \<Rightarrow> switch_status_t \<times> dtmf_state" where
  "push_loop x dt st =
     (case trypush dt (dq_queue st) of
        Some q \<Rightarrow> (SWITCH_STATUS_SUCCESS, st\<lparr>dq_queue := q\<rparr>)
      | None \<Rightarrow>
          (let st = (case trypop (dq_queue st) of Some (p, q) \<Rightarrow> free_dt (fst p) (st\<lparr>dq_queue := q\<rparr>) | None \<Rightarrow> st)
           in if x + 1 > 100 then (SWITCH_STATUS_FALSE, free_dt (fst dt) st) else push_loop (x + 1) dt st))"
  by pat_completeness auto
termination
  by (relation "measure (\<lambda>(x, dt, st). 101 - x)") auto

definition queue_duration :: "dtmf_limits \<Rightarrow> switch_dtmf_t \<Rightarrow> switch_dtmf_t" where
  "queue_duration rt d =
     (let d = (if dt_digit d \<noteq> CHR ''w'' \<and> dt_digit d \<noteq> CHR ''W'' then
                 (if dt_duration d > dl_max rt then d\<lparr>dt_duration := dl_max rt\<rparr>
                  else if dt_duration d < dl_min rt then d\<lparr>dt_duration := dl_min rt\<rparr> else d)
               else d)
      in if dt_duration d = 0 then d\<lparr>dt_duration := dl_default rt\<rparr> else d)"

definition switch_channel_queue_dtmf ::
  "chan_env \<Rightarrow> recv_env \<Rightarrow> switch_channel \<Rightarrow> dtmf_limits \<Rightarrow> switch_dtmf_t \<Rightarrow> dtmf_state \<Rightarrow> (switch_status_t \<times> dtmf_state) c_result" where
  "switch_channel_queue_dtmf env re ch rt dtmf st =
     and_then (switch_channel_get_variable_dup env ch (Some ''sensitive_dtmf'') (- 1)) (\<lambda>var.
       let new_dtmf = (if switch_true var then dtmf\<lparr>dt_flags := set_flag (dt_flags dtmf) DTMF_FLAG_SENSITIVE\<rparr> else dtmf);
           (status, st) = switch_core_session_recv_dtmf re ch rt dtmf st
       in Inr (if status \<noteq> SWITCH_STATUS_SUCCESS then (SWITCH_STATUS_FALSE, st)
               else if is_dtmf (dt_digit new_dtmf)
               then push_loop 0 (dq_next st, queue_duration rt new_dtmf) (st\<lparr>dq_next := dq_next st + 1\<rparr>)
               else (SWITCH_STATUS_SUCCESS, st)))"

section \<open>Strings of digits\<close>

text \<open>The digits of one argument, with the duration they share; \<open>sent\<close> counts those that were queued. The clamped duration of a digit
  is the one of the next digit. A duration given after the character \<^verbatim>\<open>@\<close> is in milliseconds; it is multiplied by eight at the width of an integer.\<close>

fun queue_digits ::
  "chan_env \<Rightarrow> recv_env \<Rightarrow> switch_channel \<Rightarrow> dtmf_limits \<Rightarrow> string \<Rightarrow> switch_dtmf_t \<Rightarrow> nat \<Rightarrow> dtmf_state \<Rightarrow> (nat \<times> dtmf_state) c_result" where
  "queue_digits env re ch rt [] dtmf sent st = Inr (sent, st)"
| "queue_digits env re ch rt (c # cs) dtmf sent st =
     (if is_dtmf c then
        (let dtmf = limit_duration rt (dtmf\<lparr>dt_digit := c\<rparr>)
         in and_then (switch_channel_queue_dtmf env re ch rt dtmf st) (\<lambda>(status, st).
              queue_digits env re ch rt cs dtmf (if status = SWITCH_STATUS_SUCCESS then sent + 1 else sent) st))
      else queue_digits env re ch rt cs dtmf sent st)"

definition arg_duration :: "dtmf_limits \<Rightarrow> string \<Rightarrow> uint32_t" where
  "arg_duration rt arg =
     (case dropWhile (\<lambda>c. c \<noteq> CHR ''@'') arg of
        [] \<Rightarrow> dl_default rt
      | _ # p \<Rightarrow> if c_atoi p > sint (dl_min rt) sdiv 8 then of_int (c_atoi p) * 8 else dl_default rt)"

fun queue_args ::
  "chan_env \<Rightarrow> recv_env \<Rightarrow> switch_channel \<Rightarrow> dtmf_limits \<Rightarrow> uint32_t \<Rightarrow> string list \<Rightarrow> nat \<Rightarrow> dtmf_state \<Rightarrow> (nat \<times> dtmf_state) c_result" where
  "queue_args env re ch rt flags [] sent st = Inr (sent, st)"
| "queue_args env re ch rt flags (arg # args) sent st =
     and_then (queue_digits env re ch rt (takeWhile (\<lambda>c. c \<noteq> CHR ''@'') arg)
         \<lparr>dt_digit = CHR 0x00, dt_duration = arg_duration rt arg, dt_flags = flags, dt_source = SWITCH_DTMF_APP\<rparr> sent st) (\<lambda>(sent, st).
       queue_args env re ch rt flags args sent st)"

definition switch_channel_queue_dtmf_string ::
  "chan_env \<Rightarrow> recv_env \<Rightarrow> switch_channel \<Rightarrow> dtmf_limits \<Rightarrow> string option \<Rightarrow> dtmf_state \<Rightarrow> (switch_status_t \<times> dtmf_state) c_result" where
  "switch_channel_queue_dtmf_string env re ch rt dtmf_string st =
     (case dtmf_string of
        None \<Rightarrow> Inr (SWITCH_STATUS_FALSE, st)
      | Some [] \<Rightarrow> Inr (SWITCH_STATUS_FALSE, st)
      | Some (c # cs) \<Rightarrow>
          (let (flags, s) = (if c = CHR ''~'' then (0, cs) else (DTMF_FLAG_SKIP_PROCESS, c # cs))
           in and_then (switch_separate_string (Some s) CHR ''+'' 256) (\<lambda>argv.
                and_then (queue_args env re ch rt flags argv 0 st) (\<lambda>(sent, st).
                  Inr (if sent \<noteq> 0 then SWITCH_STATUS_SUCCESS else SWITCH_STATUS_FALSE, st)))))"

section \<open>Taking digits\<close>

text \<open>A sensitive digit is neither logged nor freed.\<close>

definition log_dt :: "nat \<times> switch_dtmf_t \<Rightarrow> dtmf_state \<Rightarrow> dtmf_state" where
  "log_dt dt st = (case trypush dt (dq_log st) of Some q \<Rightarrow> st\<lparr>dq_log := q\<rparr> | None \<Rightarrow> free_dt (fst dt) st)"

definition switch_channel_dequeue_dtmf :: "dtmf_limits \<Rightarrow> dtmf_state \<Rightarrow> switch_dtmf_t option \<times> dtmf_state" where
  "switch_channel_dequeue_dtmf rt st =
     (case trypop (dq_queue st) of
        None \<Rightarrow> (None, st)
      | Some (dt, q) \<Rightarrow>
          (let st = st\<lparr>dq_queue := q\<rparr>;
               st = (if \<not> sensitive (snd dt) then log_dt dt st else st);
               dtmf = limit_duration rt (snd dt)
           in (Some dtmf, if \<not> sensitive dtmf then st\<lparr>dq_fired := dq_fired st @ [dtmf]\<rparr> else st)))"

text \<open>The caller's buffer has \<open>len\<close> bytes; for the length zero the bound wraps around.\<close>

function dequeue_loop :: "dtmf_limits \<Rightarrow> nat \<Rightarrow> string \<Rightarrow> dtmf_state \<Rightarrow> (string \<times> dtmf_state) c_result" where
  "dequeue_loop rt len str st =
     (if length str < size_sub len 1 then
        (case switch_channel_dequeue_dtmf rt st of
           (None, st) \<Rightarrow> Inr (str, st)
         | (Some d, st) \<Rightarrow> if length str < len then dequeue_loop rt len (str @ [dt_digit d]) st else Inl Out_Of_Bounds)
      else Inr (str, st))"
  by pat_completeness auto
termination
  by (relation "measure (\<lambda>(rt, len, str, st). len - length str)") auto

definition switch_channel_dequeue_dtmf_string :: "dtmf_limits \<Rightarrow> nat \<Rightarrow> dtmf_state \<Rightarrow> (string \<times> dtmf_state) c_result" where
  "switch_channel_dequeue_dtmf_string rt len st = dequeue_loop rt len [] st"

fun flush_loop :: "bool \<Rightarrow> (nat \<times> switch_dtmf_t) list \<Rightarrow> dtmf_state \<Rightarrow> dtmf_state" where
  "flush_loop hung [] st = st\<lparr>dq_queue := []\<rparr>"
| "flush_loop hung (dt # q) st = flush_loop hung q (if hung then free_dt (fst dt) st else log_dt dt st)"

definition switch_channel_flush_dtmf :: "switch_channel \<Rightarrow> dtmf_state \<Rightarrow> dtmf_state" where
  "switch_channel_flush_dtmf ch st = flush_loop (CS_HANGUP \<le> ch_state ch) (dq_queue st) st"

text \<open>The part of \<^verbatim>\<open>switch_channel_uninit\<close> for the queues, and that of \<^verbatim>\<open>switch_channel_set_timestamps\<close> that collects the digits of the
  record.\<close>

definition uninit_dtmf :: "switch_channel \<Rightarrow> dtmf_state \<Rightarrow> dtmf_state" where
  "uninit_dtmf ch st =
     (let st = switch_channel_flush_dtmf ch st in st\<lparr>dq_log := [], dq_freed := dq_freed st @ map fst (dq_log st)\<rparr>)"

definition dialed_digits :: "dtmf_state \<Rightarrow> string \<times> dtmf_state" where
  "dialed_digits st =
     (map (\<lambda>dt. dt_digit (snd dt)) (take SWITCH_DTMF_LOG_LEN (dq_log st)),
      st\<lparr>dq_log := drop SWITCH_DTMF_LOG_LEN (dq_log st), dq_freed := dq_freed st @ map fst (take SWITCH_DTMF_LOG_LEN (dq_log st))\<rparr>)"

section \<open>Bounded queues\<close>

text \<open>A queue of bounded length that loses its oldest element when it is full; \<open>out\<close> is what becomes of an element on its way out.\<close>

locale bounded_fifo =
  fixes cap :: nat
    and out :: "'a \<Rightarrow> 'b"
    and content :: "'s \<Rightarrow> 'a list"
    and put :: "'a \<Rightarrow> 's \<Rightarrow> 's"
    and get :: "'s \<Rightarrow> 'b option \<times> 's"
  assumes put_law: "length (content s) \<le> cap \<Longrightarrow>
      content (put x s) = (if length (content s) < cap then content s else tl (content s)) @ [x]"
    and get_empty: "content s = [] \<Longrightarrow> fst (get s) = None \<and> content (snd (get s)) = []"
    and get_law: "content s = x # q \<Longrightarrow> fst (get s) = Some (out x) \<and> content (snd (get s)) = q"
    and cap_pos: "0 < cap"
begin

lemma put_bound: "length (content s) \<le> cap \<Longrightarrow> length (content (put x s)) \<le> cap"
  using put_law [of s x] cap_pos by (cases "content s") auto

lemma put_room: "length (content s) < cap \<Longrightarrow> content (put x s) = content s @ [x]"
  using put_law [of s x] by simp

lemma get_content: "content (snd (get s)) = tl (content s)"
  using get_empty [of s] get_law [of s] by (cases "content s") auto

lemma get_out: "fst (get s) = map_option out (case content s of [] \<Rightarrow> None | x # q \<Rightarrow> Some x)"
  using get_empty [of s] get_law [of s] by (cases "content s") auto

end

definition dtmf_content :: "dtmf_state \<Rightarrow> switch_dtmf_t list" where
  "dtmf_content st = map snd (dq_queue st)"

definition put_dtmf :: "switch_dtmf_t \<Rightarrow> dtmf_state \<Rightarrow> dtmf_state" where
  "put_dtmf d st =
     (let st' = st\<lparr>dq_next := dq_next st + 1\<rparr>; new = (dq_next st, d)
      in case dq_queue st of
           [] \<Rightarrow> st'\<lparr>dq_queue := [new]\<rparr>
         | x # q \<Rightarrow> if length (x # q) < SWITCH_DTMF_LOG_LEN then st'\<lparr>dq_queue := x # q @ [new]\<rparr>
                    else free_dt (fst x) (st'\<lparr>dq_queue := q @ [new]\<rparr>))"

declare push_loop.simps [simp del] dequeue_loop.simps [simp del]

lemma push_loop_put:
  assumes "length (dq_queue st) \<le> SWITCH_DTMF_LOG_LEN"
  shows "push_loop 0 (dq_next st, d) (st\<lparr>dq_next := dq_next st + 1\<rparr>) = (SWITCH_STATUS_SUCCESS, put_dtmf d st)"
proof (cases "dq_queue st")
  case Nil
  then show ?thesis by (simp add: push_loop.simps [of 0] trypush_def put_dtmf_def SWITCH_DTMF_LOG_LEN_def)
next
  case (Cons x q)
  show ?thesis
  proof (cases "length (dq_queue st) < SWITCH_DTMF_LOG_LEN")
    case True
    then show ?thesis using Cons by (simp add: push_loop.simps [of 0] trypush_def put_dtmf_def)
  next
    case False
    let ?st = "st\<lparr>dq_next := dq_next st + 1\<rparr>"
    have "push_loop 0 (dq_next st, d) ?st = push_loop 1 (dq_next st, d) (free_dt (fst x) (?st\<lparr>dq_queue := q\<rparr>))"
      using False Cons by (subst push_loop.simps) (simp add: trypush_def)
    also have "\<dots> = (SWITCH_STATUS_SUCCESS, put_dtmf d st)"
      using False Cons assms by (subst push_loop.simps) (simp add: trypush_def free_dt_def put_dtmf_def)
    finally show ?thesis .
  qed
qed

lemma trypop_hd: "trypop q = (case q of [] \<Rightarrow> None | x # r \<Rightarrow> Some (x, r))"
  by (cases q) simp_all

lemma log_dt_queue [simp]: "dq_queue (log_dt dt st) = dq_queue st" "dq_next (log_dt dt st) = dq_next st" "dq_fired (log_dt dt st) = dq_fired st"
  by (simp_all add: log_dt_def free_dt_def split: option.split)

interpretation dtmf: bounded_fifo SWITCH_DTMF_LOG_LEN "limit_duration rt" dtmf_content put_dtmf "switch_channel_dequeue_dtmf rt" for rt
proof
  fix st x assume "length (dtmf_content st) \<le> SWITCH_DTMF_LOG_LEN"
  then show "dtmf_content (put_dtmf x st) =
      (if length (dtmf_content st) < SWITCH_DTMF_LOG_LEN then dtmf_content st else tl (dtmf_content st)) @ [x]"
    by (cases "dq_queue st") (simp_all add: dtmf_content_def put_dtmf_def free_dt_def SWITCH_DTMF_LOG_LEN_def Let_def)
next
  fix st x q assume "dtmf_content st = x # q"
  then show "fst (switch_channel_dequeue_dtmf rt st) = Some (limit_duration rt x) \<and> dtmf_content (snd (switch_channel_dequeue_dtmf rt st)) = q"
    by (auto simp: dtmf_content_def switch_channel_dequeue_dtmf_def trypop_hd Let_def)
qed (simp_all add: dtmf_content_def switch_channel_dequeue_dtmf_def SWITCH_DTMF_LOG_LEN_def)

section \<open>Calls\<close>

datatype dtmf_call =
    Queue_Dtmf chan_env recv_env switch_channel dtmf_limits switch_dtmf_t
  | Dequeue_Dtmf dtmf_limits
  | Flush_Dtmf switch_channel
  | Dialed_Digits

text \<open>The digits that are taken.\<close>

fun dtmf_calls :: "dtmf_call list \<Rightarrow> dtmf_state \<Rightarrow> (switch_dtmf_t list \<times> dtmf_state) c_result" where
  "dtmf_calls [] st = Inr ([], st)"
| "dtmf_calls (Queue_Dtmf env re ch rt d # cs) st =
     and_then (switch_channel_queue_dtmf env re ch rt d st) (\<lambda>(status, st). dtmf_calls cs st)"
| "dtmf_calls (Dequeue_Dtmf rt # cs) st =
     (case switch_channel_dequeue_dtmf rt st of
        (None, st) \<Rightarrow> dtmf_calls cs st
      | (Some d, st) \<Rightarrow> and_then (dtmf_calls cs st) (\<lambda>(ds, st). Inr (d # ds, st)))"
| "dtmf_calls (Flush_Dtmf ch # cs) st = dtmf_calls cs (switch_channel_flush_dtmf ch st)"
| "dtmf_calls (Dialed_Digits # cs) st = dtmf_calls cs (snd (dialed_digits st))"

text \<open>What a call offers to the queue: nothing when the session rejects or consumes the digit.\<close>

definition offered :: "chan_env \<Rightarrow> recv_env \<Rightarrow> switch_channel \<Rightarrow> dtmf_limits \<Rightarrow> switch_dtmf_t \<Rightarrow> switch_dtmf_t option" where
  "offered env re ch rt d =
     (case switch_channel_get_variable_dup env ch (Some ''sensitive_dtmf'') (- 1) of
        Inl _ \<Rightarrow> None
      | Inr var \<Rightarrow>
          (let d' = (if switch_true var then d\<lparr>dt_flags := set_flag (dt_flags d) DTMF_FLAG_SENSITIVE\<rparr> else d)
           in if fst (switch_core_session_recv_dtmf re ch rt d dtmf_start) = SWITCH_STATUS_SUCCESS \<and> is_dtmf (dt_digit d)
              then Some (queue_duration rt d') else None))"

text \<open>The limits the configuration can set.\<close>

inductive runtime_limits :: "dtmf_limits \<Rightarrow> bool" where
  init: "runtime_limits dtmf_limits_init"
| max: "runtime_limits rt \<Longrightarrow> runtime_limits (snd (switch_core_max_dtmf_duration d rt))"
| default: "runtime_limits rt \<Longrightarrow> runtime_limits (snd (switch_core_default_dtmf_duration d rt))"
| min: "runtime_limits rt \<Longrightarrow> runtime_limits (snd (switch_core_min_dtmf_duration d rt))"

lemma in_range_bounds: "SWITCH_MIN_DTMF_DURATION \<le> in_range d" "in_range d \<le> SWITCH_MAX_DTMF_DURATION"
  by (auto simp: in_range_def Let_def SWITCH_MIN_DTMF_DURATION_def SWITCH_MAX_DTMF_DURATION_def)

lemma runtime_limits_ok:
  "runtime_limits rt \<Longrightarrow> SWITCH_MIN_DTMF_DURATION \<le> dl_min rt \<and> dl_min rt \<le> dl_max rt \<and> dl_max rt \<le> SWITCH_MAX_DTMF_DURATION"
proof (induction rule: runtime_limits.induct)
  case init
  then show ?case by (simp add: dtmf_limits_init_def SWITCH_MIN_DTMF_DURATION_def SWITCH_MAX_DTMF_DURATION_def)
qed (use in_range_bounds in \<open>auto simp: switch_core_max_dtmf_duration_def switch_core_default_dtmf_duration_def switch_core_min_dtmf_duration_def Let_def\<close>)

text \<open>The specification: a list. It states the limits without the code's case distinctions: the duration is brought between the smallest and the largest
  one; only the pauses \<^verbatim>\<open>w\<close> and \<^verbatim>\<open>W\<close> are queued with their own duration, or with the default when they have none. A digit is accepted
  when no signal is pending, the channel is up, and the digit is sensitive, or not to be processed, or there is no digit machine and every hook
  agrees.\<close>

definition clamped :: "dtmf_limits \<Rightarrow> switch_dtmf_t \<Rightarrow> switch_dtmf_t" where
  "clamped rt d = d\<lparr>dt_duration := max (dl_min rt) (min (dl_max rt) (dt_duration d))\<rparr>"

definition waiting :: "dtmf_limits \<Rightarrow> switch_dtmf_t \<Rightarrow> switch_dtmf_t" where
  "waiting rt d =
     (if dt_digit d \<notin> {CHR ''w'', CHR ''W''} then clamped rt d
      else d\<lparr>dt_duration := if dt_duration d = 0 then dl_default rt else dt_duration d\<rparr>)"

definition taken_in :: "chan_env \<Rightarrow> recv_env \<Rightarrow> switch_channel \<Rightarrow> dtmf_limits \<Rightarrow> switch_dtmf_t \<Rightarrow> switch_dtmf_t option" where
  "taken_in env re ch rt d =
     (if is_dtmf (dt_digit d) \<and> \<not> re_signal re \<and> ch_state ch < CS_HANGUP \<and>
         (sensitive d \<or> test_flag (dt_flags d) DTMF_FLAG_SKIP_PROCESS \<or>
          \<not> re_dmachine re \<and> (\<forall>h\<in>set (re_hooks re). h (clamped rt d) = SWITCH_STATUS_SUCCESS))
      then (case switch_channel_get_variable_dup env ch (Some ''sensitive_dtmf'') (- 1) of
              Inl _ \<Rightarrow> None
            | Inr var \<Rightarrow> Some (waiting rt (if switch_true var then d\<lparr>dt_flags := set_flag (dt_flags d) DTMF_FLAG_SENSITIVE\<rparr> else d)))
      else None)"

fun fifo_calls :: "dtmf_call list \<Rightarrow> switch_dtmf_t list \<Rightarrow> switch_dtmf_t list \<times> switch_dtmf_t list" where
  "fifo_calls [] q = ([], q)"
| "fifo_calls (Queue_Dtmf env re ch rt d # cs) q =
     (case taken_in env re ch rt d of
        None \<Rightarrow> fifo_calls cs q
      | Some x \<Rightarrow> fifo_calls cs ((if length q < SWITCH_DTMF_LOG_LEN then q else tl q) @ [x]))"
| "fifo_calls (Dequeue_Dtmf rt # cs) [] = fifo_calls cs []"
| "fifo_calls (Dequeue_Dtmf rt # cs) (x # q) = (let (ds, q) = fifo_calls cs q in (clamped rt x # ds, q))"
| "fifo_calls (Flush_Dtmf ch # cs) q = fifo_calls cs []"
| "fifo_calls (Dialed_Digits # cs) q = fifo_calls cs q"

text \<open>Calls that run with limits the configuration can set.\<close>

fun call_limits_ok :: "dtmf_call \<Rightarrow> bool" where
  "call_limits_ok (Queue_Dtmf env re ch rt d) \<longleftrightarrow> runtime_limits rt"
| "call_limits_ok (Dequeue_Dtmf rt) \<longleftrightarrow> runtime_limits rt"
| "call_limits_ok c \<longleftrightarrow> True"

lemma runtime_min_pos: "runtime_limits rt \<Longrightarrow> 0 < dl_min rt"
  using runtime_limits_ok [of rt] by (auto simp: SWITCH_MIN_DTMF_DURATION_def word_gt_0)

lemma limit_clamped:
  assumes "runtime_limits rt"
  shows "limit_duration rt d = clamped rt d"
  using runtime_limits_ok [OF assms] runtime_min_pos [OF assms]
  by (cases d) (auto simp: limit_duration_def clamped_def max_def min_def)

lemma queue_waiting:
  assumes "runtime_limits rt"
  shows "queue_duration rt d = waiting rt d"
  using runtime_limits_ok [OF assms] runtime_min_pos [OF assms]
  by (cases d) (auto simp: queue_duration_def waiting_def clamped_def max_def min_def Let_def)

lemma run_hooks_none: "run_hooks hs d = None \<longleftrightarrow> (\<forall>h\<in>set hs. h d = SWITCH_STATUS_SUCCESS)"
  by (induction hs) auto

lemma run_hooks_some: "run_hooks hs d = Some s \<Longrightarrow> s \<noteq> SWITCH_STATUS_SUCCESS"
  by (induction hs) (auto split: if_splits)

lemma recv_accepts:
  "fst (switch_core_session_recv_dtmf re ch rt d st) = SWITCH_STATUS_SUCCESS \<longleftrightarrow>
   \<not> re_signal re \<and> ch_state ch < CS_HANGUP \<and>
   (sensitive d \<or> test_flag (dt_flags d) DTMF_FLAG_SKIP_PROCESS \<or>
    \<not> re_dmachine re \<and> (\<forall>h\<in>set (re_hooks re). h (limit_duration rt d) = SWITCH_STATUS_SUCCESS))"
  using run_hooks_some [of "re_hooks re" "limit_duration rt d"]
  by (cases "run_hooks (re_hooks re) (limit_duration rt d)")
    (auto simp: switch_core_session_recv_dtmf_def Let_def run_hooks_none [symmetric] not_le)

lemma offered_taken_in:
  assumes "runtime_limits rt"
  shows "offered env re ch rt d = taken_in env re ch rt d"
  unfolding offered_def taken_in_def recv_accepts limit_clamped [OF assms] queue_waiting [OF assms]
  by (auto split: sum.split)

fun call_channel_ok :: "string set \<Rightarrow> dtmf_call \<Rightarrow> bool" where
  "call_channel_ok V (Queue_Dtmf env re ch rt d) \<longleftrightarrow> chan_ok V ch"
| "call_channel_ok V c \<longleftrightarrow> True"

text \<open>The session answers without looking at the queue, and adds at most to what it has heard.\<close>

lemma recv_split:
  "switch_core_session_recv_dtmf re ch rt d st =
     (fst (switch_core_session_recv_dtmf re ch rt d st'),
      st\<lparr>dq_heard := dq_heard st @
        (if re_signal re \<or> CS_HANGUP \<le> ch_state ch \<or> sensitive d \<or> test_flag (dt_flags d) DTMF_FLAG_SKIP_PROCESS \<or> \<not> re_dmachine re \<and> re_hooks re = []
         then [] else [d])\<rparr>)"
proof (cases "re_signal re \<or> CS_HANGUP \<le> ch_state ch \<or> sensitive d \<or> test_flag (dt_flags d) DTMF_FLAG_SKIP_PROCESS")
  case True
  then show ?thesis by (auto simp: switch_core_session_recv_dtmf_def Let_def)
next
  case False
  then show ?thesis
    by (cases "run_hooks (re_hooks re) (limit_duration rt d)"; cases "re_dmachine re \<or> re_hooks re \<noteq> []")
      (simp_all add: switch_core_session_recv_dtmf_def Let_def)
qed

lemma queue_dtmf_eq:
  assumes "chan_ok V ch" and "length (dq_queue st) \<le> SWITCH_DTMF_LOG_LEN"
  shows "\<exists>status ds. switch_channel_queue_dtmf env re ch rt d st =
    Inr (status, case offered env re ch rt d of None \<Rightarrow> st\<lparr>dq_heard := dq_heard st @ ds\<rparr> | Some x \<Rightarrow> put_dtmf x (st\<lparr>dq_heard := dq_heard st @ ds\<rparr>))"
proof -
  obtain v where v: "switch_channel_get_variable_dup env ch (Some ''sensitive_dtmf'') (- 1) = Inr v"
    using get_variable_dup_ok [OF assms(1)] by blast
  obtain ds status where s: "switch_core_session_recv_dtmf re ch rt d st = (status, st\<lparr>dq_heard := dq_heard st @ ds\<rparr>)" using recv_split by blast
  let ?st = "st\<lparr>dq_heard := dq_heard st @ ds\<rparr>"
  let ?d = "if switch_true v then d\<lparr>dt_flags := set_flag (dt_flags d) DTMF_FLAG_SENSITIVE\<rparr> else d"
  have f: "fst (switch_core_session_recv_dtmf re ch rt d st') = status" for st' using s recv_split [of re ch rt d st st'] by simp
  have p: "push_loop 0 (dq_next st, queue_duration rt ?d) (?st\<lparr>dq_next := dq_next st + 1\<rparr>) = (SWITCH_STATUS_SUCCESS, put_dtmf (queue_duration rt ?d) ?st)"
    using push_loop_put [of ?st "queue_duration rt ?d"] assms(2) by simp
  have off: "offered env re ch rt d = (if status = SWITCH_STATUS_SUCCESS \<and> is_dtmf (dt_digit d) then Some (queue_duration rt ?d) else None)"
    by (simp add: offered_def v f del: if_split)
  have dig: "dt_digit ?d = dt_digit d" by simp
  have "switch_channel_queue_dtmf env re ch rt d st =
      Inr (if status \<noteq> SWITCH_STATUS_SUCCESS then (SWITCH_STATUS_FALSE, ?st)
           else if is_dtmf (dt_digit d) then (SWITCH_STATUS_SUCCESS, put_dtmf (queue_duration rt ?d) ?st) else (SWITCH_STATUS_SUCCESS, ?st))"
    using p dig by (simp add: switch_channel_queue_dtmf_def v s del: if_split)
  then show ?thesis unfolding off by (cases "status = SWITCH_STATUS_SUCCESS \<and> is_dtmf (dt_digit d)") auto
qed

lemma put_dtmf_heard: "dtmf_content (put_dtmf x (st\<lparr>dq_heard := hs\<rparr>)) = dtmf_content (put_dtmf x st)"
  by (simp add: put_dtmf_def dtmf_content_def free_dt_def Let_def split: list.split)

lemma flush_content: "dq_queue (flush_loop hung q st) = []"
  by (induction q arbitrary: st) simp_all

lemma calls_fifo:
  assumes "list_all (call_channel_ok V) cs" and "list_all call_limits_ok cs" and "length (dtmf_content st) \<le> SWITCH_DTMF_LOG_LEN"
  shows "\<exists>ds st'. dtmf_calls cs st = Inr (ds, st') \<and> fifo_calls cs (dtmf_content st) = (ds, dtmf_content st') \<and>
    length (dtmf_content st') \<le> SWITCH_DTMF_LOG_LEN"
  using assms
proof (induction cs arbitrary: st)
  case (Cons c cs)
  show ?case
  proof (cases c)
    case (Queue_Dtmf env re ch rt d)
    obtain status hs where q: "switch_channel_queue_dtmf env re ch rt d st =
        Inr (status, case offered env re ch rt d of None \<Rightarrow> st\<lparr>dq_heard := dq_heard st @ hs\<rparr> | Some x \<Rightarrow> put_dtmf x (st\<lparr>dq_heard := dq_heard st @ hs\<rparr>))"
      using queue_dtmf_eq [of V ch st env re rt d] Cons.prems Queue_Dtmf by (auto simp: dtmf_content_def)
    have acc: "taken_in env re ch rt d = offered env re ch rt d" using offered_taken_in Cons.prems(2) Queue_Dtmf by simp
    show ?thesis
    proof (cases "offered env re ch rt d")
      case None
      have "dtmf_content (st\<lparr>dq_heard := dq_heard st @ hs\<rparr>) = dtmf_content st" by (simp add: dtmf_content_def)
      with Cons.IH [of "st\<lparr>dq_heard := dq_heard st @ hs\<rparr>"] Cons.prems None acc q Queue_Dtmf show ?thesis by simp
    next
      case (Some x)
      let ?st = "put_dtmf x (st\<lparr>dq_heard := dq_heard st @ hs\<rparr>)"
      have "dtmf_content ?st = (if length (dtmf_content st) < SWITCH_DTMF_LOG_LEN then dtmf_content st else tl (dtmf_content st)) @ [x]"
        "length (dtmf_content ?st) \<le> SWITCH_DTMF_LOG_LEN"
        using dtmf.put_law [OF Cons.prems(3), of x] dtmf.put_bound [OF Cons.prems(3), of x] by (simp_all add: put_dtmf_heard)
      with Cons.IH [of ?st] Cons.prems Some acc q Queue_Dtmf show ?thesis by simp
    qed
  next
    case (Dequeue_Dtmf rt)
    obtain o' st' where d: "switch_channel_dequeue_dtmf rt st = (o', st')" by fastforce
    have st': "dtmf_content st' = tl (dtmf_content st)" and o': "o' = map_option (limit_duration rt) (case dtmf_content st of [] \<Rightarrow> None | x # q \<Rightarrow> Some x)"
      using dtmf.get_content [of rt st] dtmf.get_out [of rt st] d by simp_all
    have "length (dtmf_content st') \<le> SWITCH_DTMF_LOG_LEN" using st' Cons.prems(3) by simp
    from Cons.IH [OF _ _ this] Cons.prems obtain ds st'' where
      r: "dtmf_calls cs st' = Inr (ds, st'')" "fifo_calls cs (tl (dtmf_content st)) = (ds, dtmf_content st'')" "length (dtmf_content st'') \<le> SWITCH_DTMF_LOG_LEN"
      using st' by auto
    have "runtime_limits rt" using Cons.prems(2) Dequeue_Dtmf by simp
    then show ?thesis using r d o' Dequeue_Dtmf by (cases "dtmf_content st") (auto simp: limit_clamped)
  next
    case (Flush_Dtmf ch)
    have "dtmf_content (switch_channel_flush_dtmf ch st) = []" by (simp add: dtmf_content_def switch_channel_flush_dtmf_def flush_content)
    with Cons.IH [of "switch_channel_flush_dtmf ch st"] Cons.prems Flush_Dtmf show ?thesis by simp
  next
    case Dialed_Digits
    have "dtmf_content (snd (dialed_digits st)) = dtmf_content st" by (simp add: dtmf_content_def dialed_digits_def)
    with Cons.IH [of "snd (dialed_digits st)"] Cons.prems Dialed_Digits show ?thesis by simp
  qed
qed simp

text \<open>While the queue has room nothing is lost.\<close>

fun has_room :: "nat \<Rightarrow> dtmf_call list \<Rightarrow> bool" where
  "has_room n [] \<longleftrightarrow> True"
| "has_room n (Queue_Dtmf env re ch rt d # cs) \<longleftrightarrow>
     (if taken_in env re ch rt d = None then has_room n cs else n < SWITCH_DTMF_LOG_LEN \<and> has_room (n + 1) cs)"
| "has_room n (Dequeue_Dtmf rt # cs) \<longleftrightarrow> has_room (n - 1) cs"
| "has_room n (Flush_Dtmf ch # cs) \<longleftrightarrow> False"
| "has_room n (Dialed_Digits # cs) \<longleftrightarrow> has_room n cs"

fun offers :: "dtmf_call \<Rightarrow> switch_dtmf_t list" where
  "offers (Queue_Dtmf env re ch rt d) = (case taken_in env re ch rt d of None \<Rightarrow> [] | Some x \<Rightarrow> [x])"
| "offers c = []"

lemma limit_digit [simp]: "dt_digit (limit_duration rt d) = dt_digit d" "dt_flags (limit_duration rt d) = dt_flags d"
  by (simp_all add: limit_duration_def)

lemma clamped_digit [simp]: "dt_digit (clamped rt d) = dt_digit d" "dt_flags (clamped rt d) = dt_flags d"
  by (simp_all add: clamped_def)

lemma fifo_lossless:
  "has_room (length q) cs \<Longrightarrow> fifo_calls cs q = (ds, q') \<Longrightarrow>
   map dt_digit ds @ map dt_digit q' = map dt_digit (q @ concat (map offers cs))"
proof (induction cs q arbitrary: ds q' rule: fifo_calls.induct)
  case (2 env re ch rt d cs q)
  then show ?case by (cases "taken_in env re ch rt d") auto
next
  case (4 rt cs x q)
  then show ?case by (cases "fifo_calls cs q") auto
qed auto

lemma fifo_limited:
  "fifo_calls cs q = (ds, q') \<Longrightarrow> list_all call_limits_ok cs \<Longrightarrow> y \<in> set ds \<Longrightarrow>
   \<exists>rt. Dequeue_Dtmf rt \<in> set cs \<and> dl_min rt \<le> dt_duration y \<and> dt_duration y \<le> dl_max rt"
proof (induction cs q arbitrary: ds q' rule: fifo_calls.induct)
  case (2 env re ch rt d cs q)
  then show ?case by (cases "taken_in env re ch rt d") auto
next
  case (4 rt cs x q)
  have "dl_min rt \<le> dl_max rt" using 4(3) runtime_limits_ok [of rt] by simp
  then have c: "dl_min rt \<le> dt_duration (clamped rt x) \<and> dt_duration (clamped rt x) \<le> dl_max rt" by (simp add: clamped_def)
  obtain ds1 q1 where r: "fifo_calls cs q = (ds1, q1)" by fastforce
  show ?case
  proof (cases "y = clamped rt x")
    case True
    then show ?thesis using c by (intro exI [of _ rt]) simp
  next
    case False
    then have "y \<in> set ds1" using 4(2,4) r by auto
    then show ?thesis using 4(1) [OF r] 4(3) by auto
  qed
qed auto

text \<open>C17: The queue of digits. Any sequence of calls that queue, take, flush and log digits, with limits the configuration can set, runs without a fault and
  takes exactly the digits that a list takes which loses its oldest element when it has 1000, each with its duration brought between the smallest and the
  largest one configured; while there is room no digit is lost, repeated or reordered. The duration of every digit taken lies between the smallest and
  the largest duration configured when a digit was taken.\<close>

theorem dtmf_queue_refines:
  assumes "list_all (call_channel_ok V) cs" and "list_all call_limits_ok cs" and "length (dq_queue st) \<le> SWITCH_DTMF_LOG_LEN"
  shows "\<exists>ds st'. dtmf_calls cs st = Inr (ds, st') \<and> fifo_calls cs (map snd (dq_queue st)) = (ds, map snd (dq_queue st')) \<and>
    (has_room (length (dq_queue st)) cs \<longrightarrow>
      map dt_digit ds @ map (\<lambda>x. dt_digit (snd x)) (dq_queue st') = map (\<lambda>x. dt_digit (snd x)) (dq_queue st) @ map dt_digit (concat (map offers cs))) \<and>
    (\<forall>d\<in>set ds. \<exists>rt. Dequeue_Dtmf rt \<in> set cs \<and> dl_min rt \<le> dt_duration d \<and> dt_duration d \<le> dl_max rt)"
proof -
  obtain ds st' where r: "dtmf_calls cs st = Inr (ds, st')" "fifo_calls cs (map snd (dq_queue st)) = (ds, map snd (dq_queue st'))"
    using calls_fifo [OF assms(1,2), of st] assms(3) by (auto simp: dtmf_content_def)
  have "has_room (length (dq_queue st)) cs \<Longrightarrow>
      map dt_digit ds @ map (\<lambda>x. dt_digit (snd x)) (dq_queue st') = map (\<lambda>x. dt_digit (snd x)) (dq_queue st) @ map dt_digit (concat (map offers cs))"
    using fifo_lossless [OF _ r(2)] by (simp add: comp_def)
  with r fifo_limited [OF r(2) assms(2)] show ?thesis by blast
qed

definition demo_digit :: switch_dtmf_t where
  "demo_digit = \<lparr>dt_digit = CHR ''5'', dt_duration = 0, dt_flags = 0, dt_source = SWITCH_DTMF_RTP\<rparr>"

definition demo_calls :: "dtmf_call list" where
  "demo_calls =
     [Queue_Dtmf \<lparr>ce_now = 1, ce_globals = (\<lambda>_. None)\<rparr> \<lparr>re_signal = False, re_dmachine = False, re_hooks = []\<rparr> demo_channel dtmf_limits_init demo_digit,
      Dequeue_Dtmf dtmf_limits_init]"

definition demo_secret :: "dtmf_call list" where
  "demo_secret =
     [Queue_Dtmf \<lparr>ce_now = 1, ce_globals = (\<lambda>_. None)\<rparr> \<lparr>re_signal = False, re_dmachine = False, re_hooks = []\<rparr> demo_channel dtmf_limits_init
        (demo_digit\<lparr>dt_flags := DTMF_FLAG_SENSITIVE\<rparr>),
      Dequeue_Dtmf dtmf_limits_init]"

theorem dtmf_queue_refines_witness:
  "\<exists>ds st'. dtmf_calls demo_calls dtmf_start = Inr (ds, st') \<and> (\<forall>d\<in>set ds. 400 \<le> dt_duration d \<and> dt_duration d \<le> 192000)"
proof -
  have "list_all (call_channel_ok {}) demo_calls" by (simp add: demo_calls_def demo_channel_ok)
  moreover have "list_all call_limits_ok demo_calls" by (simp add: demo_calls_def runtime_limits.init)
  moreover have "length (dq_queue dtmf_start) \<le> SWITCH_DTMF_LOG_LEN" by (simp add: dtmf_start_def)
  ultimately obtain ds st' where r: "dtmf_calls demo_calls dtmf_start = Inr (ds, st')"
    "\<forall>d\<in>set ds. \<exists>rt. Dequeue_Dtmf rt \<in> set demo_calls \<and> dl_min rt \<le> dt_duration d \<and> dt_duration d \<le> dl_max rt"
    using dtmf_queue_refines [of "{}" demo_calls dtmf_start] by blast
  have "dl_min rt = 400 \<and> dl_max rt = 192000" if "Dequeue_Dtmf rt \<in> set demo_calls" for rt
    using that by (simp add: demo_calls_def dtmf_limits_init_def SWITCH_MIN_DTMF_DURATION_def SWITCH_MAX_DTMF_DURATION_def)
  with r show ?thesis by metis
qed

section \<open>The memory of the digits\<close>

text \<open>\<open>held\<close> are the addresses in the queue, in the log and freed; together with those that are lost they are exactly the addresses given out.\<close>

definition held :: "dtmf_state \<Rightarrow> nat multiset" where
  "held st = mset (map fst (dq_queue st)) + mset (map fst (dq_log st)) + mset (dq_freed st)"

definition mem_ok :: "nat list \<Rightarrow> dtmf_state \<Rightarrow> bool" where
  "mem_ok lost st \<longleftrightarrow> held st + mset lost = mset [0..<dq_next st] \<and> length (dq_queue st) \<le> SWITCH_DTMF_LOG_LEN"

lemma mem_heard [simp]: "mem_ok lost (st\<lparr>dq_heard := hs\<rparr>) = mem_ok lost st" "mem_ok lost (st\<lparr>dq_fired := fs\<rparr>) = mem_ok lost st"
  by (simp_all add: mem_ok_def held_def)

lemma held_put: "held (put_dtmf d st) = add_mset (dq_next st) (held st)"
  by (cases "dq_queue st") (simp_all add: held_def put_dtmf_def free_dt_def Let_def)

lemma next_put: "dq_next (put_dtmf d st) = dq_next st + 1"
  by (cases "dq_queue st") (simp_all add: put_dtmf_def free_dt_def Let_def)

lemma mem_put:
  assumes "mem_ok lost st"
  shows "mem_ok lost (put_dtmf d st)"
proof -
  have "length (dq_queue (put_dtmf d st)) \<le> SWITCH_DTMF_LOG_LEN"
    using dtmf.put_bound [of st d] assms by (simp add: dtmf_content_def mem_ok_def)
  then show ?thesis using assms by (simp add: mem_ok_def held_put next_put)
qed

lemma held_log: "held (log_dt dt st) = add_mset (fst dt) (held st)"
  by (simp add: held_def log_dt_def free_dt_def trypush_def)

lemma held_free: "held (free_dt a st) = add_mset a (held st)"
  by (simp add: held_def free_dt_def)

lemma held_queue: "held (st\<lparr>dq_queue := dt # q\<rparr>) = add_mset (fst dt) (held (st\<lparr>dq_queue := q\<rparr>))"
  by (simp add: held_def)

lemma mem_log:
  assumes "mem_ok lost (st\<lparr>dq_queue := dt # q\<rparr>)"
  shows "mem_ok lost (log_dt dt (st\<lparr>dq_queue := q\<rparr>))" "mem_ok lost (free_dt (fst dt) (st\<lparr>dq_queue := q\<rparr>))"
    "mem_ok (fst dt # lost) (st\<lparr>dq_queue := q\<rparr>)"
  using assms by (simp_all add: mem_ok_def held_queue held_log held_free) (simp_all add: free_dt_def)

lemma mem_flush:
  "mem_ok lost (st\<lparr>dq_queue := q\<rparr>) \<Longrightarrow> mem_ok lost (flush_loop hung q st)"
proof (induction q arbitrary: st)
  case (Cons dt q)
  have swap: "(free_dt a st)\<lparr>dq_queue := q\<rparr> = free_dt a (st\<lparr>dq_queue := q\<rparr>)" "(log_dt dt st)\<lparr>dq_queue := q\<rparr> = log_dt dt (st\<lparr>dq_queue := q\<rparr>)" for a
    by (simp_all add: free_dt_def log_dt_def split: option.split)
  then show ?case using Cons.IH mem_log [OF Cons.prems] by (simp add: swap)
qed simp

lemma mem_calls:
  "list_all (call_channel_ok V) cs \<Longrightarrow> mem_ok lost st \<Longrightarrow> dtmf_calls cs st = Inr (ds, st') \<Longrightarrow>
   \<exists>more. mem_ok (more @ lost) st' \<and> length more = length (filter (\<lambda>d. sensitive d) ds)"
proof (induction cs arbitrary: st lost ds st')
  case (Cons c cs)
  show ?case
  proof (cases c)
    case (Queue_Dtmf env re ch rt d)
    have "length (dq_queue st) \<le> SWITCH_DTMF_LOG_LEN" "chan_ok V ch" using Cons.prems Queue_Dtmf by (auto simp: mem_ok_def)
    then obtain status hs where q: "switch_channel_queue_dtmf env re ch rt d st =
        Inr (status, case offered env re ch rt d of None \<Rightarrow> st\<lparr>dq_heard := dq_heard st @ hs\<rparr> | Some x \<Rightarrow> put_dtmf x (st\<lparr>dq_heard := dq_heard st @ hs\<rparr>))"
      using queue_dtmf_eq [of V ch st env re rt d] by blast
    let ?st = "case offered env re ch rt d of None \<Rightarrow> st\<lparr>dq_heard := dq_heard st @ hs\<rparr> | Some x \<Rightarrow> put_dtmf x (st\<lparr>dq_heard := dq_heard st @ hs\<rparr>)"
    have "mem_ok lost ?st" using Cons.prems(2) by (auto simp: mem_put split: option.split)
    moreover have "dtmf_calls cs ?st = Inr (ds, st')" using Cons.prems(3) Queue_Dtmf q by simp
    ultimately show ?thesis using Cons.IH Cons.prems(1) by simp
  next
    case (Dequeue_Dtmf rt)
    show ?thesis
    proof (cases "dq_queue st")
      case Nil
      then have "switch_channel_dequeue_dtmf rt st = (None, st)" by (simp add: switch_channel_dequeue_dtmf_def)
      then show ?thesis using Cons Dequeue_Dtmf by simp
    next
      case queue: (Cons dt q)
      let ?lost = "if sensitive (snd dt) then fst dt # lost else lost"
      let ?log = "if \<not> sensitive (snd dt) then log_dt dt (st\<lparr>dq_queue := q\<rparr>) else st\<lparr>dq_queue := q\<rparr>"
      let ?st = "if \<not> sensitive (snd dt) then ?log\<lparr>dq_fired := dq_fired ?log @ [limit_duration rt (snd dt)]\<rparr> else ?log"
      have e: "switch_channel_dequeue_dtmf rt st = (Some (limit_duration rt (snd dt)), ?st)"
        using queue by (simp add: switch_channel_dequeue_dtmf_def Let_def)
      have "st\<lparr>dq_queue := dt # q\<rparr> = st" using queue by simp
      then have m: "mem_ok ?lost ?st" using mem_log [of lost dt q st] Cons.prems by (cases "sensitive (snd dt)") simp_all
      obtain ds' where ds: "dtmf_calls cs ?st = Inr (ds', st')" "ds = limit_duration rt (snd dt) # ds'"
        using \<open>dtmf_calls (c # cs) st = Inr (ds, st')\<close> Dequeue_Dtmf e by (auto simp: and_then_eq_Inr)
      from Cons.IH [OF _ m ds(1)] Cons.prems(1)
      obtain more where more: "mem_ok (more @ ?lost) st'" "length more = length (filter (\<lambda>d. sensitive d) ds')" by auto
      show ?thesis
      proof (cases "sensitive (snd dt)")
        case True
        then show ?thesis using more ds(2) by (intro exI [of _ "more @ [fst dt]"]) simp
      qed (use more ds(2) in auto)
    qed
  next
    case (Flush_Dtmf ch)
    have "mem_ok lost (switch_channel_flush_dtmf ch st)" using mem_flush [of lost "dq_queue st" st] Cons.prems(2) by (simp add: switch_channel_flush_dtmf_def)
    then show ?thesis using Cons Flush_Dtmf by simp
  next
    case Dialed_Digits
    have "mset (map fst (take SWITCH_DTMF_LOG_LEN (dq_log st))) + mset (map fst (drop SWITCH_DTMF_LOG_LEN (dq_log st))) = mset (map fst (dq_log st))"
      by (metis append_take_drop_id map_append mset_append)
    then have "held (snd (dialed_digits st)) = held st" by (simp add: held_def dialed_digits_def ac_simps)
    then have "mem_ok lost (snd (dialed_digits st))" using Cons.prems(2) by (simp add: mem_ok_def dialed_digits_def)
    then show ?thesis using Cons Dialed_Digits by simp
  qed
qed simp

lemma uninit_held: "held (uninit_dtmf ch st) = mset (dq_freed (uninit_dtmf ch st))"
  by (simp add: uninit_dtmf_def switch_channel_flush_dtmf_def flush_content held_def Let_def)

lemma flush_held: "held (flush_loop hung q st) = held (st\<lparr>dq_queue := q\<rparr>)"
proof (induction q arbitrary: st)
  case (Cons dt q)
  have "held ((log_dt dt st)\<lparr>dq_queue := q\<rparr>) = held (log_dt dt (st\<lparr>dq_queue := q\<rparr>))"
    "held ((free_dt (fst dt) st)\<lparr>dq_queue := q\<rparr>) = held (free_dt (fst dt) (st\<lparr>dq_queue := q\<rparr>))"
    by (simp_all add: held_def free_dt_def log_dt_def trypush_def)
  then show ?case by (simp add: Cons.IH held_queue held_log held_free)
qed simp

lemma uninit_keeps: "held (uninit_dtmf ch st) = held st"
proof -
  have "held (uninit_dtmf ch st) = held (switch_channel_flush_dtmf ch st)"
    by (simp add: uninit_dtmf_def held_def Let_def)
  then show ?thesis by (simp add: switch_channel_flush_dtmf_def flush_held)
qed

lemma mset_partition:
  assumes "mset xs + mset ys = mset [0..<n]"
  shows "distinct xs \<and> distinct ys \<and> set xs = {0..<n} - set ys \<and> set ys \<subseteq> {0..<n}"
proof -
  have m: "mset (xs @ ys) = mset [0..<n]" using assms by simp
  have "distinct (xs @ ys)" using m by (metis distinct_upt mset_eq_imp_distinct_iff)
  moreover have "set (xs @ ys) = {0..<n}" using m by (metis mset_eq_setD set_upt)
  ultimately show ?thesis by auto
qed

text \<open>C18: The memory of the digits. Whatever is queued, taken, flushed and logged on a new channel, when the channel is destroyed no digit has been freed
  twice and every digit ever allocated has been freed, except as many as there were sensitive digits among those taken: these are lost.\<close>

theorem dtmf_memory:
  assumes "list_all (call_channel_ok V) cs" and "dtmf_calls cs dtmf_start = Inr (ds, st)"
  shows "\<exists>lost. length lost = length (filter (\<lambda>d. sensitive d) ds) \<and> distinct lost \<and> set lost \<subseteq> {0..<dq_next st} \<and>
    distinct (dq_freed (uninit_dtmf ch st)) \<and> set (dq_freed (uninit_dtmf ch st)) = {0..<dq_next st} - set lost"
proof -
  have "mem_ok [] dtmf_start" by (simp add: mem_ok_def held_def dtmf_start_def)
  from mem_calls [OF assms(1) this assms(2)] obtain lost where
    l: "held st + mset lost = mset [0..<dq_next st]" "length lost = length (filter (\<lambda>d. sensitive d) ds)"
    by (auto simp: mem_ok_def)
  have "mset (dq_freed (uninit_dtmf ch st)) + mset lost = mset [0..<dq_next st]"
    using l(1) by (simp flip: uninit_held add: uninit_keeps)
  from mset_partition [OF this] l(2) show ?thesis by blast
qed

lemma demo_secret_calls:
  "dtmf_calls demo_secret dtmf_start =
     Inr ([demo_digit\<lparr>dt_duration := 400, dt_flags := DTMF_FLAG_SENSITIVE\<rparr>], dtmf_start\<lparr>dq_next := 1\<rparr>)"
proof -
  let ?d = "demo_digit\<lparr>dt_flags := DTMF_FLAG_SENSITIVE\<rparr>" and ?env = "\<lparr>ce_now = 1, ce_globals = (\<lambda>_. None)\<rparr>"
  obtain v where v: "switch_channel_get_variable_dup ?env demo_channel (Some ''sensitive_dtmf'') (- 1) = Inr v"
    using get_variable_dup_ok [OF demo_channel_ok] by blast
  have f: "set_flag DTMF_FLAG_SENSITIVE DTMF_FLAG_SENSITIVE = DTMF_FLAG_SENSITIVE" by (simp add: set_flag_def)
  have i: "is_dtmf CHR ''5''" "\<not> CS_HANGUP \<le> ch_state demo_channel" "test_flag DTMF_FLAG_SENSITIVE DTMF_FLAG_SENSITIVE"
    by (code_simp, simp add: demo_channel_def cs_order, code_simp)
  have t: "queue_duration dtmf_limits_init ?d = ?d\<lparr>dt_duration := 400\<rparr>" "limit_duration dtmf_limits_init (?d\<lparr>dt_duration := 400\<rparr>) = ?d\<lparr>dt_duration := 400\<rparr>"
    by (simp_all add: queue_duration_def limit_duration_def dtmf_limits_init_def SWITCH_MAX_DTMF_DURATION_def SWITCH_MIN_DTMF_DURATION_def demo_digit_def)
  have q: "switch_channel_queue_dtmf ?env \<lparr>re_signal = False, re_dmachine = False, re_hooks = []\<rparr> demo_channel dtmf_limits_init ?d dtmf_start =
      Inr (SWITCH_STATUS_SUCCESS, put_dtmf (?d\<lparr>dt_duration := 400\<rparr>) dtmf_start)"
    using push_loop_put [of dtmf_start "?d\<lparr>dt_duration := 400\<rparr>"] v i t f
    by (simp add: switch_channel_queue_dtmf_def switch_core_session_recv_dtmf_def demo_digit_def dtmf_start_def)
  show ?thesis
    using t(2) i by (simp add: demo_secret_def q) (simp add: put_dtmf_def dtmf_start_def switch_channel_dequeue_dtmf_def demo_digit_def)
qed

theorem dtmf_memory_witness:
  "\<exists>lost. length lost = 1 \<and> set lost \<subseteq> {0::nat} \<and>
     set (dq_freed (uninit_dtmf demo_channel (dtmf_start\<lparr>dq_next := 1\<rparr>))) = {0} - set lost"
proof -
  have ok: "list_all (call_channel_ok {}) demo_secret" by (simp add: demo_secret_def demo_channel_ok)
  have s: "test_flag DTMF_FLAG_SENSITIVE DTMF_FLAG_SENSITIVE" by code_simp
  from dtmf_memory [OF ok demo_secret_calls, of demo_channel] show ?thesis
    by (simp add: s) blast
qed

text \<open>A string of digits fits the buffer that is offered, unless its length is zero.\<close>

lemma dequeue_loop_fits:
  assumes "0 < len" and "len < size_mod" and "length str < len"
  shows "\<exists>str' st'. dequeue_loop rt len str st = Inr (str', st') \<and> length str' < len \<and>
    str' = str @ map (\<lambda>x. dt_digit (snd x)) (take (len - 1 - length str) (dq_queue st)) \<and> dq_queue st' = drop (len - 1 - length str) (dq_queue st)"
  using assms
proof (induction rt len str st rule: dequeue_loop.induct)
  case (1 rt len str st)
  have sub: "size_sub len 1 = len - 1" using 1 by (simp add: size_sub_eq)
  show ?case
  proof (cases "length str < len - 1 \<and> dq_queue st \<noteq> []")
    case False
    then show ?thesis using 1 sub by (subst dequeue_loop.simps) (auto simp: switch_channel_dequeue_dtmf_def)
  next
    case True
    then obtain dt q where q: "dq_queue st = dt # q" by (cases "dq_queue st") auto
    obtain o' st1 where d: "switch_channel_dequeue_dtmf rt st = (o', st1)" by fastforce
    then have o': "o' = Some (limit_duration rt (snd dt))" and s1: "dq_queue st1 = q"
      using q by (auto simp: switch_channel_dequeue_dtmf_def Let_def)
    have e: "dequeue_loop rt len str st = dequeue_loop rt len (str @ [dt_digit (snd dt)]) st1"
      using True d o' sub 1 by (subst dequeue_loop.simps) simp
    have "len - 1 - length str = Suc (len - 1 - length (str @ [dt_digit (snd dt)]))" using conjunct1 [OF True] by simp
    then show ?thesis using 1(1) [OF _ d [symmetric] o'] True d o' sub 1 s1 q e by simp
  qed
qed

lemma dequeue_string_fits:
  assumes "0 < len" and "len < size_mod"
  shows "\<exists>st'. switch_channel_dequeue_dtmf_string rt len st = Inr (map (\<lambda>x. dt_digit (snd x)) (take (len - 1) (dq_queue st)), st') \<and>
    dq_queue st' = drop (len - 1) (dq_queue st)"
  using dequeue_loop_fits [OF assms, of "[]"] assms(1) by (auto simp: switch_channel_dequeue_dtmf_string_def)

lemma dequeue_string_overrun:
  assumes "dq_queue st \<noteq> []"
  shows "switch_channel_dequeue_dtmf_string rt 0 st = Inl Out_Of_Bounds"
  using assms by (cases "dq_queue st")
    (simp_all add: switch_channel_dequeue_dtmf_string_def dequeue_loop.simps [of rt 0] switch_channel_dequeue_dtmf_def size_sub_wrap size_mod_def Let_def)

end
