(* ===== verification/FS_Scheduler.thy ===== *)
theory FS_Scheduler
  imports FS_Event
begin

text \<open>
  \<^verbatim>\<open>src/switch_scheduler.c\<close>: the list of scheduled tasks, the calls that add and delete tasks, and the
  thread that executes them. The linked list of containers is a HOL list. A container carries the
  address \<^verbatim>\<open>malloc\<close> gave it, so that a thread that works on a task of its own can be followed. What a
  task function does to its task is the argument \<open>fn\<close>, applied to the function's name; calls it makes to
  the scheduler are steps of their own.

  The code guards the list by a mutex and gives it up only while it runs a task function in the
  scheduler's thread and between its two walks over the list; the step relation interleaves the calls
  of other threads at these points. Threads that run one task work without the mutex and are
  interleaved anywhere, as is the end of \<^verbatim>\<open>switch_scheduler_add_task\<close>, which runs after the mutex was released.
  Pushing to the event queue is assumed not to block. The memory pool of a task's own thread is left out.
\<close>

section \<open>Data\<close>

definition SSHF_OWN_THREAD :: uint32_t where "SSHF_OWN_THREAD = 1"
definition SSHF_FREE_ARG :: uint32_t where "SSHF_FREE_ARG = 2"
definition SSHF_NO_DEL :: uint32_t where "SSHF_NO_DEL = 4"

record switch_scheduler_task =
  st_created :: int
  st_runtime :: int
  st_cmd_id :: uint32_t
  st_repeat :: uint32_t
  st_group :: string
  st_cmd_arg :: "nat option"
  st_task_id :: uint32_t
  st_hash :: uint32_t

record switch_scheduler_task_container =
  tc_addr :: nat
  tc_task :: switch_scheduler_task
  tc_executed :: int
  tc_in_thread :: bool
  tc_destroyed :: nat
  tc_running :: bool
  tc_func :: nat
  tc_flags :: uint32_t
  tc_desc :: string

text \<open>Events in the queue are their type and headers.\<close>

type_synonym schedule_event = "switch_event_types_t \<times> (string \<times> string) list"

record scheduler_globals =
  gl_task_list :: "switch_scheduler_task_container list"
  gl_task_id :: uint32_t
  gl_task_thread_running :: int
  gl_event_queue :: "schedule_event list"

definition SWITCH_EVENT_ADD_SCHEDULE :: switch_event_types_t where "SWITCH_EVENT_ADD_SCHEDULE = 52"
definition SWITCH_EVENT_DEL_SCHEDULE :: switch_event_types_t where "SWITCH_EVENT_DEL_SCHEDULE = 53"
definition SWITCH_EVENT_RE_SCHEDULE :: switch_event_types_t where "SWITCH_EVENT_RE_SCHEDULE = 55"

definition show_int64 :: "int \<Rightarrow> string" where
  "show_int64 n = (if n < 0 then CHR ''-'' # show_nat (nat (- n)) else show_nat (nat n))"

definition task_event :: "switch_event_types_t \<Rightarrow> switch_scheduler_task_container \<Rightarrow> schedule_event" where
  "task_event typ tp =
     (typ, [(''Task-ID'', show_nat (unat (st_task_id (tc_task tp)))), (''Task-Desc'', tc_desc tp),
            (''Task-Group'', st_group (tc_task tp)), (''Task-Runtime'', show_int64 (st_runtime (tc_task tp)))])"

section \<open>Calls of clients\<close>

text \<open>\<^verbatim>\<open>time_t\<close> has 32 bits on the target.\<close>

definition as_time_t :: "int \<Rightarrow> int" where
  "as_time_t x = (x + 2 ^ 31) mod 2 ^ 32 - 2 ^ 31"

definition next_task_id :: "uint32_t \<Rightarrow> uint32_t" where
  "next_task_id i = (if i + 1 \<noteq> 0 then i + 1 else i + 2)"

text \<open>The part of \<^verbatim>\<open>switch_scheduler_add_task\<close> under the mutex, the announcement after it, and the whole.\<close>

definition add_task_locked ::
  "nat \<Rightarrow> int \<Rightarrow> int \<Rightarrow> nat \<Rightarrow> string option \<Rightarrow> string option \<Rightarrow> uint32_t \<Rightarrow> nat option \<Rightarrow> uint32_t \<Rightarrow> scheduler_globals \<Rightarrow>
   switch_scheduler_task_container \<times> scheduler_globals" where
  "add_task_locked addr now task_runtime func desc gname cmd_id cmd_arg flags globals =
     (let (repeat, task_runtime) =
            (if task_runtime < now then (word_of_int task_runtime, as_time_t (task_runtime + now)) else (0, task_runtime));
          grp = (case gname of Some g \<Rightarrow> g | None \<Rightarrow> ''none'');
          task_id = next_task_id (gl_task_id globals);
          container =
            \<lparr>tc_addr = addr,
             tc_task = \<lparr>st_created = now, st_runtime = task_runtime, st_cmd_id = cmd_id, st_repeat = repeat,
                        st_group = grp, st_cmd_arg = cmd_arg, st_task_id = task_id,
                        st_hash = switch_ci_hashfunc_default grp\<rparr>,
             tc_executed = 0, tc_in_thread = False, tc_destroyed = 0, tc_running = False, tc_func = func,
             tc_flags = flags, tc_desc = (case desc of Some d \<Rightarrow> d | None \<Rightarrow> ''none'')\<rparr>
      in (container, globals\<lparr>gl_task_list := gl_task_list globals @ [container], gl_task_id := task_id\<rparr>))"

definition add_task_announce :: "switch_scheduler_task_container \<Rightarrow> scheduler_globals \<Rightarrow> scheduler_globals" where
  "add_task_announce tp globals =
     globals\<lparr>gl_event_queue := gl_event_queue globals @ [task_event SWITCH_EVENT_ADD_SCHEDULE tp]\<rparr>"

definition switch_scheduler_add_task ::
  "nat \<Rightarrow> int \<Rightarrow> int \<Rightarrow> nat \<Rightarrow> string option \<Rightarrow> string option \<Rightarrow> uint32_t \<Rightarrow> nat option \<Rightarrow> uint32_t \<Rightarrow> scheduler_globals \<Rightarrow>
   uint32_t \<times> scheduler_globals" where
  "switch_scheduler_add_task addr now task_runtime func desc gname cmd_id cmd_arg flags globals =
     (case add_task_locked addr now task_runtime func desc gname cmd_id cmd_arg flags globals of (tp, globals) \<Rightarrow>
        (st_task_id (tc_task tp), add_task_announce tp globals))"

fun del_id_loop :: "uint32_t \<Rightarrow> switch_scheduler_task_container list \<Rightarrow> nat \<times> switch_scheduler_task_container list" where
  "del_id_loop task_id [] = (0, [])"
| "del_id_loop task_id (tp # ts) =
     (if st_task_id (tc_task tp) = task_id then
        (if test_flag (tc_flags tp) SSHF_NO_DEL then (0, tp # ts)
         else if tc_running tp then (0, tp # ts)
         else (1, tp\<lparr>tc_destroyed := tc_destroyed tp + 1\<rparr> # ts))
      else (case del_id_loop task_id ts of (n, ts') \<Rightarrow> (n, tp # ts')))"

definition switch_scheduler_del_task_id :: "uint32_t \<Rightarrow> scheduler_globals \<Rightarrow> nat \<times> scheduler_globals" where
  "switch_scheduler_del_task_id task_id globals =
     (case del_id_loop task_id (gl_task_list globals) of (n, ts) \<Rightarrow> (n, globals\<lparr>gl_task_list := ts\<rparr>))"

fun del_group_loop ::
  "uint32_t \<Rightarrow> string \<Rightarrow> switch_scheduler_task_container list \<Rightarrow> nat \<times> switch_scheduler_task_container list" where
  "del_group_loop hash gname [] = (0, [])"
| "del_group_loop hash gname (tp # ts) =
     (case del_group_loop hash gname ts of (n, ts') \<Rightarrow>
        (if tc_destroyed tp \<noteq> 0 then (n, tp # ts')
         else if hash = st_hash (tc_task tp) \<and> st_group (tc_task tp) = gname then
           (if test_flag (tc_flags tp) SSHF_NO_DEL then (n, tp # ts')
            else (n + 1, tp\<lparr>tc_destroyed := tc_destroyed tp + 1\<rparr> # ts'))
         else (n, tp # ts')))"

definition switch_scheduler_del_task_group :: "string option \<Rightarrow> scheduler_globals \<Rightarrow> nat \<times> scheduler_globals" where
  "switch_scheduler_del_task_group gname globals =
     (case gname of
        None \<Rightarrow> (0, globals)
      | Some g \<Rightarrow>
          (if g = [] then (0, globals)
           else case del_group_loop (switch_ci_hashfunc_default g) g (gl_task_list globals) of
                  (n, ts) \<Rightarrow> (n, globals\<lparr>gl_task_list := ts\<rparr>)))"

section \<open>Executing tasks\<close>

text \<open>\<open>now\<close> is what the clock says after the task function has returned.\<close>

definition switch_scheduler_execute ::
  "(nat \<Rightarrow> switch_scheduler_task \<Rightarrow> switch_scheduler_task) \<Rightarrow> int \<Rightarrow> switch_scheduler_task_container \<Rightarrow>
   switch_scheduler_task_container \<times> schedule_event list" where
  "switch_scheduler_execute fn now tp =
     (let tp = tp\<lparr>tc_task := fn (tc_func tp) (tc_task tp)\<rparr>;
          tp = (if st_repeat (tc_task tp) \<noteq> 0
                then tp\<lparr>tc_task := (tc_task tp)\<lparr>st_runtime := now + uint (st_repeat (tc_task tp))\<rparr>\<rparr> else tp)
      in if st_runtime (tc_task tp) > tc_executed tp
         then (tp\<lparr>tc_executed := 0\<rparr>, [task_event SWITCH_EVENT_RE_SCHEDULE tp])
         else (tp\<lparr>tc_destroyed := 1\<rparr>, []))"

text \<open>The first walk, at one container: mark it for destruction at shutdown, or start it when it is due.\<close>

definition task_due :: "int \<Rightarrow> switch_scheduler_task_container \<Rightarrow> bool" where
  "task_due now tp \<longleftrightarrow> tc_destroyed tp = 0 \<and> now \<ge> st_runtime (tc_task tp) \<and> \<not> tc_in_thread tp"

definition visit_task :: "bool \<Rightarrow> int \<Rightarrow> switch_scheduler_task_container \<Rightarrow> switch_scheduler_task_container" where
  "visit_task fin now tp =
     (if fin then tp\<lparr>tc_destroyed := 1\<rparr>
      else if task_due now tp then
        (let tp = tp\<lparr>tc_executed := now\<rparr> in
         if test_flag (tc_flags tp) SSHF_OWN_THREAD then tp\<lparr>tc_in_thread := True\<rparr> else tp\<lparr>tc_running := True\<rparr>)
      else tp)"

text \<open>The second walk: unlink, announce and free what is destroyed and not in a thread.\<close>

definition task_dead :: "switch_scheduler_task_container \<Rightarrow> bool" where
  "task_dead tp \<longleftrightarrow> tc_destroyed tp \<noteq> 0 \<and> \<not> tc_in_thread tp"

fun sweep_loop :: "switch_scheduler_task_container list \<Rightarrow> switch_scheduler_task_container list \<times> schedule_event list" where
  "sweep_loop [] = ([], [])"
| "sweep_loop (tp # ts) =
     (case sweep_loop ts of (kept, es) \<Rightarrow>
        (if task_dead tp then (kept, task_event SWITCH_EVENT_DEL_SCHEDULE tp # es) else (tp # kept, es)))"

definition sweep_tasks :: "scheduler_globals \<Rightarrow> scheduler_globals" where
  "sweep_tasks globals =
     (case sweep_loop (gl_task_list globals) of (kept, es) \<Rightarrow>
        globals\<lparr>gl_task_list := kept, gl_event_queue := gl_event_queue globals @ es\<rparr>)"

text \<open>The whole loop body when nobody interferes. \<open>clock\<close> gives the two readings of the clock made for each
  container; the last component of the result lists the addresses of the tasks for which a thread was
  started.\<close>

fun visit_loop ::
  "(nat \<Rightarrow> switch_scheduler_task \<Rightarrow> switch_scheduler_task) \<Rightarrow> bool \<Rightarrow> (nat \<Rightarrow> int \<times> int) \<Rightarrow> switch_scheduler_task_container list \<Rightarrow>
   switch_scheduler_task_container list \<times> schedule_event list \<times> nat list" where
  "visit_loop fn fin clock [] = ([], [], [])"
| "visit_loop fn fin clock (tp # ts) =
     (let (now, now') = clock (tc_addr tp);
          tp1 = visit_task fin now tp;
          (tp2, es) =
            (if \<not> fin \<and> task_due now tp \<and> \<not> test_flag (tc_flags tp) SSHF_OWN_THREAD then
               (case switch_scheduler_execute fn now' tp1 of (tp2, es) \<Rightarrow> (tp2\<lparr>tc_running := False\<rparr>, es))
             else (tp1, []));
          started = (if tc_in_thread tp1 \<and> \<not> tc_in_thread tp then [tc_addr tp] else [])
      in case visit_loop fn fin clock ts of (ts', es', started') \<Rightarrow> (tp2 # ts', es @ es', started @ started'))"

definition task_thread_loop ::
  "(nat \<Rightarrow> switch_scheduler_task \<Rightarrow> switch_scheduler_task) \<Rightarrow> bool \<Rightarrow> (nat \<Rightarrow> int \<times> int) \<Rightarrow> scheduler_globals \<Rightarrow>
   bool \<times> scheduler_globals \<times> nat list" where
  "task_thread_loop fn fin clock globals =
     (case visit_loop fn fin clock (gl_task_list globals) of (ts, es, started) \<Rightarrow>
        (fin, sweep_tasks (globals\<lparr>gl_task_list := ts, gl_event_queue := gl_event_queue globals @ es\<rparr>), started))"

section \<open>The scheduler among other threads\<close>

text \<open>Where the scheduler's thread is: before a turn of its loop, at position \<open>i\<close> of the first walk, inside
  the function of the task at position \<open>i\<close>, before the second walk, before it takes an event from the
  queue, or at its end.\<close>

datatype scheduler_pc = Pc_Wait | Pc_Visit bool nat | Pc_Exec nat | Pc_Sweep bool | Pc_Pop | Pc_End

text \<open>\<open>sy_threads\<close> are the tasks whose own thread has not returned from \<^verbatim>\<open>switch_scheduler_execute\<close>, \<open>sy_ending\<close>
  those whose thread has yet to clear \<^verbatim>\<open>in_thread\<close>. \<open>sy_pool\<close> says whether \<^verbatim>\<open>globals.memory_pool\<close>, which
  holds the event queue, exists; \<open>sy_dangling\<close> and \<open>sy_queue_fault\<close> record the use of a freed container
  and of a queue that is gone. \<open>sy_adding\<close> are the containers whose \<^verbatim>\<open>switch_scheduler_add_task\<close> has
  released the mutex and not returned yet, \<open>sy_add_fault\<close> records that such a call used a container that was
  freed meanwhile, and \<open>sy_added\<close> counts the calls.\<close>

record scheduler_system =
  sy_globals :: scheduler_globals
  sy_pc :: scheduler_pc
  sy_threads :: "nat list"
  sy_ending :: "nat list"
  sy_pool :: bool
  sy_dangling :: bool
  sy_queue_fault :: bool
  sy_adding :: "nat list"
  sy_add_fault :: bool
  sy_added :: nat

abbreviation sy_list :: "scheduler_system \<Rightarrow> switch_scheduler_task_container list" where
  "sy_list s \<equiv> gl_task_list (sy_globals s)"

definition mutex_free :: "scheduler_system \<Rightarrow> bool" where
  "mutex_free s \<longleftrightarrow> (case sy_pc s of Pc_Visit _ _ \<Rightarrow> False | _ \<Rightarrow> sy_pool s)"

definition with_list :: "switch_scheduler_task_container list \<Rightarrow> schedule_event list \<Rightarrow> scheduler_globals \<Rightarrow> scheduler_globals" where
  "with_list ts es g = g\<lparr>gl_task_list := ts, gl_event_queue := gl_event_queue g @ es\<rparr>"

definition at_addr :: "nat \<Rightarrow> (switch_scheduler_task_container \<Rightarrow> switch_scheduler_task_container) \<Rightarrow>
    switch_scheduler_task_container list \<Rightarrow> switch_scheduler_task_container list" where
  "at_addr p f ts = map (\<lambda>tp. if tc_addr tp = p then f tp else tp) ts"

definition container_at :: "nat \<Rightarrow> switch_scheduler_task_container list \<Rightarrow> switch_scheduler_task_container option" where
  "container_at p ts = find (\<lambda>tp. tc_addr tp = p) ts"

text \<open>One container in the first walk.\<close>

definition visit_step :: "bool \<Rightarrow> nat \<Rightarrow> int \<Rightarrow> scheduler_system \<Rightarrow> scheduler_system" where
  "visit_step fin i now s =
     (let tp = sy_list s ! i; tp' = visit_task fin now tp in
      s\<lparr>sy_globals := with_list ((sy_list s)[i := tp']) [] (sy_globals s),
        sy_pc := (if \<not> fin \<and> task_due now tp \<and> \<not> test_flag (tc_flags tp) SSHF_OWN_THREAD then Pc_Exec i
                  else Pc_Visit fin (i + 1)),
        sy_threads := (if tc_in_thread tp' \<and> \<not> tc_in_thread tp then tc_addr tp # sy_threads s else sy_threads s)\<rparr>)"

text \<open>The task function of the task at position \<open>i\<close> returns in the scheduler's thread.\<close>

definition exec_step ::
  "(nat \<Rightarrow> switch_scheduler_task \<Rightarrow> switch_scheduler_task) \<Rightarrow> nat \<Rightarrow> int \<Rightarrow> scheduler_system \<Rightarrow> scheduler_system" where
  "exec_step fn i now s =
     (if i < length (sy_list s) then
        (case switch_scheduler_execute fn now (sy_list s ! i) of (tp, es) \<Rightarrow>
           s\<lparr>sy_globals := with_list ((sy_list s)[i := tp\<lparr>tc_running := False\<rparr>]) es (sy_globals s),
             sy_pc := Pc_Visit False (i + 1)\<rparr>)
      else s\<lparr>sy_dangling := True\<rparr>)"

text \<open>\<^verbatim>\<open>task_own_thread\<close>, up to its last statement, and that statement.\<close>

definition task_own_thread ::
  "(nat \<Rightarrow> switch_scheduler_task \<Rightarrow> switch_scheduler_task) \<Rightarrow> nat \<Rightarrow> int \<Rightarrow> scheduler_system \<Rightarrow> scheduler_system" where
  "task_own_thread fn p now s =
     (case container_at p (sy_list s) of
        None \<Rightarrow> s\<lparr>sy_dangling := True\<rparr>
      | Some tp \<Rightarrow>
          (case switch_scheduler_execute fn now tp of (tp', es) \<Rightarrow>
             s\<lparr>sy_globals := with_list (at_addr p (\<lambda>_. tp') (sy_list s)) es (sy_globals s),
               sy_threads := remove1 p (sy_threads s), sy_ending := p # sy_ending s,
               sy_queue_fault := (sy_queue_fault s \<or> es \<noteq> [] \<and> \<not> sy_pool s)\<rparr>))"

definition own_thread_end :: "nat \<Rightarrow> scheduler_system \<Rightarrow> scheduler_system" where
  "own_thread_end p s =
     (case container_at p (sy_list s) of
        None \<Rightarrow> s\<lparr>sy_dangling := True\<rparr>
      | Some tp \<Rightarrow>
          s\<lparr>sy_globals := with_list (at_addr p (\<lambda>tp. tp\<lparr>tc_in_thread := False\<rparr>) (sy_list s)) [] (sy_globals s),
            sy_ending := remove1 p (sy_ending s)\<rparr>)"

text \<open>The announcement of a new task, made without the mutex.\<close>

definition announce_step :: "nat \<Rightarrow> scheduler_system \<Rightarrow> scheduler_system" where
  "announce_step p s =
     (case container_at p (sy_list s) of
        None \<Rightarrow> s\<lparr>sy_adding := remove1 p (sy_adding s), sy_add_fault := True\<rparr>
      | Some tp \<Rightarrow> s\<lparr>sy_globals := add_task_announce tp (sy_globals s), sy_adding := remove1 p (sy_adding s)\<rparr>)"

inductive sched_step ::
  "(nat \<Rightarrow> switch_scheduler_task \<Rightarrow> switch_scheduler_task) \<Rightarrow> scheduler_system \<Rightarrow> scheduler_system \<Rightarrow> bool"
  for fn where
  turn: "sy_pc s = Pc_Wait \<Longrightarrow> sched_step fn s (s\<lparr>sy_pc := Pc_Visit (gl_task_thread_running (sy_globals s) \<noteq> 1) 0\<rparr>)"
| visit: "sy_pc s = Pc_Visit fin i \<Longrightarrow> i < length (sy_list s) \<Longrightarrow> sched_step fn s (visit_step fin i now s)"
| exec: "sy_pc s = Pc_Exec i \<Longrightarrow> sched_step fn s (exec_step fn i now s)"
| walked: "sy_pc s = Pc_Visit fin i \<Longrightarrow> length (sy_list s) \<le> i \<Longrightarrow> sched_step fn s (s\<lparr>sy_pc := Pc_Sweep fin\<rparr>)"
| sweep: "sy_pc s = Pc_Sweep False \<Longrightarrow> sched_step fn s (s\<lparr>sy_globals := sweep_tasks (sy_globals s), sy_pc := Pc_Pop\<rparr>)"
| pop: "sy_pc s = Pc_Pop \<Longrightarrow>
    sched_step fn s (s\<lparr>sy_globals := (sy_globals s)\<lparr>gl_event_queue := tl (gl_event_queue (sy_globals s))\<rparr>, sy_pc := Pc_Wait\<rparr>)"
| last_sweep: "sy_pc s = Pc_Sweep True \<Longrightarrow>
    sched_step fn s (s\<lparr>sy_globals := (sweep_tasks (sy_globals s))\<lparr>gl_event_queue := [], gl_task_thread_running := 0\<rparr>, sy_pc := Pc_End\<rparr>)"
| stop: "sched_step fn s (s\<lparr>sy_globals := (sy_globals s)\<lparr>gl_task_thread_running := - 1\<rparr>\<rparr>)"
| stopped: "sy_pc s = Pc_End \<Longrightarrow> sched_step fn s (s\<lparr>sy_pool := False\<rparr>)"
| own_exec: "p \<in> set (sy_threads s) \<Longrightarrow> sched_step fn s (task_own_thread fn p now s)"
| own_end: "p \<in> set (sy_ending s) \<Longrightarrow> sched_step fn s (own_thread_end p s)"
| add: "mutex_free s \<Longrightarrow> p \<notin> tc_addr ` set (sy_list s) \<Longrightarrow>
    sched_step fn s (s\<lparr>sy_globals := snd (add_task_locked p now runtime func desc gname cmd_id cmd_arg flags (sy_globals s)),
      sy_adding := p # sy_adding s, sy_added := sy_added s + 1\<rparr>)"
| announce: "p \<in> set (sy_adding s) \<Longrightarrow> sched_step fn s (announce_step p s)"
| del_id: "mutex_free s \<Longrightarrow> sched_step fn s (s\<lparr>sy_globals := snd (switch_scheduler_del_task_id task_id (sy_globals s))\<rparr>)"
| del_group: "mutex_free s \<Longrightarrow> sched_step fn s (s\<lparr>sy_globals := snd (switch_scheduler_del_task_group gname (sy_globals s))\<rparr>)"

definition sched_init :: scheduler_system where
  "sched_init = \<lparr>sy_globals = \<lparr>gl_task_list = [], gl_task_id = 0, gl_task_thread_running = 1, gl_event_queue = []\<rparr>,
     sy_pc = Pc_Wait, sy_threads = [], sy_ending = [], sy_pool = True, sy_dangling = False, sy_queue_fault = False,
     sy_adding = [], sy_add_fault = False, sy_added = 0\<rparr>"

inductive sched_reachable ::
  "(nat \<Rightarrow> switch_scheduler_task \<Rightarrow> switch_scheduler_task) \<Rightarrow> scheduler_system \<Rightarrow> bool" for fn where
  init: "sched_reachable fn sched_init"
| step: "sched_reachable fn s \<Longrightarrow> sched_step fn s s' \<Longrightarrow> sched_reachable fn s'"

section \<open>Threads and containers\<close>

text \<open>What the interplay of threads depends on: addresses, which task is in a thread of its own, and which
  is marked as running.\<close>

definition skeleton :: "switch_scheduler_task_container list \<Rightarrow> (nat \<times> bool \<times> bool) list" where
  "skeleton ts = map (\<lambda>tp. (tc_addr tp, tc_in_thread tp, tc_running tp)) ts"

definition in_threads :: "(nat \<times> bool \<times> bool) list \<Rightarrow> nat set" where
  "in_threads K = {p. \<exists>r. (p, True, r) \<in> set K}"

definition threads_ok :: "(nat \<times> bool \<times> bool) list \<Rightarrow> scheduler_pc \<Rightarrow> nat list \<Rightarrow> nat list \<Rightarrow> bool" where
  "threads_ok K pc threads ending \<longleftrightarrow>
     distinct (map fst K) \<and> distinct (threads @ ending) \<and> set (threads @ ending) = in_threads K \<and>
     (\<forall>j<length K. snd (snd (K ! j)) \<longrightarrow> pc = Pc_Exec j) \<and>
     (\<forall>i. pc = Pc_Exec i \<longrightarrow> i < length K \<and> \<not> fst (snd (K ! i)))"

definition sched_inv :: "scheduler_system \<Rightarrow> bool" where
  "sched_inv s \<longleftrightarrow> threads_ok (skeleton (sy_list s)) (sy_pc s) (sy_threads s) (sy_ending s) \<and> \<not> sy_dangling s"

lemma threads_okI:
  assumes "distinct (map fst K)" and "distinct (threads @ ending)" and "set (threads @ ending) = in_threads K"
    and "\<And>j. j < length K \<Longrightarrow> snd (snd (K ! j)) \<Longrightarrow> pc = Pc_Exec j"
    and "\<And>i. pc = Pc_Exec i \<Longrightarrow> i < length K \<and> \<not> fst (snd (K ! i))"
  shows "threads_ok K pc threads ending"
  unfolding threads_ok_def using assms by blast

lemma threads_okD:
  assumes "threads_ok K pc threads ending"
  shows "distinct (map fst K)" and "distinct (threads @ ending)" and "set (threads @ ending) = in_threads K"
    and "\<And>j. j < length K \<Longrightarrow> snd (snd (K ! j)) \<Longrightarrow> pc = Pc_Exec j"
    and "\<And>i. pc = Pc_Exec i \<Longrightarrow> i < length K" and "\<And>i. pc = Pc_Exec i \<Longrightarrow> \<not> fst (snd (K ! i))"
  using assms unfolding threads_ok_def by blast+

lemma skeleton_simps [simp]:
  "skeleton [] = []" "skeleton (tp # ts) = (tc_addr tp, tc_in_thread tp, tc_running tp) # skeleton ts"
  "skeleton (ts @ us) = skeleton ts @ skeleton us" "length (skeleton ts) = length ts"
  "skeleton (ts[i := tp]) = (skeleton ts)[i := (tc_addr tp, tc_in_thread tp, tc_running tp)]"
  "i < length ts \<Longrightarrow> skeleton ts ! i = (tc_addr (ts ! i), tc_in_thread (ts ! i), tc_running (ts ! i))"
  "map fst (skeleton ts) = map tc_addr ts"
  by (simp_all add: skeleton_def map_update)

lemma with_list_simps [simp]:
  "gl_task_list (with_list ts es g) = ts" "gl_task_id (with_list ts es g) = gl_task_id g"
  by (simp_all add: with_list_def)

lemma execute_frame:
  assumes "switch_scheduler_execute fn now tp = (tp', es)"
  shows "tc_addr tp' = tc_addr tp" and "tc_in_thread tp' = tc_in_thread tp" and "tc_running tp' = tc_running tp"
    and "tc_flags tp' = tc_flags tp"
  using assms by (auto simp: switch_scheduler_execute_def Let_def split: if_splits)

lemma visit_frame [simp]:
  "tc_addr (visit_task fin now tp) = tc_addr tp" "tc_flags (visit_task fin now tp) = tc_flags tp"
  "tc_task (visit_task fin now tp) = tc_task tp"
  by (simp_all add: visit_task_def Let_def)

lemma visit_in_thread [simp]:
  "tc_in_thread (visit_task fin now tp) \<longleftrightarrow>
     tc_in_thread tp \<or> \<not> fin \<and> task_due now tp \<and> test_flag (tc_flags tp) SSHF_OWN_THREAD"
  "tc_running (visit_task fin now tp) \<longleftrightarrow>
     tc_running tp \<or> \<not> fin \<and> task_due now tp \<and> \<not> test_flag (tc_flags tp) SSHF_OWN_THREAD"
  by (auto simp: visit_task_def Let_def)

lemma del_id_skeleton: "skeleton (snd (del_id_loop task_id ts)) = skeleton ts"
  by (induction ts) (auto split: prod.split)

lemma del_group_skeleton: "skeleton (snd (del_group_loop hash g ts)) = skeleton ts"
  by (induction ts) (auto split: prod.split)

lemma del_skeleton [simp]:
  "skeleton (gl_task_list (snd (switch_scheduler_del_task_id task_id g))) = skeleton (gl_task_list g)"
  "skeleton (gl_task_list (snd (switch_scheduler_del_task_group gname g))) = skeleton (gl_task_list g)"
  using del_id_skeleton [of task_id "gl_task_list g"] del_group_skeleton [of _ _ "gl_task_list g"]
  by (auto simp: switch_scheduler_del_task_id_def switch_scheduler_del_task_group_def split: prod.split option.split)
    (metis snd_conv)+

lemma sweep_loop_eq: "sweep_loop ts = (filter (\<lambda>tp. \<not> task_dead tp) ts, map (task_event SWITCH_EVENT_DEL_SCHEDULE) (filter task_dead ts))"
  by (induction ts) auto

lemma sweep_list [simp]: "gl_task_list (sweep_tasks g) = filter (\<lambda>tp. \<not> task_dead tp) (gl_task_list g)"
  by (simp add: sweep_tasks_def sweep_loop_eq)

lemma container_at_Some:
  assumes "container_at p ts = Some tp"
  shows "tc_addr tp = p" and "tp \<in> set ts"
  using assms by (auto simp: container_at_def find_Some_iff)

lemma container_at_in_thread:
  assumes "p \<in> in_threads (skeleton ts)"
  shows "\<exists>tp. container_at p ts = Some tp"
proof (cases "container_at p ts")
  case None
  then have "\<forall>tp\<in>set ts. tc_addr tp \<noteq> p" by (simp add: container_at_def find_None_iff)
  then show ?thesis using assms by (auto simp: in_threads_def skeleton_def)
qed simp

lemma at_addr_skeleton:
  assumes "distinct (map tc_addr ts)" and "container_at p ts = Some tp"
    and "tc_addr tp' = p" and "tc_in_thread tp' = tc_in_thread tp" and "tc_running tp' = tc_running tp"
  shows "skeleton (at_addr p (\<lambda>_. tp') ts) = skeleton ts"
proof -
  have "tc_in_thread tp' = tc_in_thread c \<and> tc_running tp' = tc_running c" if "c \<in> set ts" "tc_addr c = p" for c
    using that container_at_Some [OF assms(2)] assms(1,4,5) by (metis distinct_map inj_on_eq_iff)
  then show ?thesis using assms(3) by (auto simp: skeleton_def at_addr_def)
qed

lemma in_threads_simps [simp]:
  "in_threads [] = {}" "in_threads ((p, b, r) # K) = (if b then insert p (in_threads K) else in_threads K)"
  "in_threads (K @ [(p, False, r)]) = in_threads K"
  by (auto simp: in_threads_def)

text \<open>How the steps keep the books.\<close>

lemma in_threads_skeleton: "in_threads (skeleton ts) = tc_addr ` {tp \<in> set ts. tc_in_thread tp}"
  by (force simp: in_threads_def skeleton_def)

lemma in_threads_nth: "q \<in> in_threads K \<longleftrightarrow> (\<exists>j<length K. \<exists>r. K ! j = (q, True, r))"
  by (auto simp: in_threads_def in_set_conv_nth)

lemma in_threads_update:
  assumes d: "distinct (map fst K)" and i: "i < length K" and k: "fst (K ! i) = p"
  shows "in_threads (K[i := (p, b, r)]) = (if b then insert p (in_threads K) else in_threads K - {p})"
proof -
  have other: "j = i" if "j < length K" "K ! j = (p, x)" for j x
    using that d i k by (metis fst_conv length_map nth_eq_iff_index_eq nth_map)
  have same: "K[i := (p, b, r)] ! j = K ! j" if "j \<noteq> i" for j using that by simp
  have new: "K[i := (p, b, r)] ! i = (p, b, r)" using i by simp
  have "q \<in> in_threads (K[i := (p, b, r)]) \<longleftrightarrow> (if q = p then b else q \<in> in_threads K)" for q
  proof (cases "q = p")
    case True
    have "\<exists>j<length K. \<exists>r'. K[i := (p, b, r)] ! j = (p, True, r')" if b
      using that new i by (intro exI [of _ i]) simp
    moreover have b if "j < length K" "K[i := (p, b, r)] ! j = (p, True, r')" for j r'
      using that new same other by (metis prod.inject)
    ultimately show ?thesis using True unfolding in_threads_nth length_list_update by auto
  next
    case False
    have "j \<noteq> i" if "K ! j = (q, x)" for j x using that k False by auto
    moreover have "j \<noteq> i" if "K[i := (p, b, r)] ! j = (q, x)" for j x using that new False by auto
    ultimately show ?thesis using False same unfolding in_threads_nth length_list_update by metis
  qed
  then show ?thesis by (auto split: if_splits)
qed

lemma in_threads_own:
  assumes "distinct (map fst K)" and "i < length K" and "K ! i = (p, b, r)"
  shows "p \<in> in_threads K \<longleftrightarrow> b"
  using in_threads_update [OF assms(1,2), of p b r] assms(3) list_update_id [of K i] by (auto split: if_splits)

lemma fst_update: "fst (K ! i) = p \<Longrightarrow> map fst (K[i := (p, x)]) = map fst K"
  by (metis fst_conv list_update_id map_update)

lemma threads_visit:
  assumes ok: "threads_ok K (Pc_Visit fin i) threads ending" and i: "i < length K" and k: "K ! i = (p, inth, run)"
    and own: "own \<longrightarrow> \<not> inth" and go: "go \<longrightarrow> \<not> inth \<and> \<not> own"
  shows "threads_ok (K[i := (p, inth \<or> own, run \<or> go)]) (if go then Pc_Exec i else Pc_Visit fin (i + 1))
    (if own then p # threads else threads) ending"
proof -
  let ?K = "K[i := (p, inth \<or> own, run \<or> go)]"
  note D = threads_okD [OF ok]
  have idle: "\<not> snd (snd (K ! j))" if "j < length K" for j using D(4) [OF that] by auto
  have run: "\<not> run" using idle [OF i] k by simp
  have p_in: "p \<in> in_threads K \<longleftrightarrow> inth" using in_threads_own [OF D(1) i k] .
  have th: "in_threads ?K = (if own then insert p (in_threads K) else in_threads K)"
    using in_threads_update [OF D(1) i, of p "inth \<or> own"] p_in k by auto
  have m: "map fst ?K = map fst K" using k by (simp add: fst_update)
  have run': "go \<and> j = i" if "j < length ?K" "snd (snd (?K ! j))" for j
    using that idle run i by (cases "j = i") auto
  show ?thesis
  proof (rule threads_okI)
    show "distinct ((if own then p # threads else threads) @ ending)" using D(2,3) p_in own by auto
    show "set ((if own then p # threads else threads) @ ending) = in_threads ?K" unfolding th D(3) [symmetric] by auto
    show "(if go then Pc_Exec i else Pc_Visit fin (i + 1)) = Pc_Exec j" if "j < length ?K" "snd (snd (?K ! j))" for j
      using run' [OF that] by simp
  qed (use m D(1) go own i in \<open>auto split: if_splits\<close>)
qed

lemma threads_exec:
  assumes ok: "threads_ok K (Pc_Exec i) threads ending" and k: "K ! i = (p, inth, run)"
  shows "threads_ok (K[i := (p, inth, False)]) (Pc_Visit False (i + 1)) threads ending"
proof (rule threads_okI)
  note D = threads_okD [OF ok]
  have i: "i < length K" using D(5) by simp
  show "set (threads @ ending) = in_threads (K[i := (p, inth, False)])" unfolding D(3)
    using in_threads_update [OF D(1) i, of p inth] in_threads_own [OF D(1) i k] k by auto
  show "Pc_Visit False (i + 1) = Pc_Exec j"
    if "j < length (K[i := (p, inth, False)])" "snd (snd (K[i := (p, inth, False)] ! j))" for j
    using that D(4) [of j] i by (cases "j = i") auto
qed (use threads_okD [OF ok] k in \<open>auto simp: fst_update\<close>)

lemma threads_ok_idle:
  assumes "threads_ok K pc threads ending" and "\<forall>i. pc \<noteq> Pc_Exec i" and "\<forall>i. pc' \<noteq> Pc_Exec i"
  shows "threads_ok K pc' threads ending"
  using threads_okD [OF assms(1)] assms(2,3) by (intro threads_okI) blast+

lemma threads_sweep:
  assumes ok: "threads_ok (skeleton ts) (Pc_Sweep fin) threads ending" and pc: "\<forall>i. pc \<noteq> Pc_Exec i"
  shows "threads_ok (skeleton (filter (\<lambda>tp. \<not> task_dead tp) ts)) pc threads ending"
proof (rule threads_okI)
  let ?ts = "filter (\<lambda>tp. \<not> task_dead tp) ts"
  note D = threads_okD [OF ok]
  have t: "in_threads (skeleton ?ts) = in_threads (skeleton ts)" by (auto simp: in_threads_skeleton task_dead_def)
  show "distinct (map fst (skeleton ?ts))" using D(1) by (simp add: distinct_map_filter)
  show "set (threads @ ending) = in_threads (skeleton ?ts)" using D(3) t by simp
  have idle: "\<not> tc_running tp" if "tp \<in> set ts" for tp
    using that D(4) by (auto simp: in_set_conv_nth)
  show "pc = Pc_Exec j" if "j < length (skeleton ?ts)" "snd (snd (skeleton ?ts ! j))" for j
    using that idle nth_mem [of j ?ts] by auto
qed (use threads_okD(2) [OF ok] pc in auto)

lemma threads_add:
  assumes ok: "threads_ok K pc threads ending" and "p \<notin> fst ` set K"
  shows "threads_ok (K @ [(p, False, False)]) pc threads ending"
proof (rule threads_okI)
  show "distinct (map fst (K @ [(p, False, False)]))" using threads_okD(1) [OF ok] assms(2) by simp
  show "set (threads @ ending) = in_threads (K @ [(p, False, False)])" using threads_okD(3) [OF ok] by simp
  show "pc = Pc_Exec j" if "j < length (K @ [(p, False, False)])" "snd (snd ((K @ [(p, False, False)]) ! j))" for j
    using that by (intro threads_okD(4) [OF ok]) (auto simp: nth_append less_Suc_eq split: if_splits)
  show "i < length (K @ [(p, False, False)]) \<and> \<not> fst (snd ((K @ [(p, False, False)]) ! i))" if "pc = Pc_Exec i" for i
    using threads_okD(5,6) [OF ok that] by (simp add: nth_append)
qed (rule threads_okD(2) [OF ok])

lemma threads_return:
  assumes ok: "threads_ok K pc threads ending" and p: "p \<in> set threads"
  shows "threads_ok K pc (remove1 p threads) (p # ending)"
proof -
  note D = threads_okD [OF ok]
  have "distinct (remove1 p threads @ p # ending)" using D(2) p by (auto simp: distinct_remove1)
  moreover have "set (remove1 p threads @ p # ending) = in_threads K" using D(2) p unfolding D(3) [symmetric] by auto
  ultimately show ?thesis using D(1,4,5,6) by (intro threads_okI) blast+
qed

lemma threads_end:
  assumes ok: "threads_ok (skeleton ts) pc threads ending" and p: "p \<in> set ending"
  shows "threads_ok (skeleton (at_addr p (\<lambda>tp. tp\<lparr>tc_in_thread := False\<rparr>) ts)) pc threads (remove1 p ending)"
proof (rule threads_okI)
  let ?ts = "at_addr p (\<lambda>tp. tp\<lparr>tc_in_thread := False\<rparr>) ts"
  note D = threads_okD [OF ok]
  have nth: "tc_running (?ts ! j) \<longleftrightarrow> tc_running (ts ! j)" "tc_in_thread (?ts ! j) \<Longrightarrow> tc_in_thread (ts ! j)"
    if "j < length ts" for j using that by (auto simp: at_addr_def split: if_splits)
  have len: "length ?ts = length ts" "map tc_addr ?ts = map tc_addr ts" by (auto simp: at_addr_def)
  have t: "in_threads (skeleton ?ts) = in_threads (skeleton ts) - {p}"
    unfolding at_addr_def by (induction ts) auto
  show "distinct (map fst (skeleton ?ts))" using D(1) len(2) by simp
  show "distinct (threads @ remove1 p ending)" using D(2) set_remove1_subset [of p ending] by (auto simp: distinct_remove1)
  show "set (threads @ remove1 p ending) = in_threads (skeleton ?ts)" using D(2) p unfolding t D(3) [symmetric] by auto
  show "pc = Pc_Exec j" if "j < length (skeleton ?ts)" "snd (snd (skeleton ?ts ! j))" for j
    using that len(1) nth(1) by (intro D(4)) simp_all
  show "i < length (skeleton ?ts) \<and> \<not> fst (snd (skeleton ?ts ! i))" if "pc = Pc_Exec i" for i
    using D(5,6) [OF that] len(1) nth(2) [of i] by auto
qed

text \<open>Every step keeps the invariant.\<close>

lemma sched_step_inv:
  assumes "sched_step fn s s'" and "sched_inv s"
  shows "sched_inv s'"
  using assms
proof (induction rule: sched_step.induct)
  case (visit s fin i now)
  then have "threads_ok (skeleton (sy_list s)) (Pc_Visit fin i) (sy_threads s) (sy_ending s)" "i < length (skeleton (sy_list s))"
    by (simp_all add: sched_inv_def)
  note T = threads_visit [OF this skeleton_simps(6) [OF visit(2)]]
  have due: "task_due now (sy_list s ! i) \<Longrightarrow> \<not> tc_in_thread (sy_list s ! i)" by (simp add: task_due_def)
  let ?own = "\<not> fin \<and> task_due now (sy_list s ! i) \<and> test_flag (tc_flags (sy_list s ! i)) SSHF_OWN_THREAD"
    and ?go = "\<not> fin \<and> task_due now (sy_list s ! i) \<and> \<not> test_flag (tc_flags (sy_list s ! i)) SSHF_OWN_THREAD"
  have "(tc_in_thread (visit_task fin now (sy_list s ! i)) \<and> \<not> tc_in_thread (sy_list s ! i)) = ?own" using due by auto
  then show ?case using visit(3) T [of ?own ?go] due by (simp add: sched_inv_def visit_step_def Let_def)
next
  case (exec s i now)
  then have ok: "threads_ok (skeleton (sy_list s)) (Pc_Exec i) (sy_threads s) (sy_ending s)" by (simp add: sched_inv_def)
  have i: "i < length (sy_list s)" using threads_okD(5) [OF ok, of i] by simp
  obtain tp es where e: "switch_scheduler_execute fn now (sy_list s ! i) = (tp, es)" by (cases "switch_scheduler_execute fn now (sy_list s ! i)")
  show ?case using exec i e execute_frame [OF e] threads_exec [OF ok skeleton_simps(6) [OF i]]
    by (simp add: sched_inv_def exec_step_def)
next
  case (own_exec p s now)
  then have ok: "threads_ok (skeleton (sy_list s)) (sy_pc s) (sy_threads s) (sy_ending s)" by (simp add: sched_inv_def)
  obtain tp where tp: "container_at p (sy_list s) = Some tp"
    using own_exec(1) container_at_in_thread [of p] threads_okD(3) [OF ok] by auto
  obtain tp' es where e: "switch_scheduler_execute fn now tp = (tp', es)" by (cases "switch_scheduler_execute fn now tp")
  have "skeleton (at_addr p (\<lambda>_. tp') (sy_list s)) = skeleton (sy_list s)"
    using threads_okD(1) [OF ok] execute_frame [OF e] container_at_Some [OF tp] by (intro at_addr_skeleton [OF _ tp]) simp_all
  then show ?case using threads_return [OF ok] own_exec tp e by (simp add: sched_inv_def task_own_thread_def)
next
  case (own_end p s)
  then have ok: "threads_ok (skeleton (sy_list s)) (sy_pc s) (sy_threads s) (sy_ending s)" by (simp add: sched_inv_def)
  obtain tp where tp: "container_at p (sy_list s) = Some tp"
    using own_end(1) container_at_in_thread [of p] threads_okD(3) [OF ok] by auto
  show ?case using threads_end [OF ok] own_end tp by (simp add: sched_inv_def own_thread_end_def)
next
  case (add s p now runtime func desc gname cmd_id cmd_arg flags)
  then have "threads_ok (skeleton (sy_list s)) (sy_pc s) (sy_threads s) (sy_ending s)" "p \<notin> fst ` set (skeleton (sy_list s))"
    by (auto simp: sched_inv_def skeleton_def)
  from threads_add [OF this] add show ?case
    by (simp add: sched_inv_def add_task_locked_def Let_def split: prod.split)
next
  case (announce p s)
  then show ?case by (simp add: sched_inv_def announce_step_def add_task_announce_def split: option.split)
qed (auto simp: sched_inv_def intro: threads_ok_idle threads_sweep)

lemma sched_reachable_inv: "sched_reachable fn s \<Longrightarrow> sched_inv s"
proof (induction rule: sched_reachable.induct)
  case init
  show ?case by (simp add: sched_inv_def sched_init_def threads_ok_def in_threads_def)
qed (rule sched_step_inv)

section \<open>Task numbers\<close>

definition task_ids :: "switch_scheduler_task_container list \<Rightarrow> uint32_t list" where
  "task_ids ts = map (\<lambda>tp. st_task_id (tc_task tp)) ts"

text \<open>Task functions may reschedule their task; they are expected to leave its number alone.\<close>

definition keeps_ids :: "(nat \<Rightarrow> switch_scheduler_task \<Rightarrow> switch_scheduler_task) \<Rightarrow> bool" where
  "keeps_ids fn \<longleftrightarrow> (\<forall>f t. st_task_id (fn f t) = st_task_id t)"

lemma execute_id:
  assumes "switch_scheduler_execute fn now tp = (tp', es)" and "keeps_ids fn"
  shows "st_task_id (tc_task tp') = st_task_id (tc_task tp)"
  using assms by (auto simp: switch_scheduler_execute_def keeps_ids_def Let_def split: if_splits)

lemma task_ids_update:
  "st_task_id (tc_task tp) = st_task_id (tc_task (ts ! i)) \<Longrightarrow> task_ids (ts[i := tp]) = task_ids ts"
  unfolding task_ids_def by (metis (no_types) list_update_id map_update)

lemma del_id_ids: "task_ids (snd (del_id_loop task_id ts)) = task_ids ts"
  by (induction ts) (auto simp: task_ids_def split: prod.split)

lemma del_group_ids: "task_ids (snd (del_group_loop hash g ts)) = task_ids ts"
  by (induction ts) (auto simp: task_ids_def split: prod.split)

lemma del_globals:
  "gl_task_list (snd (switch_scheduler_del_task_id i g)) = snd (del_id_loop i (gl_task_list g))"
  "gl_task_id (snd (switch_scheduler_del_task_id i g)) = gl_task_id g"
  "gl_task_id (snd (switch_scheduler_del_task_group gname g)) = gl_task_id g"
  "task_ids (gl_task_list (snd (switch_scheduler_del_task_group gname g))) = task_ids (gl_task_list g)"
  using del_group_ids [of _ _ "gl_task_list g"]
  by (auto simp: switch_scheduler_del_task_id_def switch_scheduler_del_task_group_def split: prod.split option.split)
    (metis snd_conv)

definition ids_step :: "scheduler_system \<Rightarrow> scheduler_system \<Rightarrow> bool" where
  "ids_step s s' \<longleftrightarrow>
     gl_task_id (sy_globals s') = gl_task_id (sy_globals s) \<and> sy_added s' = sy_added s \<and>
       (\<exists>P. task_ids (sy_list s') = task_ids (filter P (sy_list s))) \<or>
     gl_task_id (sy_globals s') = next_task_id (gl_task_id (sy_globals s)) \<and> sy_added s' = sy_added s + 1 \<and>
       task_ids (sy_list s') = task_ids (sy_list s) @ [next_task_id (gl_task_id (sy_globals s))]"

lemma ids_step_same:
  assumes "gl_task_id (sy_globals s') = gl_task_id (sy_globals s)" and "sy_added s' = sy_added s"
    and "task_ids (sy_list s') = task_ids (sy_list s)"
  shows "ids_step s s'"
  unfolding ids_step_def using assms by (intro disjI1 conjI exI [of _ "\<lambda>_. True"]) simp_all

lemma sched_step_ids:
  assumes "sched_step fn s s'" and "sched_inv s" and "keeps_ids fn"
  shows "ids_step s s'"
  using assms
proof (induction rule: sched_step.induct)
  case (visit s fin i now)
  then show ?case by (intro ids_step_same) (simp_all add: visit_step_def Let_def task_ids_update)
next
  case (exec s i now)
  obtain tp es where e: "switch_scheduler_execute fn now (sy_list s ! i) = (tp, es)"
    by (cases "switch_scheduler_execute fn now (sy_list s ! i)")
  then show ?case using execute_id [OF e exec(3)] by (intro ids_step_same) (simp_all add: exec_step_def task_ids_update)
next
  case (own_exec p s now)
  have ok: "distinct (map tc_addr (sy_list s))" using own_exec(2) by (simp add: sched_inv_def threads_ok_def)
  show ?case
  proof (cases "container_at p (sy_list s)")
    case None
    then show ?thesis by (intro ids_step_same) (simp_all add: task_own_thread_def)
  next
    case (Some tp)
    obtain tp' es where e: "switch_scheduler_execute fn now tp = (tp', es)" by (cases "switch_scheduler_execute fn now tp")
    have "c = tp" if "c \<in> set (sy_list s)" "tc_addr c = p" for c
      using that ok container_at_Some [OF Some] by (metis distinct_map inj_on_eq_iff)
    then have "task_ids (at_addr p (\<lambda>_. tp') (sy_list s)) = task_ids (sy_list s)"
      using execute_id [OF e own_exec(3)] by (auto simp: task_ids_def at_addr_def)
    then show ?thesis using Some e by (intro ids_step_same) (simp_all add: task_own_thread_def)
  qed
next
  case (own_end p s)
  have "task_ids (at_addr p (\<lambda>tp. tp\<lparr>tc_in_thread := False\<rparr>) (sy_list s)) = task_ids (sy_list s)"
    by (auto simp: task_ids_def at_addr_def)
  then show ?case by (intro ids_step_same) (simp_all add: own_thread_end_def split: option.split)
next
  case (add s p now runtime func desc gname cmd_id cmd_arg flags)
  show ?case by (simp add: ids_step_def add_task_locked_def Let_def task_ids_def split: prod.split)
next
  case (announce p s)
  show ?case by (intro ids_step_same) (simp_all add: announce_step_def add_task_announce_def split: option.split)
next
  case (del_id s task_id)
  show ?case by (intro ids_step_same) (simp_all add: del_globals del_id_ids)
next
  case (del_group s gname)
  show ?case by (intro ids_step_same) (simp_all add: del_globals)
next
  case (sweep s)
  show ?case by (auto simp: ids_step_def sweep_tasks_def split: prod.split simp: sweep_loop_eq)
next
  case (last_sweep s)
  show ?case by (auto simp: ids_step_def sweep_tasks_def split: prod.split simp: sweep_loop_eq)
qed (auto intro: ids_step_same)

definition ids_inv :: "scheduler_system \<Rightarrow> bool" where
  "ids_inv s \<longleftrightarrow> (sy_added s < 2 ^ 32 \<longrightarrow>
     gl_task_id (sy_globals s) = of_nat (sy_added s) \<and> distinct (task_ids (sy_list s)) \<and>
     (\<forall>i\<in>set (task_ids (sy_list s)). 0 < unat i \<and> unat i \<le> sy_added s))"

lemma next_task_id_nat:
  assumes "Suc n < 2 ^ 32"
  shows "next_task_id (of_nat n) = of_nat (Suc n)" and "unat (of_nat (Suc n) :: uint32_t) = Suc n"
proof -
  show u: "unat (of_nat (Suc n) :: uint32_t) = Suc n" using assms by (simp add: unat_of_nat take_bit_nat_eq_self del: of_nat_Suc)
  then have "(of_nat (Suc n) :: uint32_t) \<noteq> 0" by (metis nat.distinct(1) unat_0)
  then show "next_task_id (of_nat n) = of_nat (Suc n)" by (simp add: next_task_id_def add.commute)
qed

lemma ids_step_inv:
  assumes step: "ids_step s s'" and inv: "ids_inv s"
  shows "ids_inv s'"
proof (cases "sy_added s' = sy_added s + 1")
  case True
  then have add: "gl_task_id (sy_globals s') = next_task_id (gl_task_id (sy_globals s))"
    "task_ids (sy_list s') = task_ids (sy_list s) @ [next_task_id (gl_task_id (sy_globals s))]"
    using step by (auto simp: ids_step_def)
  show ?thesis unfolding ids_inv_def
  proof
    assume "sy_added s' < 2 ^ 32"
    then have less: "Suc (sy_added s) < 2 ^ 32" using True by simp
    then have i: "gl_task_id (sy_globals s) = of_nat (sy_added s)" "distinct (task_ids (sy_list s))"
      "\<forall>i\<in>set (task_ids (sy_list s)). 0 < unat i \<and> unat i \<le> sy_added s" using inv by (simp_all add: ids_inv_def)
    note n = next_task_id_nat [OF less]
    have "of_nat (Suc (sy_added s)) \<notin> set (task_ids (sy_list s))" using i(3) n(2) by fastforce
    then show "gl_task_id (sy_globals s') = of_nat (sy_added s') \<and> distinct (task_ids (sy_list s')) \<and>
        (\<forall>i\<in>set (task_ids (sy_list s')). 0 < unat i \<and> unat i \<le> sy_added s')"
      using add n i True by (auto simp del: of_nat_Suc)
  qed
next
  case False
  then obtain P where "gl_task_id (sy_globals s') = gl_task_id (sy_globals s)" "sy_added s' = sy_added s"
    "task_ids (sy_list s') = task_ids (filter P (sy_list s))" using step by (auto simp: ids_step_def)
  then show ?thesis using inv by (auto simp: ids_inv_def task_ids_def distinct_map_filter)
qed

lemma sched_reachable_ids: "sched_reachable fn s \<Longrightarrow> keeps_ids fn \<Longrightarrow> ids_inv s"
proof (induction rule: sched_reachable.induct)
  case init
  show ?case by (simp add: ids_inv_def sched_init_def task_ids_def)
next
  case (step s s')
  show ?case using sched_step_ids [OF step(2) sched_reachable_inv [OF step(1)] step(4)] step(3) [OF step(4)] by (rule ids_step_inv)
qed

section \<open>One turn of the loop\<close>

text \<open>What a turn makes of a task, written without the conditions of the code. A task that is not deleted, whose run time has come and that is not in a
  thread is due: it is given a thread of its own when its flags ask for one, and otherwise executed, and then kept only when it has a later time to
  run. Another task stays as it is unless it was deleted and is in no thread.\<close>

definition rescheduled :: "(nat \<Rightarrow> switch_scheduler_task \<Rightarrow> switch_scheduler_task) \<Rightarrow> int \<Rightarrow> switch_scheduler_task_container \<Rightarrow> switch_scheduler_task" where
  "rescheduled fn now' tp =
     (let t = fn (tc_func tp) (tc_task tp) in
      if st_repeat t \<noteq> 0 then t\<lparr>st_runtime := now' + uint (st_repeat t)\<rparr> else t)"

definition its_time :: "(nat \<Rightarrow> int \<times> int) \<Rightarrow> switch_scheduler_task_container \<Rightarrow> bool" where
  "its_time clock tp \<longleftrightarrow> tc_destroyed tp = 0 \<and> \<not> tc_in_thread tp \<and> st_runtime (tc_task tp) \<le> fst (clock (tc_addr tp))"

definition outcome :: "(nat \<Rightarrow> switch_scheduler_task \<Rightarrow> switch_scheduler_task) \<Rightarrow> (nat \<Rightarrow> int \<times> int) \<Rightarrow>
    switch_scheduler_task_container \<Rightarrow> switch_scheduler_task_container list" where
  "outcome fn clock tp =
     (case clock (tc_addr tp) of (now, now') \<Rightarrow>
        if its_time clock tp then
          (if test_flag (tc_flags tp) SSHF_OWN_THREAD then [tp\<lparr>tc_executed := now, tc_in_thread := True\<rparr>]
           else if now < st_runtime (rescheduled fn now' tp)
           then [tp\<lparr>tc_task := rescheduled fn now' tp, tc_executed := 0, tc_running := False\<rparr>] else [])
        else if tc_destroyed tp \<noteq> 0 \<and> \<not> tc_in_thread tp then [] else [tp])"

lemma execute_rescheduled:
  "switch_scheduler_execute fn now' tp =
     (let tp' = tp\<lparr>tc_task := rescheduled fn now' tp\<rparr> in
      if tc_executed tp < st_runtime (rescheduled fn now' tp)
      then (tp'\<lparr>tc_executed := 0\<rparr>, [task_event SWITCH_EVENT_RE_SCHEDULE tp']) else (tp'\<lparr>tc_destroyed := 1\<rparr>, []))"
  by (simp add: switch_scheduler_execute_def rescheduled_def Let_def)

lemma rescheduled_frame [simp]:
  "rescheduled fn now' (tp\<lparr>tc_executed := x\<rparr>) = rescheduled fn now' tp"
  "rescheduled fn now' (tp\<lparr>tc_running := b\<rparr>) = rescheduled fn now' tp"
  by (simp_all add: rescheduled_def)

lemma visit_loop_outcome:
  "visit_loop fn False clock ts = (ts', es, started) \<Longrightarrow>
   started = map tc_addr (filter (\<lambda>tp. its_time clock tp \<and> test_flag (tc_flags tp) SSHF_OWN_THREAD) ts) \<and>
   filter (\<lambda>tp. \<not> task_dead tp) ts' = concat (map (outcome fn clock) ts) \<and>
   map tc_addr ts' = map tc_addr ts"
proof (induction ts arbitrary: ts' es started)
  case (Cons tp ts)
  obtain now now' where c: "clock (tc_addr tp) = (now, now')" by (cases "clock (tc_addr tp)")
  obtain us es' st where u: "visit_loop fn False clock ts = (us, es', st)" by (cases "visit_loop fn False clock ts")
  have IH: "st = map tc_addr (filter (\<lambda>tp. its_time clock tp \<and> test_flag (tc_flags tp) SSHF_OWN_THREAD) ts)"
    "filter (\<lambda>tp. \<not> task_dead tp) us = concat (map (outcome fn clock) ts)" "map tc_addr us = map tc_addr ts"
    using Cons.IH [OF u] by auto
  have due: "task_due now tp \<longleftrightarrow> its_time clock tp" using c by (auto simp: task_due_def its_time_def)
  show ?case
  proof (cases "its_time clock tp")
    case True
    then have "\<not> tc_in_thread tp" "tc_destroyed tp = 0" by (simp_all add: its_time_def)
    then show ?thesis using Cons.prems True c u IH
      by (auto simp: execute_rescheduled visit_task_def outcome_def [of fn clock tp] task_dead_def due Let_def split: if_splits)
  next
    case False
    then show ?thesis using Cons.prems c u IH by (auto simp: visit_task_def outcome_def [of fn clock tp] task_dead_def due Let_def)
  qed
qed simp

section \<open>Deletion\<close>

lemma del_group_spec:
  "\<forall>tp\<in>set ts. st_hash (tc_task tp) = switch_ci_hashfunc_default (st_group (tc_task tp)) \<Longrightarrow>
   del_group_loop (switch_ci_hashfunc_default g) g ts =
     (length (filter (\<lambda>tp. tc_destroyed tp = 0 \<and> st_group (tc_task tp) = g \<and> \<not> test_flag (tc_flags tp) SSHF_NO_DEL) ts),
      map (\<lambda>tp. if tc_destroyed tp = 0 \<and> st_group (tc_task tp) = g \<and> \<not> test_flag (tc_flags tp) SSHF_NO_DEL
                 then tp\<lparr>tc_destroyed := 1\<rparr> else tp) ts)"
  by (induction ts) auto

section \<open>Properties\<close>

text \<open>C5: However clients, the scheduler and the threads of tasks interleave, neither the scheduler's thread nor
  that of a task works on a container that was freed, no task is in two threads, and the task whose function the scheduler runs itself is in no
  thread: a task is never executed twice at the same time. The thread of a client that adds a task is not covered: it reads its container after it
  has released the mutex, and the last property of this theory shows that the container can have been freed by then.\<close>

theorem scheduler_threads_safe:
  assumes "sched_reachable fn s"
  shows "\<not> sy_dangling s \<and> distinct (sy_threads s @ sy_ending s) \<and>
    (\<forall>p\<in>set (sy_threads s @ sy_ending s). \<exists>tp\<in>set (sy_list s). tc_addr tp = p \<and> tc_in_thread tp) \<and>
    (\<forall>i. sy_pc s = Pc_Exec i \<longrightarrow> i < length (sy_list s) \<and> tc_addr (sy_list s ! i) \<notin> set (sy_threads s @ sy_ending s))"
proof -
  have inv: "threads_ok (skeleton (sy_list s)) (sy_pc s) (sy_threads s) (sy_ending s)" "\<not> sy_dangling s"
    using sched_reachable_inv [OF assms] by (simp_all add: sched_inv_def)
  note D = threads_okD [OF inv(1)]
  have "tc_addr (sy_list s ! i) \<notin> set (sy_threads s @ sy_ending s)" if "sy_pc s = Pc_Exec i" for i
    using D(5,6) [OF that] in_threads_own [OF D(1) D(5) [OF that]] unfolding D(3) by simp
  moreover have "\<exists>tp\<in>set (sy_list s). tc_addr tp = p \<and> tc_in_thread tp" if "p \<in> set (sy_threads s @ sy_ending s)" for p
    using that unfolding D(3) in_threads_skeleton by auto
  ultimately show ?thesis using inv(2) D(2) D(5) by auto
qed

text \<open>C31: The numbers of the tasks in the list differ from each other and from 0 as long as fewer than
  \<open>2 ^ 32\<close> tasks have been added and task functions leave the number of their task alone.\<close>

theorem scheduler_ids_unique:
  assumes "sched_reachable fn s" and "keeps_ids fn" and "sy_added s < 2 ^ 32"
  shows "distinct (task_ids (sy_list s)) \<and> 0 \<notin> set (task_ids (sy_list s))"
  using sched_reachable_ids [OF assms(1,2)] assms(3) by (auto simp: ids_inv_def)

text \<open>C30: A turn of the loop leaves of each task, in the order of the list, what \<^const>\<open>outcome\<close> says: every task that is not deleted and not in a
  thread and whose run time is at or before the clock is executed, and kept exactly when it then has a time to run that lies ahead, or it is given its
  own thread when its flags ask for one; threads are started for exactly those tasks; tasks that were deleted are dropped once they are in no thread.
  When the clock does not go back while a task runs, a task that has a repeat interval is always kept.\<close>

theorem scheduler_turn:
  assumes "\<forall>p. fst (clock p) \<le> snd (clock p)" and "task_thread_loop fn False clock g = (r, g', started)"
  shows "gl_task_list g' = concat (map (outcome fn clock) (gl_task_list g)) \<and> \<not> r \<and>
    started = map tc_addr (filter (\<lambda>tp. its_time clock tp \<and> test_flag (tc_flags tp) SSHF_OWN_THREAD) (gl_task_list g)) \<and>
    (\<forall>tp\<in>set (gl_task_list g). tc_destroyed tp = 0 \<and> st_repeat (fn (tc_func tp) (tc_task tp)) \<noteq> 0 \<longrightarrow>
       (\<exists>tp'\<in>set (gl_task_list g'). tc_addr tp' = tc_addr tp))"
proof -
  obtain ts es st where v: "visit_loop fn False clock (gl_task_list g) = (ts, es, st)"
    by (cases "visit_loop fn False clock (gl_task_list g)")
  note V = visit_loop_outcome [OF v]
  have l: "gl_task_list g' = concat (map (outcome fn clock) (gl_task_list g))" "\<not> r"
    "started = map tc_addr (filter (\<lambda>tp. its_time clock tp \<and> test_flag (tc_flags tp) SSHF_OWN_THREAD) (gl_task_list g))"
    using assms(2) v V by (auto simp: task_thread_loop_def)
  have "\<exists>tp'\<in>set (outcome fn clock tp). tc_addr tp' = tc_addr tp"
    if "tc_destroyed tp = 0" "st_repeat (fn (tc_func tp) (tc_task tp)) \<noteq> 0" for tp
  proof -
    have "0 < uint (st_repeat (fn (tc_func tp) (tc_task tp)))" using that(2) by (metis order_less_le unsigned_0 word_uint_eqI unsigned_greater_eq)
    moreover obtain now now' where c: "clock (tc_addr tp) = (now, now')" by (cases "clock (tc_addr tp)")
    ultimately have "now < st_runtime (rescheduled fn now' tp)"
      using that(2) assms(1) [rule_format, of "tc_addr tp"] by (simp add: rescheduled_def Let_def)
    then show ?thesis using that(1) c by (simp add: outcome_def)
  qed
  then show ?thesis using l by simp blast
qed

text \<open>Deleting a group marks exactly the tasks of that group that are not protected and not marked
  already, and returns their number, when the tasks carry the hash of their group.\<close>

theorem scheduler_del_group:
  assumes "g \<noteq> []" and "\<forall>tp\<in>set (gl_task_list gl). st_hash (tc_task tp) = switch_ci_hashfunc_default (st_group (tc_task tp))"
  shows "switch_scheduler_del_task_group (Some g) gl =
    (length (filter (\<lambda>tp. tc_destroyed tp = 0 \<and> st_group (tc_task tp) = g \<and> \<not> test_flag (tc_flags tp) SSHF_NO_DEL) (gl_task_list gl)),
     gl\<lparr>gl_task_list := map (\<lambda>tp. if tc_destroyed tp = 0 \<and> st_group (tc_task tp) = g \<and> \<not> test_flag (tc_flags tp) SSHF_NO_DEL
                 then tp\<lparr>tc_destroyed := 1\<rparr> else tp) (gl_task_list gl)\<rparr>)"
  using assms by (simp add: switch_scheduler_del_task_group_def del_group_spec)

text \<open>A run: a repeating task with a thread of its own is added at time 100 and started at time 200.\<close>

definition demo_task :: switch_scheduler_task_container where
  "demo_task = \<lparr>tc_addr = 1, tc_task = \<lparr>st_created = 100, st_runtime = 160, st_cmd_id = 0, st_repeat = 60, st_group = ''none'',
      st_cmd_arg = None, st_task_id = 1, st_hash = switch_ci_hashfunc_default ''none''\<rparr>, tc_executed = 0, tc_in_thread = False,
      tc_destroyed = 0, tc_running = False, tc_func = 0, tc_flags = SSHF_OWN_THREAD, tc_desc = ''none''\<rparr>"

definition demo_system :: "scheduler_pc \<Rightarrow> switch_scheduler_task_container list \<Rightarrow> schedule_event list \<Rightarrow> int \<Rightarrow> nat list \<Rightarrow> bool \<Rightarrow>
    nat list \<Rightarrow> scheduler_system" where
  "demo_system pc ts es running threads pool adding =
     \<lparr>sy_globals = \<lparr>gl_task_list = ts, gl_task_id = 1, gl_task_thread_running = running, gl_event_queue = es\<rparr>,
      sy_pc = pc, sy_threads = threads, sy_ending = [], sy_pool = pool, sy_dangling = False, sy_queue_fault = False,
      sy_adding = adding, sy_add_fault = False, sy_added = 1\<rparr>"

abbreviation demo_fn :: "nat \<Rightarrow> switch_scheduler_task \<Rightarrow> switch_scheduler_task" where "demo_fn \<equiv> \<lambda>_ t. t"

abbreviation demo_started :: switch_scheduler_task_container where
  "demo_started \<equiv> demo_task\<lparr>tc_executed := 200, tc_in_thread := True\<rparr>"

lemma demo_run:
  "sched_reachable demo_fn (demo_system (Pc_Visit False 1) [demo_started] [] 1 [1] True [1])"
proof -
  have "sched_step demo_fn sched_init (sched_init\<lparr>sy_globals := snd (add_task_locked 1 100 60 0 None None 0 None
      SSHF_OWN_THREAD (sy_globals sched_init)), sy_adding := 1 # sy_adding sched_init, sy_added := sy_added sched_init + 1\<rparr>)"
    by (rule sched_step.add) (simp_all add: mutex_free_def sched_init_def)
  moreover have "sched_init\<lparr>sy_globals := snd (add_task_locked 1 100 60 0 None None 0 None
      SSHF_OWN_THREAD (sy_globals sched_init)), sy_adding := 1 # sy_adding sched_init, sy_added := sy_added sched_init + 1\<rparr> =
      demo_system Pc_Wait [demo_task] [] 1 [] True [1]"
    by (simp add: sched_init_def add_task_locked_def demo_system_def demo_task_def as_time_t_def next_task_id_def Let_def)
  ultimately have r1: "sched_reachable demo_fn (demo_system Pc_Wait [demo_task] [] 1 [] True [1])"
    using sched_reachable.step [OF sched_reachable.init] by metis
  have r2: "sched_reachable demo_fn (demo_system (Pc_Visit False 0) [demo_task] [] 1 [] True [1])"
    using sched_reachable.step [OF r1 sched_step.turn] by (simp add: demo_system_def)
  show ?thesis using sched_reachable.step [OF r2 sched_step.visit [of _ False 0 demo_fn 200]]
    by (simp add: demo_system_def visit_step_def visit_task_def with_list_def task_due_def demo_task_def test_flag_def SSHF_OWN_THREAD_def)
qed

text \<open>The shutdown of the scheduler while that thread runs.\<close>

lemma demo_shutdown:
  "sched_reachable demo_fn (demo_system Pc_End [demo_started\<lparr>tc_destroyed := 1\<rparr>] [] 0 [1] False [1])"
proof -
  let ?d = "demo_started\<lparr>tc_destroyed := 1\<rparr>"
  have alive: "\<not> task_dead demo_started" "\<not> task_dead ?d" by (simp_all add: task_dead_def demo_task_def)
  have sw: "sweep_tasks \<lparr>gl_task_list = [c], gl_task_id = 1, gl_task_thread_running = r, gl_event_queue = es\<rparr> =
      \<lparr>gl_task_list = [c], gl_task_id = 1, gl_task_thread_running = r, gl_event_queue = es\<rparr>" if "\<not> task_dead c" for c r es
    using that by (simp add: sweep_tasks_def)
  note go = sched_reachable.step
  have r1: "sched_reachable demo_fn (demo_system (Pc_Sweep False) [demo_started] [] 1 [1] True [1])"
    using go [OF demo_run sched_step.walked [of _ False 1]] by (simp add: demo_system_def)
  have r2: "sched_reachable demo_fn (demo_system Pc_Pop [demo_started] [] 1 [1] True [1])"
    using go [OF r1 sched_step.sweep] alive sw by (simp add: demo_system_def)
  have r3: "sched_reachable demo_fn (demo_system Pc_Wait [demo_started] [] 1 [1] True [1])"
    using go [OF r2 sched_step.pop] by (simp add: demo_system_def)
  have r4: "sched_reachable demo_fn (demo_system Pc_Wait [demo_started] [] (- 1) [1] True [1])"
    using go [OF r3 sched_step.stop] by (simp add: demo_system_def)
  have r5: "sched_reachable demo_fn (demo_system (Pc_Visit True 0) [demo_started] [] (- 1) [1] True [1])"
    using go [OF r4 sched_step.turn] by (simp add: demo_system_def)
  have r6: "sched_reachable demo_fn (demo_system (Pc_Visit True 1) [?d] [] (- 1) [1] True [1])"
    using go [OF r5 sched_step.visit [of _ True 0 demo_fn 201]]
    by (simp add: demo_system_def visit_step_def visit_task_def with_list_def Let_def demo_task_def)
  have r7: "sched_reachable demo_fn (demo_system (Pc_Sweep True) [?d] [] (- 1) [1] True [1])"
    using go [OF r6 sched_step.walked [of _ True 1]] by (simp add: demo_system_def)
  have r8: "sched_reachable demo_fn (demo_system Pc_End [?d] [] 0 [1] True [1])"
    using go [OF r7 sched_step.last_sweep] alive sw by (simp add: demo_system_def)
  show ?thesis using go [OF r8 sched_step.stopped] by (simp add: demo_system_def)
qed

text \<open>A task without a thread of its own that is due at once, executed and freed before the call that added it
  has returned.\<close>

definition quick_task :: switch_scheduler_task_container where
  "quick_task = demo_task\<lparr>tc_task := (tc_task demo_task)\<lparr>st_runtime := 100, st_repeat := 0\<rparr>, tc_flags := 0\<rparr>"

lemma demo_quick: "sched_reachable demo_fn (demo_system Pc_Pop [] [task_event SWITCH_EVENT_DEL_SCHEDULE (quick_task\<lparr>tc_executed := 100, tc_destroyed := 1\<rparr>)] 1 [] True [1])"
proof -
  let ?q = "quick_task\<lparr>tc_executed := 100, tc_destroyed := 1\<rparr>"
  note go = sched_reachable.step
  have "sched_step demo_fn sched_init (sched_init\<lparr>sy_globals := snd (add_task_locked 1 100 100 0 None None 0 None
      0 (sy_globals sched_init)), sy_adding := 1 # sy_adding sched_init, sy_added := sy_added sched_init + 1\<rparr>)"
    by (rule sched_step.add) (simp_all add: mutex_free_def sched_init_def)
  moreover have "sched_init\<lparr>sy_globals := snd (add_task_locked 1 100 100 0 None None 0 None
      0 (sy_globals sched_init)), sy_adding := 1 # sy_adding sched_init, sy_added := sy_added sched_init + 1\<rparr> =
      demo_system Pc_Wait [quick_task] [] 1 [] True [1]"
    by (simp add: sched_init_def add_task_locked_def demo_system_def demo_task_def quick_task_def next_task_id_def Let_def)
  ultimately have r1: "sched_reachable demo_fn (demo_system Pc_Wait [quick_task] [] 1 [] True [1])"
    using go [OF sched_reachable.init] by metis
  have r2: "sched_reachable demo_fn (demo_system (Pc_Visit False 0) [quick_task] [] 1 [] True [1])"
    using go [OF r1 sched_step.turn] by (simp add: demo_system_def)
  have r3: "sched_reachable demo_fn (demo_system (Pc_Exec 0) [quick_task\<lparr>tc_executed := 100, tc_running := True\<rparr>] [] 1 [] True [1])"
    using go [OF r2 sched_step.visit [of _ False 0 demo_fn 100]]
    by (simp add: demo_system_def visit_step_def visit_task_def with_list_def task_due_def demo_task_def quick_task_def)
  have r4: "sched_reachable demo_fn (demo_system (Pc_Visit False 1) [?q] [] 1 [] True [1])"
    using go [OF r3 sched_step.exec [of _ 0 demo_fn 100]]
    by (simp add: demo_system_def exec_step_def switch_scheduler_execute_def with_list_def demo_task_def quick_task_def Let_def)
  have r5: "sched_reachable demo_fn (demo_system (Pc_Sweep False) [?q] [] 1 [] True [1])"
    using go [OF r4 sched_step.walked [of _ False 1]] by (simp add: demo_system_def)
  have "task_dead ?q" by (simp add: task_dead_def demo_task_def quick_task_def)
  then show ?thesis using go [OF r5 sched_step.sweep] by (simp add: demo_system_def sweep_tasks_def)
qed

lemma scheduler_add_race:
  "\<exists>s. sched_reachable demo_fn s \<and> sy_add_fault s"
proof -
  let ?s = "demo_system Pc_Pop [] [task_event SWITCH_EVENT_DEL_SCHEDULE (quick_task\<lparr>tc_executed := 100, tc_destroyed := 1\<rparr>)] 1 [] True [1]"
  have "sched_step demo_fn ?s (announce_step 1 ?s)" by (rule sched_step.announce) (simp add: demo_system_def)
  moreover have "sy_add_fault (announce_step 1 ?s)" by (simp add: announce_step_def demo_system_def container_at_def)
  ultimately show ?thesis using sched_reachable.step [OF demo_quick] by blast
qed

lemma scheduler_stop_race:
  "\<exists>s. sched_reachable demo_fn s \<and> sy_queue_fault s"
proof -
  let ?s = "demo_system Pc_End [demo_started\<lparr>tc_destroyed := 1\<rparr>] [] 0 [1] False [1]"
  have "sched_step demo_fn ?s (task_own_thread demo_fn 1 201 ?s)" by (rule sched_step.own_exec) (simp add: demo_system_def)
  moreover have "sy_queue_fault (task_own_thread demo_fn 1 201 ?s)"
    by (simp add: task_own_thread_def demo_system_def demo_task_def container_at_def switch_scheduler_execute_def Let_def)
  ultimately show ?thesis using sched_reachable.step [OF demo_shutdown] by blast
qed

text \<open>C40: Two races exist. \<^verbatim>\<open>switch_scheduler_add_task\<close> reads the container it has added after it released the
  mutex, when the task can have been executed, deleted and freed. And after
  \<^verbatim>\<open>switch_scheduler_task_thread_stop\<close> has destroyed the memory pool with the event queue without waiting
  for the threads of tasks, a task that reschedules itself still pushes to that queue.\<close>

theorem scheduler_races:
  "(\<exists>s. sched_reachable demo_fn s \<and> sy_add_fault s) \<and> (\<exists>s. sched_reachable demo_fn s \<and> sy_queue_fault s)"
  using scheduler_add_race scheduler_stop_race by blast

theorem scheduler_threads_safe_witness:
  "distinct (sy_threads (demo_system (Pc_Visit False 1) [demo_started] [] 1 [1] True [1]))"
  using scheduler_threads_safe [OF demo_run] by simp

theorem scheduler_ids_unique_witness:
  "0 \<notin> set (task_ids (sy_list (demo_system (Pc_Visit False 1) [demo_started] [] 1 [1] True [1])))"
  using scheduler_ids_unique [OF demo_run] by (simp add: keeps_ids_def demo_system_def)

text \<open>A list of a task without a thread of its own and of one that asks for a thread.\<close>

definition demo_globals :: scheduler_globals where
  "demo_globals = \<lparr>gl_task_list = [demo_task\<lparr>tc_flags := 0\<rparr>, demo_task\<lparr>tc_addr := 2, tc_flags := SSHF_OWN_THREAD\<rparr>],
    gl_task_id = 2, gl_task_thread_running = 1, gl_event_queue = []\<rparr>"

theorem scheduler_turn_witness:
  "case task_thread_loop demo_fn False (\<lambda>_. (200, 201)) demo_globals of (r, g', started) \<Rightarrow>
     gl_task_list g' = concat (map (outcome demo_fn (\<lambda>_. (200, 201))) (gl_task_list demo_globals)) \<and> started = [2]"
proof -
  obtain r g' started where t: "task_thread_loop demo_fn False (\<lambda>_. (200, 201)) demo_globals = (r, g', started)"
    by (cases "task_thread_loop demo_fn False (\<lambda>_. (200, 201)) demo_globals")
  from scheduler_turn [OF _ t] show ?thesis unfolding t
    by (simp add: demo_globals_def demo_task_def its_time_def test_flag_def SSHF_OWN_THREAD_def)
qed

theorem scheduler_del_group_witness:
  "fst (switch_scheduler_del_task_group (Some ''none'') demo_globals) = 2"
  by (subst scheduler_del_group) (simp_all add: demo_globals_def demo_task_def SSHF_NO_DEL_def SSHF_OWN_THREAD_def test_flag_def)

end
