(* ===== verification/FS_Session.thy ===== *)
theory FS_Session
  imports FS_Channel
begin

text \<open>
  \<^verbatim>\<open>src/switch_core_state_machine.c\<close> with \<^verbatim>\<open>switch_channel_perform_hangup\<close> and the core's table of state handlers: the
  life of a session. The thread of a session runs, for every state its channel enters, the handlers that
  applications, modules and the endpoint driver have registered for that state, and then the standard
  behaviour; hanging up leads it through hangup and reporting to its end.

  A handler belongs to code outside the core. It is a function from the session to the calls it makes
  on the channel and the status it returns; since the function is arbitrary, the calls other threads
  make while a handler runs are among them. The standard behaviours that execute dialplans and applications
  are handlers, too. Calls between the runs of handlers are the other steps of the relation \<open>life\<close>.
\<close>

section \<open>Sessions and handlers\<close>

datatype chan_call =
    Call_Set_State switch_channel_state_t
  | Call_Hangup switch_call_cause_t
  | Call_Set_Flag switch_channel_flag_t uint32_t
  | Call_Clear_Flag switch_channel_flag_t
  | Call_State_Flag switch_channel_flag_t
  | Call_Set_Callstate switch_channel_callstate_t
  | Call_Mark_Hold bool
  | Call_Set_Variable string "string option"
  | Call_Scope "switch_event option"
  | Call_Add_Handler nat
  | Call_Clear_Handler "nat option"

record switch_core_session =
  ss_channel :: switch_channel
  ss_hangup :: bool
  ss_thread_running :: bool
  ss_thread_started :: bool
  ss_new_loops :: uint32_t
  ss_uuid :: string

abbreviation state_of :: "switch_core_session \<Rightarrow> switch_channel_state_t" where
  "state_of s \<equiv> ch_state (ss_channel s)"

type_synonym switch_state_handler_t = "switch_core_session \<Rightarrow> chan_call list \<times> switch_status_t"

record switch_state_handler_table =
  ht_flags :: uint32_t
  ht_on :: "switch_channel_state_t \<Rightarrow> switch_state_handler_t option"

text \<open>What a session runs in: the handler tables at their addresses, the table of its endpoint driver, the core's
  own tables, the endpoint's and the hooks' \<^verbatim>\<open>state_run\<close> functions, the standard behaviours that run dialplans and
  applications, the messages and events that wait in its queues, and \<^verbatim>\<open>SCF_EARLY_HANGUP\<close>.\<close>

record session_env =
  se_chan :: chan_env
  se_tables :: "nat \<Rightarrow> switch_state_handler_table"
  se_driver :: switch_state_handler_table
  se_core :: "nat list"
  se_state_run :: "switch_state_handler_t list"
  se_standard :: "switch_channel_state_t \<Rightarrow> switch_state_handler_t"
  se_messages :: "switch_core_session \<Rightarrow> chan_call list"
  se_events :: "switch_core_session \<Rightarrow> chan_call list"
  se_early_hangup :: bool

definition on_channel :: "(switch_channel \<Rightarrow> switch_channel c_result) \<Rightarrow> switch_core_session \<Rightarrow> switch_core_session c_result" where
  "on_channel f s = and_then (f (ss_channel s)) (\<lambda>ch. Inr (s\<lparr>ss_channel := ch\<rparr>))"

definition tell :: "chan_effect \<Rightarrow> switch_core_session \<Rightarrow> switch_core_session" where
  "tell e s = s\<lparr>ss_channel := emit e (ss_channel s)\<rparr>"

text \<open>The core's tables: \<^verbatim>\<open>runtime.state_handlers\<close> up to \<^verbatim>\<open>runtime.state_handler_index\<close> is a list.\<close>

definition switch_core_add_state_handler :: "nat \<Rightarrow> nat list \<Rightarrow> int \<times> nat list" where
  "switch_core_add_state_handler state_handler handlers =
     (if SWITCH_MAX_STATE_HANDLERS - 1 < length handlers then (-1, handlers)
      else (int (length handlers), handlers @ [state_handler]))"

definition switch_core_remove_state_handler :: "nat \<Rightarrow> nat list \<Rightarrow> nat list" where
  "switch_core_remove_state_handler state_handler handlers = filter (\<lambda>cur. cur \<noteq> state_handler) handlers"

definition switch_core_get_state_handler :: "nat list \<Rightarrow> nat \<Rightarrow> nat option" where
  "switch_core_get_state_handler handlers index =
     (if SWITCH_MAX_STATE_HANDLERS \<le> index \<or> length handlers < index then None
      else if index < length handlers then Some (handlers ! index) else None)"

section \<open>Hanging up\<close>

text \<open>\<^verbatim>\<open>switch_channel_perform_hangup\<close> in the parts between which other threads can act: one thread claims the hangup,
  tests the state, enters \<^verbatim>\<open>CS_HANGUP\<close>, and then sets the cause and tells everybody.\<close>

definition hangup_claim :: "chan_env \<Rightarrow> switch_channel \<Rightarrow> (bool \<times> switch_channel) c_result" where
  "hangup_claim env channel =
     (let ok = (ch_opaque_flags channel AND OCF_HANGUP = 0);
          ch = (if ok then channel\<lparr>ch_opaque_flags := ch_opaque_flags channel OR OCF_HANGUP\<rparr> else channel)
      in and_then (if chan_flag ch CF_LEG_HOLDING
                   then and_then (switch_channel_mark_hold env False ch) (switch_channel_set_flag env CF_HANGUP_HELD)
                   else Inr ch) (\<lambda>ch. Inr (ok, ch)))"

definition hangup_enter :: "chan_env \<Rightarrow> switch_channel \<Rightarrow> switch_channel" where
  "hangup_enter env channel =
     (let ch = (case ch_hold_record channel of
                  [] \<Rightarrow> channel
                | r # rs \<Rightarrow> if hr_off r = 0 then channel\<lparr>ch_hold_record := r\<lparr>hr_off := ce_now env\<rparr> # rs\<rparr> else channel)
      in ch\<lparr>ch_state := CS_HANGUP\<rparr>)"

definition set_variable_partner :: "chan_env \<Rightarrow> string \<Rightarrow> string option \<Rightarrow> switch_channel \<Rightarrow> switch_channel c_result" where
  "set_variable_partner env varname value channel =
     and_then (switch_channel_get_partner_uuid env channel) (\<lambda>uuid.
       Inr (if uuid \<noteq> None then emit (Set_Partner_Variable varname value) channel else channel))"

definition hangup_announce :: "chan_env \<Rightarrow> switch_call_cause_t \<Rightarrow> switch_channel \<Rightarrow> switch_channel c_result" where
  "hangup_announce env cause channel =
     and_then (set_variable_partner env ''last_bridge_hangup_cause'' (Some (switch_channel_cause2str cause))
         (channel\<lparr>ch_hangup_cause := cause\<rparr>)) (\<lambda>ch.
     and_then (switch_channel_get_variable env ch ''proto_specific_hangup_cause'') (\<lambda>var.
     and_then (if var \<noteq> None then set_variable_partner env ''last_bridge_proto_specific_hangup_cause'' var ch else Inr ch) (\<lambda>ch.
     if chan_flag ch CF_BRIDGE_ORIGINATOR then switch_channel_set_variable ''last_bridge_role'' (Some ''originator'') ch
     else if chan_flag ch CF_BRIDGED then switch_channel_set_variable ''last_bridge_role'' (Some ''originatee'') ch
     else Inr ch)))"

definition hangup_finish ::
  "chan_env \<Rightarrow> switch_call_cause_t \<Rightarrow> (switch_core_session \<Rightarrow> switch_core_session c_result) \<Rightarrow> switch_core_session \<Rightarrow> switch_core_session c_result" where
  "hangup_finish env cause hangup_state s =
     and_then (on_channel (hangup_announce env cause) s) (\<lambda>s.
       let s = (if \<not> ss_thread_running s \<and> \<not> ss_thread_started s then tell Thread_Launch s else s)
       in hangup_state (tell Signal_State_Change (tell Kill_Channel (tell (Fire_Event SWITCH_EVENT_CHANNEL_HANGUP) s))))"

definition switch_channel_perform_hangup ::
  "chan_env \<Rightarrow> (switch_core_session \<Rightarrow> switch_core_session c_result) \<Rightarrow> switch_call_cause_t \<Rightarrow> switch_core_session \<Rightarrow> switch_core_session c_result" where
  "switch_channel_perform_hangup env hangup_state cause s =
     and_then (hangup_claim env (ss_channel s)) (\<lambda>(ok, ch).
       let s = s\<lparr>ss_channel := ch\<rparr> in
       if \<not> ok then Inr s
       else and_then (on_channel (switch_channel_clear_flag env CF_BLOCK_STATE) s) (\<lambda>s.
         if ch_state (ss_channel s) < CS_HANGUP
         then hangup_finish env cause hangup_state (s\<lparr>ss_channel := hangup_enter env (ss_channel s)\<rparr>)
         else Inr s))"

text \<open>One call on the channel.\<close>

definition chan_step :: "session_env \<Rightarrow> chan_call \<Rightarrow> switch_channel \<Rightarrow> switch_channel c_result" where
  "chan_step env c ch =
     (case c of
        Call_Set_State st \<Rightarrow> switch_channel_perform_set_state st ch
      | Call_Hangup cause \<Rightarrow> Inr ch
      | Call_Set_Flag f v \<Rightarrow> switch_channel_set_flag_value (se_chan env) f v ch
      | Call_Clear_Flag f \<Rightarrow> switch_channel_clear_flag (se_chan env) f ch
      | Call_State_Flag f \<Rightarrow> Inr (switch_channel_set_state_flag f ch)
      | Call_Set_Callstate cs \<Rightarrow> Inr (switch_channel_perform_set_callstate cs ch)
      | Call_Mark_Hold on \<Rightarrow> switch_channel_mark_hold (se_chan env) on ch
      | Call_Set_Variable n v \<Rightarrow> switch_channel_set_variable n v ch
      | Call_Scope e \<Rightarrow> Inr (switch_channel_set_scope_variables e ch)
      | Call_Add_Handler a \<Rightarrow> Inr (snd (switch_channel_add_state_handler a ch))
      | Call_Clear_Handler h \<Rightarrow> switch_channel_clear_state_handler (\<lambda>a. ht_flags (se_tables env a)) h ch)"

definition run_call ::
  "session_env \<Rightarrow> (switch_core_session \<Rightarrow> switch_core_session c_result) \<Rightarrow> chan_call \<Rightarrow> switch_core_session \<Rightarrow> switch_core_session c_result" where
  "run_call env hangup_state c s =
     (case c of
        Call_Hangup cause \<Rightarrow> switch_channel_perform_hangup (se_chan env) hangup_state cause s
      | _ \<Rightarrow> on_channel (chan_step env c) s)"

section \<open>Running the handlers of a state\<close>

type_synonym caller = "chan_call \<Rightarrow> switch_core_session \<Rightarrow> switch_core_session c_result"

definition run_handler ::
  "caller \<Rightarrow> handler_source \<Rightarrow> switch_channel_state_t \<Rightarrow> switch_state_handler_t \<Rightarrow> switch_core_session \<Rightarrow>
   (switch_status_t \<times> switch_core_session) c_result" where
  "run_handler call src st h s =
     (let (cs, status) = h s in and_then (for_each call cs (tell (Ran src st) s)) (\<lambda>s. Inr (status, s)))"

text \<open>One of the four loops of \<^verbatim>\<open>STATE_MACRO\<close>, over the indices: it ends with the first empty cell or the first handler that
  does not succeed. \<open>pre\<close> selects the tables with \<^verbatim>\<open>SSH_FLAG_PRE_EXEC\<close>.\<close>

fun handler_loop ::
  "session_env \<Rightarrow> caller \<Rightarrow> (switch_core_session \<Rightarrow> nat \<Rightarrow> nat option) \<Rightarrow> (nat \<Rightarrow> handler_source) \<Rightarrow> bool \<Rightarrow> switch_channel_state_t \<Rightarrow>
   nat list \<Rightarrow> bool \<Rightarrow> switch_core_session \<Rightarrow> (bool \<times> switch_core_session) c_result" where
  "handler_loop env call get src pre st [] proceed s = Inr (proceed, s)"
| "handler_loop env call get src pre st (index # rest) proceed s =
     (case get s index of
        None \<Rightarrow> Inr (proceed, s)
      | Some a \<Rightarrow>
          (let t = se_tables env a in
           if test_flag (ht_flags t) SSH_FLAG_PRE_EXEC \<noteq> pre then handler_loop env call get src pre st rest proceed s
           else (case ht_on t st of
                   None \<Rightarrow> handler_loop env call get src pre st rest True s
                 | Some h \<Rightarrow>
                     and_then (run_handler call (src a) st h s) (\<lambda>(status, s).
                       if status = SWITCH_STATUS_SUCCESS then handler_loop env call get src pre st rest True s
                       else Inr (False, s)))))"

definition channel_handlers_loop ::
  "session_env \<Rightarrow> caller \<Rightarrow> bool \<Rightarrow> switch_channel_state_t \<Rightarrow> bool \<Rightarrow> bool \<Rightarrow> switch_core_session \<Rightarrow> (bool \<times> switch_core_session) c_result" where
  "channel_handlers_loop env call pre st do_extra proceed s =
     (if do_extra then handler_loop env call (\<lambda>s. switch_channel_get_state_handler (ss_channel s)) Channel_Table pre st
         [0..<SWITCH_MAX_STATE_HANDLERS + 1] proceed s
      else Inr (proceed, s))"

definition core_handlers_loop ::
  "session_env \<Rightarrow> caller \<Rightarrow> bool \<Rightarrow> switch_channel_state_t \<Rightarrow> bool \<Rightarrow> switch_core_session \<Rightarrow> (bool \<times> switch_core_session) c_result" where
  "core_handlers_loop env call pre st do_extra s =
     (if do_extra then handler_loop env call (\<lambda>_. switch_core_get_state_handler (se_core env)) Core_Table pre st
         [0..<SWITCH_MAX_STATE_HANDLERS + 1] True s
      else Inr (True, s))"

definition driver_handler ::
  "session_env \<Rightarrow> caller \<Rightarrow> switch_channel_state_t \<Rightarrow> switch_core_session \<Rightarrow> (bool \<times> switch_core_session) c_result" where
  "driver_handler env call st s =
     (case ht_on (se_driver env) st of
        None \<Rightarrow> Inr (True, s)
      | Some h \<Rightarrow> and_then (run_handler call Driver st h s) (\<lambda>(status, s). Inr (status = SWITCH_STATUS_SUCCESS, s)))"

text \<open>\<^verbatim>\<open>STATE_MACRO\<close>: \<open>st\<close> names the handlers, \<open>state\<close> is the state the channel had when the macro started. A veto of any
  handler only keeps the standard behaviour from running.\<close>

definition STATE_MACRO ::
  "session_env \<Rightarrow> caller \<Rightarrow> (switch_core_session \<Rightarrow> switch_core_session c_result) \<Rightarrow> switch_channel_state_t \<Rightarrow> switch_channel_state_t \<Rightarrow>
   bool \<Rightarrow> switch_core_session \<Rightarrow> switch_core_session c_result" where
  "STATE_MACRO env call standard st state do_extra s =
     (let s = (if state < CS_HANGUP \<and> ch_callstate (ss_channel s) = CCS_UNHELD
               then s\<lparr>ss_channel := switch_channel_perform_set_callstate CCS_ACTIVE (ss_channel s)\<rparr> else s);
          s = tell Gen_Key_Frame (tell Request_Video_Refresh s)
      in and_then (channel_handlers_loop env call True st do_extra True s) (\<lambda>(proceed, s).
         let global_proceed = proceed in
         and_then (core_handlers_loop env call True st do_extra s) (\<lambda>(proceed, s).
         let global_proceed = global_proceed \<and> proceed in
         and_then (driver_handler env call st s) (\<lambda>(ok, s).
         if \<not> ok then Inr s
         else and_then (channel_handlers_loop env call False st do_extra proceed s) (\<lambda>(proceed, s).
           let global_proceed = global_proceed \<and> proceed in
           and_then (core_handlers_loop env call False st do_extra s) (\<lambda>(proceed, s).
           let global_proceed = global_proceed \<and> proceed \<and> state = ch_state (ss_channel s) in
           if global_proceed then standard (tell (Ran Standard st) s) else Inr s))))))"

section \<open>Standard behaviour\<close>

definition standard_on_init :: "session_env \<Rightarrow> switch_core_session \<Rightarrow> switch_core_session c_result" where
  "standard_on_init env s =
     and_then (on_channel (switch_channel_perform_set_state
         (if chan_flag (ss_channel s) CF_RECOVERING_BRIDGE then CS_RESET
          else if chan_flag (ss_channel s) CF_RECOVERING then CS_EXECUTE else CS_ROUTING)) s)
       (on_channel (switch_channel_clear_flag (se_chan env) CF_RECOVERING))"

definition run_standard :: "session_env \<Rightarrow> caller \<Rightarrow> switch_channel_state_t \<Rightarrow> switch_core_session \<Rightarrow> switch_core_session c_result" where
  "run_standard env call st s = for_each call (fst (se_standard env st s)) s"

definition standard_on_hangup :: "session_env \<Rightarrow> caller \<Rightarrow> switch_core_session \<Rightarrow> switch_core_session c_result" where
  "standard_on_hangup env call s =
     and_then (switch_channel_get_variable (se_chan env) (ss_channel s) ''log_audio_stats_on_hangup'') (\<lambda>var.
     let s = (if switch_true var then tell Set_Media_Stats s else s);
         rec = chan_flag (ss_channel s) CF_RECOVERING in
      and_then (on_channel (switch_channel_clear_flag (se_chan env) CF_RECOVERING) s) (\<lambda>s.
        let s = (if \<not> rec then tell Recovery_Untrack s else s)
        in if chan_flag (ss_channel s) CF_ZOMBIE_EXEC then run_standard env call CS_HANGUP s else Inr s))"

definition standard_on :: "session_env \<Rightarrow> caller \<Rightarrow> switch_channel_state_t \<Rightarrow> switch_core_session \<Rightarrow> switch_core_session c_result" where
  "standard_on env call st s =
     (case st of
        CS_INIT \<Rightarrow> standard_on_init env s
      | CS_HANGUP \<Rightarrow> standard_on_hangup env call s
      | CS_ROUTING \<Rightarrow> run_standard env call st s
      | CS_RESET \<Rightarrow> run_standard env call st s
      | CS_EXECUTE \<Rightarrow> run_standard env call st s
      | CS_PARK \<Rightarrow> run_standard env call st s
      | _ \<Rightarrow> Inr s)"

section \<open>The end of a call\<close>

definition api_hook :: "session_env \<Rightarrow> string \<Rightarrow> switch_core_session \<Rightarrow> switch_core_session c_result" where
  "api_hook env varname s =
     and_then (switch_channel_get_variable (se_chan env) (ss_channel s) varname) (\<lambda>hook_var.
       case hook_var of
         None \<Rightarrow> Inr s
       | Some hook \<Rightarrow>
           and_then (switch_channel_get_variable (se_chan env) (ss_channel s) ''session_in_hangup_hook'') (\<lambda>v.
             Inr (if hook = [] then s else tell (Api_Hook hook (switch_true v)) s)))"

definition set_hangup_time :: "chan_env \<Rightarrow> switch_channel \<Rightarrow> switch_channel" where
  "set_hangup_time env channel =
     (case ch_caller_profile channel of
        None \<Rightarrow> channel
      | Some p \<Rightarrow>
          (case cp_times p of
             None \<Rightarrow> channel
           | Some t \<Rightarrow>
               if tt_hungup t = 0 then channel\<lparr>ch_caller_profile := Some (p\<lparr>cp_times := Some (t\<lparr>tt_hungup := ce_now env\<rparr>)\<rparr>)\<rparr>
               else channel))"

definition stop_broadcast :: "chan_env \<Rightarrow> switch_channel \<Rightarrow> switch_channel c_result" where
  "stop_broadcast env channel =
     (if chan_flag channel CF_BROADCAST
      then and_then (switch_channel_set_flag env CF_STOP_BROADCAST channel) (switch_channel_set_flag env CF_BREAK)
      else Inr channel)"

text \<open>What \<^verbatim>\<open>switch_core_session_hangup_state\<close> does before the handlers run.\<close>

definition hangup_prepare :: "session_env \<Rightarrow> switch_core_session \<Rightarrow> switch_core_session c_result" where
  "hangup_prepare env s =
     (let cause = ch_hangup_cause (ss_channel s) in
      and_then (on_channel (stop_broadcast (se_chan env))
          (tell Remove_Media_Bugs (s\<lparr>ss_channel := set_hangup_time (se_chan env) (ss_channel s)\<rparr>))) (\<lambda>s.
      and_then (on_channel (switch_channel_set_variable ''hangup_cause'' (Some (switch_channel_cause2str cause))) s) (\<lambda>s.
      and_then (on_channel (switch_channel_set_variable ''hangup_cause_q850'' None) s) (\<lambda>s.
        on_channel (switch_channel_set_variable ''hangup_cause_q850'' (Some (show_int (switch_channel_cause_q850 cause)))) s))))"

definition switch_core_session_hangup_state ::
  "session_env \<Rightarrow> caller \<Rightarrow> bool \<Rightarrow> bool \<Rightarrow> switch_core_session \<Rightarrow> switch_core_session c_result" where
  "switch_core_session_hangup_state env call in_thread force s =
     (let state = ch_state (ss_channel s) in
      if \<not> force \<and> (\<not> chan_flag (ss_channel s) CF_EARLY_HANGUP \<and> \<not> se_early_hangup env \<or> \<not> in_thread) then Inr s
      else if ss_hangup s then Inr s
      else
        and_then (hangup_prepare env s) (\<lambda>s.
        let s = tell Set_Timestamps s;
            s = s\<lparr>ss_channel := switch_channel_perform_set_callstate CCS_HANGUP (ss_channel s)\<rparr>
        in and_then (STATE_MACRO env call (standard_on env call CS_HANGUP) CS_HANGUP state True s) (\<lambda>s.
           and_then (api_hook env ''api_hangup_hook'' (tell Set_Media_Stats s)) (\<lambda>s.
             Inr ((tell Process_Device_Hangup s)\<lparr>ss_hangup := True\<rparr>)))))"

text \<open>Whether call detail records are wanted: the \<^verbatim>\<open>do_extra_handlers\<close> of \<^verbatim>\<open>switch_core_session_reporting_state\<close>.\<close>

definition cdr_wanted :: "chan_env \<Rightarrow> switch_channel \<Rightarrow> bool c_result" where
  "cdr_wanted env ch =
     and_then (switch_channel_get_variable env ch ''process_cdr'') (\<lambda>var.
     and_then (switch_channel_get_variable env ch ''skip_cdr_causes'') (\<lambda>skip_var.
       let extra =
         (if zstr var then True
          else if strcasecmp_eq (the var) ''a_only'' then ch_originator_profile ch = None
          else if strcasecmp_eq (the var) ''b_only'' then ch_originatee_profile ch = None
          else switch_true var)
       in and_then (if zstr skip_var then Inr [] else switch_separate_string skip_var CHR ''|'' 128) (\<lambda>list.
         Inr (extra \<and> \<not> list_ex (\<lambda>x. switch_channel_str2cause (Some x) = ch_hangup_cause ch) list \<and> \<not> chan_flag ch CF_NO_CDR))))"

definition switch_core_session_reporting_state ::
  "session_env \<Rightarrow> caller \<Rightarrow> switch_core_session \<Rightarrow> switch_core_session c_result" where
  "switch_core_session_reporting_state env call s =
     (let state = ch_state (ss_channel s) in
      if chan_flag (ss_channel s) CF_REPORTING then Inr s
      else
        and_then (cdr_wanted (se_chan env) (ss_channel s)) (\<lambda>do_extra.
        and_then (on_channel (switch_channel_set_flag (se_chan env) CF_REPORTING) s) (\<lambda>s.
        and_then (STATE_MACRO env call (standard_on env call CS_REPORTING) CS_REPORTING state do_extra s) (\<lambda>s.
        and_then (api_hook env ''api_reporting_hook'' s) (\<lambda>s.
          Inr (tell (Fire_Event SWITCH_EVENT_CHANNEL_HANGUP_COMPLETE) s))))))"

definition switch_core_session_destroy_state ::
  "session_env \<Rightarrow> caller \<Rightarrow> switch_core_session \<Rightarrow> switch_core_session c_result" where
  "switch_core_session_destroy_state env call s =
     (let s = s\<lparr>ss_channel := switch_channel_perform_set_callstate CCS_DOWN (ss_channel s)\<rparr> in
      and_then (on_channel (switch_channel_perform_set_running_state (se_chan env) CS_DESTROY) s) (\<lambda>s.
      and_then (on_channel (switch_channel_clear_flag (se_chan env) CF_TRANSFER) s) (\<lambda>s.
      and_then (on_channel (switch_channel_clear_flag (se_chan env) CF_REDIRECT) s) (\<lambda>s.
      and_then (STATE_MACRO env call (standard_on env call CS_DESTROY) CS_DESTROY CS_DESTROY True s) (\<lambda>s.
        Inr (tell Clear_Device_Record s))))))"

section \<open>The thread of a session\<close>

text \<open>Calls a handler makes while the hangup runs find it claimed and never run it again; calls of other handlers can start
  the early hangup. The first hook is therefore never called.\<close>

definition inner_call :: "session_env \<Rightarrow> caller" where
  "inner_call env = run_call env (\<lambda>_. Inl Aborted)"

definition outer_call :: "session_env \<Rightarrow> bool \<Rightarrow> caller" where
  "outer_call env in_thread = run_call env (switch_core_session_hangup_state env (inner_call env) in_thread False)"

abbreviation thread_call :: "session_env \<Rightarrow> caller" where
  "thread_call env \<equiv> outer_call env True"

fun state_run_loop :: "session_env \<Rightarrow> switch_state_handler_t list \<Rightarrow> switch_core_session \<Rightarrow> switch_core_session c_result" where
  "state_run_loop env [] s = Inr s"
| "state_run_loop env (h # hs) s =
     and_then (for_each (thread_call env) (fst (h s)) s) (\<lambda>s'.
       if snd (h s) = SWITCH_STATUS_SUCCESS then state_run_loop env hs s' else Inr s')"

definition check_presence :: "switch_core_session \<Rightarrow> switch_core_session c_result" where
  "check_presence s =
     (let state = ch_running_state (ss_channel s) in
      if state = CS_ROUTING \<or> state = CS_HANGUP then
        (if ch_hangup_cause (ss_channel s) = 502
         then on_channel (switch_channel_set_variable ''presence_call_info'' None) (tell (Presence ''cancelled'') s)
         else Inr (tell (Presence (switch_channel_state_name state)) s))
      else Inr s)"

text \<open>The \<^verbatim>\<open>switch\<close> over the state; true means that the thread ends.\<close>

definition run_state :: "session_env \<Rightarrow> switch_channel_state_t \<Rightarrow> switch_core_session \<Rightarrow> (bool \<times> switch_core_session) c_result" where
  "run_state env state s =
     (let go = (\<lambda>r. and_then r (\<lambda>s. Inr (False, s)));
          macro = STATE_MACRO env (thread_call env) (standard_on env (thread_call env) state) state state True
      in case state of
           CS_NEW \<Rightarrow> Inr (False, s)
         | CS_DESTROY \<Rightarrow> Inr (True, s)
         | CS_NONE \<Rightarrow> Inl Aborted
         | CS_REPORTING \<Rightarrow>
             and_then (switch_core_session_reporting_state env (thread_call env) s) (\<lambda>s.
             and_then (on_channel (switch_channel_perform_set_state CS_DESTROY) s) (\<lambda>s. Inr (True, s)))
         | CS_HANGUP \<Rightarrow>
             and_then (switch_core_session_hangup_state env (inner_call env) True True s) (\<lambda>s.
             let s = (if chan_flag (ss_channel s) CF_VIDEO then tell Wake_Video_Thread s else s)
             in go (on_channel (switch_channel_perform_set_state CS_REPORTING) s))
         | CS_INIT \<Rightarrow>
             go (and_then (macro s) (\<lambda>s.
               let s = tell (Fire_Event SWITCH_EVENT_CHANNEL_CREATE) s
               in Inr (if ch_direction (ss_channel s) = SWITCH_CALL_DIRECTION_OUTBOUND
                       then tell (Fire_Event SWITCH_EVENT_CHANNEL_ORIGINATE) s else s)))
         | _ \<Rightarrow> go (macro s))"

definition parse_all_events :: "session_env \<Rightarrow> switch_core_session \<Rightarrow> switch_core_session c_result" where
  "parse_all_events env s = for_each (thread_call env) (se_events env s) s"

text \<open>The end of a turn of the loop in \<^verbatim>\<open>switch_core_session_run\<close>: nothing to do, so wait; a session that stays new is
  abandoned when the loop counter runs out. Sleeping itself changes nothing.\<close>

definition idle :: "session_env \<Rightarrow> switch_core_session \<Rightarrow> switch_core_session c_result" where
  "idle env s =
     (let ch = ss_channel s in
      if ch_state ch \<noteq> ch_running_state ch then Inr s
      else if ch_state ch = CS_NEW then
        and_then (parse_all_events env s) (\<lambda>s.
          let s = s\<lparr>ss_new_loops := ss_new_loops s - 1\<rparr>
          in if ss_new_loops s = 0 then
               and_then (on_channel (switch_channel_set_flag (se_chan env) CF_NO_CDR) s)
                 (thread_call env (Call_Hangup SWITCH_CAUSE_WRONG_CALL_STATE))
             else Inr s)
      else
        and_then (parse_all_events env s) (\<lambda>s.
        and_then (parse_all_events env s) (\<lambda>s.
        and_then (if ch_state (ss_channel s) = ch_running_state (ss_channel s) then
                    and_then (on_channel (switch_channel_set_flag (se_chan env) CF_THREAD_SLEEPING) s) (\<lambda>s.
                    and_then (if ch_state (ss_channel s) = ch_running_state (ss_channel s) then parse_all_events env s else Inr s)
                      (on_channel (switch_channel_clear_flag (se_chan env) CF_THREAD_SLEEPING)))
                  else Inr s) (\<lambda>s.
        and_then (parse_all_events env s) (parse_all_events env)))))"

text \<open>What happens when the thread finds a new state, before the handlers of the state run.\<close>

definition enter_state :: "session_env \<Rightarrow> switch_channel_state_t \<Rightarrow> switch_core_session \<Rightarrow> switch_core_session c_result" where
  "enter_state env state s =
     and_then (on_channel (switch_channel_perform_set_running_state (se_chan env) state) s) (\<lambda>s.
     and_then (on_channel (switch_channel_clear_flag (se_chan env) CF_TRANSFER) s) (\<lambda>s.
     and_then (on_channel (switch_channel_clear_flag (se_chan env) CF_REDIRECT) s) (\<lambda>s.
     and_then (for_each (thread_call env) (se_messages env s) s)
       (state_run_loop env (se_state_run env)))))"

text \<open>One turn of \<^verbatim>\<open>switch_core_session_run\<close>. The thread ends with the state \<^verbatim>\<open>CS_DESTROY\<close>. While \<^verbatim>\<open>CF_BLOCK_STATE\<close> is set on a channel that is
  up, \<^verbatim>\<open>switch_channel_wait_for_flag\<close> keeps the thread in its polling loop: a round of that loop is a turn that changes nothing (signal data it finds are calls of other threads). It returns when another
  thread has cleared the flag or the channel is down, and the thread goes on with the state the channel then has.\<close>

definition session_turn :: "session_env \<Rightarrow> switch_core_session \<Rightarrow> switch_core_session c_result" where
  "session_turn env s =
     (let state = ch_state (ss_channel s) in
      if state = CS_DESTROY then Inr (s\<lparr>ss_thread_running := False\<rparr>)
      else if chan_flag (ss_channel s) CF_BLOCK_STATE \<and> state < CS_HANGUP then Inr s
      else
        and_then (if state \<noteq> ch_running_state (ss_channel s) \<or> CS_HANGUP \<le> state then
            and_then (enter_state env state s) (\<lambda>s.
            and_then (run_state env state s) (\<lambda>(ended, s).
              if ended then Inr (True, s) else and_then (check_presence s) (\<lambda>s. Inr (False, s))))
          else Inr (False, s)) (\<lambda>(ended, s).
        if ended then Inr (s\<lparr>ss_thread_running := False\<rparr>) else idle env s))"

definition calm_handler :: switch_state_handler_t where
  "calm_handler s = ([], SWITCH_STATUS_SUCCESS)"

definition demo_env :: session_env where
  "demo_env =
     (let table = \<lparr>ht_flags = 0, ht_on = (\<lambda>_. Some calm_handler)\<rparr>
      in \<lparr>se_chan = \<lparr>ce_now = 7, ce_globals = (\<lambda>_. None)\<rparr>, se_tables = (\<lambda>_. table), se_driver = table, se_core = [], se_state_run = [],
          se_standard = (\<lambda>_. calm_handler), se_messages = (\<lambda>_. []), se_events = (\<lambda>_. []), se_early_hangup = False\<rparr>)"

definition demo_session :: switch_core_session where
  "demo_session = \<lparr>ss_channel = demo_channel, ss_hangup = False, ss_thread_running = True, ss_thread_started = True, ss_new_loops = 500, ss_uuid = ''u''\<rparr>"

section \<open>The order of the handlers\<close>

text \<open>The specification: a line of handlers runs in order until the first veto; whether all agree. What the handlers do is whatever calls they
  make. A line collects the handlers that the tables at the addresses \<open>hs\<close> have for a state, early (\<open>pre\<close>) or late.\<close>

fun run_line ::
  "caller \<Rightarrow> switch_channel_state_t \<Rightarrow> (handler_source \<times> switch_state_handler_t) list \<Rightarrow> switch_core_session \<Rightarrow> (bool \<times> switch_core_session) c_result" where
  "run_line call st [] s = Inr (True, s)"
| "run_line call st ((src, h) # hs) s =
     and_then (run_handler call src st h s) (\<lambda>(status, s).
       if status = SWITCH_STATUS_SUCCESS then run_line call st hs s else Inr (False, s))"

definition line_of ::
  "session_env \<Rightarrow> bool \<Rightarrow> switch_channel_state_t \<Rightarrow> (nat \<Rightarrow> handler_source) \<Rightarrow> nat list \<Rightarrow> (handler_source \<times> switch_state_handler_t) list" where
  "line_of env pre st src hs =
     List.map_filter (\<lambda>a. if test_flag (ht_flags (se_tables env a)) SSH_FLAG_PRE_EXEC = pre
                          then map_option (Pair (src a)) (ht_on (se_tables env a) st) else None) hs"

definition driver_line :: "session_env \<Rightarrow> switch_channel_state_t \<Rightarrow> (handler_source \<times> switch_state_handler_t) list" where
  "driver_line env st = (case ht_on (se_driver env) st of None \<Rightarrow> [] | Some h \<Rightarrow> [(Driver, h)])"

text \<open>A call that leaves the channel's table of handlers alone. All calls but those that add or clear handlers, and those that hang up and so can
  run other handlers, are such calls.\<close>

definition keeps_table :: "nat list \<Rightarrow> caller \<Rightarrow> chan_call \<Rightarrow> bool" where
  "keeps_table hs call c \<longleftrightarrow> (\<forall>x y. has_handlers hs (ss_channel x) \<longrightarrow> call c x = Inr y \<longrightarrow> has_handlers hs (ss_channel y))"

definition line_keeps :: "nat list \<Rightarrow> caller \<Rightarrow> (handler_source \<times> switch_state_handler_t) list \<Rightarrow> bool" where
  "line_keeps hs call l \<longleftrightarrow> (\<forall>(src, h)\<in>set l. \<forall>s. \<forall>c\<in>set (fst (h s)). keeps_table hs call c)"

lemma has_handlers_keeps: "keeps a b \<Longrightarrow> has_handlers hs a \<Longrightarrow> has_handlers hs b"
  by (simp add: keeps_def has_handlers_def)

lemma run_call_keeps_table:
  assumes "\<And>cause. c \<noteq> Call_Hangup cause" and "\<And>a. c \<noteq> Call_Add_Handler a" and "\<And>h. c \<noteq> Call_Clear_Handler h"
  shows "keeps_table hs (run_call env k) c"
proof -
  have k: "has_handlers hs y" if "rkeeps x r" "r = Inr y" "has_handlers hs x" for x y r
    using that has_handlers_keeps by (auto simp: rkeeps_def)
  note updates = emit_def switch_channel_set_state_flag_def switch_channel_perform_set_callstate_def switch_channel_set_scope_variables_def has_handlers_def
  have set_state: "has_handlers hs y" if "switch_channel_perform_set_state st x = Inr y" "has_handlers hs x" for st x y
    using that by (auto simp: switch_channel_perform_set_state_def Let_def updates split: if_splits)
  show ?thesis unfolding keeps_table_def
  proof (intro allI impI)
    fix x y assume x: "has_handlers hs (ss_channel x)" and r: "run_call env k c x = Inr y"
    have "has_handlers hs z" if "chan_step env c (ss_channel x) = Inr z" for z
    proof (cases c)
      case (Call_Set_State st)
      then show ?thesis using that set_state x by (auto simp: chan_step_def)
    next
      case (Call_Scope e)
      then show ?thesis using that x by (cases e) (auto simp: chan_step_def updates)
    next
      case (Call_State_Flag f)
      then show ?thesis using that x by (auto simp: chan_step_def updates)
    qed (rule k [OF _ that x], use assms in \<open>auto simp: chan_step_def intro: chan_keeps\<close>)+
    moreover have "run_call env k c x = on_channel (chan_step env c) x" using assms(1) by (cases c) (auto simp: run_call_def)
    ultimately show "has_handlers hs (ss_channel y)" using r
      by (cases "chan_step env c (ss_channel x)") (auto simp: on_channel_def)
  qed
qed

lemma has_handlers_tell [simp]: "has_handlers hs (ss_channel (tell e s)) = has_handlers hs (ss_channel s)"
  by (simp add: tell_def emit_def has_handlers_def)

lemma for_each_keeps_table:
  "\<forall>c\<in>set cs. keeps_table hs call c \<Longrightarrow> has_handlers hs (ss_channel s) \<Longrightarrow> for_each call cs s = Inr s' \<Longrightarrow> has_handlers hs (ss_channel s')"
proof (induction cs arbitrary: s)
  case (Cons c cs)
  from Cons.prems(3) obtain y where y: "call c s = Inr y" "for_each call cs y = Inr s'" by (cases "call c s") auto
  then have "has_handlers hs (ss_channel y)" using Cons.prems(1,2) by (auto simp: keeps_table_def)
  then show ?case using Cons.IH Cons.prems(1) y(2) by simp
qed simp

lemma run_handler_keeps_table:
  assumes "\<forall>c\<in>set (fst (h s)). keeps_table hs call c" and "has_handlers hs (ss_channel s)" and "run_handler call src st h s = Inr (x, s')"
  shows "has_handlers hs (ss_channel s')"
proof -
  obtain cs status where h: "h s = (cs, status)" by fastforce
  obtain y where "for_each call cs (tell (Ran src st) s) = Inr y" "s' = y"
    using assms(3) h by (cases "for_each call cs (tell (Ran src st) s)") (auto simp: run_handler_def)
  then show ?thesis using for_each_keeps_table [of cs hs call "tell (Ran src st) s"] assms(1,2) h by simp
qed

lemma run_line_keeps_table:
  "line_keeps hs call l \<Longrightarrow> has_handlers hs (ss_channel s) \<Longrightarrow> run_line call st l s = Inr (b, s') \<Longrightarrow> has_handlers hs (ss_channel s')"
proof (induction l arbitrary: s)
  case (Cons p l)
  obtain src h where p: "p = (src, h)" by fastforce
  from Cons.prems(3) p obtain x y where r: "run_handler call src st h s = Inr (x, y)"
    "(if x = SWITCH_STATUS_SUCCESS then run_line call st l y else Inr (False, y)) = Inr (b, s')"
    by (cases "run_handler call src st h s") auto
  have "has_handlers hs (ss_channel y)" using run_handler_keeps_table [OF _ Cons.prems(2) r(1)] Cons.prems(1) p by (simp add: line_keeps_def)
  then show ?case using r(2) Cons.IH [of y] Cons.prems(1) by (auto simp: line_keeps_def split: if_splits)
qed simp

text \<open>A loop over the indices of a table runs its line.\<close>

lemma line_loop:
  assumes "\<And>x j. has_handlers hs (ss_channel x) \<Longrightarrow> get x j = (if j < length as then Some (as ! j) else None)" and "length as < N"
  shows "has_handlers hs (ss_channel s) \<Longrightarrow> line_keeps hs call (line_of env pre st src (drop i as)) \<Longrightarrow>
    handler_loop env call get src pre st [i..<N] p s =
      and_then (run_line call st (line_of env pre st src (drop i as)) s) (\<lambda>(ok, s).
        Inr (ok \<and> (p \<or> (\<exists>a\<in>set (drop i as). test_flag (ht_flags (se_tables env a)) SSH_FLAG_PRE_EXEC = pre)), s))"
proof (induction "length as - i" arbitrary: i p s)
  case 0
  then show ?case using assms(1) by (cases "i < N") (simp_all add: upt_rec [of i N] line_of_def map_filter_simps)
next
  case (Suc n)
  then have i: "i < length as" and n: "n = length as - Suc i" by simp_all
  have d: "drop i as = as ! i # drop (Suc i) as" using i by (simp add: Cons_nth_drop_Suc)
  have u: "[i..<N] = i # [Suc i..<N]" using i assms(2) by (simp add: upt_rec [of i N])
  have g: "get s i = Some (as ! i)" using assms(1) [OF Suc.prems(1)] i by simp
  let ?t = "se_tables env (as ! i)" and ?rest = "line_of env pre st src (drop (Suc i) as)"
  have l: "line_of env pre st src (as ! i # drop (Suc i) as) =
      (if test_flag (ht_flags ?t) SSH_FLAG_PRE_EXEC = pre then (case ht_on ?t st of None \<Rightarrow> ?rest | Some h \<Rightarrow> (src (as ! i), h) # ?rest) else ?rest)"
    by (simp add: line_of_def map_filter_simps split: option.split)
  have k: "line_keeps hs call ?rest" using Suc.prems(2) unfolding d l by (auto simp: line_keeps_def split: if_splits option.splits)
  note IH = Suc.hyps(1) [OF n _ k]
  show ?case
  proof (cases "test_flag (ht_flags ?t) SSH_FLAG_PRE_EXEC = pre")
    case False
    then show ?thesis unfolding u d l using g IH [OF Suc.prems(1), of p] by (simp add: Let_def)
  next
    case pre: True
    show ?thesis
    proof (cases "ht_on ?t st")
      case None
      then show ?thesis unfolding u d l using g pre IH [OF Suc.prems(1), of True] by (simp add: Let_def)
    next
      case (Some h)
      have c: "\<forall>c\<in>set (fst (h s)). keeps_table hs call c" using Suc.prems(2) Some pre unfolding d l by (simp add: line_keeps_def)
      show ?thesis
      proof (cases "run_handler call (src (as ! i)) st h s")
        case (Inr r)
        obtain x y where r: "r = (x, y)" by fastforce
        have "has_handlers hs (ss_channel y)" using run_handler_keeps_table [where h = h and s = s, OF c Suc.prems(1)] Inr r by simp
        then show ?thesis unfolding u d l using g pre Some Inr r IH [of y True] by (simp add: Let_def)
      qed (unfold u d l, use g pre Some in \<open>simp add: Let_def\<close>)
    qed
  qed
qed

lemma channel_line:
  assumes "has_handlers hs (ss_channel s)" and "line_keeps hs call (line_of env pre st Channel_Table hs)"
  shows "channel_handlers_loop env call pre st True p s =
    and_then (run_line call st (line_of env pre st Channel_Table hs) s) (\<lambda>(ok, s).
      Inr (ok \<and> (p \<or> (\<exists>a\<in>set hs. test_flag (ht_flags (se_tables env a)) SSH_FLAG_PRE_EXEC = pre)), s))"
proof -
  have "length hs < SWITCH_MAX_STATE_HANDLERS + 1" using assms(1) by (simp add: has_handlers_def)
  from line_loop [where get = "\<lambda>s. switch_channel_get_state_handler (ss_channel s)" and hs = hs and as = hs and i = 0, OF get_handler this assms(1), of call env pre st Channel_Table p] assms(2)
  show ?thesis by (simp add: channel_handlers_loop_def del: upt_Suc)
qed

lemma core_line:
  assumes "has_handlers hs (ss_channel s)" and "line_keeps hs call (line_of env pre st Core_Table (se_core env))"
    and "length (se_core env) \<le> SWITCH_MAX_STATE_HANDLERS"
  shows "core_handlers_loop env call pre st True s = run_line call st (line_of env pre st Core_Table (se_core env)) s"
proof -
  have g: "switch_core_get_state_handler (se_core env) j = (if j < length (se_core env) then Some (se_core env ! j) else None)" for j
    using assms(3) by (auto simp: switch_core_get_state_handler_def)
  have "length (se_core env) < SWITCH_MAX_STATE_HANDLERS + 1" using assms(3) by simp
  from line_loop [where get = "\<lambda>_. switch_core_get_state_handler (se_core env)" and hs = hs and as = "se_core env" and i = 0, OF g this assms(1), of call env pre st Core_Table True] assms(2)
  show ?thesis by (cases "run_line call st (line_of env pre st Core_Table (se_core env)) s") (auto simp: core_handlers_loop_def simp del: upt_Suc)
qed

lemma driver_run_line: "driver_handler env call st s = run_line call st (driver_line env st) s"
proof (cases "ht_on (se_driver env) st")
  case (Some h)
  then show ?thesis by (cases "run_handler call Driver st h s") (auto simp: driver_handler_def driver_line_def)
qed (simp add: driver_handler_def driver_line_def)

text \<open>The lines of the channel and of the core run only with \<open>extra\<close>.\<close>

definition extra_line ::
  "session_env \<Rightarrow> bool \<Rightarrow> bool \<Rightarrow> switch_channel_state_t \<Rightarrow> (nat \<Rightarrow> handler_source) \<Rightarrow> nat list \<Rightarrow> (handler_source \<times> switch_state_handler_t) list" where
  "extra_line env extra pre st src hs = (if extra then line_of env pre st src hs else [])"

lemma channel_extra:
  assumes "has_handlers hs (ss_channel s)" and "line_keeps hs call (line_of env pre st Channel_Table hs)"
  shows "channel_handlers_loop env call pre st extra True s = run_line call st (extra_line env extra pre st Channel_Table hs) s" (is ?early)
    and "and_then (channel_handlers_loop env call pre st extra p s) (\<lambda>(ok, s). f (p \<and> ok) s) =
      and_then (run_line call st (extra_line env extra pre st Channel_Table hs) s) (\<lambda>(ok, s). f (p \<and> ok) s)" (is ?late)
proof -
  show ?early
  proof (cases extra)
    case True
    then show ?thesis by (cases "run_line call st (line_of env pre st Channel_Table hs) s") (auto simp: channel_line [OF assms] extra_line_def)
  qed (simp add: channel_handlers_loop_def extra_line_def)
  show ?late
  proof (cases extra)
    case True
    then show ?thesis
      by (cases "run_line call st (line_of env pre st Channel_Table hs) s"; cases p) (auto simp: channel_line [OF assms] extra_line_def)
  qed (simp add: channel_handlers_loop_def extra_line_def)
qed

lemma core_extra:
  assumes "has_handlers hs (ss_channel s)" and "line_keeps hs call (line_of env pre st Core_Table (se_core env))"
    and "length (se_core env) \<le> SWITCH_MAX_STATE_HANDLERS"
  shows "core_handlers_loop env call pre st extra s = run_line call st (extra_line env extra pre st Core_Table (se_core env)) s"
proof (cases extra)
  case True
  then show ?thesis by (simp add: core_line [OF assms] extra_line_def)
qed (simp add: core_handlers_loop_def extra_line_def)

lemma and_then_eqI: "r = r' \<Longrightarrow> (\<And>b s. r' = Inr (b, s) \<Longrightarrow> f b s = g b s) \<Longrightarrow> and_then r (\<lambda>(b, s). f b s) = and_then r' (\<lambda>(b, s). g b s)"
  by (cases r') auto

text \<open>C12: The order of the handlers of a state, whatever calls they make as long as these leave the channel's table of handlers alone. An unheld call
  becomes active first. Then the channel's handlers marked to run early run in the order of the table, up to the first that vetoes, then the core's, then
  the driver's; unless the driver vetoes, the channel's other handlers follow, then the core's. A veto ends its own line only, so that the core's handlers
  and the driver's run even when one of the channel vetoes, while a veto of the driver ends the macro; the standard behaviour runs exactly when nobody
  vetoes and the channel's state is still the one the macro started with. Without \<open>extra\<close> only the driver's handler runs. (The comment before the loop
  of \<^verbatim>\<open>switch_core_session_run\<close> has the driver first and lets every handler veto the next one in line.)\<close>

theorem session_handler_order:
  assumes "has_handlers hs (ss_channel s)" and "length (se_core env) \<le> SWITCH_MAX_STATE_HANDLERS"
    and "\<And>pre. line_keeps hs call (line_of env pre st Channel_Table hs)" and "\<And>pre. line_keeps hs call (line_of env pre st Core_Table (se_core env))"
    and "line_keeps hs call (driver_line env st)"
  shows "STATE_MACRO env call standard st state extra s =
    (let s = (if state < CS_HANGUP \<and> ch_callstate (ss_channel s) = CCS_UNHELD
              then s\<lparr>ss_channel := switch_channel_perform_set_callstate CCS_ACTIVE (ss_channel s)\<rparr> else s)
     in and_then (run_line call st (extra_line env extra True st Channel_Table hs) (tell Gen_Key_Frame (tell Request_Video_Refresh s))) (\<lambda>(channel_early, s).
        and_then (run_line call st (extra_line env extra True st Core_Table (se_core env)) s) (\<lambda>(core_early, s).
        and_then (run_line call st (driver_line env st) s) (\<lambda>(driver, s).
        if \<not> driver then Inr s
        else and_then (run_line call st (extra_line env extra False st Channel_Table hs) s) (\<lambda>(channel_late, s).
             and_then (run_line call st (extra_line env extra False st Core_Table (se_core env)) s) (\<lambda>(core_late, s).
             if channel_early \<and> core_early \<and> channel_late \<and> core_late \<and> state_of s = state
             then standard (tell (Ran Standard st) s) else Inr s))))))"
proof -
  define x where "x = tell Gen_Key_Frame (tell Request_Video_Refresh (if state < CS_HANGUP \<and> ch_callstate (ss_channel s) = CCS_UNHELD
     then s\<lparr>ss_channel := switch_channel_perform_set_callstate CCS_ACTIVE (ss_channel s)\<rparr> else s))"
  have h: "has_handlers hs (ss_channel x)"
    using assms(1) by (simp add: x_def has_handlers_def tell_def switch_channel_perform_set_callstate_def emit_def)
  note chan = channel_extra [OF _ assms(3)] and core = core_extra [OF _ assms(4,2)]
  have lk: "line_keeps hs call (extra_line env extra pre st Channel_Table hs)" "line_keeps hs call (extra_line env extra pre st Core_Table (se_core env))" for pre
    using assms(3) [of pre] assms(4) [of pre] by (auto simp: extra_line_def line_keeps_def)
  note keep = run_line_keeps_table [OF lk(1)] run_line_keeps_table [OF lk(2)] run_line_keeps_table [OF assms(5)]
  show ?thesis unfolding STATE_MACRO_def Let_def x_def [symmetric]
  proof (rule and_then_eqI [OF chan(1) [OF h]], rule and_then_eqI [OF core], goal_cases)
    case (1 a s1)
    then show ?case using keep(1) [OF h] by blast
  next
    case (2 a s1 b s2)
    have h2: "has_handlers hs (ss_channel s2)" using keep(2) [OF keep(1) [OF h 2(1)] 2(2)] .
    show ?case
    proof (rule and_then_eqI [OF driver_run_line], goal_cases)
      case (1 d s3)
      have h3: "has_handlers hs (ss_channel s3)" using keep(3) [OF h2 1] .
      let ?late = "\<lambda>c s. and_then (core_handlers_loop env call False st extra s) (\<lambda>(proceed, s).
          if a \<and> c \<and> proceed \<and> state = state_of s then standard (tell (Ran Standard st) s) else Inr s)"
      have "and_then (channel_handlers_loop env call False st extra b s3) (\<lambda>(ok, s). ?late (b \<and> ok) s) =
          and_then (run_line call st (extra_line env extra False st Channel_Table hs) s3) (\<lambda>(ok, s). ?late (b \<and> ok) s)"
        by (rule chan(2) [OF h3])
      also have "\<dots> = and_then (run_line call st (extra_line env extra False st Channel_Table hs) s3) (\<lambda>(c, s).
          and_then (run_line call st (extra_line env extra False st Core_Table (se_core env)) s) (\<lambda>(e, s).
          if a \<and> b \<and> c \<and> e \<and> state_of s = state then standard (tell (Ran Standard st) s) else Inr s))"
        by (rule and_then_eqI [OF refl]) (auto simp: core [OF keep(1) [OF h3]] eq_commute [of state] conj_assoc)
      finally show ?case by (simp add: conj_assoc)
    qed
  qed
qed

text \<open>The channel's handler, which the table at address 1 has, parks the call; the driver and the core agree. The state has changed then, so that the
  standard behaviour does not run.\<close>

definition parking_env :: session_env where
  "parking_env = demo_env\<lparr>se_core := [2], se_tables := (\<lambda>a.
     \<lparr>ht_flags = 0, ht_on = (\<lambda>_. Some (\<lambda>s. (if a = 1 then [Call_Set_State CS_PARK] else [], SWITCH_STATUS_SUCCESS)))\<rparr>)\<rparr>"

definition parking_session :: switch_core_session where
  "parking_session = demo_session\<lparr>ss_channel := snd (switch_channel_add_state_handler 1 (demo_channel\<lparr>ch_state := CS_EXECUTE\<rparr>))\<rparr>"

theorem session_handler_order_witness:
  "\<exists>s. STATE_MACRO parking_env (inner_call parking_env) Inr CS_EXECUTE CS_EXECUTE True parking_session = Inr s \<and> state_of s = CS_PARK \<and>
     ch_log (ss_channel s) = ch_log (ss_channel parking_session) @ [Request_Video_Refresh, Gen_Key_Frame, Ran Driver CS_EXECUTE,
       Ran (Channel_Table 1) CS_EXECUTE, Signal_State_Change, Ran (Core_Table 2) CS_EXECUTE]"
proof -
  let ?s = "parking_session" and ?call = "inner_call parking_env"
  have h: "has_handlers [1] (ss_channel ?s)"
    using add_handler_new [of "[]" "demo_channel\<lparr>ch_state := CS_EXECUTE\<rparr>" 1] demo_handlers
    by (auto simp: parking_session_def has_handlers_def SWITCH_MAX_STATE_HANDLERS_def)
  have t: "keeps_table [1] ?call (Call_Set_State CS_PARK)" unfolding inner_call_def by (rule run_call_keeps_table) simp_all
  have u: "ch_callstate (ss_channel ?s) = CCS_DOWN" "state_of ?s = CS_EXECUTE"
    by (simp_all add: parking_session_def switch_channel_add_state_handler_def demo_channel_def Let_def split: option.split)
  have c: "ht_flags (se_tables parking_env a) = 0" "se_core parking_env = [2]" "ht_on (se_driver parking_env) st = Some calm_handler"
    "ht_on (se_tables parking_env a) st = Some (\<lambda>s. (if a = 1 then [Call_Set_State CS_PARK] else [], SWITCH_STATUS_SUCCESS))" for a st
    by (simp_all add: parking_env_def demo_env_def Let_def)
  note l = line_of_def driver_line_def c map_filter_simps calm_handler_def
  have k: "line_keeps [1] ?call (line_of parking_env pre CS_EXECUTE Channel_Table [1])"
    "line_keeps [1] ?call (line_of parking_env pre CS_EXECUTE Core_Table (se_core parking_env))" "line_keeps [1] ?call (driver_line parking_env CS_EXECUTE)" for pre
    using t by (simp_all add: l line_keeps_def)
  have park: "?call (Call_Set_State CS_PARK) s = Inr (tell Signal_State_Change (s\<lparr>ss_channel := (ss_channel s)\<lparr>ch_state := CS_PARK\<rparr>\<rparr>))"
    if "state_of s = CS_EXECUTE" for s
    using that by (simp add: inner_call_def run_call_def on_channel_def chan_step_def switch_channel_perform_set_state_def tell_def cs_order Let_def)
  show ?thesis
    by (subst session_handler_order [OF h _ k])
      (simp_all add: u l park extra_line_def run_handler_def tell_def emit_def SWITCH_MAX_STATE_HANDLERS_def Let_def)
qed

end
