(* ===== verification/FS_Session_End.thy ===== *)
theory FS_Session_End
  imports FS_Session
begin

text \<open>
  The end of a session: what the handlers of a state keep, that nothing changes the end of a call once it is hung up, and what the
  last turns of the session's thread do, with handlers that make arbitrary calls.
\<close>

section \<open>Results that keep a property\<close>

text \<open>\<open>holds t P r\<close>: the result satisfies \<open>P\<close>; a fault is allowed unless \<open>t\<close> asks for a result.\<close>

definition holds :: "bool \<Rightarrow> ('a \<Rightarrow> bool) \<Rightarrow> 'a c_result \<Rightarrow> bool" where
  "holds t P r \<longleftrightarrow> (case r of Inl _ \<Rightarrow> \<not> t | Inr x \<Rightarrow> P x)"

lemma holds_simps [simp]: "holds t P (Inr x) \<longleftrightarrow> P x" "holds t P (Inl e) \<longleftrightarrow> \<not> t"
  by (simp_all add: holds_def)

lemma holds_then: "holds t P r \<Longrightarrow> (\<And>x. P x \<Longrightarrow> holds t R (g x)) \<Longrightarrow> holds t R (and_then r g)"
  by (cases r) simp_all

lemma holds_mono: "holds t P r \<Longrightarrow> (\<And>x. P x \<Longrightarrow> R x) \<Longrightarrow> holds t R r"
  by (cases r) simp_all

lemma holds_True: "holds True P r \<Longrightarrow> \<exists>x. r = Inr x \<and> P x"
  by (cases r) simp_all

lemma holds_False: "holds False P r \<Longrightarrow> r = Inr x \<Longrightarrow> P x"
  by simp

lemma holds_each: "(\<And>c s. c \<in> set cs \<Longrightarrow> P s \<Longrightarrow> holds t P (f c s)) \<Longrightarrow> P s \<Longrightarrow> holds t P (for_each f cs s)"
proof (induction cs arbitrary: s)
  case (Cons c cs)
  have "holds t P (f c s)" using Cons.prems by simp
  then show ?case using Cons.IH Cons.prems(1) by (auto intro!: holds_then)
qed simp

section \<open>Running the handlers\<close>

definition handler_makes :: "(chan_call \<Rightarrow> bool) \<Rightarrow> switch_state_handler_t \<Rightarrow> bool" where
  "handler_makes ok h \<longleftrightarrow> (\<forall>s. list_all ok (fst (h s)))"

text \<open>All code outside the core makes only certain calls.\<close>

definition env_makes :: "(chan_call \<Rightarrow> bool) \<Rightarrow> session_env \<Rightarrow> bool" where
  "env_makes ok env \<longleftrightarrow>
     (\<forall>a st h. ht_on (se_tables env a) st = Some h \<longrightarrow> handler_makes ok h) \<and>
     (\<forall>st h. ht_on (se_driver env) st = Some h \<longrightarrow> handler_makes ok h) \<and>
     (\<forall>h\<in>set (se_state_run env). handler_makes ok h) \<and> (\<forall>st. handler_makes ok (se_standard env st)) \<and>
     (\<forall>s. list_all ok (se_messages env s)) \<and> (\<forall>s. list_all ok (se_events env s))"

definition driver_has :: "session_env \<Rightarrow> switch_channel_state_t \<Rightarrow> nat" where
  "driver_has env st = (if ht_on (se_driver env) st = None then 0 else 1)"

text \<open>What the handlers of the state \<open>st\<close> keep: \<open>Q n\<close> is an invariant when the driver's handler has run \<open>n\<close> times.\<close>

locale handler_runs =
  fixes env :: session_env
    and call :: caller
    and t :: bool
    and okc :: "chan_call \<Rightarrow> bool"
    and st :: switch_channel_state_t
    and state :: switch_channel_state_t
    and Q :: "nat \<Rightarrow> switch_core_session \<Rightarrow> bool"
  assumes call_law: "Q n s \<Longrightarrow> okc c \<Longrightarrow> holds t (Q n) (call c s)"
    and ran_law: "Q n s \<Longrightarrow> src \<noteq> Driver \<Longrightarrow> Q n (tell (Ran src st) s)"
    and driver_law: "Q 0 s \<Longrightarrow> Q 1 (tell (Ran Driver st) s)"
    and quiet_law: "Q n s \<Longrightarrow> quiet e \<Longrightarrow> Q n (tell e s)"
    and active_law: "Q n s \<Longrightarrow> state < CS_HANGUP \<Longrightarrow> Q n (s\<lparr>ss_channel := switch_channel_perform_set_callstate CCS_ACTIVE (ss_channel s)\<rparr>)"
begin

lemma calls: "Q n s \<Longrightarrow> list_all okc cs \<Longrightarrow> holds t (Q n) (for_each call cs s)"
  by (rule holds_each) (auto simp: list_all_iff call_law)

lemma handler:
  assumes "Q n (tell (Ran src st) s)" and "handler_makes okc h"
  shows "holds t (\<lambda>(status, s). Q n s) (run_handler call src st h s)"
proof -
  have "list_all okc (fst (h s))" using assms(2) by (simp add: handler_makes_def)
  from calls [OF assms(1) this] show ?thesis
    unfolding run_handler_def by (cases "h s") (auto intro: holds_then)
qed

lemma loop:
  assumes makes: "env_makes okc env" and "Q n s" and "\<And>a. src a \<noteq> Driver"
  shows "holds t (\<lambda>(p, s). Q n s) (handler_loop env call get src pre st is proceed s)"
  using assms(2)
proof (induction "is" arbitrary: proceed s)
  case (Cons i "is")
  show ?case
  proof (cases "get s i")
    case (Some a)
    let ?t = "se_tables env a"
    show ?thesis
    proof (cases "test_flag (ht_flags ?t) SSH_FLAG_PRE_EXEC = pre")
      case pre: True
      show ?thesis
      proof (cases "ht_on ?t st")
        case (Some h)
        then have "handler_makes okc h" using makes by (auto simp: env_makes_def)
        from handler [OF ran_law [OF Cons.prems assms(3)] this] show ?thesis
          using \<open>get s i = Some a\<close> pre Some Cons.IH by (auto simp: Let_def intro!: holds_then)
      qed (use \<open>get s i = Some a\<close> pre Cons in simp)
    qed (use Some Cons in simp)
  qed (use Cons.prems in simp)
qed simp

lemma channel_loop: "env_makes okc env \<Longrightarrow> Q n s \<Longrightarrow> holds t (\<lambda>(p, s). Q n s) (channel_handlers_loop env call pre st extra proceed s)"
  by (simp add: channel_handlers_loop_def loop del: upt_Suc)

lemma core_loop: "env_makes okc env \<Longrightarrow> Q n s \<Longrightarrow> holds t (\<lambda>(p, s). Q n s) (core_handlers_loop env call pre st extra s)"
  by (simp add: core_handlers_loop_def loop del: upt_Suc)

lemma driver: "env_makes okc env \<Longrightarrow> Q 0 s \<Longrightarrow> holds t (\<lambda>(ok, s). Q (driver_has env st) s) (driver_handler env call st s)"
proof (cases "ht_on (se_driver env) st")
  case (Some h)
  assume makes: "env_makes okc env" and "Q 0 s"
  have "handler_makes okc h" using makes Some by (auto simp: env_makes_def)
  from handler [OF driver_law [OF \<open>Q 0 s\<close>] this] show ?thesis
    using Some by (auto simp: driver_handler_def driver_has_def intro: holds_then)
qed (simp add: driver_handler_def driver_has_def)

lemma macro:
  assumes "Q 0 s" and makes: "env_makes okc env" and "\<And>n s. Q n s \<Longrightarrow> holds t (Q n) (standard s)"
  shows "holds t (Q (driver_has env st)) (STATE_MACRO env call standard st state extra s)"
proof -
  have q: "Q 0 (tell Gen_Key_Frame (tell Request_Video_Refresh
      (if state < CS_HANGUP \<and> ch_callstate (ss_channel s) = CCS_UNHELD
       then s\<lparr>ss_channel := switch_channel_perform_set_callstate CCS_ACTIVE (ss_channel s)\<rparr> else s)))"
    using assms(1) by (auto intro!: quiet_law active_law)
  show ?thesis unfolding STATE_MACRO_def Let_def
    by (rule holds_then [OF channel_loop [OF makes q]], clarify, rule holds_then [OF core_loop [OF makes]], assumption, clarify,
        rule holds_then [OF driver [OF makes]], assumption)
      (auto intro!: holds_then [OF channel_loop [OF makes]] holds_then [OF core_loop [OF makes]] assms(3) ran_law)
qed

end

section \<open>Calls after the hangup\<close>

definition hung_up :: "switch_channel \<Rightarrow> bool" where
  "hung_up ch \<longleftrightarrow> ch_opaque_flags ch AND OCF_HANGUP \<noteq> 0"

definition dead :: "switch_core_session \<Rightarrow> bool" where
  "dead s \<longleftrightarrow> CS_HANGUP \<le> ch_state (ss_channel s) \<and> ch_state (ss_channel s) \<le> CS_DESTROY \<and> hung_up (ss_channel s)"

text \<open>From \<open>a\<close> to \<open>b\<close> only handlers of the state \<open>st\<close> have run, the driver's \<open>n\<close> times.\<close>

definition run_by :: "switch_channel_state_t \<Rightarrow> nat \<Rightarrow> switch_core_session \<Rightarrow> switch_core_session \<Rightarrow> bool" where
  "run_by st n a b \<longleftrightarrow>
     ch_state (ss_channel b) = ch_state (ss_channel a) \<and> ch_opaque_flags (ss_channel b) = ch_opaque_flags (ss_channel a) \<and>
     ss_hangup b = ss_hangup a \<and>
     (ch_callstate (ss_channel a) = CCS_HANGUP \<longrightarrow> ch_callstate (ss_channel b) = CCS_HANGUP) \<and>
     (\<exists>es. ch_log (ss_channel b) = ch_log (ss_channel a) @ es \<and>
       (\<forall>e\<in>set es. quiet e \<or> (\<exists>src. e = Ran src st)) \<and> count_list es (Ran Driver st) = n)"

lemma run_by_refl [simp]: "run_by st 0 a a"
  by (simp add: run_by_def)

lemma run_by_trans: "run_by st n a b \<Longrightarrow> run_by st m b c \<Longrightarrow> run_by st (n + m) a c"
  unfolding run_by_def by (elim conjE exE) (auto simp: count_list_append)

lemma quiet_count: "list_all quiet es \<Longrightarrow> \<not> quiet e \<Longrightarrow> count_list es e = 0"
  by (induction es) auto

lemma run_by_keeps: "keeps (ss_channel a) ch \<Longrightarrow> run_by st 0 a (a\<lparr>ss_channel := ch\<rparr>)"
  unfolding keeps_def run_by_def by (auto simp: quiet_count list_all_iff)

lemma dead_run_by: "run_by st n a b \<Longrightarrow> dead a \<Longrightarrow> dead b"
  by (simp add: run_by_def dead_def hung_up_def)

definition call_ok :: "chan_call \<Rightarrow> bool" where
  "call_ok c \<longleftrightarrow> (\<forall>st. c = Call_Set_State st \<longrightarrow> st < CS_HANGUP)"

text \<open>Calls that run without a fault on well-formed channels.\<close>

definition call_safe :: "string set \<Rightarrow> chan_call \<Rightarrow> bool" where
  "call_safe V c \<longleftrightarrow> call_ok c \<and>
     (\<forall>n v. c = Call_Set_Variable n v \<longrightarrow> map c_tolower n \<in> V \<and> plain_name n \<and> value_ok v) \<and>
     (\<forall>e. c \<noteq> Call_Scope e) \<and> (\<forall>a. c \<noteq> Call_Add_Handler a) \<and> (\<forall>h. c \<noteq> Call_Clear_Handler h)"

definition fine :: "bool \<Rightarrow> string set \<Rightarrow> switch_channel \<Rightarrow> bool" where
  "fine t V ch \<longleftrightarrow> t \<longrightarrow> names_ok V \<and> chan_ok V ch \<and> ch_scope_variables ch = []"

definition call_fit :: "bool \<Rightarrow> string set \<Rightarrow> chan_call \<Rightarrow> bool" where
  "call_fit t V c \<longleftrightarrow> call_ok c \<and> (t \<longrightarrow> call_safe V c)"

lemma holds_keeps:
  assumes "rkeeps a r" and "t \<Longrightarrow> rsound V r" and "fine t V a"
  shows "holds t (\<lambda>b. keeps a b \<and> fine t V b) r"
proof (cases r)
  case (Inr b)
  then have "keeps a b" using assms(1) by (simp add: rkeeps_def)
  moreover from this have "ch_scope_variables b = ch_scope_variables a" by (simp add: keeps_def)
  ultimately show ?thesis using assms(2,3) Inr by (auto simp: fine_def rsound_def)
qed (use assms(2) in \<open>auto simp: rsound_def\<close>)

lemma on_channel_holds:
  "holds t (\<lambda>ch. keeps (ss_channel s) ch \<and> fine t V ch) (f (ss_channel s)) \<Longrightarrow>
   holds t (\<lambda>s'. run_by st 0 s s' \<and> fine t V (ss_channel s')) (on_channel f s)"
  unfolding on_channel_def by (erule holds_then) (auto intro: run_by_keeps)

lemma set_state_dead: "CS_HANGUP \<le> ch_state ch \<Longrightarrow> ch_state ch \<le> CS_DESTROY \<Longrightarrow> st < CS_HANGUP \<Longrightarrow> switch_channel_perform_set_state st ch = Inr ch"
  by (auto simp: switch_channel_perform_set_state_def Let_def cs_order)

definition run_ok :: "bool \<Rightarrow> string set \<Rightarrow> switch_channel_state_t \<Rightarrow> nat \<Rightarrow> switch_core_session \<Rightarrow> switch_core_session \<Rightarrow> bool" where
  "run_ok t V st n a b \<longleftrightarrow> run_by st n a b \<and> fine t V (ss_channel b)"

lemma run_ok_trans: "run_ok t V st n a b \<Longrightarrow> run_ok t V st m b c \<Longrightarrow> run_ok t V st (n + m) a c"
  by (auto simp: run_ok_def intro: run_by_trans)

text \<open>Operations of the channel inside a session.\<close>

lemma on_channel_run:
  assumes "rkeeps (ss_channel s) (f (ss_channel s))" and "t \<Longrightarrow> rsound V (f (ss_channel s))" and "fine t V (ss_channel s)"
  shows "holds t (run_ok t V st 0 s) (on_channel f s)"
proof -
  have "holds t (\<lambda>b. keeps (ss_channel s) b \<and> fine t V b) (f (ss_channel s))" using assms by (rule holds_keeps)
  from on_channel_holds [where f = f and s = s, OF this, of st] show ?thesis unfolding run_ok_def [abs_def] .
qed

lemma holds_run_then:
  assumes "holds t (run_ok t V st n a) r" and "\<And>b. run_ok t V st n a b \<Longrightarrow> holds t (run_ok t V st m b) (g b)"
  shows "holds t (run_ok t V st (n + m) a) (and_then r g)"
  using assms(1) by (rule holds_then) (auto intro: holds_mono [OF assms(2)] run_ok_trans)

lemmas holds_run_quiet = holds_run_then [where n = 0 and m = 0, simplified]

lemma fine_sound: "fine True V ch \<Longrightarrow> names_ok V \<and> chan_ok V ch"
  by (simp add: fine_def)

lemma set_flag_run: "fine t V (ss_channel s) \<Longrightarrow> holds t (run_ok t V st 0 s) (on_channel (switch_channel_set_flag_value e f v) s)"
  by (rule on_channel_run) (auto intro: chan_keeps chan_sound dest: fine_sound)

lemma clear_flag_run: "fine t V (ss_channel s) \<Longrightarrow> holds t (run_ok t V st 0 s) (on_channel (switch_channel_clear_flag e f) s)"
  by (rule on_channel_run) (auto intro: chan_keeps chan_sound dest: fine_sound)

lemma mark_hold_run: "fine t V (ss_channel s) \<Longrightarrow> holds t (run_ok t V st 0 s) (on_channel (switch_channel_mark_hold e on) s)"
  by (rule on_channel_run) (auto intro: chan_keeps chan_sound dest: fine_sound)

lemma running_state_run:
  "fine t V (ss_channel s) \<Longrightarrow> holds t (run_ok t V st 0 s) (on_channel (switch_channel_perform_set_running_state e x) s)"
  by (rule on_channel_run) (auto intro: chan_keeps chan_sound dest: fine_sound)

lemma set_variable_run:
  assumes "fine t V (ss_channel s)" and "t \<Longrightarrow> map c_tolower n \<in> V" and "t \<Longrightarrow> plain_name n" and "t \<Longrightarrow> value_ok v"
  shows "holds t (run_ok t V st 0 s) (on_channel (switch_channel_set_variable n v) s)"
  using assms by (intro on_channel_run) (auto intro: chan_keeps rsound_set_variable dest: fine_sound)

lemma keeps_run: "keeps (ss_channel s) ch \<Longrightarrow> fine t V ch \<Longrightarrow> run_ok t V st 0 s (s\<lparr>ss_channel := ch\<rparr>)"
  by (simp add: run_ok_def run_by_keeps)

lemma fine_updates:
  "fine t V ch \<Longrightarrow> fine t V (emit e ch)"
  "fine t V ch \<Longrightarrow> fine t V (switch_channel_perform_set_callstate cs ch)"
  "fine t V ch \<Longrightarrow> fine t V (switch_channel_set_state_flag f ch)"
  "fine t V ch \<Longrightarrow> fine t V (ch\<lparr>ch_state := x\<rparr>)"
  by (simp_all add: fine_def chan_ok_updates)
    (simp_all add: emit_def switch_channel_perform_set_callstate_def switch_channel_set_state_flag_def)

lemma tell_run: "quiet e \<Longrightarrow> fine t V (ss_channel s) \<Longrightarrow> run_ok t V st 0 s (tell e s)"
  unfolding tell_def by (intro keeps_run chan_keeps fine_updates)

lemma callstate_run: "fine t V (ss_channel s) \<Longrightarrow>
    run_ok t V st 0 s (s\<lparr>ss_channel := switch_channel_perform_set_callstate cs (ss_channel s)\<rparr>)"
  by (intro keeps_run chan_keeps fine_updates)

lemma keeps_state_flag [chan_keeps]: "keeps a b \<Longrightarrow> keeps a (switch_channel_set_state_flag f b)"
  by (auto simp: keeps_def switch_channel_set_state_flag_def)

lemma claim_again:
  assumes "hung_up (ss_channel s)" and "fine t V (ss_channel s)"
  shows "holds t (\<lambda>(ok, ch). \<not> ok \<and> run_ok t V st 0 s (s\<lparr>ss_channel := ch\<rparr>)) (hangup_claim e (ss_channel s))"
proof -
  let ?ch = "ss_channel s"
  let ?r = "if chan_flag ?ch CF_LEG_HOLDING
     then and_then (switch_channel_mark_hold e False ?ch) (switch_channel_set_flag e CF_HANGUP_HELD) else Inr ?ch"
  have "holds t (\<lambda>ch. keeps ?ch ch \<and> fine t V ch) ?r"
    using assms(2) by (intro holds_keeps) (auto intro!: chan_keeps chan_sound dest: fine_sound)
  then have "holds t (\<lambda>(ok, ch). \<not> ok \<and> run_ok t V st 0 s (s\<lparr>ss_channel := ch\<rparr>)) (and_then ?r (\<lambda>ch. Inr (False, ch)))"
    by (rule holds_then) (auto intro: keeps_run)
  then show ?thesis using assms(1) by (auto simp: hangup_claim_def hung_up_def Let_def split: if_splits)
qed

lemma hangup_again:
  assumes "hung_up (ss_channel s)" and "fine t V (ss_channel s)"
  shows "holds t (run_ok t V st 0 s) (switch_channel_perform_hangup e hs cause s)"
  unfolding switch_channel_perform_hangup_def
  by (rule holds_then [OF claim_again [OF assms]]) (auto simp: Let_def)

lemma handler_table_run:
  "run_ok False V st 0 s (s\<lparr>ss_channel := (ss_channel s)\<lparr>ch_state_handlers := hs, ch_state_handler_index := i\<rparr>\<rparr>)"
  "run_ok False V st 0 s (s\<lparr>ss_channel := (ss_channel s)\<lparr>ch_scope_variables := vs\<rparr>\<rparr>)"
  by (simp_all add: run_ok_def run_by_def fine_def)

lemma handler_calls_run:
  "holds False (run_ok False V st 0 s) (on_channel (\<lambda>ch. Inr (snd (switch_channel_add_state_handler a ch))) s)"
  "holds False (run_ok False V st 0 s) (on_channel (switch_channel_clear_state_handler tf h) s)"
  "holds False (run_ok False V st 0 s) (on_channel (\<lambda>ch. Inr (switch_channel_set_scope_variables x ch)) s)"
proof -
  have "\<exists>hs i. snd (switch_channel_add_state_handler a ch) = ch\<lparr>ch_state_handlers := hs, ch_state_handler_index := i\<rparr>" for ch
  proof (cases "find (\<lambda>x. ch_state_handlers ch ! x = Some a) [0..<SWITCH_MAX_STATE_HANDLERS]")
    case (Some x)
    then have "snd (switch_channel_add_state_handler a ch) = ch" by (simp add: switch_channel_add_state_handler_def)
    then show ?thesis by (intro exI [of _ "ch_state_handlers ch"] exI [of _ "ch_state_handler_index ch"]) simp
  next
    case None
    then show ?thesis
      by (intro exI [of _ "if SWITCH_MAX_STATE_HANDLERS \<le> Suc (ch_state_handler_index ch) then ch_state_handlers ch
            else (ch_state_handlers ch)[ch_state_handler_index ch := Some a]"] exI [of _ "Suc (ch_state_handler_index ch)"])
        (simp add: switch_channel_add_state_handler_def Let_def)
  qed
  then obtain hs i where "snd (switch_channel_add_state_handler a (ss_channel s)) =
      (ss_channel s)\<lparr>ch_state_handlers := hs, ch_state_handler_index := i\<rparr>" by blast
  then show "holds False (run_ok False V st 0 s) (on_channel (\<lambda>ch. Inr (snd (switch_channel_add_state_handler a ch))) s)"
    by (simp add: on_channel_def handler_table_run)
  show "holds False (run_ok False V st 0 s) (on_channel (switch_channel_clear_state_handler tf h) s)"
    by (cases "keep_handlers (keep_handler tf h) (ch_state_handlers (ss_channel s)) [0..<ch_state_handler_index (ss_channel s)]
         (replicate SWITCH_MAX_STATE_HANDLERS None) 0")
      (auto simp: on_channel_def switch_channel_clear_state_handler_def handler_table_run)
  show "holds False (run_ok False V st 0 s) (on_channel (\<lambda>ch. Inr (switch_channel_set_scope_variables x ch)) s)"
    by (cases x) (simp_all add: on_channel_def switch_channel_set_scope_variables_def handler_table_run)
qed

lemma chan_step_simps [simp]:
  "chan_step env (Call_Set_State st) = switch_channel_perform_set_state st"
  "chan_step env (Call_Set_Flag f v) = switch_channel_set_flag_value (se_chan env) f v"
  "chan_step env (Call_Clear_Flag f) = switch_channel_clear_flag (se_chan env) f"
  "chan_step env (Call_State_Flag f) = (\<lambda>ch. Inr (switch_channel_set_state_flag f ch))"
  "chan_step env (Call_Set_Callstate cs) = (\<lambda>ch. Inr (switch_channel_perform_set_callstate cs ch))"
  "chan_step env (Call_Mark_Hold on) = switch_channel_mark_hold (se_chan env) on"
  "chan_step env (Call_Set_Variable n w) = switch_channel_set_variable n w"
  "chan_step env (Call_Scope x) = (\<lambda>ch. Inr (switch_channel_set_scope_variables x ch))"
  "chan_step env (Call_Add_Handler a) = (\<lambda>ch. Inr (snd (switch_channel_add_state_handler a ch)))"
  "chan_step env (Call_Clear_Handler h) = switch_channel_clear_state_handler (\<lambda>a. ht_flags (se_tables env a)) h"
  by (rule ext, simp add: chan_step_def)+

text \<open>After the hangup was claimed and the state reached, no call changes anything that matters.\<close>

lemma dead_call:
  assumes "dead s" and "call_fit t V c" and "fine t V (ss_channel s)"
  shows "holds t (run_ok t V st 0 s) (run_call env hs c s)"
proof (cases c)
  case (Call_Set_State x)
  then have "switch_channel_perform_set_state x (ss_channel s) = Inr (ss_channel s)"
    using assms(1,2) by (intro set_state_dead) (auto simp: dead_def call_fit_def call_ok_def)
  with Call_Set_State assms(3) show ?thesis by (simp add: run_call_def on_channel_def run_ok_def)
next
  case (Call_Hangup x)
  with assms show ?thesis by (simp add: run_call_def hangup_again dead_def)
next
  case (Call_Set_Variable n v)
  with assms(2,3) show ?thesis
    by (auto simp: run_call_def call_fit_def call_safe_def intro!: set_variable_run)
next
  case (Call_State_Flag f)
  with assms(3) show ?thesis
    by (auto simp: run_call_def on_channel_def intro!: keeps_run chan_keeps fine_updates)
next
  case (Call_Set_Callstate cs)
  with assms(3) show ?thesis by (auto simp: run_call_def on_channel_def intro!: callstate_run)
next
  case (Call_Scope x)
  then have "\<not> t" using assms(2) by (auto simp: call_fit_def call_safe_def)
  with Call_Scope show ?thesis using handler_calls_run(3) [of V st s x] by (simp add: run_call_def)
next
  case (Call_Add_Handler a)
  then have "\<not> t" using assms(2) by (auto simp: call_fit_def call_safe_def)
  with Call_Add_Handler show ?thesis using handler_calls_run(1) [of V st s a] by (simp add: run_call_def)
next
  case (Call_Clear_Handler h)
  then have "\<not> t" using assms(2) by (auto simp: call_fit_def call_safe_def)
  with Call_Clear_Handler show ?thesis using handler_calls_run(2) [of V st s] by (simp add: run_call_def)
qed (use assms in \<open>simp_all add: run_call_def set_flag_run clear_flag_run mark_hold_run\<close>)

lemma ran_run: "fine t V (ss_channel s) \<Longrightarrow> run_ok t V st (if src = Driver then 1 else 0) s (tell (Ran src st) s)"
  by (simp add: run_ok_def run_by_def tell_def fine_updates) (simp add: emit_def)

text \<open>After the hangup the handlers of one state keep everything but the log.\<close>

interpretation dead_run: handler_runs env "run_call env hs" t "call_fit t V" st state
    "\<lambda>n s. dead s0 \<and> CS_HANGUP \<le> state \<and> run_ok t V st n s0 s"
  for env hs t V st state s0
proof
  fix n s c src e
  assume a: "dead s0 \<and> CS_HANGUP \<le> state \<and> run_ok t V st n s0 s"
  then have s: "run_ok t V st n s0 s" and d: "dead s" and f: "fine t V (ss_channel s)" by (auto simp: run_ok_def intro: dead_run_by)
  show "holds t (\<lambda>s. dead s0 \<and> CS_HANGUP \<le> state \<and> run_ok t V st n s0 s) (run_call env hs c s)" if "call_fit t V c"
    using dead_call [OF d that f] by (rule holds_mono) (use a run_ok_trans [OF s, of 0] in simp)
  show "src \<noteq> Driver \<Longrightarrow> dead s0 \<and> CS_HANGUP \<le> state \<and> run_ok t V st n s0 (tell (Ran src st) s)"
    using a run_ok_trans [OF s ran_run [OF f, of st src]] by simp
  show "quiet e \<Longrightarrow> dead s0 \<and> CS_HANGUP \<le> state \<and> run_ok t V st n s0 (tell e s)" using a run_ok_trans [OF s tell_run [OF _ f]] by simp
  show "state < CS_HANGUP \<Longrightarrow> dead s0 \<and> CS_HANGUP \<le> state \<and>
      run_ok t V st n s0 (s\<lparr>ss_channel := switch_channel_perform_set_callstate CCS_ACTIVE (ss_channel s)\<rparr>)" using a by auto
next
  fix s assume s: "dead s0 \<and> CS_HANGUP \<le> state \<and> run_ok t V st 0 s0 s"
  then have f: "fine t V (ss_channel s)" by (simp add: run_ok_def)
  show "dead s0 \<and> CS_HANGUP \<le> state \<and> run_ok t V st 1 s0 (tell (Ran Driver st) s)"
    using s run_ok_trans [OF _ ran_run [OF f, of st Driver], of 0 s0] by simp
qed

section \<open>The end of a call\<close>

lemma value_ok_cause [chan_sound]: "value_ok (Some (switch_channel_cause2str c))"
proof -
  have "\<forall>n\<in>set (map fst CAUSE_CHART). plain_data n" by (simp add: CAUSE_CHART_def plain_data_def)
  moreover have "plain_data (chart_name chart c)" if "\<forall>n\<in>set (map fst chart). plain_data n" for chart
    using that by (induction chart) (auto simp: plain_data_def split: if_splits)
  ultimately have "plain_data (chart_name CAUSE_CHART c)" by blast
  then show ?thesis by (simp add: value_ok_def switch_channel_cause2str_def)
qed

lemma value_ok_int [chan_sound]: "value_ok (Some (show_int i))"
  by (simp add: value_ok_def show_int_plain)

text \<open>Reading a variable in a session.\<close>

lemma get_value_run:
  assumes "fine t V ch" and "\<And>v. holds t P (g v)"
  shows "holds t P (and_then (switch_channel_get_variable e ch n) g)"
proof (cases t)
  case True
  then show ?thesis using assms get_variable_ok [of V ch e n] by (auto simp: fine_def)
next
  case False
  then show ?thesis using assms(2) by (cases "switch_channel_get_variable e ch n") simp_all
qed

lemma run_ok_refl: "fine t V (ss_channel s) \<Longrightarrow> run_ok t V st 0 s s"
  by (simp add: run_ok_def)

lemma api_hook_run: "fine t V (ss_channel s) \<Longrightarrow> holds t (run_ok t V st 0 s) (api_hook env n s)"
  unfolding api_hook_def
  by (intro get_value_run) (auto intro!: get_value_run tell_run run_ok_refl split: option.split)

lemma run_ok_fine: "run_ok t V st n a b \<Longrightarrow> fine t V (ss_channel b)"
  by (simp add: run_ok_def)

lemma run_ok_dead: "run_ok t V st n a b \<Longrightarrow> dead a \<Longrightarrow> dead b"
  by (auto simp: run_ok_def intro: dead_run_by)

lemma hangup_time_run: "fine t V (ss_channel s) \<Longrightarrow> run_ok t V st 0 s (s\<lparr>ss_channel := set_hangup_time e (ss_channel s)\<rparr>)"
proof -
  assume f: "fine t V (ss_channel s)"
  have "keeps (ss_channel s) (set_hangup_time e (ss_channel s))"
    by (auto simp: set_hangup_time_def intro!: chan_keeps split: option.split)
  moreover have "fine t V (set_hangup_time e (ss_channel s))"
    using f by (auto simp: set_hangup_time_def fine_def chan_ok_def profile_ok_def split: option.split)
  ultimately show ?thesis by (rule keeps_run)
qed

lemma stop_broadcast_run: "fine t V (ss_channel s) \<Longrightarrow> holds t (run_ok t V st 0 s) (on_channel (stop_broadcast e) s)"
  by (rule on_channel_run) (auto simp: stop_broadcast_def intro!: chan_keeps chan_sound dest: fine_sound)

lemma dead_calls:
  assumes "dead s" and "fine t V (ss_channel s)" and "list_all (call_fit t V) cs"
  shows "holds t (run_ok t V st 0 s) (for_each (run_call env hs) cs s)"
proof (rule holds_each)
  fix c s' assume c: "c \<in> set cs" and s': "run_ok t V st 0 s s'"
  have "call_fit t V c" using assms(3) c by (simp add: list_all_iff)
  from dead_call [OF run_ok_dead [OF s' assms(1)] this run_ok_fine [OF s']]
  show "holds t (run_ok t V st 0 s) (run_call env hs c s')"
    by (rule holds_mono) (use run_ok_trans [OF s', of 0] in simp)
qed (rule run_ok_refl [OF assms(2)])

lemma run_standard_run:
  assumes "dead s" and "fine t V (ss_channel s)" and "env_makes (call_fit t V) env"
  shows "holds t (run_ok t V st 0 s) (run_standard env (run_call env hs) x s)"
  using assms unfolding run_standard_def by (intro dead_calls) (auto simp: env_makes_def handler_makes_def)

lemma recovery_run:
  assumes "dead s" and "fine t V (ss_channel s)" and "env_makes (call_fit t V) env"
  shows "holds t (run_ok t V st 0 s)
    (and_then (on_channel (switch_channel_clear_flag (se_chan env) CF_RECOVERING) s) (\<lambda>b.
       let b = (if \<not> rec then tell Recovery_Untrack b else b)
       in if chan_flag (ss_channel b) CF_ZOMBIE_EXEC then run_standard env (run_call env hs) CS_HANGUP b else Inr b))"
  unfolding Let_def
proof (rule holds_run_quiet [OF clear_flag_run [OF assms(2)]])
  fix b assume b: "run_ok t V st 0 s b"
  let ?b = "if \<not> rec then tell Recovery_Untrack b else b"
  have q: "run_ok t V st 0 b ?b" using run_ok_fine [OF b] by (auto intro!: tell_run run_ok_refl)
  note d = run_ok_dead [OF q run_ok_dead [OF b assms(1)]]
  have "holds t (run_ok t V st 0 ?b) (if chan_flag (ss_channel ?b) CF_ZOMBIE_EXEC then run_standard env (run_call env hs) CS_HANGUP ?b else Inr ?b)"
    using run_standard_run [OF d run_ok_fine [OF q] assms(3)] run_ok_refl [OF run_ok_fine [OF q]] by simp
  then show "holds t (run_ok t V st 0 b) (if chan_flag (ss_channel ?b) CF_ZOMBIE_EXEC then run_standard env (run_call env hs) CS_HANGUP ?b else Inr ?b)"
    by (rule holds_mono) (use run_ok_trans [OF q, of 0] in simp)
qed

lemma standard_hangup_run:
  assumes "dead s" and "fine t V (ss_channel s)" and "env_makes (call_fit t V) env"
  shows "holds t (run_ok t V st 0 s) (standard_on_hangup env (run_call env hs) s)"
proof -
  have q: "run_ok t V st 0 s (if switch_true v then tell Set_Media_Stats s else s)" for v
    using assms(2) by (auto intro!: tell_run run_ok_refl)
  note r = recovery_run [OF run_ok_dead [OF q assms(1)] run_ok_fine [OF q] assms(3)]
  show ?thesis unfolding standard_on_hangup_def Let_def
    by (rule get_value_run [OF assms(2)], rule holds_mono [OF r [unfolded Let_def]]) (use run_ok_trans [OF q, of 0] in simp)
qed

lemma end_macro:
  assumes "dead s" and "fine t V (ss_channel s)" and "env_makes (call_fit t V) env" and "CS_HANGUP \<le> st"
    and "CS_HANGUP \<le> state"
  shows "holds t (run_ok t V st (driver_has env st) s)
    (STATE_MACRO env (run_call env hs) (standard_on env (run_call env hs) st) st state extra s)"
proof -
  have "holds t (\<lambda>b. dead s \<and> CS_HANGUP \<le> state \<and> run_ok t V st (driver_has env st) s b)
      (STATE_MACRO env (run_call env hs) (standard_on env (run_call env hs) st) st state extra s)"
  proof (rule dead_run.macro [OF _ assms(3)])
    show "dead s \<and> CS_HANGUP \<le> state \<and> run_ok t V st 0 s s" using assms(1,2,5) by (simp add: run_ok_refl)
    fix n s' assume "dead s \<and> CS_HANGUP \<le> state \<and> run_ok t V st n s s'"
    then have s': "run_ok t V st n s s'" by simp
    have "holds t (run_ok t V st 0 s') (standard_on env (run_call env hs) st s')"
      using assms(4) standard_hangup_run [OF run_ok_dead [OF s' assms(1)] run_ok_fine [OF s'] assms(3)] run_ok_refl [OF run_ok_fine [OF s']]
      by (cases st) (simp_all add: standard_on_def cs_order)
    then show "holds t (\<lambda>b. dead s \<and> CS_HANGUP \<le> state \<and> run_ok t V st n s b) (standard_on env (run_call env hs) st s')"
      by (rule holds_mono) (use assms(1,5) run_ok_trans [OF s', of 0] in simp)
  qed
  then show ?thesis by (rule holds_mono) simp
qed

text \<open>The hangup itself: afterwards it is marked as done and the call state is final.\<close>

definition hangup_done :: "bool \<Rightarrow> string set \<Rightarrow> session_env \<Rightarrow> switch_core_session \<Rightarrow> switch_core_session \<Rightarrow> bool" where
  "hangup_done t V env s s' \<longleftrightarrow>
     (\<exists>s1. run_ok t V CS_HANGUP (driver_has env CS_HANGUP) s s1 \<and> ch_callstate (ss_channel s1) = CCS_HANGUP \<and> s' = s1\<lparr>ss_hangup := True\<rparr>)"

lemma core_name: "fine True V ch \<Longrightarrow> n \<in> {''hangup_cause'', ''hangup_cause_q850''} \<Longrightarrow> map c_tolower n \<in> V \<and> plain_name n"
  by (auto simp: fine_def names_ok_def plain_name_def)

lemma hangup_prepare_run:
  assumes f: "fine t V (ss_channel s)"
  shows "holds t (run_ok t V CS_HANGUP 0 s) (hangup_prepare env s)"
proof -
  let ?start = "tell Remove_Media_Bugs (s\<lparr>ss_channel := set_hangup_time (se_chan env) (ss_channel s)\<rparr>)"
  have set: "holds t (run_ok t V CS_HANGUP 0 b) (on_channel (switch_channel_set_variable m w) b)"
    if "fine t V (ss_channel b)" "m \<in> {''hangup_cause'', ''hangup_cause_q850''}" "value_ok w" for m w b
    using that core_name [of V "ss_channel b" m] by (intro set_variable_run) auto
  have s0: "run_ok t V CS_HANGUP 0 s ?start"
    using run_ok_trans [OF hangup_time_run [OF f, of CS_HANGUP "se_chan env"] tell_run, of Remove_Media_Bugs] run_ok_fine [OF hangup_time_run [OF f]] by simp
  have "holds t (run_ok t V CS_HANGUP 0 ?start) (hangup_prepare env s)"
    unfolding hangup_prepare_def Let_def
    by (rule holds_run_quiet [OF stop_broadcast_run [OF run_ok_fine [OF s0]]], rule holds_run_quiet [OF set], erule run_ok_fine, simp,
        rule value_ok_cause, rule holds_run_quiet [OF set], erule run_ok_fine, simp, rule value_ok_simps, rule set, erule run_ok_fine, simp, rule value_ok_int)
  then show ?thesis by (rule holds_mono) (use run_ok_trans [OF s0, of 0] in simp)
qed

lemma set_callstate_final: "ch_callstate (switch_channel_perform_set_callstate CCS_HANGUP ch) = CCS_HANGUP"
  by (auto simp: switch_channel_perform_set_callstate_def emit_def)

lemma hangup_body_run:
  assumes d: "dead s" and f: "fine t V (ss_channel s)" and e: "env_makes (call_fit t V) env" and n: "\<not> ss_hangup s"
    and cond: "force \<or> (chan_flag (ss_channel s) CF_EARLY_HANGUP \<or> se_early_hangup env) \<and> in_thread"
  shows "holds t (hangup_done t V env s) (switch_core_session_hangup_state env (run_call env hs) in_thread force s)"
proof -
  let ?n = "driver_has env CS_HANGUP"
  let ?call = "run_call env hs"
  have "holds t (hangup_done t V env s) (let c = tell Set_Timestamps b;
        c = c\<lparr>ss_channel := switch_channel_perform_set_callstate CCS_HANGUP (ss_channel c)\<rparr>
      in and_then (STATE_MACRO env ?call (standard_on env ?call CS_HANGUP) CS_HANGUP (ch_state (ss_channel s)) True c) (\<lambda>c.
         and_then (api_hook env ''api_hangup_hook'' (tell Set_Media_Stats c)) (\<lambda>c. Inr ((tell Process_Device_Hangup c)\<lparr>ss_hangup := True\<rparr>))))"
    if b: "run_ok t V CS_HANGUP 0 s b" for b
  proof -
    let ?told = "tell Set_Timestamps b"
    let ?c = "?told\<lparr>ss_channel := switch_channel_perform_set_callstate CCS_HANGUP (ss_channel ?told)\<rparr>"
    have c0: "run_ok t V CS_HANGUP 0 b ?told" using run_ok_fine [OF b] by (intro tell_run) simp_all
    have c: "run_ok t V CS_HANGUP 0 s ?c"
      using run_ok_trans [OF b run_ok_trans [OF c0 callstate_run [OF run_ok_fine [OF c0]]]] by simp
    have final: "ch_callstate (ss_channel ?c) = CCS_HANGUP" by (simp add: set_callstate_final)
    have hang: "CS_HANGUP \<le> ch_state (ss_channel s)" using d by (simp add: dead_def)
    have "holds t (run_ok t V CS_HANGUP ?n ?c)
        (STATE_MACRO env ?call (standard_on env ?call CS_HANGUP) CS_HANGUP (ch_state (ss_channel s)) True ?c)"
      by (rule end_macro [OF run_ok_dead [OF c d] run_ok_fine [OF c] e _ hang]) simp
    then show ?thesis unfolding Let_def
    proof (rule holds_then)
      fix x assume x: "run_ok t V CS_HANGUP ?n ?c x"
      let ?x = "tell Set_Media_Stats x"
      have x1: "run_ok t V CS_HANGUP 0 x ?x" using run_ok_fine [OF x] by (intro tell_run) simp_all
      have api: "holds t (run_ok t V CS_HANGUP 0 ?x) (api_hook env ''api_hangup_hook'' ?x)" using run_ok_fine [OF x1] by (rule api_hook_run)
      show "holds t (hangup_done t V env s) (and_then (api_hook env ''api_hangup_hook'' ?x) (\<lambda>c. Inr ((tell Process_Device_Hangup c)\<lparr>ss_hangup := True\<rparr>)))"
      proof (rule holds_then [OF api])
        fix y assume y: "run_ok t V CS_HANGUP 0 ?x y"
        let ?y = "tell Process_Device_Hangup y"
        have y1: "run_ok t V CS_HANGUP 0 y ?y" using run_ok_fine [OF y] by (intro tell_run) simp_all
        have cy: "run_ok t V CS_HANGUP ?n ?c ?y" using run_ok_trans [OF x run_ok_trans [OF x1 run_ok_trans [OF y y1]]] by simp
        have "run_ok t V CS_HANGUP ?n s ?y" using run_ok_trans [OF c cy] by simp
        moreover have "ch_callstate (ss_channel ?y) = CCS_HANGUP" using cy final by (simp add: run_ok_def run_by_def)
        ultimately show "holds t (hangup_done t V env s) (Inr (?y\<lparr>ss_hangup := True\<rparr>))" by (auto simp: hangup_done_def)
      qed
    qed
  qed
  from holds_then [OF hangup_prepare_run [OF f, of env] this] show ?thesis
    using n cond unfolding switch_core_session_hangup_state_def by (auto simp: Let_def)
qed

section \<open>Turns after the hangup\<close>

lemma holds_run_from:
  assumes "run_ok t V st n a b" and "holds t (run_ok t V st m b) r"
  shows "holds t (run_ok t V st (n + m) a) r"
  using assms(2) by (rule holds_mono) (rule run_ok_trans [OF assms(1)])

lemma dead_then:
  assumes "dead a" and "holds t (run_ok t V st 0 a) r"
    and "\<And>b. dead b \<Longrightarrow> fine t V (ss_channel b) \<Longrightarrow> holds t (run_ok t V st 0 b) (g b)"
  shows "holds t (run_ok t V st 0 a) (and_then r g)"
  using assms(2) by (rule holds_run_quiet) (auto intro: assms(3) run_ok_dead [OF _ assms(1)] run_ok_fine)

lemma thread_calls_run:
  assumes "dead s" and "fine t V (ss_channel s)" and "list_all (call_fit t V) cs"
  shows "holds t (run_ok t V st 0 s) (for_each (thread_call env) cs s)"
  using assms unfolding outer_call_def by (rule dead_calls)

lemma state_run_run:
  assumes "dead s" and "fine t V (ss_channel s)" and "\<forall>h\<in>set hs. handler_makes (call_fit t V) h"
  shows "holds t (run_ok t V st 0 s) (state_run_loop env hs s)"
  using assms
proof (induction hs arbitrary: s)
  case (Cons h hs)
  have "list_all (call_fit t V) (fst (h s))" using Cons.prems(3) by (simp add: handler_makes_def)
  from thread_calls_run [OF Cons.prems(1,2) this] show ?case
    using Cons by (auto intro!: dead_then run_ok_refl)
qed (auto intro: run_ok_refl)

lemma enter_state_run:
  assumes "dead s" and "fine t V (ss_channel s)" and "env_makes (call_fit t V) env"
  shows "holds t (run_ok t V st 0 s) (enter_state env state s)"
  unfolding enter_state_def
  by (rule dead_then [OF assms(1) running_state_run [OF assms(2)]], rule dead_then, assumption, erule clear_flag_run, rule dead_then,
      assumption, erule clear_flag_run, rule dead_then, assumption, rule thread_calls_run)
    (use assms(3) in \<open>auto simp: env_makes_def intro!: state_run_run\<close>)

lemma events_run:
  assumes "env_makes (call_fit t V) env" and "dead s" and "fine t V (ss_channel s)"
  shows "holds t (run_ok t V st 0 s) (parse_all_events env s)"
  using assms unfolding parse_all_events_def by (intro thread_calls_run) (auto simp: env_makes_def)

lemma idle_run:
  assumes "dead s" and "fine t V (ss_channel s)" and "env_makes (call_fit t V) env"
  shows "holds t (run_ok t V st 0 s) (idle env s)"
proof -
  have ev: "dead b \<Longrightarrow> fine t V (ss_channel b) \<Longrightarrow> holds t (run_ok t V st 0 b) (parse_all_events env b)" for b
    by (rule events_run [OF assms(3)])
  have sleep: "holds t (run_ok t V st 0 b)
      (if ch_state (ss_channel b) = ch_running_state (ss_channel b) then
         and_then (on_channel (switch_channel_set_flag (se_chan env) CF_THREAD_SLEEPING) b) (\<lambda>s.
         and_then (if ch_state (ss_channel s) = ch_running_state (ss_channel s) then parse_all_events env s else Inr s)
           (on_channel (switch_channel_clear_flag (se_chan env) CF_THREAD_SLEEPING)))
       else Inr b)" if "dead b" "fine t V (ss_channel b)" for b
    using that by (auto intro!: dead_then set_flag_run clear_flag_run ev run_ok_refl)
  have "ch_state (ss_channel s) \<noteq> CS_NEW" using assms(1) by (auto simp: dead_def cs_order)
  then show ?thesis unfolding idle_def Let_def
    using assms(1,2) by (auto intro!: dead_then ev sleep run_ok_refl)
qed

lemma delete_sound:
  assumes "names_ok V" and "chan_ok V b"
  shows "rsound V (switch_channel_set_variable ''presence_call_info'' None b)"
proof -
  obtain e where e: "ch_variables b = Some e" "vars_ok V e" using assms(2) by (auto simp: chan_ok_def)
  have "plain_name ''presence_call_info''" by (simp add: plain_name_def)
  from set_variable_eq [OF assms(1) e this value_ok_simps(1)] e(2) assms(2) show ?thesis
    by (auto simp: rsound_def chan_ok_def var_update_def zstr_def drop_header_with vars_ok_filter)
qed

lemma presence_run:
  assumes "fine t V (ss_channel s)"
  shows "holds t (run_ok t V st 0 s) (check_presence s)"
proof -
  have f: "fine t V (ss_channel (tell (Presence ''cancelled'') s))" using assms by (simp add: tell_def fine_updates)
  have "holds t (run_ok t V st 0 (tell (Presence ''cancelled'') s))
      (on_channel (switch_channel_set_variable ''presence_call_info'' None) (tell (Presence ''cancelled'') s))"
    using f by (intro on_channel_run) (auto intro!: chan_keeps delete_sound dest: fine_sound)
  from holds_run_from [OF tell_run [OF _ assms] this] show ?thesis
    using assms by (auto simp: check_presence_def Let_def intro!: tell_run run_ok_refl)
qed

text \<open>Like \<open>run_ok\<close>, but the state may change and the hangup may be marked as done.\<close>

definition moved :: "bool \<Rightarrow> string set \<Rightarrow> switch_channel_state_t \<Rightarrow> nat \<Rightarrow> switch_core_session \<Rightarrow> switch_core_session \<Rightarrow> bool" where
  "moved t V st n a b \<longleftrightarrow>
     ch_opaque_flags (ss_channel b) = ch_opaque_flags (ss_channel a) \<and> fine t V (ss_channel b) \<and>
     (ch_callstate (ss_channel a) = CCS_HANGUP \<longrightarrow> ch_callstate (ss_channel b) = CCS_HANGUP) \<and>
     (\<exists>es. ch_log (ss_channel b) = ch_log (ss_channel a) @ es \<and>
       (\<forall>e\<in>set es. quiet e \<or> (\<exists>src. e = Ran src st)) \<and> count_list es (Ran Driver st) = n)"

lemma moved_run: "run_ok t V st n a b \<Longrightarrow> moved t V st n a b"
  by (auto simp: moved_def run_ok_def run_by_def)

lemma moved_trans: "moved t V st n a b \<Longrightarrow> moved t V st m b c \<Longrightarrow> moved t V st (n + m) a c"
  unfolding moved_def by (elim conjE exE) (auto simp: count_list_append)

lemma moved_state:
  "fine t V (ss_channel s) \<Longrightarrow> moved t V st 0 s (s\<lparr>ss_channel := emit Signal_State_Change ((ss_channel s)\<lparr>ch_state := x\<rparr>)\<rparr>)"
  by (simp add: moved_def fine_updates) (simp add: emit_def)

lemma moved_mark: "fine t V (ss_channel s) \<Longrightarrow> moved t V st 0 s (s\<lparr>ss_hangup := b\<rparr>)"
  by (simp add: moved_def)

lemma set_state_up:
  "CS_HANGUP \<le> ch_state ch \<Longrightarrow> ch_state ch < st \<Longrightarrow> st \<le> CS_DESTROY \<Longrightarrow>
   switch_channel_perform_set_state st ch = Inr (emit Signal_State_Change (ch\<lparr>ch_state := st\<rparr>))"
  using change_ok_ending [of "ch_state ch" st] by (auto simp: switch_channel_perform_set_state_def Let_def)

lemma run_same:
  "run_ok t V st n a b \<Longrightarrow> ch_state (ss_channel b) = ch_state (ss_channel a) \<and> ss_hangup b = ss_hangup a \<and>
     ch_opaque_flags (ss_channel b) = ch_opaque_flags (ss_channel a) \<and>
     (ch_callstate (ss_channel a) = CCS_HANGUP \<longrightarrow> ch_callstate (ss_channel b) = CCS_HANGUP)"
  by (simp add: run_ok_def run_by_def)

definition after_hangup :: "bool \<Rightarrow> string set \<Rightarrow> session_env \<Rightarrow> switch_core_session \<Rightarrow> switch_core_session \<Rightarrow> bool" where
  "after_hangup t V env s b \<longleftrightarrow>
     moved t V CS_HANGUP (if ss_hangup s then 0 else driver_has env CS_HANGUP) s b \<and> ss_hangup b \<and>
     ((ss_hangup s \<longrightarrow> ch_callstate (ss_channel s) = CCS_HANGUP) \<longrightarrow> ch_callstate (ss_channel b) = CCS_HANGUP)"

lemma after_hangup_state:
  assumes d: "dead s" and f: "fine t V (ss_channel s)" and e: "env_makes (call_fit t V) env"
  shows "holds t (\<lambda>b. after_hangup t V env s b \<and> ch_state (ss_channel b) = ch_state (ss_channel s))
    (switch_core_session_hangup_state env (run_call env hs) in_thread True s)"
proof (cases "ss_hangup s")
  case True
  then have "switch_core_session_hangup_state env (run_call env hs) in_thread True s = Inr s"
    by (simp add: switch_core_session_hangup_state_def)
  with True f show ?thesis by (simp add: after_hangup_def moved_run run_ok_refl)
next
  case False
  have "hangup_done t V env s b \<Longrightarrow> after_hangup t V env s b \<and> ch_state (ss_channel b) = ch_state (ss_channel s)" for b
    using False moved_trans [OF moved_run moved_mark [OF run_ok_fine]] run_same
    by (fastforce simp: hangup_done_def after_hangup_def)
  with hangup_body_run [OF d f e False, of True in_thread hs] show ?thesis by (auto intro: holds_mono)
qed

lemma after_hangup_run: "after_hangup t V env s a \<Longrightarrow> run_ok t V CS_HANGUP 0 a b \<Longrightarrow> after_hangup t V env s b"
  using moved_trans [OF _ moved_run, of t V CS_HANGUP _ s a 0 b] run_same [of t V CS_HANGUP 0 a b]
  by (fastforce simp: after_hangup_def)

lemma run_after_hangup: "run_ok t V CS_HANGUP 0 s a \<Longrightarrow> after_hangup t V env a b \<Longrightarrow> after_hangup t V env s b"
  using moved_trans [OF moved_run, of t V CS_HANGUP 0 s a _ b] run_same [of t V CS_HANGUP 0 s a]
  by (fastforce simp: after_hangup_def)

lemma session_turn_steps:
  assumes "ch_state (ss_channel s) \<noteq> CS_DESTROY" and "CS_HANGUP \<le> ch_state (ss_channel s)"
  shows "session_turn env s =
    and_then (enter_state env (ch_state (ss_channel s)) s) (\<lambda>x. and_then (run_state env (ch_state (ss_channel s)) x) (\<lambda>(ended, b).
      if ended then Inr (b\<lparr>ss_thread_running := False\<rparr>) else and_then (check_presence b) (idle env)))"
proof (cases "enter_state env (ch_state (ss_channel s)) s")
  case (Inr x)
  show ?thesis using assms Inr
    by (cases "run_state env (ch_state (ss_channel s)) x")
      (auto simp: session_turn_def Let_def split_def and_then_def split: sum.split)
qed (use assms in \<open>simp add: session_turn_def Let_def not_less\<close>)

lemma hangup_turn:
  assumes d: "dead s" and h: "ch_state (ss_channel s) = CS_HANGUP" and f: "fine t V (ss_channel s)" and e: "env_makes (call_fit t V) env"
  shows "holds t (\<lambda>b. after_hangup t V env s b \<and> ch_state (ss_channel b) = CS_REPORTING) (session_turn env s)"
proof -
  have run: "holds t (\<lambda>(ended, b). \<not> ended \<and> dead b \<and> after_hangup t V env x b \<and> ch_state (ss_channel b) = CS_REPORTING) (run_state env CS_HANGUP x)"
    if x: "run_ok t V CS_HANGUP 0 s x" for x
  proof -
    have dx: "dead x" and fx: "fine t V (ss_channel x)" and hx: "ch_state (ss_channel x) = CS_HANGUP"
      using run_ok_dead [OF x d] run_ok_fine [OF x] run_same [OF x] h by simp_all
    show ?thesis unfolding run_state_def inner_call_def Let_def switch_channel_state_t.case
    proof (rule holds_then [OF after_hangup_state [OF dx fx e]])
      fix y assume y: "after_hangup t V env x y \<and> ch_state (ss_channel y) = ch_state (ss_channel x)"
      let ?y = "if chan_flag (ss_channel y) CF_VIDEO then tell Wake_Video_Thread y else y"
      have fy: "fine t V (ss_channel y)" using y by (simp add: after_hangup_def moved_def)
      then have q: "run_ok t V CS_HANGUP 0 y ?y" by (auto intro!: tell_run run_ok_refl)
      have hy: "ch_state (ss_channel ?y) = CS_HANGUP" using run_same [OF q] y hx by simp
      let ?z = "?y\<lparr>ss_channel := emit Signal_State_Change ((ss_channel ?y)\<lparr>ch_state := CS_REPORTING\<rparr>)\<rparr>"
      have set: "on_channel (switch_channel_perform_set_state CS_REPORTING) ?y = Inr ?z"
        using set_state_up [of "ss_channel ?y" CS_REPORTING] hy by (simp add: on_channel_def cs_order)
      have ay: "after_hangup t V env x ?y" using y q after_hangup_run by blast
      then have "after_hangup t V env x ?z"
        using moved_trans [OF _ moved_state [OF run_ok_fine [OF q], of CS_HANGUP CS_REPORTING]] by (auto simp: after_hangup_def emit_def)
      moreover have "dead ?z" using ay dx by (simp add: dead_def after_hangup_def moved_def hung_up_def emit_def cs_order)
      ultimately show "holds t (\<lambda>(ended, b). \<not> ended \<and> dead b \<and> after_hangup t V env x b \<and> ch_state (ss_channel b) = CS_REPORTING)
          (and_then (on_channel (switch_channel_perform_set_state CS_REPORTING) ?y) (\<lambda>s. Inr (False, s)))"
        unfolding set by (simp add: emit_def)
    qed
  qed
  have rest: "holds t (\<lambda>b. after_hangup t V env s b \<and> ch_state (ss_channel b) = CS_REPORTING) (and_then (check_presence b) (idle env))"
    if b: "dead b" "after_hangup t V env s b" "ch_state (ss_channel b) = CS_REPORTING" for b
  proof -
    have fb: "fine t V (ss_channel b)" using b(2) by (simp add: after_hangup_def moved_def)
    have "holds t (run_ok t V CS_HANGUP 0 b) (and_then (check_presence b) (idle env))"
      by (rule dead_then [OF b(1) presence_run [OF fb]]) (rule idle_run [OF _ _ e])
    then show ?thesis by (rule holds_mono) (use after_hangup_run [OF b(2)] run_same b(3) in auto)
  qed
  have "holds t (\<lambda>b. after_hangup t V env s b \<and> ch_state (ss_channel b) = CS_REPORTING)
      (and_then (enter_state env CS_HANGUP s) (\<lambda>x. and_then (run_state env CS_HANGUP x) (\<lambda>(ended, b).
         if ended then Inr (b\<lparr>ss_thread_running := False\<rparr>) else and_then (check_presence b) (idle env))))"
  proof (rule holds_then [OF enter_state_run [OF d f e]])
    fix x assume x: "run_ok t V CS_HANGUP 0 s x"
    show "holds t (\<lambda>b. after_hangup t V env s b \<and> ch_state (ss_channel b) = CS_REPORTING)
      (and_then (run_state env CS_HANGUP x) (\<lambda>(ended, b).
         if ended then Inr (b\<lparr>ss_thread_running := False\<rparr>) else and_then (check_presence b) (idle env)))"
      by (rule holds_then [OF run [OF x]]) (use rest run_after_hangup [OF x] in auto)
  qed
  then show ?thesis using h by (simp add: session_turn_steps)
qed

text \<open>Whether records are wanted is decided without a fault when no causes are listed.\<close>

definition cdr_fit :: "bool \<Rightarrow> string set \<Rightarrow> session_env \<Rightarrow> bool" where
  "cdr_fit t V env \<longleftrightarrow> (t \<longrightarrow> ''skip_cdr_causes'' \<notin> V \<and> ce_globals (se_chan env) ''skip_cdr_causes'' = None)"

lemma skip_field: "switch_caller_get_field_by_name p ''skip_cdr_causes'' = Inr None"
  by (simp add: switch_caller_get_field_by_name_def profile_fields_def strcasecmp_eq_def)

lemma skip_none:
  assumes "fine True V ch" and "''skip_cdr_causes'' \<notin> V" and "ce_globals e ''skip_cdr_causes'' = None"
  shows "switch_channel_get_variable e ch ''skip_cdr_causes'' = Inr None"
proof -
  obtain ev where ev: "ch_variables ch = Some ev" "vars_ok V ev" and sc: "ch_scope_variables ch = []"
    using assms(1) by (auto simp: fine_def chan_ok_def)
  have "find (same_name ''skip_cdr_causes'') (ev_headers ev) = None"
    using ev(2) assms(2) by (auto simp: find_None_iff vars_ok_def same_name_def strcasecmp_eq_def)
  with ev have "switch_event_get_header_idx ev (Some ''skip_cdr_causes'') (- 1) = Inr None"
    by (simp add: get_idx_find vars_ok_def)
  then show ?thesis using ev(1) sc assms(3)
    by (auto simp: get_variable_unfold leg_profile_def skip_field split: option.split)
qed

lemma cdr_run:
  assumes "fine t V ch" and "cdr_fit t V env" and "\<And>x. holds t P (g x)"
  shows "holds t P (and_then (cdr_wanted (se_chan env) ch) g)"
proof (cases t)
  case True
  obtain v where "switch_channel_get_variable (se_chan env) ch ''process_cdr'' = Inr v"
    using assms(1) True get_variable_ok [of V ch] by (auto simp: fine_def)
  then have "\<exists>x. cdr_wanted (se_chan env) ch = Inr x"
    using skip_none [of V ch "se_chan env"] assms(1,2) True by (simp add: cdr_wanted_def cdr_fit_def zstr_def Let_def)
  then show ?thesis using assms(3) by auto
next
  case False
  then show ?thesis using assms(3) by (cases "cdr_wanted (se_chan env) ch") simp_all
qed

text \<open>Reporting runs at most once: the handlers, and then the event that completes the hangup.\<close>

abbreviation complete :: chan_effect where
  "complete \<equiv> Fire_Event SWITCH_EVENT_CHANNEL_HANGUP_COMPLETE"

definition reported :: "bool \<Rightarrow> string set \<Rightarrow> session_env \<Rightarrow> switch_core_session \<Rightarrow> switch_core_session \<Rightarrow> bool" where
  "reported t V env a b \<longleftrightarrow> run_ok t V CS_REPORTING 0 a b \<or>
     (\<exists>x. run_ok t V CS_REPORTING (driver_has env CS_REPORTING) a x \<and> b = tell complete x)"

lemma reporting_run:
  assumes d: "dead s" and f: "fine t V (ss_channel s)" and e: "env_makes (call_fit t V) env" and c: "cdr_fit t V env"
  shows "holds t (reported t V env s) (switch_core_session_reporting_state env (run_call env hs) s)"
proof (cases "chan_flag (ss_channel s) CF_REPORTING")
  case True
  then show ?thesis using f by (simp add: switch_core_session_reporting_state_def reported_def run_ok_refl)
next
  case False
  have macro: "holds t (run_ok t V CS_REPORTING (driver_has env CS_REPORTING) s)
      (and_then (on_channel (switch_channel_set_flag (se_chan env) CF_REPORTING) s) (\<lambda>s'.
       and_then (STATE_MACRO env (run_call env hs) (standard_on env (run_call env hs) CS_REPORTING) CS_REPORTING (ch_state (ss_channel s)) x s')
         (api_hook env ''api_reporting_hook'')))" for x
  proof (rule holds_run_then [where n = 0, simplified, OF set_flag_run [OF f]])
    fix b assume b: "run_ok t V CS_REPORTING 0 s b"
    have hang: "CS_HANGUP \<le> ch_state (ss_channel s)" using d by (simp add: dead_def)
    show "holds t (run_ok t V CS_REPORTING (driver_has env CS_REPORTING) b)
       (and_then (STATE_MACRO env (run_call env hs) (standard_on env (run_call env hs) CS_REPORTING) CS_REPORTING (ch_state (ss_channel s)) x b)
         (api_hook env ''api_reporting_hook''))"
      by (rule holds_run_then [where m = 0, simplified, OF end_macro [OF run_ok_dead [OF b d] run_ok_fine [OF b] e _ hang]])
        (auto simp: cs_order intro: api_hook_run run_ok_fine)
  qed
  have "holds t (reported t V env s)
      (and_then (on_channel (switch_channel_set_flag (se_chan env) CF_REPORTING) s) (\<lambda>s'.
       and_then (STATE_MACRO env (run_call env hs) (standard_on env (run_call env hs) CS_REPORTING) CS_REPORTING (ch_state (ss_channel s)) x s') (\<lambda>s.
       and_then (api_hook env ''api_reporting_hook'' s) (\<lambda>s. Inr (tell complete s)))))" for x
    using holds_then [OF macro [of x], of "reported t V env s" "\<lambda>s. Inr (tell complete s)"]
    by (auto simp: and_then_assoc reported_def)
  from cdr_run [OF f c this] show ?thesis using False by (simp add: switch_core_session_reporting_state_def Let_def)
qed

end
