(* ===== verification/FS_Session_Life.thy ===== *)
theory FS_Session_Life
  imports FS_Session_End
begin

text \<open>
  The life of a session: the steps of its thread and of other threads, the invariant that a call is ended once in every
  interleaving, and that a session that is hung up, or that nobody uses and whose state is not blocked, comes to its end.
\<close>

section \<open>The life of a session\<close>

text \<open>Another thread that hangs up has claimed the hangup, or has entered \<^verbatim>\<open>CS_HANGUP\<close> and not yet announced it.\<close>

datatype hangup_phase = No_Hangup | Claimed switch_call_cause_t | Entered switch_call_cause_t

definition seen :: "chan_effect \<Rightarrow> switch_core_session \<Rightarrow> nat" where
  "seen e s = count_list (ch_log (ss_channel s)) e"

definition phase_ok :: "hangup_phase \<Rightarrow> switch_core_session \<Rightarrow> bool" where
  "phase_ok p s =
     (case p of
        No_Hangup \<Rightarrow> (hung_up (ss_channel s) \<longrightarrow> CS_HANGUP \<le> state_of s) \<and>
          seen (Fire_Event SWITCH_EVENT_CHANNEL_HANGUP) s = (if hung_up (ss_channel s) then 1 else 0)
      | Claimed c \<Rightarrow> hung_up (ss_channel s) \<and> state_of s < CS_HANGUP \<and> seen (Fire_Event SWITCH_EVENT_CHANNEL_HANGUP) s = 0
      | Entered c \<Rightarrow> hung_up (ss_channel s) \<and> CS_HANGUP \<le> state_of s \<and> seen (Fire_Event SWITCH_EVENT_CHANNEL_HANGUP) s = 0)"

definition life_inv :: "session_env \<Rightarrow> hangup_phase \<Rightarrow> switch_core_session \<Rightarrow> bool" where
  "life_inv env p s \<longleftrightarrow> phase_ok p s \<and> state_of s \<le> CS_DESTROY \<and> (CS_HANGUP \<le> state_of s \<longrightarrow> hung_up (ss_channel s)) \<and>
     (ss_hangup s \<longrightarrow> CS_HANGUP \<le> state_of s \<and> ch_callstate (ss_channel s) = CCS_HANGUP) \<and>
     (CS_HANGUP < state_of s \<longrightarrow> ss_hangup s) \<and>
     seen (Ran Driver CS_HANGUP) s = (if ss_hangup s then driver_has env CS_HANGUP else 0) \<and>
     seen complete s \<le> (if state_of s = CS_DESTROY then 1 else 0) \<and>
     seen (Ran Driver CS_REPORTING) s \<le> (if state_of s = CS_DESTROY then driver_has env CS_REPORTING else 0)"

lemma quiet_ran_count:
  assumes "\<forall>e\<in>set es. quiet e \<or> (\<exists>src. e = Ran src st)"
  shows "count_list es (Fire_Event SWITCH_EVENT_CHANNEL_HANGUP) = 0" "count_list es complete = 0"
    "x \<noteq> st \<Longrightarrow> count_list es (Ran Driver x) = 0"
  using assms by (induction es) auto

lemma run_by_seen:
  assumes "run_by st n a b"
  shows "seen (Fire_Event SWITCH_EVENT_CHANNEL_HANGUP) b = seen (Fire_Event SWITCH_EVENT_CHANNEL_HANGUP) a"
    "seen complete b = seen complete a"
    "seen (Ran Driver x) b = seen (Ran Driver x) a + (if x = st then n else 0)"
  using assms unfolding run_by_def by (auto simp: seen_def count_list_append quiet_ran_count)

lemma moved_seen:
  assumes "moved t V st n a b"
  shows "seen (Fire_Event SWITCH_EVENT_CHANNEL_HANGUP) b = seen (Fire_Event SWITCH_EVENT_CHANNEL_HANGUP) a"
    "seen complete b = seen complete a"
    "seen (Ran Driver x) b = seen (Ran Driver x) a + (if x = st then n else 0)"
  using assms unfolding moved_def by (auto simp: seen_def count_list_append quiet_ran_count)

text \<open>Running handlers of another state than those of the end keeps the invariant.\<close>

lemma inv_run_by:
  assumes "life_inv env p a" and "run_by st n a b" and "st \<noteq> CS_HANGUP \<and> st \<noteq> CS_REPORTING \<or> n = 0"
  shows "life_inv env p b"
proof -
  have s: "seen (Fire_Event SWITCH_EVENT_CHANNEL_HANGUP) b = seen (Fire_Event SWITCH_EVENT_CHANNEL_HANGUP) a"
    "seen complete b = seen complete a" "seen (Ran Driver CS_HANGUP) b = seen (Ran Driver CS_HANGUP) a"
    "seen (Ran Driver CS_REPORTING) b = seen (Ran Driver CS_REPORTING) a"
    using assms(2,3) by (auto simp: run_by_seen)
  have "state_of b = state_of a" "hung_up (ss_channel b) = hung_up (ss_channel a)" "ss_hangup b = ss_hangup a"
    "ch_callstate (ss_channel a) = CCS_HANGUP \<longrightarrow> ch_callstate (ss_channel b) = CCS_HANGUP"
    using assms(2) by (simp_all add: run_by_def hung_up_def)
  with s assms(1) show ?thesis
    unfolding life_inv_def phase_ok_def by (simp split: hangup_phase.splits)
qed

lemma inv_run_ok: "life_inv env p a \<Longrightarrow> run_ok t V st 0 a b \<Longrightarrow> life_inv env p b"
  by (auto simp: run_ok_def intro: inv_run_by)

lemma inv_dead: "life_inv env p s \<Longrightarrow> CS_HANGUP \<le> state_of s \<Longrightarrow> dead s"
  by (simp add: life_inv_def dead_def)

lemma fine_False [simp]: "fine False V ch"
  by (simp add: fine_def)

lemma inv_mono: "life_inv env p a \<Longrightarrow> holds False (run_ok False V st 0 a) r \<Longrightarrow> holds False (life_inv env p) r"
  by (erule holds_mono) (rule inv_run_ok)

text \<open>Calls on the channel other than a hangup.\<close>

lemma inv_set_state:
  assumes "life_inv env p s" and "x < CS_HANGUP" and "state_of s < CS_HANGUP"
  shows "life_inv env p (s\<lparr>ss_channel := emit Signal_State_Change ((ss_channel s)\<lparr>ch_state := x\<rparr>)\<rparr>)"
proof -
  let ?b = "s\<lparr>ss_channel := emit Signal_State_Change ((ss_channel s)\<lparr>ch_state := x\<rparr>)\<rparr>"
  have "seen e ?b = seen e s" if "e \<noteq> Signal_State_Change" for e
    using that by (simp add: seen_def emit_def count_list_append)
  moreover have "state_of ?b = x" "ss_hangup ?b = ss_hangup s" "hung_up (ss_channel ?b) = hung_up (ss_channel s)"
    by (simp_all add: emit_def hung_up_def)
  moreover have "state_of s \<noteq> CS_DESTROY" "x \<noteq> CS_DESTROY" using assms(2,3) by (auto simp: cs_order)
  ultimately show ?thesis using assms unfolding life_inv_def phase_ok_def
    by (auto simp: cs_order split: hangup_phase.splits)
qed

lemma set_state_cases:
  "switch_channel_perform_set_state x ch = Inr ch' \<Longrightarrow> x \<noteq> CS_HANGUP \<Longrightarrow> ch' = ch \<or> ch' = emit Signal_State_Change (ch\<lparr>ch_state := x\<rparr>)"
  by (auto simp: switch_channel_perform_set_state_def Let_def split: if_splits)

lemma inv_set_state_call:
  assumes "life_inv env p s" and "x < CS_HANGUP"
  shows "holds False (life_inv env p) (on_channel (switch_channel_perform_set_state x) s)"
proof (cases "CS_HANGUP \<le> state_of s")
  case True
  then have "switch_channel_perform_set_state x (ss_channel s) = Inr (ss_channel s)"
    using assms by (intro set_state_dead) (auto simp: life_inv_def)
  then show ?thesis using assms(1) by (simp add: on_channel_def)
next
  case False
  moreover have "x \<noteq> CS_HANGUP" using assms(2) by auto
  ultimately show ?thesis using assms inv_set_state [of env p s x] set_state_cases [of x "ss_channel s"]
    by (cases "switch_channel_perform_set_state x (ss_channel s)") (auto simp: on_channel_def)
qed

lemma inv_chan_call:
  assumes "life_inv env p s" and "call_ok c" and "\<And>x. c \<noteq> Call_Hangup x"
  shows "holds False (life_inv env p) (run_call env hs c s)"
proof (cases c)
  case (Call_Set_State x)
  with assms show ?thesis by (simp add: run_call_def call_ok_def inv_set_state_call)
next
  case (Call_State_Flag f)
  have "run_ok False {} CS_NEW 0 s (s\<lparr>ss_channel := switch_channel_set_state_flag f (ss_channel s)\<rparr>)"
    by (intro keeps_run chan_keeps) simp
  from inv_run_ok [OF assms(1) this] Call_State_Flag show ?thesis by (simp add: run_call_def on_channel_def)
next
  case (Call_Set_Callstate cs)
  have "run_ok False {} CS_NEW 0 s (s\<lparr>ss_channel := switch_channel_perform_set_callstate cs (ss_channel s)\<rparr>)"
    by (intro keeps_run chan_keeps) simp
  from inv_run_ok [OF assms(1) this] Call_Set_Callstate show ?thesis by (simp add: run_call_def on_channel_def)
qed (use assms in \<open>auto simp: run_call_def intro!: inv_mono [where V = "{}" and st = CS_NEW] set_flag_run clear_flag_run mark_hold_run set_variable_run handler_calls_run\<close>)

lemma call_fit_False [simp]: "call_fit False V = call_ok"
  by (auto simp: call_fit_def)

text \<open>A hangup, part by part.\<close>

lemma inv_claim_again:
  assumes "life_inv env p s" and "hung_up (ss_channel s)"
  shows "holds False (\<lambda>(ok, ch). \<not> ok \<and> life_inv env p (s\<lparr>ss_channel := ch\<rparr>)) (hangup_claim e (ss_channel s))"
  by (rule holds_mono [OF claim_again [OF assms(2), of False "{}" CS_NEW]]) (auto intro: inv_run_ok [OF assms(1)])

lemma inv_claim:
  assumes "life_inv env p s" and "\<not> hung_up (ss_channel s)"
  shows "holds False (\<lambda>(ok, ch). ok \<and> p = No_Hangup \<and> life_inv env (Claimed c) (s\<lparr>ss_channel := ch\<rparr>)) (hangup_claim e (ss_channel s))"
proof -
  have p: "p = No_Hangup" using assms by (cases p) (auto simp: life_inv_def phase_ok_def)
  let ?ch = "(ss_channel s)\<lparr>ch_opaque_flags := ch_opaque_flags (ss_channel s) OR OCF_HANGUP\<rparr>"
  let ?r = "if chan_flag ?ch CF_LEG_HOLDING
     then and_then (switch_channel_mark_hold e False ?ch) (switch_channel_set_flag e CF_HANGUP_HELD) else Inr ?ch"
  have claimed: "hung_up ?ch"
    by (simp add: hung_up_def OCF_HANGUP_def bit.conj_disj_distrib2)
  have inv: "life_inv env (Claimed c) (s\<lparr>ss_channel := ?ch\<rparr>)"
    using assms p claimed by (auto simp: life_inv_def phase_ok_def seen_def cs_order)
  have "holds False (\<lambda>ch. keeps ?ch ch \<and> fine False {} ch) ?r"
    by (intro holds_keeps) (auto intro!: chan_keeps)
  then have "holds False (\<lambda>(ok, ch). ok \<and> p = No_Hangup \<and> life_inv env (Claimed c) (s\<lparr>ss_channel := ch\<rparr>)) (and_then ?r (\<lambda>ch. Inr (True, ch)))"
  proof (rule holds_then)
    fix ch assume "keeps ?ch ch \<and> fine False {} ch"
    then have "run_ok False {} CS_NEW 0 (s\<lparr>ss_channel := ?ch\<rparr>) (s\<lparr>ss_channel := ch\<rparr>)"
      using keeps_run [of "s\<lparr>ss_channel := ?ch\<rparr>" ch False "{}" CS_NEW] by simp
    from inv_run_ok [OF inv this] p show "holds False (\<lambda>(ok, ch). ok \<and> p = No_Hangup \<and> life_inv env (Claimed c) (s\<lparr>ss_channel := ch\<rparr>)) (Inr (True, ch))" by simp
  qed
  then show ?thesis using assms(2) unfolding hangup_claim_def hung_up_def Let_def by (auto split: if_splits)
qed

lemma inv_enter:
  assumes "life_inv env (Claimed c) s"
  shows "life_inv env (Entered c) (s\<lparr>ss_channel := hangup_enter e (ss_channel s)\<rparr>)"
proof -
  have "ch_state (hangup_enter e ch) = CS_HANGUP" "ch_log (hangup_enter e ch) = ch_log ch"
    "ch_opaque_flags (hangup_enter e ch) = ch_opaque_flags ch" for ch
    by (auto simp: hangup_enter_def Let_def split: list.split)
  moreover have "state_of s \<noteq> CS_DESTROY" using assms by (auto simp: life_inv_def phase_ok_def cs_order)
  ultimately show ?thesis
    using assms by (auto simp: life_inv_def phase_ok_def seen_def hung_up_def cs_order)
qed

lemma rkeeps_partner [chan_keeps]: "keeps a b \<Longrightarrow> rkeeps a (set_variable_partner e n v b)"
  by (cases "switch_channel_get_partner_uuid e b") (auto simp: set_variable_partner_def intro!: chan_keeps)

lemma inv_announce:
  assumes "life_inv env p s"
  shows "holds False (life_inv env p) (on_channel (hangup_announce e cause) s)"
proof -
  let ?a = "(ss_channel s)\<lparr>ch_hangup_cause := cause\<rparr>"
  have inv: "life_inv env p (s\<lparr>ss_channel := ?a\<rparr>)"
    using assms by (simp add: life_inv_def phase_ok_def seen_def hung_up_def split: hangup_phase.splits)
  have "rkeeps ?a (hangup_announce e cause (ss_channel s))"
    unfolding hangup_announce_def by (intro chan_keeps)
  then have "life_inv env p (s\<lparr>ss_channel := ch\<rparr>)" if "hangup_announce e cause (ss_channel s) = Inr ch" for ch
    using that inv_run_ok [OF inv, of False "{}" CS_NEW] keeps_run [of "s\<lparr>ss_channel := ?a\<rparr>" ch False "{}" CS_NEW] by (simp add: rkeeps_def)
  then show ?thesis by (cases "hangup_announce e cause (ss_channel s)") (simp_all add: on_channel_def)
qed

lemma inv_tell: "life_inv env p s \<Longrightarrow> quiet e \<Longrightarrow> life_inv env p (tell e s)"
  by (erule inv_run_ok [OF _ tell_run [where t = False and V = "{}" and st = CS_NEW]]) simp_all

lemma seen_tell: "seen e (tell e' s) = seen e s + (if e = e' then 1 else 0)"
  by (simp add: seen_def tell_def emit_def count_list_append)

lemma inv_fire: "life_inv env (Entered c) s \<Longrightarrow> life_inv env No_Hangup (tell (Fire_Event SWITCH_EVENT_CHANNEL_HANGUP) s)"
proof -
  assume s: "life_inv env (Entered c) s"
  let ?e = "Fire_Event SWITCH_EVENT_CHANNEL_HANGUP"
  have "seen ?e (tell ?e s) = seen ?e s + 1" "seen (Ran Driver x) (tell ?e s) = seen (Ran Driver x) s" "seen complete (tell ?e s) = seen complete s" for x
    by (simp_all add: seen_tell SWITCH_EVENT_CHANNEL_HANGUP_def SWITCH_EVENT_CHANNEL_HANGUP_COMPLETE_def)
  moreover have "ss_channel (tell ?e s) = emit ?e (ss_channel s)" "ss_hangup (tell ?e s) = ss_hangup s" by (simp_all add: tell_def)
  ultimately show ?thesis using s by (simp add: life_inv_def phase_ok_def hung_up_def) (auto simp: emit_def split: if_splits)
qed

lemma inv_done:
  assumes "life_inv env p s" and "CS_HANGUP \<le> state_of s" and "\<not> ss_hangup s" and "hangup_done False V env s b"
  shows "life_inv env p b \<and> state_of b = state_of s \<and> ss_hangup b"
proof -
  obtain x where x: "run_ok False V CS_HANGUP (driver_has env CS_HANGUP) s x" "ch_callstate (ss_channel x) = CCS_HANGUP" "b = x\<lparr>ss_hangup := True\<rparr>"
    using assms(4) by (auto simp: hangup_done_def)
  have r: "run_by CS_HANGUP (driver_has env CS_HANGUP) s x" using x(1) by (simp add: run_ok_def)
  then have k: "state_of x = state_of s" "hung_up (ss_channel x) = hung_up (ss_channel s)" by (simp_all add: run_by_def hung_up_def)
  have "seen e b = seen e x" for e by (simp add: seen_def x(3))
  then have b: "seen (Fire_Event SWITCH_EVENT_CHANNEL_HANGUP) b = seen (Fire_Event SWITCH_EVENT_CHANNEL_HANGUP) s" "seen complete b = seen complete s"
    "seen (Ran Driver CS_HANGUP) b = seen (Ran Driver CS_HANGUP) s + driver_has env CS_HANGUP"
    "seen (Ran Driver CS_REPORTING) b = seen (Ran Driver CS_REPORTING) s" using run_by_seen [OF r] by simp_all
  have s: "state_of s = CS_HANGUP" using assms(1-3) by (auto simp: life_inv_def)
  have "phase_ok p b" using assms(1) k b(1) x(3) by (cases p) (simp_all add: life_inv_def phase_ok_def)
  with assms(1,3) k s x(2,3) b(2-4) show ?thesis unfolding life_inv_def by (simp add: cs_order)
qed

lemma inv_hangup_state:
  assumes "life_inv env p s" and "CS_HANGUP \<le> state_of s" and "env_makes call_ok env"
  shows "holds False (\<lambda>b. life_inv env p b \<and> state_of b = state_of s \<and> (force \<longrightarrow> ss_hangup b))
    (switch_core_session_hangup_state env (run_call env hs) in_thread force s)"
proof (cases "\<not> force \<and> (\<not> chan_flag (ss_channel s) CF_EARLY_HANGUP \<and> \<not> se_early_hangup env \<or> \<not> in_thread) \<or> ss_hangup s")
  case True
  then show ?thesis using assms(1) by (auto simp: switch_core_session_hangup_state_def Let_def)
next
  case False
  have "holds False (hangup_done False {} env s) (switch_core_session_hangup_state env (run_call env hs) in_thread force s)"
    by (rule hangup_body_run [OF inv_dead [OF assms(1,2)] fine_False]) (use False assms(3) in auto)
  then show ?thesis by (rule holds_mono) (use inv_done [OF assms(1,2)] False in auto)
qed

lemma inv_finish:
  assumes "life_inv env (Entered c) s" and "\<And>s. life_inv env No_Hangup s \<Longrightarrow> CS_HANGUP \<le> state_of s \<Longrightarrow> holds False (life_inv env No_Hangup) (hs s)"
  shows "holds False (life_inv env No_Hangup) (hangup_finish e cause hs s)"
  unfolding hangup_finish_def
proof (rule holds_then [OF inv_announce [OF assms(1)]])
  fix s assume s: "life_inv env (Entered c) s"
  let ?l = "if \<not> ss_thread_running s \<and> \<not> ss_thread_started s then tell Thread_Launch s else s"
  let ?b = "tell Signal_State_Change (tell Kill_Channel (tell (Fire_Event SWITCH_EVENT_CHANNEL_HANGUP) ?l))"
  have l: "life_inv env (Entered c) ?l" using s by (simp add: inv_tell)
  then have "life_inv env No_Hangup ?b" by (simp add: inv_tell inv_fire)
  moreover have "CS_HANGUP \<le> state_of ?b" using l by (auto simp: life_inv_def phase_ok_def tell_def emit_def)
  ultimately show "holds False (life_inv env No_Hangup)
      (let s = ?l in hs (tell Signal_State_Change (tell Kill_Channel (tell (Fire_Event SWITCH_EVENT_CHANNEL_HANGUP) s))))"
    using assms(2) by (simp add: Let_def)
qed

lemma inv_hangup:
  assumes "life_inv env p s" and "\<And>s. life_inv env No_Hangup s \<Longrightarrow> CS_HANGUP \<le> state_of s \<Longrightarrow> holds False (life_inv env No_Hangup) (hs s)"
  shows "holds False (life_inv env p) (switch_channel_perform_hangup e hs cause s)"
proof (cases "hung_up (ss_channel s)")
  case True
  show ?thesis unfolding switch_channel_perform_hangup_def
    by (rule holds_then [OF inv_claim_again [OF assms(1) True]]) (auto simp: Let_def)
next
  case False
  show ?thesis unfolding switch_channel_perform_hangup_def
  proof (rule holds_then [OF inv_claim [OF assms(1) False, of cause]], clarsimp simp: Let_def)
    fix ch assume ch: "life_inv env (Claimed cause) (s\<lparr>ss_channel := ch\<rparr>)"
    have c: "holds False (life_inv env (Claimed cause)) (on_channel (switch_channel_clear_flag e CF_BLOCK_STATE) (s\<lparr>ss_channel := ch\<rparr>))"
      by (rule inv_mono [OF ch clear_flag_run [where V = "{}" and st = CS_NEW]]) simp
    show "holds False (life_inv env No_Hangup) (and_then (on_channel (switch_channel_clear_flag e CF_BLOCK_STATE) (s\<lparr>ss_channel := ch\<rparr>)) (\<lambda>s.
        if state_of s < CS_HANGUP then hangup_finish e cause hs (s\<lparr>ss_channel := hangup_enter e (ss_channel s)\<rparr>) else Inr s))"
    proof (rule holds_then [OF c])
      fix x assume x: "life_inv env (Claimed cause) x"
      then have "state_of x < CS_HANGUP" by (simp add: life_inv_def phase_ok_def)
      then show "holds False (life_inv env No_Hangup)
          (if state_of x < CS_HANGUP then hangup_finish e cause hs (x\<lparr>ss_channel := hangup_enter e (ss_channel x)\<rparr>) else Inr x)"
        using inv_finish [OF inv_enter [OF x] assms(2)] by simp
    qed
  qed
qed

lemma inv_call:
  assumes "life_inv env p s" and "env_makes call_ok env" and "call_ok c"
  shows "holds False (life_inv env p) (outer_call env in_thread c s)"
proof (cases "\<exists>x. c = Call_Hangup x")
  case True
  then obtain x where x: "c = Call_Hangup x" ..
  have "holds False (life_inv env No_Hangup) (switch_core_session_hangup_state env (inner_call env) in_thread False b)"
    if "life_inv env No_Hangup b" "CS_HANGUP \<le> state_of b" for b
    using inv_hangup_state [OF that assms(2), of False "\<lambda>_. Inl Aborted" in_thread] unfolding inner_call_def by (rule holds_mono) simp
  with inv_hangup [OF assms(1), of _ "se_chan env" x] show ?thesis by (simp add: x outer_call_def run_call_def)
next
  case False
  then show ?thesis using inv_chan_call [OF assms(1,3)] by (simp add: outer_call_def)
qed

section \<open>Turns\<close>

text \<open>While a session lives the handlers of its state keep the invariant.\<close>

lemma inv_ran:
  assumes "life_inv env p s" and "st < CS_HANGUP"
  shows "life_inv env p (tell (Ran src st) s)"
proof -
  have "run_by st (if src = Driver then 1 else 0) s (tell (Ran src st) s)"
    using ran_run [of False "{}" s st src] by (simp add: run_ok_def)
  moreover have "st \<noteq> CS_HANGUP \<and> st \<noteq> CS_REPORTING" using assms(2) by (auto simp: cs_order)
  ultimately show ?thesis using inv_run_by [OF assms(1)] by blast
qed

interpretation live_run: handler_runs env "thread_call env" False call_ok st state
    "\<lambda>n s. env_makes call_ok env \<and> st < CS_HANGUP \<and> life_inv env p s"
  for env st state p
proof
  fix n s c assume "env_makes call_ok env \<and> st < CS_HANGUP \<and> life_inv env p s" and "call_ok c"
  then show "holds False (\<lambda>s. env_makes call_ok env \<and> st < CS_HANGUP \<and> life_inv env p s) (thread_call env c s)"
    using inv_call [of env p s c True] by simp
next
  fix n s assume "env_makes call_ok env \<and> st < CS_HANGUP \<and> life_inv env p s"
  then show "env_makes call_ok env \<and> st < CS_HANGUP \<and>
      life_inv env p (s\<lparr>ss_channel := switch_channel_perform_set_callstate CCS_ACTIVE (ss_channel s)\<rparr>)"
    using inv_run_ok [OF _ callstate_run [of False "{}" s CS_NEW CCS_ACTIVE]] by simp
qed (simp_all add: inv_ran inv_tell)

lemma inv_calls:
  "env_makes call_ok env \<Longrightarrow> list_all call_ok cs \<Longrightarrow> life_inv env p s \<Longrightarrow> holds False (life_inv env p) (for_each (outer_call env b) cs s)"
  by (rule holds_each) (auto simp: list_all_iff intro: inv_call)

lemma inv_standard:
  assumes "env_makes call_ok env" and "life_inv env p s" and "st < CS_HANGUP"
  shows "holds False (life_inv env p) (standard_on env (thread_call env) st s)"
proof -
  have run: "holds False (life_inv env p) (run_standard env (thread_call env) x s)" for x
    unfolding run_standard_def using assms(1,2) by (intro inv_calls) (auto simp: env_makes_def handler_makes_def)
  have "holds False (life_inv env p) (standard_on_init env s)"
    unfolding standard_on_init_def
    by (rule holds_then [OF inv_set_state_call [OF assms(2)]], simp add: cs_order)
      (rule inv_mono [OF _ clear_flag_run [where V = "{}" and st = CS_NEW]], simp_all)
  with run assms(2,3) show ?thesis by (cases st) (simp_all add: standard_on_def cs_order)
qed

lemma inv_macro:
  assumes "env_makes call_ok env" and "life_inv env p s" and "st < CS_HANGUP"
  shows "holds False (life_inv env p) (STATE_MACRO env (thread_call env) (standard_on env (thread_call env) st) st state extra s)"
  using holds_mono [OF live_run.macro [OF _ assms(1), where st = st and p = p and s = s]] assms inv_standard by simp

lemma inv_state_run:
  assumes "env_makes call_ok env" and "life_inv env p s" and "\<forall>h\<in>set hs. handler_makes call_ok h"
  shows "holds False (life_inv env p) (state_run_loop env hs s)"
  using assms(2,3)
proof (induction hs arbitrary: s)
  case (Cons h hs)
  have "holds False (life_inv env p) (for_each (thread_call env) (fst (h s)) s)"
    using Cons.prems by (intro inv_calls [OF assms(1)]) (simp_all add: handler_makes_def)
  then show ?case using Cons by (auto intro!: holds_then)
qed simp

lemma inv_clear_flag: "life_inv env p s \<Longrightarrow> holds False (life_inv env p) (on_channel (switch_channel_clear_flag e f) s)"
  by (rule inv_mono [OF _ clear_flag_run [where V = "{}" and st = CS_NEW]]) simp_all

lemma inv_set_flag: "life_inv env p s \<Longrightarrow> holds False (life_inv env p) (on_channel (switch_channel_set_flag_value e f v) s)"
  by (rule inv_mono [OF _ set_flag_run [where V = "{}" and st = CS_NEW]]) simp_all

lemma inv_running_state: "life_inv env p s \<Longrightarrow> holds False (life_inv env p) (on_channel (switch_channel_perform_set_running_state e x) s)"
  by (rule inv_mono [OF _ running_state_run [where V = "{}" and st = CS_NEW]]) simp_all

lemma inv_presence: "life_inv env p s \<Longrightarrow> holds False (life_inv env p) (check_presence s)"
  by (rule inv_mono [OF _ presence_run [where V = "{}" and st = CS_NEW]]) simp_all

lemma inv_enter_state:
  assumes "env_makes call_ok env" and "life_inv env p s"
  shows "holds False (life_inv env p) (enter_state env state s)"
proof -
  have "list_all call_ok (se_messages env x)" "\<forall>h\<in>set (se_state_run env). handler_makes call_ok h" for x
    using assms(1) by (simp_all add: env_makes_def)
  then show ?thesis unfolding enter_state_def
    using assms by (auto intro!: holds_then [OF inv_running_state] holds_then [OF inv_clear_flag] holds_then [OF inv_calls] inv_state_run)
qed

lemma inv_loops: "life_inv env p (s\<lparr>ss_new_loops := n\<rparr>) = life_inv env p s" "life_inv env p (s\<lparr>ss_thread_running := b\<rparr>) = life_inv env p s"
proof -
  have "phase_ok p (s\<lparr>ss_new_loops := n\<rparr>) = phase_ok p s" "phase_ok p (s\<lparr>ss_thread_running := b\<rparr>) = phase_ok p s"
    by (cases p; simp add: phase_ok_def seen_def)+
  then show "life_inv env p (s\<lparr>ss_new_loops := n\<rparr>) = life_inv env p s" "life_inv env p (s\<lparr>ss_thread_running := b\<rparr>) = life_inv env p s"
    by (simp_all add: life_inv_def seen_def)
qed

lemma inv_idle:
  assumes "env_makes call_ok env" and "life_inv env p s"
  shows "holds False (life_inv env p) (idle env s)"
proof -
  have ev: "life_inv env p x \<Longrightarrow> holds False (life_inv env p) (parse_all_events env x)" for x
    unfolding parse_all_events_def using assms(1) by (intro inv_calls) (simp_all add: env_makes_def)
  have h: "life_inv env p x \<Longrightarrow> holds False (life_inv env p) (thread_call env (Call_Hangup c) x)" for x c
    using inv_call [OF _ assms(1)] by (simp add: call_ok_def)
  show ?thesis unfolding idle_def Let_def
    using assms(2) by (auto simp: inv_loops intro!: holds_then [OF ev] holds_then [OF inv_set_flag] inv_clear_flag h
        holds_then [where P = "life_inv env p"] ev inv_set_flag)
qed

lemma inv_run_state:
  assumes "env_makes call_ok env" and "life_inv env p s" and "state < CS_HANGUP"
  shows "holds False (\<lambda>(ended, b). life_inv env p b) (run_state env state s)"
proof -
  have q: "quiet (Fire_Event SWITCH_EVENT_CHANNEL_CREATE)" "quiet (Fire_Event SWITCH_EVENT_CHANNEL_ORIGINATE)"
    by (simp_all add: SWITCH_EVENT_CHANNEL_CREATE_def SWITCH_EVENT_CHANNEL_ORIGINATE_def SWITCH_EVENT_CHANNEL_HANGUP_def SWITCH_EVENT_CHANNEL_HANGUP_COMPLETE_def)
  show ?thesis using assms(2,3) q
    by (cases state) (auto simp: run_state_def Let_def cs_order and_then_assoc inv_tell intro!: holds_then [OF inv_macro [OF assms(1,2)]])
qed

text \<open>The last turn of the thread.\<close>

definition ended_by :: "session_env \<Rightarrow> switch_core_session \<Rightarrow> switch_core_session \<Rightarrow> bool" where
  "ended_by env a b \<longleftrightarrow> state_of b = CS_DESTROY \<and> \<not> ss_thread_running b \<and> ss_hangup b = ss_hangup a \<and>
     hung_up (ss_channel b) = hung_up (ss_channel a) \<and>
     (ch_callstate (ss_channel a) = CCS_HANGUP \<longrightarrow> ch_callstate (ss_channel b) = CCS_HANGUP) \<and>
     seen (Fire_Event SWITCH_EVENT_CHANNEL_HANGUP) b = seen (Fire_Event SWITCH_EVENT_CHANNEL_HANGUP) a \<and>
     seen (Ran Driver CS_HANGUP) b = seen (Ran Driver CS_HANGUP) a \<and>
     seen complete b \<le> seen complete a + 1 \<and>
     seen (Ran Driver CS_REPORTING) b \<le> seen (Ran Driver CS_REPORTING) a + driver_has env CS_REPORTING"

lemma end_events: "SWITCH_EVENT_CHANNEL_HANGUP \<noteq> SWITCH_EVENT_CHANNEL_HANGUP_COMPLETE"
  by (simp add: SWITCH_EVENT_CHANNEL_HANGUP_def SWITCH_EVENT_CHANNEL_HANGUP_COMPLETE_def)

lemma ended_reported:
  assumes "run_ok t V CS_REPORTING 0 a x" and "reported t V env x y"
  shows "ended_by env a (y\<lparr>ss_channel := emit Signal_State_Change ((ss_channel y)\<lparr>ch_state := CS_DESTROY\<rparr>), ss_thread_running := False\<rparr>) \<and>
    fine t V (emit Signal_State_Change ((ss_channel y)\<lparr>ch_state := CS_DESTROY\<rparr>))"
proof -
  have "fine t V (ss_channel y)" using assms(2) by (auto simp: reported_def tell_def fine_updates dest: run_ok_fine)
  then have f: "fine t V (emit Signal_State_Change ((ss_channel y)\<lparr>ch_state := CS_DESTROY\<rparr>))" by (simp add: fine_updates)
  have "ch_callstate (ss_channel a) = CCS_HANGUP \<longrightarrow> ch_callstate (ss_channel x) = CCS_HANGUP" "ss_hangup x = ss_hangup a"
      "ch_opaque_flags (ss_channel x) = ch_opaque_flags (ss_channel a)"
    using assms(1) by (simp_all add: run_ok_def run_by_def)
  moreover have "ch_callstate (ss_channel x) = CCS_HANGUP \<longrightarrow> ch_callstate (ss_channel y) = CCS_HANGUP" "ss_hangup y = ss_hangup x"
      "ch_opaque_flags (ss_channel y) = ch_opaque_flags (ss_channel x)"
    using assms(2) by (auto simp: reported_def run_ok_def run_by_def tell_def emit_def)
  moreover have "seen e (y\<lparr>ss_channel := emit Signal_State_Change ((ss_channel y)\<lparr>ch_state := CS_DESTROY\<rparr>), ss_thread_running := False\<rparr>) = seen e y"
    if "e \<noteq> Signal_State_Change" for e using that by (simp add: seen_def emit_def count_list_append)
  moreover have "seen (Fire_Event SWITCH_EVENT_CHANNEL_HANGUP) y = seen (Fire_Event SWITCH_EVENT_CHANNEL_HANGUP) x"
      "seen (Ran Driver CS_HANGUP) y = seen (Ran Driver CS_HANGUP) x" "seen complete y \<le> seen complete x + 1"
      "seen (Ran Driver CS_REPORTING) y \<le> seen (Ran Driver CS_REPORTING) x + driver_has env CS_REPORTING"
    using assms(2) unfolding reported_def
    by (auto simp: run_ok_def run_by_seen seen_tell end_events)
  moreover have "run_by CS_REPORTING 0 a x" using assms(1) by (simp add: run_ok_def)
  ultimately have "ended_by env a (y\<lparr>ss_channel := emit Signal_State_Change ((ss_channel y)\<lparr>ch_state := CS_DESTROY\<rparr>), ss_thread_running := False\<rparr>)"
    by (auto simp: ended_by_def run_by_seen hung_up_def emit_def)
  with f show ?thesis by simp
qed

lemma reporting_turn:
  assumes d: "dead s" and h: "state_of s = CS_REPORTING" and f: "fine t V (ss_channel s)" and e: "env_makes (call_fit t V) env"
    and c: "cdr_fit t V env"
  shows "holds t (\<lambda>b. ended_by env s b \<and> fine t V (ss_channel b)) (session_turn env s)"
proof -
  have "holds t (\<lambda>b. ended_by env s b \<and> fine t V (ss_channel b)) (and_then (run_state env CS_REPORTING x) (\<lambda>(ended, b).
      if ended then Inr (b\<lparr>ss_thread_running := False\<rparr>) else and_then (check_presence b) (idle env)))"
    if x: "run_ok t V CS_REPORTING 0 s x" for x
  proof -
    have "holds t (\<lambda>(ended, b). ended \<and> (\<exists>y. reported t V env x y \<and> b = y\<lparr>ss_channel := emit Signal_State_Change ((ss_channel y)\<lparr>ch_state := CS_DESTROY\<rparr>)\<rparr>))
        (run_state env CS_REPORTING x)"
      unfolding run_state_def Let_def switch_channel_state_t.case outer_call_def
    proof (rule holds_then [OF reporting_run [OF run_ok_dead [OF x d] run_ok_fine [OF x] e c]])
      fix y assume y: "reported t V env x y"
      have "state_of y = CS_REPORTING" using y x h by (auto simp: reported_def run_ok_def run_by_def tell_def emit_def)
      then have "on_channel (switch_channel_perform_set_state CS_DESTROY) y =
          Inr (y\<lparr>ss_channel := emit Signal_State_Change ((ss_channel y)\<lparr>ch_state := CS_DESTROY\<rparr>)\<rparr>)"
        using set_state_up [of "ss_channel y" CS_DESTROY] by (simp add: on_channel_def cs_order)
      with y show "holds t (\<lambda>(ended, b). ended \<and> (\<exists>y. reported t V env x y \<and> b = y\<lparr>ss_channel := emit Signal_State_Change ((ss_channel y)\<lparr>ch_state := CS_DESTROY\<rparr>)\<rparr>))
          (and_then (on_channel (switch_channel_perform_set_state CS_DESTROY) y) (\<lambda>s. Inr (True, s)))" by auto
    qed
    then show ?thesis by (rule holds_then) (use ended_reported [OF x] in auto)
  qed
  from holds_then [OF enter_state_run [OF d f e] this] show ?thesis using h by (simp add: session_turn_steps cs_order)
qed

lemma inv_turn:
  assumes "life_inv env p s" and e: "env_makes call_ok env"
  shows "holds False (life_inv env p) (session_turn env s)"
proof -
  have e': "env_makes (call_fit False {}) env" using e by simp
  consider "state_of s = CS_DESTROY" | "state_of s = CS_HANGUP" | "state_of s = CS_REPORTING" | "state_of s < CS_HANGUP"
    using assms(1) by (cases "state_of s") (auto simp: life_inv_def cs_order)
  then show ?thesis
  proof cases
    case 1
    then show ?thesis using assms(1) by (simp add: session_turn_def Let_def inv_loops)
  next
    case 2
    have d: "dead s" using inv_dead [OF assms(1)] 2 by simp
    have "life_inv env p b" if "after_hangup False {} env s b \<and> state_of b = CS_REPORTING" for b
    proof -
      have m: "moved False {} CS_HANGUP (if ss_hangup s then 0 else driver_has env CS_HANGUP) s b" and h: "ss_hangup b"
        using that by (simp_all add: after_hangup_def)
      have "ch_callstate (ss_channel b) = CCS_HANGUP" using that assms(1) by (auto simp: after_hangup_def life_inv_def)
      moreover have "hung_up (ss_channel b) = hung_up (ss_channel s)" using m by (simp add: moved_def hung_up_def)
      moreover have "phase_ok p b" using assms(1) 2 that calculation(2) moved_seen(1) [OF m]
        by (cases p) (auto simp: life_inv_def phase_ok_def cs_order)
      ultimately show ?thesis using assms(1) 2 that h moved_seen [OF m] by (auto simp: life_inv_def cs_order)
    qed
    with hangup_turn [OF d 2 fine_False e'] show ?thesis by (auto intro: holds_mono)
  next
    case 3
    have d: "dead s" using inv_dead [OF assms(1)] 3 by (simp add: cs_order)
    have "life_inv env p b" if "ended_by env s b" for b
    proof -
      have "phase_ok p b" using assms(1) 3 that
        by (cases p) (auto simp: life_inv_def phase_ok_def ended_by_def cs_order)
      then show ?thesis using assms(1) 3 that by (auto simp: life_inv_def ended_by_def cs_order)
    qed
    with reporting_turn [OF d 3 fine_False e'] show ?thesis by (auto simp: cdr_fit_def intro: holds_mono)
  next
    case 4
    then have "state_of s \<noteq> CS_DESTROY" by (auto simp: cs_order)
    with 4 show ?thesis unfolding session_turn_def Let_def using assms
      by (auto simp: and_then_assoc intro!: inv_idle holds_then [OF inv_enter_state] holds_then [OF inv_run_state] holds_then [OF inv_presence] simp: inv_loops)
  qed
qed

section \<open>Runs\<close>

text \<open>The steps of a session: a turn of its thread, a call of another thread, and
  a hangup by another thread in its three parts.\<close>

inductive life :: "session_env \<Rightarrow> hangup_phase \<times> switch_core_session \<Rightarrow> hangup_phase \<times> switch_core_session \<Rightarrow> bool" for env where
  turn: "session_turn env s = Inr s' \<Longrightarrow> life env (p, s) (p, s')"
| other: "call_ok c \<Longrightarrow> outer_call env False c s = Inr s' \<Longrightarrow> life env (p, s) (p, s')"
| claim: "hangup_claim (se_chan env) (ss_channel s) = Inr (ok, ch) \<Longrightarrow>
    life env (p, s) (if ok then Claimed cause else p, s\<lparr>ss_channel := ch\<rparr>)"
| enter: "on_channel (switch_channel_clear_flag (se_chan env) CF_BLOCK_STATE) s = Inr s' \<Longrightarrow>
    life env (Claimed cause, s)
      (if state_of s' < CS_HANGUP then (Entered cause, s'\<lparr>ss_channel := hangup_enter (se_chan env) (ss_channel s')\<rparr>) else (No_Hangup, s'))"
| finish: "hangup_finish (se_chan env) cause (switch_core_session_hangup_state env (inner_call env) False False) s = Inr s' \<Longrightarrow>
    life env (Entered cause, s) (No_Hangup, s')"

inductive_cases life_cases: "life env x y"

text \<open>What a step keeps, and that the states of the end come one after the other.\<close>

lemma run_ok_state: "run_ok t V st n a b \<Longrightarrow> state_of b = state_of a"
  by (simp add: run_ok_def run_by_def)

lemma turn_order:
  assumes "dead s" and "env_makes call_ok env"
  shows "holds False (\<lambda>b. state_of s \<le> state_of b) (session_turn env s)"
proof -
  have e: "env_makes (call_fit False {}) env" using assms(2) by simp
  consider "state_of s = CS_DESTROY" | "state_of s = CS_HANGUP" | "state_of s = CS_REPORTING"
    using assms(1) by (cases "state_of s") (auto simp: dead_def cs_order)
  then show ?thesis
  proof cases
    case 1
    then show ?thesis by (simp add: session_turn_def Let_def)
  next
    case 2
    show ?thesis by (rule holds_mono [OF hangup_turn [OF assms(1) 2 fine_False e]]) (auto simp: 2 cs_order)
  next
    case 3
    show ?thesis by (rule holds_mono [OF reporting_turn [OF assms(1) 3 fine_False e]]) (auto simp: 3 cdr_fit_def ended_by_def cs_order)
  qed
qed

lemma tell_state [simp]: "state_of (tell e s) = state_of s"
  by (simp add: tell_def emit_def)

lemma no_early_hangup: "switch_core_session_hangup_state env call False False s = Inr s"
  by (simp add: switch_core_session_hangup_state_def Let_def)

lemma finish_state:
  assumes "hangup_finish e cause (switch_core_session_hangup_state env call False False) s = Inr s'"
  shows "state_of s' = state_of s"
proof -
  have "rkeeps ((ss_channel s)\<lparr>ch_hangup_cause := cause\<rparr>) (hangup_announce e cause (ss_channel s))"
    unfolding hangup_announce_def by (intro chan_keeps)
  then have k: "ch_state ch = state_of s" if "hangup_announce e cause (ss_channel s) = Inr ch" for ch
    using that by (auto simp: rkeeps_def keeps_def)
  obtain ch where ch: "hangup_announce e cause (ss_channel s) = Inr ch"
    using assms by (cases "hangup_announce e cause (ss_channel s)") (simp_all add: hangup_finish_def on_channel_def)
  have "s' = (let s = s\<lparr>ss_channel := ch\<rparr>; s = (if \<not> ss_thread_running s \<and> \<not> ss_thread_started s then tell Thread_Launch s else s)
      in tell Signal_State_Change (tell Kill_Channel (tell (Fire_Event SWITCH_EVENT_CHANNEL_HANGUP) s)))"
    using assms ch by (simp add: hangup_finish_def on_channel_def no_early_hangup Let_def del: if_split)
  then show ?thesis using k [OF ch] by (simp add: Let_def)
qed

lemma life_step:
  assumes "life env x y" and e: "env_makes call_ok env" and "life_inv env (fst x) (snd x)"
  shows "life_inv env (fst y) (snd y) \<and> (CS_HANGUP \<le> state_of (snd x) \<longrightarrow> state_of (snd x) \<le> state_of (snd y))"
  using assms(1,3)
proof cases
  case (turn s s' p)
  then have i: "life_inv env p s" using assms(3) by simp
  have "CS_HANGUP \<le> state_of s \<Longrightarrow> state_of s \<le> state_of s'"
    using turn_order [OF inv_dead [OF i] e] turn by simp
  with turn holds_False [OF inv_turn [OF i e]] show ?thesis by simp
next
  case (other c s s' p)
  then have i: "life_inv env p s" using assms(3) by simp
  have "state_of s' = state_of s" if "CS_HANGUP \<le> state_of s"
    using dead_call [OF inv_dead [OF i that], where t = False and V = "{}" and st = CS_NEW and c = c and env = env
        and hs = "switch_core_session_hangup_state env (inner_call env) False False"] other
    by (auto simp: outer_call_def dest: run_ok_state)
  with other holds_False [OF inv_call [OF i e other(3)]] show ?thesis by simp
next
  case (claim s ok ch p cause)
  then have i: "life_inv env p s" using assms(3) by simp
  show ?thesis
  proof (cases "hung_up (ss_channel s)")
    case True
    from claim_again [OF True fine_False, where st = CS_NEW] claim(3) have "run_ok False V CS_NEW 0 s (s\<lparr>ss_channel := ch\<rparr>)" for V
      by (metis (mono_tags, lifting) case_prod_conv holds_simps(1))
    then have "ch_state ch = state_of s" using run_ok_state by fastforce
    with inv_claim_again [OF i True, of "se_chan env"] claim show ?thesis by simp
  next
    case False
    then have "\<not> CS_HANGUP \<le> state_of s" using i by (auto simp: life_inv_def)
    with inv_claim [OF i False, of cause "se_chan env"] claim show ?thesis by simp
  qed
next
  case (enter s s' cause)
  then have i: "life_inv env (Claimed cause) s" using assms(3) by simp
  then have "\<not> CS_HANGUP \<le> state_of s" by (auto simp: life_inv_def phase_ok_def)
  moreover have "life_inv env (Claimed cause) s'" using inv_clear_flag [OF i] enter(3) holds_False by fastforce
  moreover from this have "state_of s' < CS_HANGUP" by (simp add: life_inv_def phase_ok_def)
  ultimately show ?thesis using enter inv_enter by simp
next
  case (finish cause s s')
  then have i: "life_inv env (Entered cause) s" using assms(3) by simp
  have "holds False (life_inv env No_Hangup)
      (hangup_finish (se_chan env) cause (switch_core_session_hangup_state env (inner_call env) False False) s)"
    by (rule inv_finish [OF i]) (simp add: no_early_hangup)
  with finish show ?thesis using finish_state [OF finish(3)] by simp
qed

lemma life_run:
  assumes "(life env)\<^sup>*\<^sup>* x y" and "env_makes call_ok env" and "life_inv env (fst x) (snd x)"
  shows "life_inv env (fst y) (snd y) \<and> (CS_HANGUP \<le> state_of (snd x) \<longrightarrow> state_of (snd x) \<le> state_of (snd y))"
  using assms(1)
proof (induction rule: rtranclp_induct)
  case (step y z)
  from life_step [OF step(2) assms(2)] step.IH show ?case by auto
qed (use assms(3) in simp)

text \<open>A hangup in one piece is its three parts.\<close>

lemma hangup_parts:
  assumes "switch_channel_perform_hangup (se_chan env) (switch_core_session_hangup_state env (inner_call env) False False) cause s = Inr s'"
    and "\<not> hung_up (ss_channel s)"
  shows "(life env)\<^sup>*\<^sup>* (No_Hangup, s) (No_Hangup, s')"
proof -
  obtain ch where c: "hangup_claim (se_chan env) (ss_channel s) = Inr (True, ch)"
    using assms by (auto simp: switch_channel_perform_hangup_def and_then_eq_Inr hangup_claim_def hung_up_def Let_def)
  let ?s = "s\<lparr>ss_channel := ch\<rparr>"
  obtain b where b: "on_channel (switch_channel_clear_flag (se_chan env) CF_BLOCK_STATE) ?s = Inr b"
    using assms(1) c by (auto simp: switch_channel_perform_hangup_def and_then_eq_Inr)
  have 1: "life env (No_Hangup, s) (Claimed cause, ?s)" using life.claim [where p = No_Hangup and cause = cause, OF c] by simp
  note 2 = life.enter [where cause = cause, OF b]
  show ?thesis
  proof (cases "state_of b < CS_HANGUP")
    case True
    then have "life env (Entered cause, b\<lparr>ss_channel := hangup_enter (se_chan env) (ss_channel b)\<rparr>) (No_Hangup, s')"
      using assms(1) c b by (intro life.finish) (simp add: switch_channel_perform_hangup_def Let_def)
    with 1 2 True show ?thesis by (auto intro: rtranclp.rtrancl_into_rtrancl)
  next
    case False
    then have "s' = b" using assms(1) c b by (simp add: switch_channel_perform_hangup_def Let_def)
    with 1 2 False show ?thesis by (auto intro: rtranclp.rtrancl_into_rtrancl)
  qed
qed

section \<open>A hangup leads to the end\<close>

lemma fine_fields:
  "fine t V ch \<Longrightarrow> fine t V (ch\<lparr>ch_opaque_flags := x\<rparr>)"
  "fine t V ch \<Longrightarrow> fine t V (ch\<lparr>ch_hangup_cause := c\<rparr>)"
  "fine t V ch \<Longrightarrow> fine t V (hangup_enter e ch)"
  by (auto simp: fine_def hangup_enter_def chan_ok_updates split: list.split)

lemma rsound_partner [chan_sound]: "chan_ok V b \<Longrightarrow> rsound V (set_variable_partner e n v b)"
  unfolding set_variable_partner_def by (intro chan_sound)

lemma rsound_announce:
  assumes "names_ok V" and "chan_ok V ch"
  shows "rsound V (hangup_announce e cause ch)"
  unfolding hangup_announce_def using assms by (intro chan_sound)

lemma announce_run:
  assumes "fine t V (ss_channel s)"
  shows "holds t (\<lambda>b. state_of b = state_of s \<and> hung_up (ss_channel b) = hung_up (ss_channel s) \<and> ss_hangup b = ss_hangup s \<and> fine t V (ss_channel b))
    (on_channel (hangup_announce e cause) s)"
proof -
  let ?a = "(ss_channel s)\<lparr>ch_hangup_cause := cause\<rparr>"
  have "holds t (\<lambda>b. keeps ?a b \<and> fine t V b) (hangup_announce e cause (ss_channel s))"
  proof (rule holds_keeps)
    show "rkeeps ?a (hangup_announce e cause (ss_channel s))" unfolding hangup_announce_def by (intro chan_keeps)
    show "t \<Longrightarrow> rsound V (hangup_announce e cause (ss_channel s))" using assms by (auto intro!: rsound_announce dest: fine_sound)
    show "fine t V ?a" using assms by (rule fine_fields)
  qed
  then show ?thesis unfolding on_channel_def by (rule holds_then) (simp add: keeps_def hung_up_def)
qed

lemma claim_run:
  assumes "\<not> hung_up (ss_channel s)" and "fine t V (ss_channel s)"
  shows "holds t (\<lambda>(ok, ch). ok \<and> ch_state ch = state_of s \<and> hung_up ch \<and> fine t V ch) (hangup_claim e (ss_channel s))"
proof -
  let ?ch = "(ss_channel s)\<lparr>ch_opaque_flags := ch_opaque_flags (ss_channel s) OR OCF_HANGUP\<rparr>"
  let ?r = "if chan_flag ?ch CF_LEG_HOLDING
     then and_then (switch_channel_mark_hold e False ?ch) (switch_channel_set_flag e CF_HANGUP_HELD) else Inr ?ch"
  have f: "fine t V ?ch" using assms(2) by (rule fine_fields)
  have c: "hung_up ?ch" by (simp add: hung_up_def OCF_HANGUP_def bit.conj_disj_distrib2)
  have "holds t (\<lambda>ch. keeps ?ch ch \<and> fine t V ch) ?r"
    using f assms(2) by (intro holds_keeps) (auto intro!: chan_keeps chan_sound dest: fine_sound)
  then have "holds t (\<lambda>(ok, ch). ok \<and> ch_state ch = state_of s \<and> hung_up ch \<and> fine t V ch) (and_then ?r (\<lambda>ch. Inr (True, ch)))"
    by (rule holds_then) (use c in \<open>simp add: keeps_def hung_up_def\<close>)
  then show ?thesis using assms(1) unfolding hangup_claim_def hung_up_def Let_def by (auto split: if_splits)
qed

text \<open>What a hangup leaves.\<close>

definition left :: "bool \<Rightarrow> string set \<Rightarrow> switch_core_session \<Rightarrow> bool" where
  "left t V b \<longleftrightarrow> dead b \<and> state_of b = CS_HANGUP \<and> fine t V (ss_channel b) \<and> (ss_hangup b \<longrightarrow> ch_callstate (ss_channel b) = CCS_HANGUP)"

lemma finish_run:
  assumes "state_of s = CS_HANGUP" and "hung_up (ss_channel s)" and "fine t V (ss_channel s)" and "env_makes (call_fit t V) env"
    and "\<not> ss_hangup s"
  shows "holds t (left t V)
    (hangup_finish e cause (switch_core_session_hangup_state env (run_call env hs) in_thread False) s)"
  unfolding hangup_finish_def
proof (rule holds_then [OF announce_run [OF assms(3)]])
  fix x assume x: "state_of x = state_of s \<and> hung_up (ss_channel x) = hung_up (ss_channel s) \<and> ss_hangup x = ss_hangup s \<and> fine t V (ss_channel x)"
  let ?l = "if \<not> ss_thread_running x \<and> \<not> ss_thread_started x then tell Thread_Launch x else x"
  let ?b = "tell Signal_State_Change (tell Kill_Channel (tell (Fire_Event SWITCH_EVENT_CHANNEL_HANGUP) ?l))"
  have told: "hung_up (ss_channel (tell e y)) = hung_up (ss_channel y)" "fine t V (ss_channel y) \<Longrightarrow> fine t V (ss_channel (tell e y))" for e y
    by (simp_all add: tell_def fine_updates) (simp add: emit_def hung_up_def)
  have b: "dead ?b" "state_of ?b = CS_HANGUP" "fine t V (ss_channel ?b)"
    using x assms(1,2) by (simp_all add: dead_def told cs_order)
  have "\<not> ss_hangup ?b" using x assms(5) by (simp add: tell_def)
  with b have lb: "left t V ?b" by (simp add: left_def)
  have "hangup_done t V env ?b y \<Longrightarrow> left t V y" for y
    using b run_ok_dead [OF _ b(1)] by (auto simp: hangup_done_def dead_def left_def dest: run_ok_state run_ok_fine)
  moreover have "holds t (\<lambda>y. y = ?b \<or> hangup_done t V env ?b y) (switch_core_session_hangup_state env (run_call env hs) in_thread False ?b)"
  proof (cases "(chan_flag (ss_channel ?b) CF_EARLY_HANGUP \<or> se_early_hangup env) \<and> in_thread \<and> \<not> ss_hangup ?b")
    case True
    then show ?thesis using hangup_body_run [OF b(1,3) assms(4), of False in_thread hs] by (auto intro: holds_mono)
  next
    case False
    then have "switch_core_session_hangup_state env (run_call env hs) in_thread False ?b = Inr ?b"
      by (auto simp: switch_core_session_hangup_state_def Let_def)
    then show ?thesis by simp
  qed
  ultimately have "holds t (left t V)
      (switch_core_session_hangup_state env (run_call env hs) in_thread False ?b)"
    using lb by (auto elim!: holds_mono)
  then show "holds t (left t V)
      (let s = ?l in switch_core_session_hangup_state env (run_call env hs) in_thread False
        (tell Signal_State_Change (tell Kill_Channel (tell (Fire_Event SWITCH_EVENT_CHANNEL_HANGUP) s))))"
    by (simp add: Let_def)
qed

lemma hangup_run:
  assumes "\<not> hung_up (ss_channel s)" and "state_of s < CS_HANGUP" and "fine t V (ss_channel s)" and "env_makes (call_fit t V) env"
    and "\<not> ss_hangup s"
  shows "holds t (left t V) (outer_call env in_thread (Call_Hangup cause) s)"
proof -
  have "holds t (left t V)
      (and_then (on_channel (switch_channel_clear_flag (se_chan env) CF_BLOCK_STATE) (s\<lparr>ss_channel := ch\<rparr>)) (\<lambda>s.
        if state_of s < CS_HANGUP then hangup_finish (se_chan env) cause (switch_core_session_hangup_state env (inner_call env) in_thread False)
          (s\<lparr>ss_channel := hangup_enter (se_chan env) (ss_channel s)\<rparr>) else Inr s))"
    if ch: "ch_state ch = state_of s" "hung_up ch" "fine t V ch" for ch
  proof (rule holds_then [OF clear_flag_run])
    show "fine t V (ss_channel (s\<lparr>ss_channel := ch\<rparr>))" using ch by simp
    fix x assume x: "run_ok t V CS_NEW 0 (s\<lparr>ss_channel := ch\<rparr>) x"
    let ?x = "x\<lparr>ss_channel := hangup_enter (se_chan env) (ss_channel x)\<rparr>"
    have "state_of x < CS_HANGUP" "hung_up (ss_channel x)" "\<not> ss_hangup x" using x ch assms(2,5) by (simp_all add: run_ok_def run_by_def hung_up_def)
    moreover have "state_of ?x = CS_HANGUP" "fine t V (ss_channel ?x)" "hung_up (ss_channel ?x) = hung_up (ss_channel x)"
      using run_ok_fine [OF x] by (simp_all add: fine_fields) (auto simp: hangup_enter_def hung_up_def Let_def split: list.split)
    ultimately show "holds t (left t V)
        (if state_of x < CS_HANGUP then hangup_finish (se_chan env) cause (switch_core_session_hangup_state env (inner_call env) in_thread False) ?x else Inr x)"
      using finish_run [OF _ _ _ assms(4), of ?x] by (simp add: inner_call_def)
  qed
  then show ?thesis unfolding outer_call_def run_call_def switch_channel_perform_hangup_def chan_call.case
    by (intro holds_then [OF claim_run [OF assms(1,3)]]) (auto simp: Let_def)
qed

lemma destroy_run:
  assumes "dead s" and "fine t V (ss_channel s)" and "env_makes (call_fit t V) env"
  shows "holds t (run_ok t V CS_DESTROY (driver_has env CS_DESTROY) s) (switch_core_session_destroy_state env (run_call env hs) s)"
proof -
  let ?s = "s\<lparr>ss_channel := switch_channel_perform_set_callstate CCS_DOWN (ss_channel s)\<rparr>"
  have s: "run_ok t V CS_DESTROY 0 s ?s" using assms(2) by (rule callstate_run)
  have "holds t (run_ok t V CS_DESTROY (0 + (0 + (0 + driver_has env CS_DESTROY))) ?s) (switch_core_session_destroy_state env (run_call env hs) s)"
    unfolding switch_core_session_destroy_state_def Let_def
  proof (rule holds_run_then [OF running_state_run [OF run_ok_fine [OF s]]], rule holds_run_then [OF clear_flag_run], erule run_ok_fine,
      rule holds_run_then [OF clear_flag_run], erule run_ok_fine)
    fix a b c assume r: "run_ok t V CS_DESTROY 0 ?s a" "run_ok t V CS_DESTROY 0 a b" "run_ok t V CS_DESTROY 0 b c"
    have "dead c" using r run_ok_dead s assms(1) by blast
    then have "holds t (run_ok t V CS_DESTROY (driver_has env CS_DESTROY) c)
        (STATE_MACRO env (run_call env hs) (standard_on env (run_call env hs) CS_DESTROY) CS_DESTROY CS_DESTROY True c)"
      by (rule end_macro [OF _ run_ok_fine [OF r(3)] assms(3)]) (simp_all add: cs_order)
    then show "holds t (run_ok t V CS_DESTROY (driver_has env CS_DESTROY) c)
        (and_then (STATE_MACRO env (run_call env hs) (standard_on env (run_call env hs) CS_DESTROY) CS_DESTROY CS_DESTROY True c) (\<lambda>s.
          Inr (tell Clear_Device_Record s)))"
      by (rule holds_run_then [where m = 0, simplified]) (auto intro!: tell_run dest: run_ok_fine)
  qed
  from holds_run_from [OF s this] show ?thesis by simp
qed

lemma call_fit_True [simp]: "call_fit True V = call_safe V"
  by (auto simp: call_fit_def call_safe_def)

lemma safe_env: "env_makes (call_safe V) env \<Longrightarrow> env_makes call_ok env"
  by (auto simp: env_makes_def handler_makes_def list_all_iff call_safe_def)

lemma demo_env_makes: "env_makes ok demo_env"
  by (simp add: env_makes_def handler_makes_def demo_env_def calm_handler_def Let_def)

lemma demo_session_live: "\<not> hung_up (ss_channel demo_session)" "state_of demo_session < CS_HANGUP" "\<not> ss_hangup demo_session"
    "ch_log (ss_channel demo_session) = []" "ch_scope_variables (ss_channel demo_session) = []" "ss_channel demo_session = demo_channel"
  by (simp_all add: demo_session_def demo_channel_def hung_up_def cs_order)

text \<open>C1: A call is ended once. Whatever the handlers of applications, modules and drivers do, and however the calls and
  hangups of other threads interleave with the turns of the session's thread, the hangup event is sent exactly once, when the thread
  that claimed the hangup finishes it; the driver's hangup handler runs exactly once, when the hangup is done; the records are
  reported and completed at most once; the call state after the hangup is final; and the states hangup, reporting and destroy follow
  in this order.\<close>

theorem session_hangup_once:
  assumes "env_makes call_ok env" and "\<not> hung_up (ss_channel s0)" and "state_of s0 < CS_HANGUP" and "\<not> ss_hangup s0"
    and "ch_log (ss_channel s0) = []" and "(life env)\<^sup>*\<^sup>* (No_Hangup, s0) (p, s)" and "(life env)\<^sup>*\<^sup>* (p, s) (p', s')"
  shows "seen (Fire_Event SWITCH_EVENT_CHANNEL_HANGUP) s = (if p = No_Hangup \<and> CS_HANGUP \<le> state_of s then 1 else 0) \<and>
    seen (Ran Driver CS_HANGUP) s = (if ss_hangup s then driver_has env CS_HANGUP else 0) \<and>
    (CS_HANGUP < state_of s \<longrightarrow> ss_hangup s \<and> ch_callstate (ss_channel s) = CCS_HANGUP) \<and>
    seen complete s \<le> (if state_of s = CS_DESTROY then 1 else 0) \<and>
    seen (Ran Driver CS_REPORTING) s \<le> (if state_of s = CS_DESTROY then driver_has env CS_REPORTING else 0) \<and>
    (CS_HANGUP \<le> state_of s \<longrightarrow> state_of s \<le> state_of s')"
proof -
  have "life_inv env No_Hangup s0"
    using assms(2-5) by (auto simp: life_inv_def phase_ok_def seen_def cs_order)
  with life_run [OF assms(6,1)] have i: "life_inv env p s" by simp
  with life_run [OF assms(7,1)] have "CS_HANGUP \<le> state_of s \<longrightarrow> state_of s \<le> state_of s'" by simp
  moreover have "seen (Fire_Event SWITCH_EVENT_CHANNEL_HANGUP) s = (if p = No_Hangup \<and> CS_HANGUP \<le> state_of s then 1 else 0)"
    using i by (cases p) (auto simp: life_inv_def phase_ok_def)
  ultimately show ?thesis using i by (auto simp: life_inv_def)
qed

theorem session_hangup_once_witness:
  "\<exists>s. (life demo_env)\<^sup>*\<^sup>* (No_Hangup, demo_session) (No_Hangup, s) \<and> state_of s = CS_HANGUP \<and>
     seen (Fire_Event SWITCH_EVENT_CHANNEL_HANGUP) s = 1"
proof -
  have f: "fine True demo_names (ss_channel demo_session)"
    using demo_names_ok demo_channel_ok demo_session_live by (simp add: fine_def)
  obtain s where s: "outer_call demo_env False (Call_Hangup 16) demo_session = Inr s" "left True demo_names s"
    using holds_True [OF hangup_run [OF demo_session_live(1,2) f demo_env_makes demo_session_live(3)]] by blast
  then have r: "(life demo_env)\<^sup>*\<^sup>* (No_Hangup, demo_session) (No_Hangup, s)"
    by (intro hangup_parts) (simp_all add: outer_call_def run_call_def demo_session_live(1))
  from session_hangup_once [OF demo_env_makes demo_session_live(1-4) r rtranclp.rtrancl_refl] s r show ?thesis by (auto simp: left_def)
qed

text \<open>C2: A call that is hung up ends. On a well-formed channel the hangup, the next two turns of the session's thread and the
  destruction run without a fault, provided that the handlers' calls are well-formed and no causes without call records are listed:
  the first turn leads to reporting, the second to destruction, where the thread stops; the hangup is done and the driver's destroy
  handler runs once. The call state stays \<^verbatim>\<open>CCS_HANGUP\<close>: the call that sets \<^verbatim>\<open>CCS_DOWN\<close> has no effect.\<close>

theorem session_ends:
  assumes "names_ok V" and "chan_ok V (ss_channel s)" and "ch_scope_variables (ss_channel s) = []"
    and "\<not> hung_up (ss_channel s)" and "state_of s < CS_HANGUP" and "\<not> ss_hangup s" and "env_makes (call_safe V) env"
    and "''skip_cdr_causes'' \<notin> V" and "ce_globals (se_chan env) ''skip_cdr_causes'' = None"
  shows "\<exists>a b c d. outer_call env in_thread (Call_Hangup cause) s = Inr a \<and> session_turn env a = Inr b \<and> session_turn env b = Inr c \<and>
    switch_core_session_destroy_state env (outer_call env False) c = Inr d \<and>
    state_of a = CS_HANGUP \<and> state_of b = CS_REPORTING \<and> state_of c = CS_DESTROY \<and> \<not> ss_thread_running c \<and> ss_hangup c \<and>
    seen (Ran Driver CS_DESTROY) d = seen (Ran Driver CS_DESTROY) c + driver_has env CS_DESTROY \<and>
    ch_callstate (ss_channel c) = CCS_HANGUP \<and> ch_callstate (ss_channel d) = CCS_HANGUP"
proof -
  have f: "fine True V (ss_channel s)" and e: "env_makes (call_fit True V) env" and cdr: "cdr_fit True V env"
    using assms by (simp_all add: fine_def cdr_fit_def)
  obtain a where a: "outer_call env in_thread (Call_Hangup cause) s = Inr a" "left True V a"
    using holds_True [OF hangup_run [OF assms(4,5) f e assms(6)]] by blast
  then have a': "dead a" "state_of a = CS_HANGUP" "fine True V (ss_channel a)" by (simp_all add: left_def)
  obtain b where b: "session_turn env a = Inr b" "after_hangup True V env a b" "state_of b = CS_REPORTING"
    using holds_True [OF hangup_turn [OF a' e]] by blast
  then have b': "dead b" "fine True V (ss_channel b)" "ss_hangup b" "ch_callstate (ss_channel b) = CCS_HANGUP"
    using a a' by (auto simp: after_hangup_def moved_def dead_def hung_up_def left_def cs_order)
  obtain c where c: "session_turn env b = Inr c" "ended_by env b c" "fine True V (ss_channel c)"
    using holds_True [OF reporting_turn [OF b'(1) b(3) b'(2) e cdr]] by blast
  then have c': "dead c" "state_of c = CS_DESTROY" "ch_callstate (ss_channel c) = CCS_HANGUP" "ss_hangup c" "\<not> ss_thread_running c"
    using b' by (auto simp: ended_by_def dead_def cs_order)
  obtain d where d: "switch_core_session_destroy_state env (outer_call env False) c = Inr d"
      "run_ok True V CS_DESTROY (driver_has env CS_DESTROY) c d"
    using holds_True [OF destroy_run [OF c'(1) c(3) e]] unfolding outer_call_def by blast
  then have r: "run_by CS_DESTROY (driver_has env CS_DESTROY) c d" by (simp add: run_ok_def)
  then have "seen (Ran Driver CS_DESTROY) d = seen (Ran Driver CS_DESTROY) c + driver_has env CS_DESTROY" "ch_callstate (ss_channel d) = CCS_HANGUP"
    using c'(3) r run_by_seen(3) [OF r, of CS_DESTROY] by (simp_all add: run_by_def)
  with a(1) a'(2) b(1,3) c(1) c' d(1) show ?thesis by blast
qed

theorem session_ends_witness:
  "\<exists>a b c d. outer_call demo_env False (Call_Hangup SWITCH_CAUSE_NORMAL_CLEARING) demo_session = Inr a \<and> session_turn demo_env a = Inr b \<and>
     session_turn demo_env b = Inr c \<and> switch_core_session_destroy_state demo_env (outer_call demo_env False) c = Inr d \<and>
     state_of c = CS_DESTROY \<and> ch_callstate (ss_channel d) = CCS_HANGUP"
proof -
  have "''skip_cdr_causes'' \<notin> demo_names" by (simp add: demo_names_def)
  moreover have "ce_globals (se_chan demo_env) ''skip_cdr_causes'' = None" by (simp add: demo_env_def Let_def)
  ultimately show ?thesis
    using session_ends [where V = demo_names and s = demo_session and env = demo_env and in_thread = False and cause = SWITCH_CAUSE_NORMAL_CLEARING]
      demo_names_ok demo_channel_ok demo_session_live demo_env_makes by metis
qed

section \<open>Sessions that nobody uses\<close>

primrec turns :: "session_env \<Rightarrow> nat \<Rightarrow> switch_core_session \<Rightarrow> switch_core_session c_result" where
  "turns env 0 s = Inr s"
| "turns env (Suc n) s = and_then (session_turn env s) (turns env n)"

lemma new_turn:
  assumes "state_of s = CS_NEW" and "ch_running_state (ss_channel s) = CS_NEW" and "\<And>s. se_events env s = []"
    and "\<not> chan_flag (ss_channel s) CF_BLOCK_STATE"
  shows "session_turn env s =
    (let s = s\<lparr>ss_new_loops := ss_new_loops s - 1\<rparr>
     in if ss_new_loops s = 0 then
          and_then (on_channel (switch_channel_set_flag (se_chan env) CF_NO_CDR) s) (thread_call env (Call_Hangup SWITCH_CAUSE_WRONG_CALL_STATE))
        else Inr s)"
  using assms by (simp add: session_turn_def idle_def parse_all_events_def cs_order Let_def)

lemma abandoned_turn:
  assumes "state_of s = CS_NEW" and "ch_running_state (ss_channel s) = CS_NEW" and "\<And>s. se_events env s = []" and "ss_new_loops s = 1"
    and "\<not> hung_up (ss_channel s)" and "\<not> ss_hangup s" and f: "fine t V (ss_channel s)" and "env_makes (call_fit t V) env"
    and block: "\<not> chan_flag (ss_channel s) CF_BLOCK_STATE"
  shows "holds t (left t V) (session_turn env s)"
proof -
  let ?s = "s\<lparr>ss_new_loops := 0\<rparr>"
  have "holds t (left t V) (and_then (on_channel (switch_channel_set_flag (se_chan env) CF_NO_CDR) ?s)
      (thread_call env (Call_Hangup SWITCH_CAUSE_WRONG_CALL_STATE)))"
  proof (rule holds_then [OF set_flag_run [where st = CS_NEW and t = t and V = V]])
    fix x assume x: "run_ok t V CS_NEW 0 ?s x"
    then have "\<not> hung_up (ss_channel x)" "state_of x < CS_HANGUP" "\<not> ss_hangup x"
      using assms(1,5,6) by (simp_all add: run_ok_def run_by_def hung_up_def cs_order)
    then show "holds t (left t V) (thread_call env (Call_Hangup SWITCH_CAUSE_WRONG_CALL_STATE) x)"
      using hangup_run [OF _ _ run_ok_fine [OF x] assms(8)] by simp
  qed (simp add: f)
  then show ?thesis using assms(4) by (simp add: new_turn [OF assms(1-3) block])
qed

lemma new_turns:
  assumes "state_of s = CS_NEW" and "ch_running_state (ss_channel s) = CS_NEW" and "\<And>s. se_events env s = []" and "unat (ss_new_loops s) = Suc n"
    and "\<not> chan_flag (ss_channel s) CF_BLOCK_STATE"
  shows "turns env n s = Inr (s\<lparr>ss_new_loops := 1\<rparr>)"
  using assms(1,2,4,5)
proof (induction n arbitrary: s)
  case 0
  then have "unat (ss_new_loops s) = unat (1 :: uint32_t)" by simp
  then have "ss_new_loops s = 1" by (simp only: word_unat_eq_iff)
  then have "s\<lparr>ss_new_loops := 1\<rparr> = s" by simp
  then show ?case by simp
next
  case (Suc n)
  let ?s = "s\<lparr>ss_new_loops := ss_new_loops s - 1\<rparr>"
  have nz: "ss_new_loops s \<noteq> 0" using Suc.prems(3) by auto
  then have u: "unat (ss_new_loops s - 1) = Suc n" using Suc.prems(3) by (simp add: unat_minus_one)
  then have "ss_new_loops s - 1 \<noteq> 0" by auto
  then have "session_turn env s = Inr ?s" using new_turn [OF Suc.prems(1,2) assms(3) Suc.prems(4)] by (simp add: Let_def)
  with Suc.IH [of ?s] Suc.prems u show ?case by simp
qed

lemma turns_add: "turns env (m + n) s = and_then (turns env m s) (turns env n)"
proof (induction m arbitrary: s)
  case (Suc m)
  then have "turns env (m + n) = (\<lambda>x. and_then (turns env m x) (turns env n))" by blast
  then show ?case by (simp add: and_then_assoc)
qed simp

lemma blocked_turns: "state_of s < CS_HANGUP \<Longrightarrow> chan_flag (ss_channel s) CF_BLOCK_STATE \<Longrightarrow> turns env m s = Inr s"
  by (induction m) (auto simp: session_turn_def Let_def cs_order)

text \<open>C29: A session that nobody uses goes away, unless its state is blocked. A well-formed session that stays new, with no events for its thread and without
  \<^verbatim>\<open>CF_BLOCK_STATE\<close>, is hung up when its loop counter runs out, not earlier, and two turns later it has ended and its thread stops. With
  \<^verbatim>\<open>CF_BLOCK_STATE\<close> its thread waits as long as nobody else acts: no number of turns changes anything, and the counter does not run.\<close>

theorem session_abandoned:
  assumes "names_ok V" and "chan_ok V (ss_channel s)" and "ch_scope_variables (ss_channel s) = []"
    and "state_of s = CS_NEW" and "ch_running_state (ss_channel s) = CS_NEW" and "\<not> hung_up (ss_channel s)" and "\<not> ss_hangup s"
    and "\<And>s. se_events env s = []" and "env_makes (call_safe V) env" and "unat (ss_new_loops s) = Suc n"
    and "''skip_cdr_causes'' \<notin> V" and "ce_globals (se_chan env) ''skip_cdr_causes'' = None"
  shows "if chan_flag (ss_channel s) CF_BLOCK_STATE then \<forall>m. turns env m s = Inr s
    else turns env n s = Inr (s\<lparr>ss_new_loops := 1\<rparr>) \<and>
      (\<exists>a b. turns env (Suc n) s = Inr a \<and> state_of a = CS_HANGUP \<and> turns env (n + 3) s = Inr b \<and> state_of b = CS_DESTROY \<and> \<not> ss_thread_running b)"
proof (cases "chan_flag (ss_channel s) CF_BLOCK_STATE")
  case True
  then show ?thesis using blocked_turns [of s env] assms(4) by (simp add: cs_order)
next
  case block: False
  have t: "turns env n s = Inr (s\<lparr>ss_new_loops := 1\<rparr>)" using assms(4,5,8,10) block by (rule new_turns)
  have f: "fine True V (ss_channel (s\<lparr>ss_new_loops := 1\<rparr>))" and e: "env_makes (call_fit True V) env" and cdr: "cdr_fit True V env"
    using assms by (simp_all add: fine_def cdr_fit_def)
  obtain a where a: "session_turn env (s\<lparr>ss_new_loops := 1\<rparr>) = Inr a" "left True V a"
    using holds_True [OF abandoned_turn [OF _ _ assms(8) _ _ _ f e]] assms(4-7) block by auto
  then have a': "dead a" "state_of a = CS_HANGUP" "fine True V (ss_channel a)" by (simp_all add: left_def)
  obtain b where b: "session_turn env a = Inr b" "after_hangup True V env a b" "state_of b = CS_REPORTING"
    using holds_True [OF hangup_turn [OF a' e]] by blast
  then have b': "dead b" "fine True V (ss_channel b)"
    using a' by (auto simp: after_hangup_def moved_def dead_def hung_up_def cs_order)
  obtain c where c: "session_turn env b = Inr c" "ended_by env b c"
    using holds_True [OF reporting_turn [OF b'(1) b(3) b'(2) e cdr]] by blast
  have "turns env (n + 1) s = Inr a" using t a(1) by (simp add: turns_add del: add_Suc_right)
  moreover have "turns env (n + 3) s = Inr c" using t a(1) b(1) c(1) by (simp add: turns_add numeral_3_eq_3 del: add_Suc_right)
  ultimately show ?thesis using t a'(2) c(2) block by (simp add: ended_by_def)
qed

theorem session_abandoned_witness:
  "\<exists>a b. turns demo_env 500 (demo_session\<lparr>ss_channel := demo_channel\<lparr>ch_running_state := CS_NEW\<rparr>\<rparr>) = Inr a \<and> state_of a = CS_HANGUP \<and>
     turns demo_env 502 (demo_session\<lparr>ss_channel := demo_channel\<lparr>ch_running_state := CS_NEW\<rparr>\<rparr>) = Inr b \<and> state_of b = CS_DESTROY"
proof -
  let ?s = "demo_session\<lparr>ss_channel := demo_channel\<lparr>ch_running_state := CS_NEW\<rparr>\<rparr>"
  have k: "chan_ok demo_names (ss_channel ?s)" by (simp add: chan_ok_updates demo_channel_ok)
  have g: "''skip_cdr_causes'' \<notin> demo_names" "ce_globals (se_chan demo_env) ''skip_cdr_causes'' = None" "se_events demo_env s = []" for s
    by (simp_all add: demo_names_def demo_env_def Let_def)
  have "ch_scope_variables (ss_channel ?s) = []" "state_of ?s = CS_NEW" "ch_running_state (ss_channel ?s) = CS_NEW" "\<not> hung_up (ss_channel ?s)"
    "\<not> ss_hangup ?s" "unat (ss_new_loops ?s) = Suc 499"
    by (simp_all add: demo_channel_def demo_session_def hung_up_def)
  moreover have "\<not> chan_flag (ss_channel ?s) CF_BLOCK_STATE" by (simp add: demo_channel_def)
  ultimately show ?thesis using session_abandoned [OF demo_names_ok k _ _ _ _ _ g(3) demo_env_makes _ g(1,2), of 499]
    by (simp del: turns.simps) blast
qed

end
