(* ===== verification/FS_Jitterbuffer.thy ===== *)
theory FS_Jitterbuffer
  imports FS_Channel FS_Core_Hash
begin

text \<open>
  The jitter buffer, \<^verbatim>\<open>src/switch_jitterbuffer.c\<close>. Packets that arrive wait in nodes; a reader takes them in the order of their sequence
  numbers or time stamps. Nodes are never given back while the buffer lives: they are shown and hidden. A node is named by its index in
  \<open>jb_store\<close>, \<open>jb_node_list\<close> is the order in which the doubly linked list holds them, and the hash tables, which are those of
  \<^verbatim>\<open>FS_Core_Hash\<close>, map sequence numbers and time stamps to nodes. Numbers of the header are kept in network byte order, as in the
  code. Every operation runs under the mutex of the buffer.
\<close>

section \<open>Byte order\<close>

definition ntohs :: "uint16_t \<Rightarrow> uint16_t" where
  "ntohs w = push_bit 8 w OR drop_bit 8 w"

definition ntohl :: "uint32_t \<Rightarrow> uint32_t" where
  "ntohl w = push_bit 24 w OR push_bit 8 (w AND 0xFF00) OR drop_bit 8 (w AND 0xFF0000) OR drop_bit 24 w"

abbreviation htons :: "uint16_t \<Rightarrow> uint16_t" where "htons \<equiv> ntohs"
abbreviation htonl :: "uint32_t \<Rightarrow> uint32_t" where "htonl \<equiv> ntohl"

section \<open>Packets, nodes and buffers\<close>

definition SWITCH_RTP_MAX_BUF_LEN :: nat where "SWITCH_RTP_MAX_BUF_LEN = 16384"
definition RENACK_TIME :: int where "RENACK_TIME = 100000"
definition PERIOD_LEN :: uint32_t where "PERIOD_LEN = 250"

text \<open>The length of the body, and the size of a packet: a header of twelve bytes, the body and two pointers. \<open>pk_body\<close> is the content of
  the body; the bits of the header the buffer does not look at are left out.\<close>

definition body_len :: nat where "body_len = SWITCH_RTP_MAX_BUF_LEN + 4 + 4"
definition sizeof_packet :: nat where "sizeof_packet = 12 + body_len + 4 + 4"

record switch_rtp_packet =
  pk_version :: nat
  pk_m :: bool
  pk_seq :: uint16_t
  pk_ts :: uint32_t
  pk_body :: "byte list"

record switch_jb_node =
  jn_packet :: switch_rtp_packet
  jn_len :: uint32_t
  jn_visible :: bool
  jn_bad_hits :: nat

definition zero_node :: switch_jb_node where
  "zero_node = \<lparr>jn_packet = \<lparr>pk_version = 0, pk_m = False, pk_seq = 0, pk_ts = 0, pk_body = []\<rparr>, jn_len = 0, jn_visible = False, jn_bad_hits = 0\<rparr>"

datatype switch_jb_type_t = SJB_VIDEO | SJB_AUDIO

definition SJB_QUEUE_ONLY :: uint32_t where "SJB_QUEUE_ONLY = 1"

text \<open>What the buffer asks of the session.\<close>

datatype jb_effect = Jb_Video_Refresh | Jb_Bitrate_Req uint32_t

text \<open>The pointers that are kept as values of the hash of missing packets have 32 bits.\<close>

record switch_jb =
  jb_store :: "switch_jb_node list"
  jb_node_list :: "nat list"
  jb_last_target_seq :: uint32_t
  jb_highest_read_ts :: uint32_t
  jb_highest_dropped_ts :: uint32_t
  jb_highest_read_seq :: uint32_t
  jb_highest_wrote_ts :: uint32_t
  jb_highest_wrote_seq :: uint16_t
  jb_target_seq :: uint16_t
  jb_target_ts :: uint32_t
  jb_last_target_ts :: uint32_t
  jb_psuedo_seq :: uint16_t
  jb_last_psuedo_seq :: uint16_t
  jb_visible_nodes :: uint32_t
  jb_allocated_nodes :: uint32_t
  jb_complete_frames :: uint32_t
  jb_frame_len :: uint32_t
  jb_min_frame_len :: uint32_t
  jb_max_frame_len :: uint32_t
  jb_highest_frame_len :: uint32_t
  jb_period_miss_count :: uint32_t
  jb_consec_miss_count :: uint32_t
  jb_period_miss_inc :: uint32_t
  jb_period_good_count :: uint32_t
  jb_consec_good_count :: uint32_t
  jb_period_count :: uint32_t
  jb_dropped :: uint32_t
  jb_samples_per_frame :: uint32_t
  jb_samples_per_second :: uint32_t
  jb_bitrate_control :: uint32_t
  jb_video_low_bitrate :: uint32_t
  jb_write_init :: bool
  jb_read_init :: bool
  jb_next_seq :: uint16_t
  jb_last_len :: nat
  jb_missing_seq_hash :: "(uint32_t, uint32_t) switch_hashtable option"
  jb_node_hash :: "(uint32_t, nat) switch_hashtable"
  jb_node_hash_ts :: "(uint32_t, nat) switch_hashtable option"
  jb_drop_flag :: int
  jb_flags :: uint32_t
  jb_type :: switch_jb_type_t
  jb_session :: bool
  jb_channel :: "switch_channel option"
  jb_flush :: uint32_t
  jb_packet_count :: uint32_t
  jb_max_packet_len :: uint32_t
  jb_debug :: nat
  jb_effects :: "jb_effect list"

definition nd :: "switch_jb \<Rightarrow> nat \<Rightarrow> switch_jb_node" where
  "nd jb a = jb_store jb ! a"

definition upd_nd :: "nat \<Rightarrow> (switch_jb_node \<Rightarrow> switch_jb_node) \<Rightarrow> switch_jb \<Rightarrow> switch_jb" where
  "upd_nd a f jb = jb\<lparr>jb_store := (jb_store jb)[a := f (nd jb a)]\<rparr>"

abbreviation nd_seq :: "switch_jb \<Rightarrow> nat \<Rightarrow> uint16_t" where "nd_seq jb a \<equiv> pk_seq (jn_packet (nd jb a))"
abbreviation nd_ts :: "switch_jb \<Rightarrow> nat \<Rightarrow> uint32_t" where "nd_ts jb a \<equiv> pk_ts (jn_packet (nd jb a))"
abbreviation nd_visible :: "switch_jb \<Rightarrow> nat \<Rightarrow> bool" where "nd_visible jb a \<equiv> jn_visible (nd jb a)"

abbreviation is_video :: "switch_jb \<Rightarrow> bool" where "is_video jb \<equiv> jb_type jb = SJB_VIDEO"
abbreviation queue_only :: "switch_jb \<Rightarrow> bool" where "queue_only jb \<equiv> test_flag (jb_flags jb) SJB_QUEUE_ONLY"

definition jb_emit :: "jb_effect \<Rightarrow> switch_jb \<Rightarrow> switch_jb" where
  "jb_emit e jb = jb\<lparr>jb_effects := jb_effects jb @ [e]\<rparr>"

definition video_refresh :: "switch_jb \<Rightarrow> switch_jb" where
  "video_refresh jb = (if jb_session jb then jb_emit Jb_Video_Refresh jb else jb)"

section \<open>Sorting the list\<close>

definition node_cmp :: "switch_jb \<Rightarrow> nat \<Rightarrow> nat \<Rightarrow> int" where
  "node_cmp jb a b =
     (if \<not> nd_visible jb a then 0 else if \<not> nd_visible jb b then 1
      else uint (ntohs (nd_seq jb a)) - uint (ntohs (nd_seq jb b)))"

text \<open>One merge: the rest of the first run, how many more elements the second run may give, and the list from the second run on.\<close>

fun merge_runs :: "('a \<Rightarrow> 'a \<Rightarrow> int) \<Rightarrow> 'a list \<Rightarrow> nat \<Rightarrow> 'a list \<Rightarrow> 'a list \<times> 'a list" where
  "merge_runs cmp [] qsize q = (take qsize q, drop qsize q)"
| "merge_runs cmp (p # ps) 0 q = (p # ps, q)"
| "merge_runs cmp (p # ps) (Suc qsize) [] = (p # ps, [])"
| "merge_runs cmp (p # ps) (Suc qsize) (q # qs) =
     (if cmp p q \<le> 0 then (let (e, r) = merge_runs cmp ps (Suc qsize) (q # qs) in (p # e, r))
      else (let (e, r) = merge_runs cmp (p # ps) qsize qs in (q # e, r)))"

lemma merge_runs_length: "merge_runs cmp ps n qs = (e, r) \<Longrightarrow> length e + length r = length ps + length qs \<and> length r = length qs - n"
  by (induction cmp ps n qs arbitrary: e r rule: merge_runs.induct) (auto split: if_splits prod.splits)

function merge_pass :: "('a \<Rightarrow> 'a \<Rightarrow> int) \<Rightarrow> nat \<Rightarrow> 'a list \<Rightarrow> 'a list \<times> nat" where
  "merge_pass cmp k [] = ([], 0)"
| "merge_pass cmp k (x # xs) =
     (let (e, r) = merge_runs cmp (take (2 ^ k) (x # xs)) (2 ^ k) (drop (2 ^ k) (x # xs));
          (l, nmerges) = merge_pass cmp k r
      in (e @ l, nmerges + 1))"
  by pat_completeness auto
termination
proof (relation "measure (\<lambda>(cmp, k, l). length l)", goal_cases)
  case (2 cmp k x xs p e r)
  then have m: "merge_runs cmp (take (2 ^ k) (x # xs)) (2 ^ k) (drop (2 ^ k) (x # xs)) = (e, r)" by (simp only:)
  have "length r = length (drop (2 ^ k) (x # xs)) - 2 ^ k" using merge_runs_length [OF m] by blast
  moreover have "(0::nat) < 2 ^ k" by simp
  ultimately show ?case by simp
qed simp

lemma merge_pass_count:
  "snd (merge_pass cmp k l) > 1 \<Longrightarrow> length l > 2 * 2 ^ k"
proof (cases l)
  case (Cons x xs)
  assume *: "snd (merge_pass cmp k l) > 1"
  obtain e r where r: "merge_runs cmp (take (2 ^ k) l) (2 ^ k) (drop (2 ^ k) l) = (e, r)" by fastforce
  with * Cons have "r \<noteq> []" by (auto split: prod.splits)
  with merge_runs_length [OF r] show ?thesis by (cases r) auto
qed simp

lemma merge_pass_length: "length (fst (merge_pass cmp k l)) = length l"
proof (induction cmp k l rule: merge_pass.induct)
  case (2 cmp k x xs)
  obtain e r where r: "merge_runs cmp (take (2 ^ k) (x # xs)) (2 ^ k) (drop (2 ^ k) (x # xs)) = (e, r)" by fastforce
  obtain l n where l: "merge_pass cmp k r = (l, n)" by fastforce
  have "length l = length r" using 2(1) [OF r [symmetric] refl] l by simp
  moreover have "length e + length r = length (x # xs)" using merge_runs_length [OF r] by (metis append_take_drop_id length_append)
  ultimately show ?case using r l by simp
qed simp

text \<open>The size of the runs is a power of two; the loop ends when a pass has made at most one merge.\<close>

function sort_loop :: "('a \<Rightarrow> 'a \<Rightarrow> int) \<Rightarrow> nat \<Rightarrow> 'a list \<Rightarrow> 'a list" where
  "sort_loop cmp k l =
     (let (l', nmerges) = merge_pass cmp k l in if nmerges \<le> 1 then l' else sort_loop cmp (k + 1) l')"
  by pat_completeness auto
termination
proof (relation "measure (\<lambda>(cmp, k, l). length l - 2 ^ k)", goal_cases)
  case (2 cmp k l p l' n)
  then have p: "merge_pass cmp k l = (l', n)" "n > 1" by auto
  have "length l' = length l" using merge_pass_length [of cmp k l] p(1) by simp
  moreover have "2 * 2 ^ k < length l" using merge_pass_count [of cmp k l] p by simp
  moreover have "(2::nat) ^ k < 2 * 2 ^ k" by simp
  ultimately show ?case by (simp add: diff_less_mono2)
qed simp

definition sort_nodes :: "('a \<Rightarrow> 'a \<Rightarrow> int) \<Rightarrow> 'a list \<Rightarrow> 'a list" where
  "sort_nodes cmp list = (if list = [] then [] else sort_loop cmp 0 list)"

section \<open>Showing and hiding nodes\<close>

abbreviation hash_key :: "uint16_t \<Rightarrow> uint32_t" where "hash_key seq \<equiv> ucast seq"

definition seq_find :: "switch_jb \<Rightarrow> uint16_t \<Rightarrow> nat option" where
  "seq_find jb seq = switch_core_inthash_find (jb_node_hash jb) (hash_key seq)"

text \<open>A node is unlinked and linked again in front of the others.\<close>

definition push_to_top :: "nat \<Rightarrow> switch_jb \<Rightarrow> switch_jb" where
  "push_to_top node jb = jb\<lparr>jb_node_list := node # remove1 node (jb_node_list jb)\<rparr>"

definition hide_node :: "bool \<Rightarrow> nat \<Rightarrow> switch_jb \<Rightarrow> switch_jb" where
  "hide_node pop node jb =
     (let jb = (if nd_visible jb node then
                  (let jb = upd_nd node (\<lambda>n. n\<lparr>jn_visible := False, jn_bad_hits := 0\<rparr>) jb;
                       jb = jb\<lparr>jb_visible_nodes := jb_visible_nodes jb - 1\<rparr>
                   in if pop then push_to_top node jb else jb)
                else jb);
          jb = (case jb_node_hash_ts jb of
                  None \<Rightarrow> jb
                | Some h \<Rightarrow> jb\<lparr>jb_node_hash_ts := Some (snd (snd (switch_core_inthash_delete h (nd_ts jb node))))\<rparr>);
          (found, _, h) = switch_core_inthash_delete (jb_node_hash jb) (hash_key (nd_seq jb node));
          jb = jb\<lparr>jb_node_hash := h\<rparr>
      in if found \<noteq> None \<and> pk_version (jn_packet (nd jb node)) = 1 \<and> is_video jb
         then jb\<lparr>jb_complete_frames := jb_complete_frames jb - 1\<rparr> else jb)"

definition sort_free_nodes :: "switch_jb \<Rightarrow> switch_jb" where
  "sort_free_nodes jb = jb\<lparr>jb_node_list := sort_nodes (node_cmp jb) (jb_node_list jb)\<rparr>"

definition hide_nodes :: "switch_jb \<Rightarrow> switch_jb" where
  "hide_nodes jb = fold (hide_node False) (jb_node_list jb) jb"

text \<open>The loop of \<^verbatim>\<open>drop_ts\<close>, with the number of nodes it has hidden.\<close>

fun drop_ts_loop :: "uint32_t \<Rightarrow> nat list \<Rightarrow> nat \<Rightarrow> switch_jb \<Rightarrow> nat \<times> switch_jb" where
  "drop_ts_loop ts [] x jb = (x, jb)"
| "drop_ts_loop ts (np # rest) x jb =
     (if \<not> nd_visible jb np then drop_ts_loop ts rest x jb
      else if ts = nd_ts jb np then drop_ts_loop ts rest (x + 1) (hide_node False np jb)
      else drop_ts_loop ts rest x jb)"

definition drop_ts :: "uint32_t \<Rightarrow> switch_jb \<Rightarrow> switch_jb" where
  "drop_ts ts jb =
     (let (x, jb) = drop_ts_loop ts (jb_node_list jb) 0 jb in if x \<noteq> 0 then sort_free_nodes jb else jb)"

fun lowest_seq_loop :: "switch_jb \<Rightarrow> uint32_t \<Rightarrow> nat list \<Rightarrow> nat option \<Rightarrow> nat option" where
  "lowest_seq_loop jb ts [] lowest = lowest"
| "lowest_seq_loop jb ts (np # rest) lowest =
     (if \<not> nd_visible jb np then lowest_seq_loop jb ts rest lowest
      else if ts \<noteq> 0 \<and> ts \<noteq> nd_ts jb np then lowest_seq_loop jb ts rest lowest
      else lowest_seq_loop jb ts rest
        (case lowest of
           None \<Rightarrow> Some np
         | Some l \<Rightarrow> if ntohs (nd_seq jb l) > ntohs (nd_seq jb np) then Some np else Some l))"

definition jb_find_lowest_seq :: "switch_jb \<Rightarrow> uint32_t \<Rightarrow> nat option" where
  "jb_find_lowest_seq jb ts = lowest_seq_loop jb ts (jb_node_list jb) None"

fun lowest_node_loop :: "switch_jb \<Rightarrow> nat list \<Rightarrow> nat option \<Rightarrow> nat option" where
  "lowest_node_loop jb [] lowest = lowest"
| "lowest_node_loop jb (np # rest) lowest =
     (if \<not> nd_visible jb np then lowest_node_loop jb rest lowest
      else lowest_node_loop jb rest
        (case lowest of
           None \<Rightarrow> Some np
         | Some l \<Rightarrow> if ntohl (nd_ts jb l) > ntohl (nd_ts jb np) then Some np else Some l))"

definition jb_find_lowest_node :: "switch_jb \<Rightarrow> nat option" where
  "jb_find_lowest_node jb = lowest_node_loop jb (jb_node_list jb) None"

definition jb_find_lowest_ts :: "switch_jb \<Rightarrow> uint32_t" where
  "jb_find_lowest_ts jb = (case jb_find_lowest_node jb of None \<Rightarrow> 0 | Some n \<Rightarrow> nd_ts jb n)"

definition drop_oldest_frame :: "switch_jb \<Rightarrow> switch_jb" where
  "drop_oldest_frame jb = drop_ts (jb_find_lowest_ts jb) jb"

text \<open>\<open>rest\<close> is the list from the current node on; after a frame is dropped the loop goes on with the second node of the sorted list.\<close>

function thin_loop :: "int \<Rightarrow> nat \<Rightarrow> nat list \<Rightarrow> int \<Rightarrow> nat \<Rightarrow> switch_jb \<Rightarrow> switch_jb" where
  "thin_loop freq most [] i dropped jb = jb"
| "thin_loop freq most (node # rest) i dropped jb =
     (if \<not> (jb_complete_frames jb > jb_max_frame_len jb \<and> dropped < most) then jb
      else if \<not> nd_visible jb node then thin_loop freq most rest i dropped jb
      else if (i + 1) mod freq = 0 then
        (let jb = drop_ts (nd_ts jb node) jb in thin_loop freq most (tl (jb_node_list jb)) (i + 1) (dropped + 1) jb)
      else thin_loop freq most rest (i + 1) dropped jb)"
  by pat_completeness auto
termination
  by (relation "measures [\<lambda>(freq, most, rest, i, dropped, jb). most - dropped, \<lambda>(freq, most, rest, i, dropped, jb). length rest]") auto

definition thin_frames :: "int \<Rightarrow> nat \<Rightarrow> switch_jb \<Rightarrow> switch_jb" where
  "thin_frames freq most jb = sort_free_nodes (thin_loop freq most (jb_node_list jb) (- 1) 0 jb)"

section \<open>Counters\<close>

definition jb_hit :: "switch_jb \<Rightarrow> switch_jb" where
  "jb_hit jb = jb\<lparr>jb_period_good_count := jb_period_good_count jb + 1, jb_consec_good_count := jb_consec_good_count jb + 1, jb_consec_miss_count := 0\<rparr>"

definition jb_miss :: "switch_jb \<Rightarrow> switch_jb" where
  "jb_miss jb = jb\<lparr>jb_period_miss_count := jb_period_miss_count jb + 1, jb_consec_miss_count := jb_consec_miss_count jb + 1, jb_consec_good_count := 0\<rparr>"

definition jb_frame_inc :: "int \<Rightarrow> switch_jb \<Rightarrow> switch_jb" where
  "jb_frame_inc i jb =
     (let next = jb_frame_len jb + of_int i;
          jb = jb\<lparr>jb_frame_len :=
            (if i = 0 then jb_min_frame_len jb
             else if i > 0 then (if next < jb_max_frame_len jb then next else jb_max_frame_len jb)
             else (if next > jb_min_frame_len jb then next else jb_min_frame_len jb))\<rparr>
      in if jb_frame_len jb > jb_highest_frame_len jb then jb\<lparr>jb_highest_frame_len := jb_frame_len jb\<rparr> else jb)"

definition check_seq :: "uint16_t \<Rightarrow> uint16_t \<Rightarrow> bool" where
  "check_seq a b = (let a = ntohs a; b = ntohs b in a \<ge> b \<or> b > a \<and> b > 32767 \<and> a < 32767)"

definition check_ts :: "uint32_t \<Rightarrow> uint32_t \<Rightarrow> bool" where
  "check_ts a b = (let a = ntohl a; b = ntohl b in a > b \<or> b > a \<and> b > 2147483647 \<and> a < 2147483647)"

section \<open>Starting again\<close>

text \<open>The table of the missing packets is made anew; the number of complete frames is set to zero before the nodes are hidden.\<close>

definition switch_jb_reset :: "switch_jb \<Rightarrow> switch_jb c_result" where
  "switch_jb_reset jb =
     and_then (if is_video jb then
                 and_then (switch_core_inthash_destroy (jb_missing_seq_hash jb)) (\<lambda>_.
                 and_then (switch_core_inthash_init True) (\<lambda>(_, h).
                   Inr (video_refresh (jb\<lparr>jb_missing_seq_hash := h\<rparr>))))
               else Inr jb) (\<lambda>jb.
       Inr (hide_nodes (jb\<lparr>jb_drop_flag := 0, jb_last_target_seq := 0, jb_target_seq := 0, jb_write_init := False, jb_highest_wrote_seq := 0,
         jb_highest_wrote_ts := 0, jb_next_seq := 0, jb_highest_read_ts := 0, jb_highest_read_seq := 0, jb_read_init := False, jb_complete_frames := 0,
         jb_period_miss_count := 0, jb_consec_miss_count := 0, jb_period_good_count := 0, jb_consec_good_count := 0, jb_period_count := 0,
         jb_period_miss_inc := 0, jb_target_ts := 0, jb_last_target_ts := 0\<rparr>)))"

section \<open>Adding a packet\<close>

definition node_limit :: "switch_jb \<Rightarrow> uint32_t" where
  "node_limit jb =
     jb_max_frame_len jb * (if \<not> is_video jb then 2 else if jb_max_packet_len jb > 25 then jb_max_packet_len jb else 25)"

definition alloc_node :: "switch_jb \<Rightarrow> nat \<times> switch_jb" where
  "alloc_node jb =
     (length (jb_store jb),
      jb\<lparr>jb_store := jb_store jb @ [zero_node], jb_allocated_nodes := jb_allocated_nodes jb + 1, jb_node_list := length (jb_store jb) # jb_node_list jb\<rparr>)"

definition new_node :: "switch_jb \<Rightarrow> (nat option \<times> switch_jb) c_result" where
  "new_node jb =
     (let show = (\<lambda>(np, jb). (let jb = upd_nd np (\<lambda>n. n\<lparr>jn_bad_hits := 0, jn_visible := True\<rparr>) jb
                              in (Some np, jb\<lparr>jb_visible_nodes := jb_visible_nodes jb + 1\<rparr>)))
      in case List.find (\<lambda>np. \<not> nd_visible jb np) (jb_node_list jb) of
           Some np \<Rightarrow> Inr (show (np, jb))
         | None \<Rightarrow>
             if jb_allocated_nodes jb > node_limit jb then and_then (switch_jb_reset jb) (\<lambda>jb. Inr (None, jb))
             else Inr (show (alloc_node jb)))"

definition c_abs :: "int \<Rightarrow> int" where
  "c_abs i = sint (word_of_int \<bar>i\<bar> :: 32 word)"

text \<open>How far a packet is from the newest one; the second difference is what the code computes, with the time stamp of the
  packet in both places.\<close>

definition seq_diff :: "switch_jb \<Rightarrow> switch_rtp_packet \<Rightarrow> int" where
  "seq_diff jb packet =
     (let hw = uint (ntohs (jb_highest_wrote_seq jb)); seq = uint (ntohs (pk_seq packet))
      in if hw > 65535 - 100 \<and> seq < 100 then (65535 - hw) + seq else \<bar>seq - hw\<bar>)"

definition ts_diff :: "switch_jb \<Rightarrow> switch_rtp_packet \<Rightarrow> int" where
  "ts_diff jb packet =
     (let hw = ntohl (jb_highest_wrote_ts jb); ts = ntohl (pk_ts packet)
      in if hw > 4294967295 - 1000 \<and> ts < 1000 then sint ((4294967295 - ts) + ts)
         else c_abs (sint (word_of_int (uint ts - uint hw) :: 32 word)))"

definition note_complete :: "nat \<Rightarrow> switch_rtp_packet \<Rightarrow> switch_jb \<Rightarrow> switch_jb" where
  "note_complete node packet jb =
     (if is_video jb then
        (let jb = (if \<not> queue_only jb then jb\<lparr>jb_packet_count := jb_packet_count jb + 1\<rparr> else jb)
         in if jb_write_init jb \<and> check_seq (pk_seq packet) (jb_highest_wrote_seq jb) \<and> check_ts (nd_ts jb node) (jb_highest_wrote_ts jb) then
              (let jb = jb\<lparr>jb_highest_wrote_ts := pk_ts packet, jb_complete_frames := jb_complete_frames jb + 1\<rparr>;
                   jb = (if \<not> queue_only jb then
                           (if jb_packet_count jb > jb_max_packet_len jb then jb\<lparr>jb_max_packet_len := jb_packet_count jb\<rparr> else jb)\<lparr>jb_packet_count := 0\<rparr>
                         else jb)
               in upd_nd node (\<lambda>n. n\<lparr>jn_packet := (jn_packet n)\<lparr>pk_version := 1\<rparr>\<rparr>) jb)
            else if \<not> jb_write_init jb then jb\<lparr>jb_highest_wrote_ts := pk_ts packet\<rparr>
            else jb)
      else if jb_write_init jb \<or> jb_type jb = SJB_AUDIO then jb\<lparr>jb_complete_frames := jb_complete_frames jb + 1\<rparr>
      else jb\<lparr>jb_highest_wrote_ts := pk_ts packet\<rparr>)"

text \<open>A node is entered into the tables. Then its packet is compared with the newest one; a jump starts the buffer again.\<close>

definition enter_node :: "hash_alloc \<Rightarrow> switch_rtp_packet \<Rightarrow> nat \<Rightarrow> switch_jb \<Rightarrow> switch_jb c_result" where
  "enter_node a packet node jb =
     and_then (switch_core_inthash_insert a (jb_node_hash jb) (hash_key (pk_seq packet)) (Some node)) (\<lambda>(_, _, h).
       let jb = jb\<lparr>jb_node_hash := h\<rparr>
       in case jb_node_hash_ts jb of
            None \<Rightarrow> Inr jb
          | Some h \<Rightarrow> and_then (switch_core_inthash_insert a h (pk_ts packet) (Some node)) (\<lambda>(_, _, h). Inr (jb\<lparr>jb_node_hash_ts := Some h\<rparr>)))"

definition account_packet :: "nat \<Rightarrow> switch_rtp_packet \<Rightarrow> switch_jb \<Rightarrow> switch_jb c_result" where
  "account_packet node packet jb =
     and_then (if jb_write_init jb \<and> is_video jb \<and> (seq_diff jb packet \<ge> 100 \<or> ts_diff jb packet > 900000 * 5)
               then switch_jb_reset jb else Inr jb) (\<lambda>jb.
       let jb = (if \<not> jb_write_init jb \<or> ntohs (pk_seq packet) > ntohs (jb_highest_wrote_seq jb) \<or>
                    ntohs (jb_highest_wrote_seq jb) > 65535 - 100 \<and> ntohs (pk_seq packet) < 100
                 then jb\<lparr>jb_highest_wrote_seq := pk_seq packet\<rparr> else jb)
       in Inr ((note_complete node packet jb)\<lparr>jb_write_init := True\<rparr>))"

definition add_node :: "hash_alloc \<Rightarrow> switch_rtp_packet \<Rightarrow> nat \<Rightarrow> switch_jb \<Rightarrow> switch_jb c_result" where
  "add_node a packet len jb =
     and_then (new_node jb) (\<lambda>(np, jb).
       case np of
         None \<Rightarrow> Inr jb
       | Some node \<Rightarrow>
           if len > body_len then Inl Out_Of_Bounds
           else and_then (enter_node a packet node (upd_nd node (\<lambda>n. n\<lparr>jn_packet := packet, jn_len := of_nat len\<rparr>) jb)) (account_packet node packet))"

section \<open>The next packet\<close>

definition increment_ts :: "switch_jb \<Rightarrow> switch_jb" where
  "increment_ts jb =
     (if jb_target_ts jb = 0 then jb
      else jb\<lparr>jb_last_psuedo_seq := jb_psuedo_seq jb, jb_last_target_ts := jb_target_ts jb,
        jb_target_ts := htonl (ntohl (jb_target_ts jb) + jb_samples_per_frame jb), jb_psuedo_seq := jb_psuedo_seq jb + 1\<rparr>)"

definition set_read_ts :: "uint32_t \<Rightarrow> switch_jb \<Rightarrow> switch_jb" where
  "set_read_ts ts jb =
     (if ts = 0 then jb
      else jb\<lparr>jb_last_psuedo_seq := jb_psuedo_seq jb, jb_last_target_ts := ts,
        jb_target_ts := htonl (ntohl ts + jb_samples_per_frame jb), jb_psuedo_seq := jb_psuedo_seq jb + 1\<rparr>)"

definition increment_seq :: "switch_jb \<Rightarrow> switch_jb" where
  "increment_seq jb = jb\<lparr>jb_last_target_seq := ucast (jb_target_seq jb), jb_target_seq := htons (ntohs (jb_target_seq jb) + 1)\<rparr>"

definition set_read_seq :: "uint16_t \<Rightarrow> switch_jb \<Rightarrow> switch_jb" where
  "set_read_seq seq jb = jb\<lparr>jb_last_target_seq := ucast seq, jb_target_seq := htons (ntohs seq + 1)\<rparr>"

definition jb_resync :: "switch_jb \<Rightarrow> switch_jb" where
  "jb_resync jb = (if is_video jb \<and> jb_dropped jb \<noteq> 0 then video_refresh (jb\<lparr>jb_dropped := 0, jb_target_seq := 0\<rparr>) else jb)"

fun jb_seek :: "nat \<Rightarrow> switch_jb \<Rightarrow> nat option \<times> switch_jb" where
  "jb_seek 0 jb = (None, jb)"
| "jb_seek (Suc x) jb =
     (let jb = increment_seq jb in case seq_find jb (jb_target_seq jb) of Some node \<Rightarrow> (Some node, jb) | None \<Rightarrow> jb_seek x jb)"

definition miss_video :: "switch_jb \<Rightarrow> switch_jb" where
  "miss_video jb =
     video_refresh (if jb_period_miss_count jb > 1 \<and> jb_period_miss_inc jb = 0 then jb_frame_inc 1 (jb\<lparr>jb_period_miss_inc := jb_period_miss_inc jb + 1\<rparr>) else jb)"

definition drop_frame :: "nat \<Rightarrow> switch_jb \<Rightarrow> switch_jb" where
  "drop_frame node jb = (drop_ts (nd_ts jb node) (jb\<lparr>jb_dropped := jb_dropped jb + 1\<rparr>))\<lparr>jb_highest_dropped_ts := ntohl (nd_ts jb node)\<rparr>"

lemma hide_node_frame [simp]: "jb_type (hide_node pop n jb) = jb_type jb" "jb_dropped (hide_node pop n jb) = jb_dropped jb"
  by (simp_all add: hide_node_def push_to_top_def upd_nd_def Let_def split: prod.split option.split)

lemma drop_ts_loop_frame [simp]:
  "jb_type (snd (drop_ts_loop ts l x jb)) = jb_type jb" "jb_dropped (snd (drop_ts_loop ts l x jb)) = jb_dropped jb"
  by (induction ts l x jb rule: drop_ts_loop.induct) simp_all

lemma drop_frame_frame [simp]: "jb_type (drop_frame n jb) = jb_type jb" "jb_dropped (drop_frame n jb) = jb_dropped jb + 1"
  using drop_ts_loop_frame [of "nd_ts jb n" "jb_node_list jb" 0 "jb\<lparr>jb_dropped := jb_dropped jb + 1\<rparr>"]
  by (simp_all add: drop_frame_def drop_ts_def sort_free_nodes_def case_prod_beta Let_def del: drop_ts_loop_frame)

lemma jb_seek_frame: "jb_type (snd (jb_seek x jb)) = jb_type jb \<and> jb_dropped (snd (jb_seek x jb)) = jb_dropped jb"
  by (induction x jb rule: jb_seek.induct) (auto simp: Let_def increment_seq_def split: option.split)

lemma miss_video_frame [simp]: "jb_type (miss_video jb) = jb_type jb" "jb_dropped (miss_video jb) = jb_dropped jb"
  by (simp_all add: miss_video_def video_refresh_def jb_emit_def jb_frame_inc_def Let_def)

text \<open>A video packet of a frame that was missed is dropped with its frame, and the search starts again.\<close>

function next_node_by_seq :: "switch_jb \<Rightarrow> nat option \<times> switch_jb" where
  "next_node_by_seq jb0 =
     (let jb = jb_resync jb0
      in if jb_target_seq jb = 0 then
           (case seq_find jb (jb_target_seq jb) of Some node \<Rightarrow> Some node | None \<Rightarrow> jb_find_lowest_seq jb 0, jb_hit jb)
         else case seq_find jb (jb_target_seq jb) of
           Some node \<Rightarrow> (Some node, jb_hit jb)
         | None \<Rightarrow>
             if is_video jb then
               (case jb_seek 10 (miss_video (jb_miss jb)) of
                  (None, jb) \<Rightarrow> (None, jb)
                | (Some node, jb) \<Rightarrow>
                    if pk_m (jn_packet (nd jb node)) \<or> nd_ts jb node = jb_highest_read_ts jb then next_node_by_seq (drop_frame node jb)
                    else (Some node, jb))
             else (None, increment_seq (jb_miss jb)))"
  by pat_completeness auto
termination
proof (relation "measure (\<lambda>jb. if is_video jb \<and> jb_dropped jb \<noteq> 0 then 0 else 1)", goal_cases)
  case (2 jb0 jb p y node)
  have d: "\<not> (is_video jb0 \<and> jb_dropped jb0 \<noteq> 0)" using 2(1,2) by (auto simp: jb_resync_def video_refresh_def jb_emit_def split: if_splits)
  then have jb: "jb = jb0" using 2(1) by (auto simp: jb_resync_def)
  have "jb_seek 10 (miss_video (jb_miss jb)) = (Some node, y)" using 2 by auto
  then have "jb_type y = jb_type jb \<and> jb_dropped y = jb_dropped jb"
    using jb_seek_frame [of 10 "miss_video (jb_miss jb)"] by (simp add: jb_miss_def)
  then show ?case using d jb 2(4) by auto
qed simp

definition jb_next_packet_by_seq :: "switch_jb \<Rightarrow> switch_status_t \<times> nat option \<times> switch_jb" where
  "jb_next_packet_by_seq jb =
     (case next_node_by_seq jb of
        (Some node, jb) \<Rightarrow> (SWITCH_STATUS_SUCCESS, Some node, set_read_seq (nd_seq jb node) jb)
      | (None, jb) \<Rightarrow> (SWITCH_STATUS_NOTFOUND, None, jb))"

text \<open>The packet that is found by its time stamp gets a new sequence number. The table of time stamps exists whenever the buffer works with them: both
  are set by \<^verbatim>\<open>switch_jb_ts_mode\<close>.\<close>

definition next_node_by_ts :: "switch_jb \<Rightarrow> nat option \<times> switch_jb" where
  "next_node_by_ts jb =
     (if jb_target_ts jb = 0 then (jb_find_lowest_node jb, jb_hit jb)
      else case (case jb_node_hash_ts jb of None \<Rightarrow> None | Some h \<Rightarrow> switch_core_inthash_find h (jb_target_ts jb)) of
        Some node \<Rightarrow> (Some node, jb_hit jb)
      | None \<Rightarrow> (None, increment_ts (jb_miss jb)))"

definition jb_next_packet_by_ts :: "switch_jb \<Rightarrow> switch_status_t \<times> nat option \<times> switch_jb" where
  "jb_next_packet_by_ts jb =
     (case next_node_by_ts jb of
        (Some node, jb) \<Rightarrow>
          (let jb = set_read_ts (nd_ts jb node) jb
           in (SWITCH_STATUS_SUCCESS, Some node, upd_nd node (\<lambda>n. n\<lparr>jn_packet := (jn_packet n)\<lparr>pk_seq := htons (jb_psuedo_seq jb)\<rparr>\<rparr>) jb))
      | (None, jb) \<Rightarrow> (SWITCH_STATUS_NOTFOUND, None, jb))"

definition jb_next_packet :: "switch_jb \<Rightarrow> switch_status_t \<times> nat option \<times> switch_jb" where
  "jb_next_packet jb = (if jb_samples_per_frame jb \<noteq> 0 then jb_next_packet_by_ts jb else jb_next_packet_by_seq jb)"

section \<open>The interface\<close>

definition switch_jb_ts_mode :: "uint32_t \<Rightarrow> uint32_t \<Rightarrow> switch_jb \<Rightarrow> switch_jb c_result" where
  "switch_jb_ts_mode samples_per_frame samples_per_second jb =
     and_then (switch_core_inthash_init True) (\<lambda>(_, h).
       Inr (jb\<lparr>jb_samples_per_frame := samples_per_frame, jb_samples_per_second := samples_per_second, jb_node_hash_ts := h\<rparr>))"

definition switch_jb_set_session :: "chan_env \<Rightarrow> switch_channel \<Rightarrow> switch_jb \<Rightarrow> switch_jb c_result" where
  "switch_jb_set_session env channel jb =
     (let jb = jb\<lparr>jb_session := True, jb_channel := Some channel\<rparr>
      in if is_video jb \<and> \<not> queue_only jb then
           and_then (switch_channel_get_variable_dup env channel (Some ''jb_video_low_bitrate'') (- 1)) (\<lambda>var.
             case var of
               None \<Rightarrow> Inr jb
             | Some v \<Rightarrow>
                 (let tmp = c_atoi v in Inr (if tmp \<ge> 128 \<and> tmp \<le> 10240 then jb\<lparr>jb_video_low_bitrate := of_int tmp\<rparr> else jb)))
         else Inr jb)"

definition switch_jb_set_flag :: "uint32_t \<Rightarrow> switch_jb \<Rightarrow> switch_jb" where
  "switch_jb_set_flag flag jb = jb\<lparr>jb_flags := set_flag (jb_flags jb) flag\<rparr>"

definition switch_jb_clear_flag :: "uint32_t \<Rightarrow> switch_jb \<Rightarrow> switch_jb" where
  "switch_jb_clear_flag flag jb = jb\<lparr>jb_flags := jb_flags jb AND NOT flag\<rparr>"

definition switch_jb_poll :: "switch_jb \<Rightarrow> bool" where
  "switch_jb_poll jb \<longleftrightarrow> jb_complete_frames jb \<ge> jb_frame_len jb \<or> jb_flush jb \<noteq> 0"

definition switch_jb_frame_count :: "switch_jb \<Rightarrow> int" where
  "switch_jb_frame_count jb = sint (jb_complete_frames jb)"

definition switch_jb_debug_level :: "nat \<Rightarrow> switch_jb \<Rightarrow> switch_jb" where
  "switch_jb_debug_level level jb = jb\<lparr>jb_debug := level\<rparr>"

text \<open>A frame to look ahead into: its buffer, if it has one, and the length of that.\<close>

record jb_frame =
  fr_seq :: uint16_t
  fr_timestamp :: uint32_t
  fr_m :: bool
  fr_datalen :: uint32_t
  fr_data :: "byte list option"
  fr_buflen :: uint32_t

definition peek_node :: "switch_jb \<Rightarrow> uint32_t \<Rightarrow> uint16_t \<Rightarrow> int \<Rightarrow> nat option" where
  "peek_node jb ts seq peek =
     (if seq \<noteq> 0 then seq_find jb (htons (seq + of_int peek))
      else if ts \<noteq> 0 \<and> jb_samples_per_frame jb \<noteq> 0 then
        (case jb_node_hash_ts jb of
           None \<Rightarrow> None
         | Some h \<Rightarrow> switch_core_inthash_find h (htonl (ts + of_int peek * jb_samples_per_frame jb)))
      else None)"

definition switch_jb_peek_frame :: "uint32_t \<Rightarrow> uint16_t \<Rightarrow> int \<Rightarrow> jb_frame \<Rightarrow> switch_jb \<Rightarrow> (switch_status_t \<times> jb_frame) c_result" where
  "switch_jb_peek_frame ts seq peek frame jb =
     (case peek_node jb ts seq peek of
        None \<Rightarrow> Inr (SWITCH_STATUS_FALSE, frame)
      | Some node \<Rightarrow>
          (let datalen = jn_len (nd jb node) - 12;
               frame = frame\<lparr>fr_seq := ntohs (nd_seq jb node), fr_timestamp := ntohl (nd_ts jb node), fr_m := pk_m (jn_packet (nd jb node)), fr_datalen := datalen\<rparr>
           in case fr_data frame of
                None \<Rightarrow> Inr (SWITCH_STATUS_SUCCESS, frame)
              | Some d \<Rightarrow>
                  if fr_buflen frame > datalen then
                    (if unat datalen > body_len then Inl Out_Of_Bounds
                     else Inr (SWITCH_STATUS_SUCCESS,
                       frame\<lparr>fr_data := Some (take (unat datalen) (pk_body (jn_packet (nd jb node))) @ drop (unat datalen) d)\<rparr>))
                  else Inr (SWITCH_STATUS_SUCCESS, frame)))"

definition switch_jb_get_frames :: "switch_jb \<Rightarrow> uint32_t \<times> uint32_t \<times> uint32_t" where
  "switch_jb_get_frames jb = (jb_min_frame_len jb, jb_max_frame_len jb, jb_frame_len jb)"

definition switch_jb_set_frames :: "uint32_t \<Rightarrow> uint32_t \<Rightarrow> switch_jb \<Rightarrow> switch_jb" where
  "switch_jb_set_frames min_frame_len max_frame_len jb =
     (let lowest = (jb_frame_len jb = jb_min_frame_len jb);
          jb = jb\<lparr>jb_min_frame_len := min_frame_len, jb_max_frame_len := max_frame_len\<rparr>;
          jb = (if jb_frame_len jb > jb_max_frame_len jb then jb\<lparr>jb_frame_len := jb_max_frame_len jb\<rparr> else jb);
          jb = (if jb_frame_len jb < jb_min_frame_len jb then jb\<lparr>jb_frame_len := jb_min_frame_len jb\<rparr> else jb);
          jb = (if jb_frame_len jb > jb_highest_frame_len jb then jb\<lparr>jb_highest_frame_len := jb_frame_len jb\<rparr> else jb)
      in if lowest then jb\<lparr>jb_frame_len := jb_min_frame_len jb\<rparr> else jb)"

definition switch_jb_create :: "switch_jb_type_t \<Rightarrow> uint32_t \<Rightarrow> uint32_t \<Rightarrow> switch_jb c_result" where
  "switch_jb_create type min_frame_len max_frame_len =
     and_then (if type = SJB_VIDEO then switch_core_inthash_init True else Inr (SWITCH_STATUS_SUCCESS, None)) (\<lambda>(_, missing).
     and_then (switch_core_inthash_init True) (\<lambda>(_, h).
       case h of
         None \<Rightarrow> Inl Null_Access
       | Some h \<Rightarrow> Inr \<lparr>jb_store = [], jb_node_list = [], jb_last_target_seq = 0, jb_highest_read_ts = 0, jb_highest_dropped_ts = 0, jb_highest_read_seq = 0,
           jb_highest_wrote_ts = 0, jb_highest_wrote_seq = 0, jb_target_seq = 0, jb_target_ts = 0, jb_last_target_ts = 0, jb_psuedo_seq = 0,
           jb_last_psuedo_seq = 0, jb_visible_nodes = 0, jb_allocated_nodes = 0, jb_complete_frames = 0, jb_frame_len = min_frame_len,
           jb_min_frame_len = min_frame_len, jb_max_frame_len = max_frame_len, jb_highest_frame_len = min_frame_len, jb_period_miss_count = 0,
           jb_consec_miss_count = 0, jb_period_miss_inc = 0, jb_period_good_count = 0, jb_consec_good_count = 0, jb_period_count = 0, jb_dropped = 0,
           jb_samples_per_frame = 0, jb_samples_per_second = 0, jb_bitrate_control = 0, jb_video_low_bitrate = 0, jb_write_init = False, jb_read_init = False,
           jb_next_seq = 0, jb_last_len = 0, jb_missing_seq_hash = missing, jb_node_hash = h, jb_node_hash_ts = None, jb_drop_flag = 0, jb_flags = 0,
           jb_type = type, jb_session = False, jb_channel = None, jb_flush = 0, jb_packet_count = 0, jb_max_packet_len = 0, jb_debug = 0, jb_effects = []\<rparr>))"

text \<open>Destroying releases the entries of the hash tables; the nodes go with the memory pool.\<close>

definition switch_jb_destroy :: "switch_jb \<Rightarrow> ((uint32_t, uint32_t) ht_effect list \<times> (uint32_t, nat) ht_effect list) c_result" where
  "switch_jb_destroy jb =
     and_then (if is_video jb then switch_core_inthash_destroy (jb_missing_seq_hash jb) else Inr (SWITCH_STATUS_SUCCESS, [])) (\<lambda>(_, m).
     and_then (switch_core_inthash_destroy (Some (jb_node_hash jb))) (\<lambda>(_, n).
     and_then (if jb_node_hash_ts jb \<noteq> None then switch_core_inthash_destroy (jb_node_hash_ts jb) else Inr (SWITCH_STATUS_SUCCESS, [])) (\<lambda>(_, t).
       Inr (m, n @ t))))"

section \<open>Missing packets\<close>

text \<open>A time is stored as a pointer of 32 bits and read back with its sign.\<close>

definition ptr_of :: "int \<Rightarrow> uint32_t option" where
  "ptr_of t = (let p = (word_of_int t :: uint32_t) in if p = 0 then None else Some p)"

definition int_of_ptr :: "uint32_t option \<Rightarrow> int" where
  "int_of_ptr v = (case v of None \<Rightarrow> 0 | Some p \<Rightarrow> sint p)"

text \<open>The walk over the table: a packet that is too old for the reader ends it, with its number; otherwise the least number is found.\<close>

datatype nack_found = Expired uint16_t uint16_t | Least uint16_t

fun nack_walk :: "int \<Rightarrow> switch_jb \<Rightarrow> (uint32_t \<times> uint32_t option) list \<Rightarrow> uint16_t \<Rightarrow> nack_found" where
  "nack_walk now jb [] least = Least least"
| "nack_walk now jb ((var, val) # rest) least =
     (let seq = ntohs (ucast var); since = int_of_ptr val
      in if since \<noteq> 1 \<and> now - since < RENACK_TIME then nack_walk now jb rest least
         else if (ucast seq :: uint32_t) < ucast (ntohs (jb_target_seq jb)) - jb_frame_len jb then Expired seq least
         else nack_walk now jb rest (if least = 0 \<or> seq < least then seq else least))"

text \<open>Each time a packet has expired it is deleted and the walk starts again; as much fuel as there are entries, and one, is enough.\<close>

fun nack_scan :: "nat \<Rightarrow> int \<Rightarrow> switch_jb \<Rightarrow> (uint32_t, uint32_t) switch_hashtable \<Rightarrow> uint16_t \<Rightarrow> (uint16_t \<times> (uint32_t, uint32_t) switch_hashtable) option" where
  "nack_scan 0 now jb h least = None"
| "nack_scan (Suc fuel) now jb h least =
     (case ht_walk (unat (switch_hashtable_count h)) h (switch_hashtable_first_iter h) of
        None \<Rightarrow> None
      | Some es \<Rightarrow>
          (case nack_walk now jb es least of
             Least l \<Rightarrow> Some (l, h)
           | Expired seq l \<Rightarrow> nack_scan fuel now jb (snd (snd (switch_core_inthash_delete h (hash_key (htons seq))))) l))"

text \<open>The sixteen packets after the least one are asked for with it. The clock is taken to stand still during the call.\<close>

fun nack_more :: "hash_alloc \<Rightarrow> int \<Rightarrow> uint16_t \<Rightarrow> nat list \<Rightarrow> uint16_t \<Rightarrow> (uint32_t, uint32_t) switch_hashtable \<Rightarrow>
    (uint16_t \<times> (uint32_t, uint32_t) switch_hashtable) c_result" where
  "nack_more a now least [] blp h = Inr (blp, h)"
| "nack_more a now least (i # is) blp h =
     (let key = hash_key (htons (least + of_nat i + 1))
      in case switch_core_inthash_delete h key of
           (None, _, h) \<Rightarrow> nack_more a now least is blp h
         | (Some _, _, h) \<Rightarrow>
             and_then (switch_core_inthash_insert a h key (ptr_of now)) (\<lambda>(_, _, h). nack_more a now least is (blp OR push_bit i 1) h))"

definition switch_jb_pop_nack :: "hash_alloc \<Rightarrow> int \<Rightarrow> switch_jb \<Rightarrow> (uint32_t \<times> switch_jb) option c_result" where
  "switch_jb_pop_nack a now jb =
     (if \<not> is_video jb then Inr (Some (0, jb))
      else case jb_missing_seq_hash jb of
        None \<Rightarrow> Inl Null_Access
      | Some h \<Rightarrow>
          (case nack_scan (Suc (unat (switch_hashtable_count h))) now jb h 0 of
             None \<Rightarrow> Inr None
           | Some (least, h) \<Rightarrow>
               (let (found, _, h') = switch_core_inthash_delete h (hash_key (htons least))
                in if least = 0 then Inr (Some (0, jb\<lparr>jb_missing_seq_hash := Some h\<rparr>))
                   else if found = None then Inr (Some (0, jb\<lparr>jb_missing_seq_hash := Some h'\<rparr>))
                   else
                     and_then (switch_core_inthash_insert a h' (hash_key (htons least)) (ptr_of now)) (\<lambda>(_, _, h).
                     and_then (nack_more a now least [0..<16] 0 h) (\<lambda>(blp, h).
                       Inr (Some (hash_key (htons least) OR push_bit 16 (ucast (htons blp)), jb\<lparr>jb_missing_seq_hash := Some h\<rparr>)))))))"

section \<open>Putting and getting packets\<close>

fun mark_missing :: "hash_alloc \<Rightarrow> nat list \<Rightarrow> (uint32_t, uint32_t) switch_hashtable \<Rightarrow> (uint32_t, uint32_t) switch_hashtable c_result" where
  "mark_missing a [] h = Inr h"
| "mark_missing a (i # is) h =
     and_then (switch_core_inthash_insert a h (hash_key (htons (of_nat i))) (ptr_of 1)) (\<lambda>(_, _, h). mark_missing a is h)"

text \<open>What is done with the sequence number of a video packet: numbers that were skipped are marked as missing.\<close>

definition expect_seq :: "hash_alloc \<Rightarrow> uint16_t \<Rightarrow> uint16_t \<Rightarrow> switch_jb \<Rightarrow> switch_jb c_result" where
  "expect_seq a want got jb =
     (case jb_missing_seq_hash jb of
        None \<Rightarrow> Inl Null_Access
      | Some h \<Rightarrow>
          (let (found, _, h) = switch_core_inthash_delete h (hash_key (htons got));
               jb = jb\<lparr>jb_missing_seq_hash := Some h\<rparr>;
               jb = (if found \<noteq> None \<and> got < ntohs (jb_target_seq jb) then jb_frame_inc 1 jb else jb)
           in and_then
                (if got > want then
                   (if ucast (got - want) > jb_max_frame_len jb \<and> got - want > 17 then switch_jb_reset jb
                    else
                      (let jb = (if jb_frame_len jb < ucast (got - want) then jb_frame_inc 1 jb else jb)
                       in and_then (mark_missing a [unat want..<unat got] h) (\<lambda>h. Inr (jb\<lparr>jb_missing_seq_hash := Some h\<rparr>))))
                 else Inr jb) (\<lambda>jb.
              Inr (if got \<ge> want \<or> want - got > 1000 then jb\<lparr>jb_next_seq := htons (got + 1)\<rparr> else jb))))"

definition switch_jb_put_packet :: "hash_alloc \<Rightarrow> switch_rtp_packet \<Rightarrow> nat \<Rightarrow> switch_jb \<Rightarrow> (switch_status_t \<times> switch_jb) c_result" where
  "switch_jb_put_packet a packet len jb =
     (let want = ntohs (jb_next_seq jb); got = ntohs (pk_seq packet);
          len = (if len \<ge> sizeof_packet then sizeof_packet else len)
      in if jb_highest_dropped_ts jb \<noteq> 0 \<and> ntohl (pk_ts packet) < jb_highest_dropped_ts jb then Inr (SWITCH_STATUS_SUCCESS, jb)
         else
           (let jb = jb\<lparr>jb_highest_dropped_ts := 0\<rparr>; want = (if want = 0 then got else want)
            in and_then (if queue_only jb \<or> jb_type jb = SJB_AUDIO then Inr (jb\<lparr>jb_next_seq := htons (got + 1)\<rparr>) else expect_seq a want got jb) (\<lambda>jb.
               and_then (add_node a packet len jb) (\<lambda>jb.
                 Inr (SWITCH_STATUS_SUCCESS, if queue_only jb \<and> jb_complete_frames jb > jb_max_frame_len jb then drop_oldest_frame jb else jb)))))"

definition switch_jb_get_packet_by_seq :: "uint16_t \<Rightarrow> switch_rtp_packet \<Rightarrow> nat \<Rightarrow> switch_jb \<Rightarrow> (switch_status_t \<times> switch_rtp_packet \<times> nat) c_result" where
  "switch_jb_get_packet_by_seq seq packet len jb =
     (case seq_find jb seq of
        None \<Rightarrow> Inr (SWITCH_STATUS_NOTFOUND, packet, len)
      | Some node \<Rightarrow>
          if unat (jn_len (nd jb node)) > body_len then Inl Out_Of_Bounds
          else Inr (SWITCH_STATUS_SUCCESS, (jn_packet (nd jb node))\<lparr>pk_version := 2\<rparr>, unat (jn_len (nd jb node))))"

definition switch_jb_get_last_read_len :: "switch_jb \<Rightarrow> nat" where
  "switch_jb_get_last_read_len jb = jb_last_len jb"

definition CF_VIDEO_BITRATE_UNMANAGABLE :: switch_channel_flag_t where "CF_VIDEO_BITRATE_UNMANAGABLE = 117"

definition control_bitrate :: "switch_channel \<Rightarrow> switch_jb \<Rightarrow> switch_jb c_result" where
  "control_bitrate channel jb =
     (if chan_flag channel CF_VIDEO_BITRATE_UNMANAGABLE \<and> jb_frame_len jb = jb_min_frame_len jb then
        and_then (switch_channel_clear_flag_recursive CF_VIDEO_BITRATE_UNMANAGABLE channel) (\<lambda>ch.
          Inr (video_refresh (jb\<lparr>jb_channel := Some ch, jb_bitrate_control := 0\<rparr>)))
      else if \<not> chan_flag channel CF_VIDEO_BITRATE_UNMANAGABLE \<and> jb_frame_len jb > jb_max_frame_len jb div 2 then
        and_then (switch_channel_set_flag_recursive CF_VIDEO_BITRATE_UNMANAGABLE channel) (\<lambda>ch.
          Inr (video_refresh (jb_emit (Jb_Bitrate_Req (jb_video_low_bitrate jb * 1024)) (jb\<lparr>jb_channel := Some ch, jb_bitrate_control := jb_video_low_bitrate jb\<rparr>))))
      else Inr jb)"

text \<open>At the end of a period of 250 calls the buffer may shrink, and the counters start again.\<close>

definition jb_period :: "switch_jb \<Rightarrow> switch_jb c_result" where
  "jb_period jb =
     (let jb = jb\<lparr>jb_period_count := jb_period_count jb + 1\<rparr>
      in if jb_period_count jb \<ge> PERIOD_LEN then
           (let jb = (if jb_consec_good_count jb \<ge> PERIOD_LEN - 5 then jb_frame_inc (- 1) jb else jb);
                jb = jb\<lparr>jb_period_count := 1, jb_period_miss_inc := 0, jb_period_miss_count := 0, jb_period_good_count := 0, jb_consec_miss_count := 0,
                  jb_consec_good_count := 0\<rparr>
            in case jb_channel jb of
                 Some channel \<Rightarrow> if is_video jb \<and> jb_video_low_bitrate jb \<noteq> 0 then control_bitrate channel jb else Inr jb
               | None \<Rightarrow> Inr jb)
         else Inr jb)"

text \<open>The percentage of misses is compared exactly; the number of calls of the period is below 250, so that the rounding of the
  code's floating point numbers makes no difference.\<close>

definition too_many_misses :: "switch_jb \<Rightarrow> bool" where
  "too_many_misses jb \<longleftrightarrow> unat (jb_period_miss_count jb) * 100 > 60 * unat (jb_period_count jb)"

definition read_node :: "nat \<Rightarrow> switch_jb \<Rightarrow> switch_jb" where
  "read_node node jb =
     (let seq = nd_seq jb node; ts = nd_ts jb node;
          jb = (if \<not> jb_read_init jb \<or> check_seq seq (ucast (jb_highest_read_seq jb)) then jb\<lparr>jb_highest_read_seq := ucast seq\<rparr> else jb);
          jb = (if \<not> is_video jb \<or> jb_read_init jb \<and> check_seq seq (ucast (jb_highest_read_seq jb)) \<and> check_ts ts (jb_highest_read_ts jb) then
                  (if \<not> is_video jb then jb\<lparr>jb_complete_frames := jb_complete_frames jb - 1\<rparr> else jb)\<lparr>jb_highest_read_ts := ts\<rparr>
                else if \<not> jb_read_init jb then jb\<lparr>jb_highest_read_ts := ts\<rparr> else jb)
      in jb\<lparr>jb_read_init := True\<rparr>)"

text \<open>What is answered when no packet was found; the second component asks to conceal a lost packet.\<close>

definition jb_not_found :: "switch_status_t \<Rightarrow> switch_jb \<Rightarrow> (switch_status_t \<times> bool \<times> switch_jb) c_result" where
  "jb_not_found status jb =
     (if is_video jb then
        and_then (switch_jb_reset jb) (\<lambda>jb. Inr (if status = SWITCH_STATUS_RESTART then SWITCH_STATUS_RESTART else SWITCH_STATUS_MORE_DATA, False, jb))
      else if status = SWITCH_STATUS_RESTART then and_then (switch_jb_reset jb) (\<lambda>jb. Inr (SWITCH_STATUS_RESTART, False, jb))
      else if jb_consec_miss_count jb > jb_frame_len jb then
        and_then (switch_jb_reset jb) (\<lambda>jb. Inr (SWITCH_STATUS_RESTART, False, jb_frame_inc 1 jb))
      else Inr (SWITCH_STATUS_NOTFOUND, True, jb))"

definition take_packet :: "switch_rtp_packet \<Rightarrow> nat \<Rightarrow> switch_jb \<Rightarrow> (switch_status_t \<times> switch_rtp_packet \<times> nat \<times> switch_jb) c_result" where
  "take_packet packet len jb =
     (case jb_next_packet jb of
        (status, Some node, jb) \<Rightarrow>
          (let jb = read_node node jb; len = unat (jn_len (nd jb node))
           in if len > body_len then Inl Out_Of_Bounds
              else Inr (SWITCH_STATUS_SUCCESS, (jn_packet (nd jb node))\<lparr>pk_version := 2\<rparr>, len, hide_node True node (jb\<lparr>jb_last_len := len\<rparr>)))
      | (status, None, jb) \<Rightarrow>
          and_then (jb_not_found status jb) (\<lambda>(status, plc, jb).
            Inr (status,
              if plc then
                (if jb_samples_per_frame jb \<noteq> 0 then packet\<lparr>pk_seq := htons (jb_last_psuedo_seq jb), pk_ts := jb_last_target_ts jb\<rparr>
                 else packet\<lparr>pk_seq := ucast (jb_last_target_seq jb), pk_ts := 0\<rparr>)
              else packet, len, jb)))"

definition shrink :: "switch_jb \<Rightarrow> switch_jb c_result" where
  "shrink jb =
     (let jb = (if jb_complete_frames jb > jb_max_frame_len jb then thin_frames 8 25 jb else jb)
      in if jb_complete_frames jb > jb_max_frame_len jb * 2 then switch_jb_reset jb else Inr jb)"

definition switch_jb_get_packet :: "switch_rtp_packet \<Rightarrow> nat \<Rightarrow> switch_jb \<Rightarrow> (switch_status_t \<times> switch_rtp_packet \<times> nat \<times> switch_jb) c_result" where
  "switch_jb_get_packet packet len jb =
     and_then
       (if jb_complete_frames jb = 0 then Inr (SWITCH_STATUS_BREAK, packet, len, jb\<lparr>jb_flush := 0\<rparr>)
        else if jb_complete_frames jb < jb_frame_len jb \<and> jb_flush jb = 0 then Inr (SWITCH_STATUS_MORE_DATA, packet, len, jb)
        else
          and_then (jb_period jb) (\<lambda>jb.
          and_then (if too_many_misses jb then switch_jb_reset jb else Inr jb) (\<lambda>jb.
            take_packet packet len jb)))
       (\<lambda>(status, packet, len, jb). and_then (shrink jb) (\<lambda>jb. Inr (status, packet, len, jb)))"

declare sort_loop.simps [simp del] next_node_by_seq.simps [simp del]

section \<open>Sorting is stable\<close>

text \<open>What the merge sort needs of its comparison: it orders by a key.\<close>

locale key_order =
  fixes cmp :: "'a \<Rightarrow> 'a \<Rightarrow> int" and key :: "'a \<Rightarrow> nat"
  assumes cmp_law: "cmp a b \<le> 0 \<longleftrightarrow> key a \<le> key b"
begin

lemma merge_runs_sorts:
  "c = cmp \<Longrightarrow> sorted (map key ps) \<Longrightarrow> sorted (map key (take n qs)) \<Longrightarrow> merge_runs c ps n qs = (e, r) \<Longrightarrow>
   sorted (map key e) \<and> mset e = mset ps + mset (take n qs) \<and> r = drop n qs \<and>
   (\<forall>v. filter (\<lambda>x. key x = v) e = filter (\<lambda>x. key x = v) ps @ filter (\<lambda>x. key x = v) (take n qs))"
proof (induction c ps n qs arbitrary: e r rule: merge_runs.induct)
  case (4 c p ps n q qs)
  show ?case
  proof (cases "cmp p q \<le> 0")
    case True
    then obtain e' where e: "merge_runs cmp ps (Suc n) (q # qs) = (e', r)" "e = p # e'" using 4(3,6) by (auto split: prod.splits)
    have ih: "sorted (map key e') \<and> mset e' = mset ps + mset (take (Suc n) (q # qs)) \<and> r = drop (Suc n) (q # qs) \<and>
        (\<forall>v. filter (\<lambda>x. key x = v) e' = filter (\<lambda>x. key x = v) ps @ filter (\<lambda>x. key x = v) (take (Suc n) (q # qs)))"
      using 4(1) [of e' r] e(1) 4(3,4,5) True by simp
    have "set e' = set ps \<union> set (take (Suc n) (q # qs))" using ih by (metis set_mset_mset set_mset_union)
    moreover have "key p \<le> key q" using True cmp_law by blast
    ultimately have "\<forall>x\<in>set e'. key p \<le> key x" using 4(4,5) by auto
    then show ?thesis using ih e(2) by simp
  next
    case False
    then obtain e' where e: "merge_runs cmp (p # ps) n qs = (e', r)" "e = q # e'" using 4(3,6) by (auto split: prod.splits)
    have ih: "sorted (map key e') \<and> mset e' = mset (p # ps) + mset (take n qs) \<and> r = drop n qs \<and>
        (\<forall>v. filter (\<lambda>x. key x = v) e' = filter (\<lambda>x. key x = v) (p # ps) @ filter (\<lambda>x. key x = v) (take n qs))"
      using 4(2) [of e' r] e(1) 4(3,4,5) False by simp
    have "set e' = set (p # ps) \<union> set (take n qs)" using ih by (metis set_mset_mset set_mset_union)
    moreover have less: "key q < key p" using False cmp_law by (meson not_le)
    ultimately have "\<forall>x\<in>set e'. key q \<le> key x" using 4(4,5) by auto
    moreover have "\<forall>x\<in>set (p # ps). key x \<noteq> key q" using less 4(4) by auto
    then have "filter (\<lambda>x. key x = key q) (p # ps) = []" by (simp add: filter_empty_conv)
    ultimately show ?thesis using ih e(2) by auto
  qed
qed auto

definition sorted_runs :: "nat \<Rightarrow> 'a list \<Rightarrow> bool" where
  "sorted_runs n l \<longleftrightarrow> (\<forall>i. sorted (map key (take n (drop (i * n) l))))"

lemma sorted_runs_drop: "sorted_runs n l \<Longrightarrow> sorted_runs n (drop (j * n) l)"
  unfolding sorted_runs_def by (metis add_mult_distrib drop_drop)

lemma sorted_runs_append:
  assumes "sorted (map key e)" and "length e \<le> n" and "l \<noteq> [] \<longrightarrow> length e = n" and "sorted_runs n l"
  shows "sorted_runs n (e @ l)"
  unfolding sorted_runs_def
proof
  fix i show "sorted (map key (take n (drop (i * n) (e @ l))))"
  proof (cases i)
    case 0
    then show ?thesis using assms(1-3) by (cases "l = []") simp_all
  next
    case (Suc j)
    show ?thesis
    proof (cases "l = []")
      case True
      then show ?thesis using Suc assms(2) by simp
    next
      case False
      then have "drop (i * n) (e @ l) = drop (j * n) l" using Suc assms(3) by simp
      then show ?thesis using assms(4) unfolding sorted_runs_def by metis
    qed
  qed
qed

lemma merge_pass_sorts:
  "c = cmp \<Longrightarrow> sorted_runs (2 ^ k) l \<Longrightarrow> merge_pass c k l = (l', m) \<Longrightarrow>
   sorted_runs (2 ^ (k + 1)) l' \<and> mset l' = mset l \<and> (\<forall>v. filter (\<lambda>x. key x = v) l' = filter (\<lambda>x. key x = v) l) \<and> (m \<le> 1 \<longrightarrow> sorted (map key l')) \<and>
   (m = 0 \<longleftrightarrow> l = [])"
proof (induction c k l arbitrary: l' m rule: merge_pass.induct)
  case (1 c k)
  then show ?case by (simp add: sorted_runs_def)
next
  case (2 c k x xs)
  let ?l = "x # xs" and ?n = "2 ^ k :: nat"
  obtain e r where e: "merge_runs cmp (take ?n ?l) ?n (drop ?n ?l) = (e, r)" by fastforce
  obtain t j where t: "merge_pass cmp k r = (t, j)" by fastforce
  have l': "l' = e @ t" "m = j + 1" using 2(2,4) e t by auto
  have s: "sorted (map key (take ?n ?l))" "sorted (map key (take ?n (drop ?n ?l)))"
    using 2(3) unfolding sorted_runs_def by (metis drop_0 mult_0, metis mult_1)
  note m = merge_runs_sorts [OF refl s e]
  have r: "r = drop (2 * ?n) ?l" using m by (simp add: drop_drop mult_2)
  have ih: "sorted_runs (2 ^ (k + 1)) t \<and> mset t = mset r \<and> (\<forall>v. filter (\<lambda>x. key x = v) t = filter (\<lambda>x. key x = v) r) \<and> (j \<le> 1 \<longrightarrow> sorted (map key t)) \<and> (j = 0 \<longleftrightarrow> r = [])"
    using 2(1) [of "(e, r)" e r t j] e t 2(2) sorted_runs_drop [OF 2(3), of 2] r by simp
  have split: "?l = take ?n ?l @ take ?n (drop ?n ?l) @ r" using m by (metis append_take_drop_id)
  have len: "length e + length r = length ?l" using merge_runs_length [OF e] by (metis append_take_drop_id length_append)
  have "t \<noteq> [] \<Longrightarrow> r \<noteq> []" using ih by auto
  then have "sorted_runs (2 ^ (k + 1)) (e @ t)"
    using m ih len r by (intro sorted_runs_append) auto
  moreover have "mset l' = mset ?l" using l' m ih split by (metis append.assoc mset_append)
  moreover have "filter (\<lambda>x. key x = v) l' = filter (\<lambda>x. key x = v) ?l" for v
    using l' m ih split by (metis append.assoc filter_append)
  moreover have "m \<le> 1 \<longrightarrow> sorted (map key l')" using l' m ih by auto
  ultimately show ?case using l' by simp
qed

lemma sort_loop_sorts:
  "c = cmp \<Longrightarrow> sorted_runs (2 ^ k) l \<Longrightarrow>
   sorted (map key (sort_loop c k l)) \<and> mset (sort_loop c k l) = mset l \<and>
   (\<forall>v. filter (\<lambda>x. key x = v) (sort_loop c k l) = filter (\<lambda>x. key x = v) l)"
proof (induction c k l rule: sort_loop.induct)
  case (1 c k l)
  obtain l' m where p: "merge_pass c k l = (l', m)" by fastforce
  note s = merge_pass_sorts [OF 1(2,3) p]
  show ?case
  proof (cases "m \<le> 1")
    case True
    then show ?thesis using s p by (simp add: sort_loop.simps [of c k l])
  next
    case False
    then have "sort_loop c k l = sort_loop c (k + 1) l'" using p by (simp add: sort_loop.simps [of c k l])
    then show ?thesis using 1(1) [OF p [symmetric] refl False 1(2)] s by simp
  qed
qed

lemma sort_nodes_sorts: "sort_nodes cmp l = sort_key key l"
proof (cases "l = []")
  case False
  have runs: "sorted_runs (2 ^ 0) l" unfolding sorted_runs_def by (auto simp: sorted_iff_nth_mono_less)
  show ?thesis
    unfolding sort_nodes_def using False sort_loop_sorts [OF refl runs]
    by (simp, intro properties_for_sort_key [symmetric]) (simp_all add: eq_commute)
qed (simp add: sort_nodes_def)

end

definition node_key :: "switch_jb \<Rightarrow> nat \<Rightarrow> nat" where
  "node_key jb a = (if nd_visible jb a then Suc (unat (ntohs (nd_seq jb a))) else 0)"

interpretation nodes: key_order "node_cmp jb" "node_key jb" for jb
  by unfold_locales (auto simp: node_cmp_def node_key_def word_le_nat_alt [symmetric] word_le_def [symmetric])

text \<open>C24: The bottom-up merge sort of \<^verbatim>\<open>sort_nodes\<close>, which splices the links of the node list in passes of doubling runs, is a
  stable sort: for any list of nodes it returns what the library's \<^const>\<open>sort_key\<close> returns for the key that puts hidden nodes first, in their order,
  and then the visible ones by sequence number in host order.\<close>

theorem jb_sort_stable: "sort_nodes (node_cmp jb) l = sort_key (node_key jb) l"
  by (rule nodes.sort_nodes_sorts)

end
