(* ===== verification/FS_Jitterbuffer_Safe.thy ===== *)
theory FS_Jitterbuffer_Safe
  imports FS_Jitterbuffer
begin

text \<open>
  Every call on a jitter buffer, in any order, runs without a fault and keeps the buffer well formed: what the tables that map sequence
  numbers and time stamps to nodes promise (from the laws of the hash table), the invariant of the buffer, that each operation of
  \<^verbatim>\<open>switch_jitterbuffer.c\<close> keeps it, and sequences of calls. A locale states what hiding nodes must keep for the loops that drop
  frames to keep it.
\<close>

section \<open>Tables of integers\<close>

text \<open>A table of the integer interface seen as a map.\<close>

definition hash_ok :: "(uint32_t, 'v) switch_hashtable \<Rightarrow> bool" where
  "hash_ok h \<longleftrightarrow> (\<exists>bs. table_rep switch_hash_default_int switch_hash_equalkeys_int h bs \<and> (\<forall>b\<in>set bs. snd (snd b) = None))"

lemma hash_init_ok:
  obtains h :: "(uint32_t, 'v) switch_hashtable"
  where "switch_core_inthash_init True = Inr (SWITCH_STATUS_SUCCESS, Some h)" "hash_ok h" "\<And>k. switch_core_inthash_find h k = None"
proof -
  obtain h :: "(uint32_t, 'v) switch_hashtable" where h: "switch_create_hashtable True 16 switch_hash_default_int switch_hash_equalkeys_int = Inr (SWITCH_STATUS_SUCCESS, Some h)"
    "table_rep switch_hash_default_int switch_hash_equalkeys_int h []" by (rule create_rep)
  have "hash_ok h" unfolding hash_ok_def using h(2) by (intro exI [of _ "[]"]) simp
  moreover have "switch_core_inthash_find h k = None" for k
    using hash_int.find_law [OF h(2), of k] by (simp add: spec_find_def bindings_of_def)
  ultimately show ?thesis using that [of h] h(1) by (simp add: switch_core_inthash_init_def)
qed

lemma spec_find_without: "spec_find switch_hash_equalkeys_int k (bindings_without switch_hash_equalkeys_int x bs) = (if k = x then None else spec_find switch_hash_equalkeys_int k bs)"
proof -
  have "bindings_of switch_hash_equalkeys_int k (bindings_without switch_hash_equalkeys_int x bs) =
      (if k = x then [] else bindings_of switch_hash_equalkeys_int k bs)"
    by (auto simp: bindings_of_def bindings_without_def switch_hash_equalkeys_int_def filter_empty_conv intro!: filter_cong)
  then show ?thesis by (simp add: spec_find_def)
qed

lemma spec_find_cons: "spec_find switch_hash_equalkeys_int k ((x, v, d) # bs) = (if k = x then v else spec_find switch_hash_equalkeys_int k bs)"
  by (simp add: spec_find_def bindings_of_def switch_hash_equalkeys_int_def)

lemma hash_insert_ok:
  assumes "hash_ok h" and "alloc_ok a"
  obtains st eff h' where "switch_core_inthash_insert a h x v = Inr (st, eff, h')" "hash_ok h'"
    "\<And>k. switch_core_inthash_find h' k = (if k = x then (if entry_ok a then v else None) else switch_core_inthash_find h k)"
proof -
  obtain bs where bs: "table_rep switch_hash_default_int switch_hash_equalkeys_int h bs" "\<forall>b\<in>set bs. snd (snd b) = None"
    using assms(1) unfolding hash_ok_def by blast
  let ?bs = "(if entry_ok a then [(x, v, None)] else []) @ bindings_without switch_hash_equalkeys_int x bs"
  have adm: "alloc_ok a \<and> (None :: nat option) = None" using assms(2) by simp
  obtain st eff h' where r: "switch_core_inthash_insert a h x v = Inr (st, eff, h')" "table_rep switch_hash_default_int switch_hash_equalkeys_int h' ?bs"
    using hash_int.insert_law [OF bs(1) adm, of x v] by blast
  have "hash_ok h'" unfolding hash_ok_def using r(2) bs(2) by (intro exI [of _ ?bs]) (auto simp: bindings_without_def)
  moreover have "switch_core_inthash_find h' k = (if k = x then (if entry_ok a then v else None) else switch_core_inthash_find h k)" for k
    using hash_int.find_law [OF r(2), of k] hash_int.find_law [OF bs(1), of k] by (simp add: spec_find_cons spec_find_without)
  ultimately show ?thesis using that r(1) by blast
qed

lemma hash_delete_ok:
  assumes "hash_ok h"
  obtains eff h' where "switch_core_inthash_delete h x = (switch_core_inthash_find h x, eff, h')" "hash_ok h'"
    "\<And>k. switch_core_inthash_find h' k = (if k = x then None else switch_core_inthash_find h k)"
proof -
  obtain bs where bs: "table_rep switch_hash_default_int switch_hash_equalkeys_int h bs" "\<forall>b\<in>set bs. snd (snd b) = None"
    using assms unfolding hash_ok_def by blast
  let ?bs = "bindings_without switch_hash_equalkeys_int x bs"
  obtain eff h' where r: "switch_core_inthash_delete h x = (spec_taken switch_hash_equalkeys_int x bs, eff, h')" "table_rep switch_hash_default_int switch_hash_equalkeys_int h' ?bs"
    using hash_int.delete_law [OF bs(1), of x] by blast
  have "\<forall>b\<in>set (bindings_of switch_hash_equalkeys_int x bs). snd (snd b) = None" using bs(2) by (simp add: bindings_of_def)
  then have "spec_taken switch_hash_equalkeys_int x bs = spec_find switch_hash_equalkeys_int x bs"
    by (auto simp: spec_taken_def spec_find_def split: list.split)
  then have "switch_core_inthash_delete h x = (switch_core_inthash_find h x, eff, h')" using r(1) hash_int.find_law [OF bs(1), of x] by simp
  moreover have "hash_ok h'" unfolding hash_ok_def using r(2) bs(2) by (intro exI [of _ ?bs]) (auto simp: bindings_without_def)
  moreover have "switch_core_inthash_find h' k = (if k = x then None else switch_core_inthash_find h k)" for k
    using hash_int.find_law [OF r(2), of k] hash_int.find_law [OF bs(1), of k] by (simp add: spec_find_without)
  ultimately show ?thesis using that by blast
qed

definition hash_del :: "(uint32_t, 'v) switch_hashtable \<Rightarrow> uint32_t \<Rightarrow> (uint32_t, 'v) switch_hashtable" where
  "hash_del h x = snd (snd (switch_core_inthash_delete h x))"

lemma hash_del_ok:
  assumes "hash_ok h"
  shows "hash_ok (hash_del h x)" "switch_core_inthash_find (hash_del h x) k = (if k = x then None else switch_core_inthash_find h k)"
    "fst (switch_core_inthash_delete h x) = switch_core_inthash_find h x"
  by (rule hash_delete_ok [OF assms, of x], simp add: hash_del_def)+

section \<open>Well-formed buffers\<close>

definition nodes_ok :: "switch_jb_node list \<Rightarrow> nat list \<Rightarrow> uint32_t \<Rightarrow> bool" where
  "nodes_ok store l vis \<longleftrightarrow> distinct l \<and> set l = {..<length store} \<and> (\<forall>n\<in>set store. unat (jn_len n) \<le> body_len) \<and>
     vis = of_nat (length (filter jn_visible store))"

definition hash_in :: "nat \<Rightarrow> (uint32_t, nat) switch_hashtable \<Rightarrow> bool" where
  "hash_in n h \<longleftrightarrow> hash_ok h \<and> (\<forall>k a. switch_core_inthash_find h k = Some a \<longrightarrow> a < n)"

text \<open>The table of missing packets has 16-bit keys.\<close>

definition missing_ok :: "(uint32_t, uint32_t) switch_hashtable \<Rightarrow> bool" where
  "missing_ok h \<longleftrightarrow> (\<exists>bs. table_rep switch_hash_default_int switch_hash_equalkeys_int h bs \<and> (\<forall>b\<in>set bs. snd (snd b) = None \<and> fst b < 65536))"

lemma missing_hash: "missing_ok h \<Longrightarrow> hash_ok h"
  by (auto simp: missing_ok_def hash_ok_def)

lemma missing_init_ok:
  obtains h where "switch_core_inthash_init True = Inr (SWITCH_STATUS_SUCCESS, Some h)" "missing_ok h"
proof -
  obtain h :: "(uint32_t, uint32_t) switch_hashtable" where h: "switch_create_hashtable True 16 switch_hash_default_int switch_hash_equalkeys_int = Inr (SWITCH_STATUS_SUCCESS, Some h)"
    "table_rep switch_hash_default_int switch_hash_equalkeys_int h []" by (rule create_rep)
  have "missing_ok h" unfolding missing_ok_def using h(2) by (intro exI [of _ "[]"]) simp
  then show ?thesis using that [of h] h(1) by (simp add: switch_core_inthash_init_def)
qed

lemma missing_insert_ok:
  assumes "missing_ok h" and "alloc_ok a" and "x < 65536"
  obtains st eff h' where "switch_core_inthash_insert a h x v = Inr (st, eff, h')" "missing_ok h'"
proof -
  obtain bs where bs: "table_rep switch_hash_default_int switch_hash_equalkeys_int h bs" "\<forall>b\<in>set bs. snd (snd b) = None \<and> fst b < 65536"
    using assms(1) unfolding missing_ok_def by blast
  let ?bs = "(if entry_ok a then [(x, v, None)] else []) @ bindings_without switch_hash_equalkeys_int x bs"
  have adm: "alloc_ok a \<and> (None :: nat option) = None" using assms(2) by simp
  obtain st eff h' where r: "switch_core_inthash_insert a h x v = Inr (st, eff, h')" "table_rep switch_hash_default_int switch_hash_equalkeys_int h' ?bs"
    using hash_int.insert_law [OF bs(1) adm, of x v] by blast
  have "missing_ok h'" unfolding missing_ok_def using r(2) bs(2) assms(3) by (intro exI [of _ ?bs]) (auto simp: bindings_without_def)
  then show ?thesis using that r(1) by blast
qed

lemma missing_delete_ok:
  assumes "missing_ok h"
  shows "missing_ok (hash_del h x)" "switch_core_inthash_delete h x = (switch_core_inthash_find h x, fst (snd (switch_core_inthash_delete h x)), hash_del h x)"
proof -
  obtain bs where bs: "table_rep switch_hash_default_int switch_hash_equalkeys_int h bs" "\<forall>b\<in>set bs. snd (snd b) = None \<and> fst b < 65536"
    using assms(1) unfolding missing_ok_def by blast
  let ?bs = "bindings_without switch_hash_equalkeys_int x bs"
  have "table_rep switch_hash_default_int switch_hash_equalkeys_int (hash_del h x) ?bs"
    using hash_int.delete_law [OF bs(1), of x] by (auto simp: hash_del_def)
  then show "missing_ok (hash_del h x)" unfolding missing_ok_def using bs(2) by (intro exI [of _ ?bs]) (auto simp: bindings_without_def)
  show "switch_core_inthash_delete h x = (switch_core_inthash_find h x, fst (snd (switch_core_inthash_delete h x)), hash_del h x)"
    using hash_del_ok(3) [OF missing_hash [OF assms], of x] by (simp add: hash_del_def prod_eq_iff)
qed

definition jb_wf :: "switch_jb \<Rightarrow> bool" where
  "jb_wf jb \<longleftrightarrow> nodes_ok (jb_store jb) (jb_node_list jb) (jb_visible_nodes jb) \<and> hash_in (length (jb_store jb)) (jb_node_hash jb) \<and>
     (\<forall>h. jb_node_hash_ts jb = Some h \<longrightarrow> hash_in (length (jb_store jb)) h) \<and>
     (is_video jb \<longrightarrow> (\<exists>h. jb_missing_seq_hash jb = Some h \<and> missing_ok h))"

lemma filter_update:
  "i < length xs \<Longrightarrow> P (xs ! i) \<Longrightarrow> \<not> P y \<Longrightarrow> Suc (length (filter P (xs[i := y]))) = length (filter P xs)"
  "i < length xs \<Longrightarrow> \<not> P (xs ! i) \<Longrightarrow> P y \<Longrightarrow> length (filter P (xs[i := y])) = Suc (length (filter P xs))"
  "i < length xs \<Longrightarrow> P (xs ! i) = P y \<Longrightarrow> length (filter P (xs[i := y])) = length (filter P xs)"
proof -
  have s: "i < length xs \<Longrightarrow> xs[i := y] = take i xs @ y # drop (Suc i) xs" by (rule upd_conv_take_nth_drop)
  have x: "i < length xs \<Longrightarrow> length (filter P xs) = length (filter P (take i xs)) + (if P (xs ! i) then 1 else 0) + length (filter P (drop (Suc i) xs))"
    by (subst id_take_nth_drop [of i xs]) simp_all
  show "i < length xs \<Longrightarrow> P (xs ! i) \<Longrightarrow> \<not> P y \<Longrightarrow> Suc (length (filter P (xs[i := y]))) = length (filter P xs)"
    "i < length xs \<Longrightarrow> \<not> P (xs ! i) \<Longrightarrow> P y \<Longrightarrow> length (filter P (xs[i := y])) = Suc (length (filter P xs))"
    "i < length xs \<Longrightarrow> P (xs ! i) = P y \<Longrightarrow> length (filter P (xs[i := y])) = length (filter P xs)"
    using x by (simp_all add: s)
qed

lemma nodes_hide:
  assumes "nodes_ok store l vis" and "n < length store" and "jn_visible (store ! n)"
  shows "nodes_ok (store[n := (store ! n)\<lparr>jn_visible := False, jn_bad_hits := 0\<rparr>]) l (vis - 1)"
proof -
  have "Suc (length (filter jn_visible (store[n := (store ! n)\<lparr>jn_visible := False, jn_bad_hits := 0\<rparr>]))) = length (filter jn_visible store)"
    using assms(2,3) by (intro filter_update(1)) simp_all
  then have "of_nat (length (filter jn_visible store)) = (1 + of_nat (length (filter jn_visible (store[n := (store ! n)\<lparr>jn_visible := False, jn_bad_hits := 0\<rparr>]))) :: uint32_t)"
    by (metis of_nat_Suc)
  moreover have "\<forall>m\<in>set (store[n := (store ! n)\<lparr>jn_visible := False, jn_bad_hits := 0\<rparr>]). unat (jn_len m) \<le> body_len"
    using assms(1,2) by (auto simp: nodes_ok_def dest!: set_update_subset_insert [THEN subsetD])
  ultimately show ?thesis using assms(1) by (simp add: nodes_ok_def)
qed

lemma nodes_show:
  assumes "nodes_ok store l vis" and "n < length store" and "\<not> jn_visible (store ! n)"
  shows "nodes_ok (store[n := (store ! n)\<lparr>jn_bad_hits := 0, jn_visible := True\<rparr>]) l (vis + 1)"
proof -
  have "length (filter jn_visible (store[n := (store ! n)\<lparr>jn_bad_hits := 0, jn_visible := True\<rparr>])) = Suc (length (filter jn_visible store))"
    using assms(2,3) by (intro filter_update(2)) simp_all
  moreover have "\<forall>m\<in>set (store[n := (store ! n)\<lparr>jn_bad_hits := 0, jn_visible := True\<rparr>]). unat (jn_len m) \<le> body_len"
    using assms(1,2) by (auto simp: nodes_ok_def dest!: set_update_subset_insert [THEN subsetD])
  ultimately show ?thesis using assms(1) by (simp add: nodes_ok_def)
qed

lemma nodes_update:
  assumes "nodes_ok store l vis" and "n < length store" and "jn_visible y = jn_visible (store ! n)" and "unat (jn_len y) \<le> body_len"
  shows "nodes_ok (store[n := y]) l vis"
proof -
  have "length (filter jn_visible (store[n := y])) = length (filter jn_visible store)" using assms(2,3) by (intro filter_update(3)) simp_all
  moreover have "\<forall>m\<in>set (store[n := y]). unat (jn_len m) \<le> body_len"
    using assms(1,4) by (auto simp: nodes_ok_def dest!: set_update_subset_insert [THEN subsetD])
  ultimately show ?thesis using assms(1) by (simp add: nodes_ok_def)
qed

lemma nodes_perm: "nodes_ok store l vis \<Longrightarrow> mset l' = mset l \<Longrightarrow> nodes_ok store l' vis"
  using mset_eq_setD [of l' l] mset_eq_imp_distinct_iff [of l' l] by (simp add: nodes_ok_def)

lemma nodes_new:
  assumes "nodes_ok store l vis"
  shows "nodes_ok (store @ [zero_node]) (length store # l) vis"
  using assms by (auto simp: nodes_ok_def zero_node_def)

section \<open>What the operations change\<close>

lemma nd_upd: "nd (upd_nd a f jb) b = (if a = b \<and> a < length (jb_store jb) then f (nd jb a) else nd jb b)"
  by (cases "a = b") (simp_all add: nd_def upd_nd_def list_update_beyond)

lemma hide_node_list: "jb_node_list (hide_node pop n jb) = (if nd_visible jb n \<and> pop then n # remove1 n (jb_node_list jb) else jb_node_list jb)"
  by (simp add: hide_node_def push_to_top_def upd_nd_def Let_def split: prod.split option.split)

lemma hide_node_store:
  "jb_store (hide_node pop n jb) = (if nd_visible jb n then (jb_store jb)[n := (nd jb n)\<lparr>jn_visible := False, jn_bad_hits := 0\<rparr>] else jb_store jb)"
  by (simp add: hide_node_def push_to_top_def upd_nd_def Let_def split: prod.split option.split)

lemma hide_node_visible: "jb_visible_nodes (hide_node pop n jb) = (if nd_visible jb n then jb_visible_nodes jb - 1 else jb_visible_nodes jb)"
  by (simp add: hide_node_def push_to_top_def upd_nd_def Let_def split: prod.split option.split)

lemma hide_node_hash: "n < length (jb_store jb) \<Longrightarrow> jb_node_hash (hide_node pop n jb) = hash_del (jb_node_hash jb) (hash_key (nd_seq jb n))"
  by (simp add: hide_node_def push_to_top_def upd_nd_def hash_del_def nd_def Let_def split: prod.split option.split)

lemma hide_node_hash_ts: "n < length (jb_store jb) \<Longrightarrow> jb_node_hash_ts (hide_node pop n jb) = map_option (\<lambda>h. hash_del h (nd_ts jb n)) (jb_node_hash_ts jb)"
  by (simp add: hide_node_def push_to_top_def upd_nd_def hash_del_def nd_def Let_def split: prod.split option.split)

lemma hide_node_complete:
  "n < length (jb_store jb) \<Longrightarrow> hash_ok (jb_node_hash jb) \<Longrightarrow>
   jb_complete_frames (hide_node pop n jb) =
     (if seq_find jb (nd_seq jb n) \<noteq> None \<and> pk_version (jn_packet (nd jb n)) = 1 \<and> is_video jb then jb_complete_frames jb - 1 else jb_complete_frames jb)"
proof -
  assume n: "n < length (jb_store jb)" and h: "hash_ok (jb_node_hash jb)"
  obtain eff h' where d: "switch_core_inthash_delete (jb_node_hash jb) (hash_key (nd_seq jb n)) = (seq_find jb (nd_seq jb n), eff, h')"
    using hash_delete_ok [OF h] unfolding seq_find_def by blast
  show ?thesis
    using n d by (cases "nd_visible jb n"; cases "jb_node_hash_ts jb") (auto simp add: hide_node_def push_to_top_def upd_nd_def nd_def Let_def)
qed

lemma hide_node_other [simp]:
  "jb_missing_seq_hash (hide_node pop n jb) = jb_missing_seq_hash jb" "jb_samples_per_frame (hide_node pop n jb) = jb_samples_per_frame jb"
  "jb_frame_len (hide_node pop n jb) = jb_frame_len jb" "jb_min_frame_len (hide_node pop n jb) = jb_min_frame_len jb"
  "jb_max_frame_len (hide_node pop n jb) = jb_max_frame_len jb" "jb_target_seq (hide_node pop n jb) = jb_target_seq jb"
  "jb_flags (hide_node pop n jb) = jb_flags jb" "jb_allocated_nodes (hide_node pop n jb) = jb_allocated_nodes jb"
  "jb_period_count (hide_node pop n jb) = jb_period_count jb" "jb_period_miss_count (hide_node pop n jb) = jb_period_miss_count jb"
  "jb_flush (hide_node pop n jb) = jb_flush jb"
  by (simp_all add: hide_node_def push_to_top_def upd_nd_def Let_def split: prod.split option.split)

lemmas hide_node_changes = hide_node_list hide_node_store hide_node_visible hide_node_hash hide_node_hash_ts

lemma length_hide [simp]: "length (jb_store (hide_node pop n jb)) = length (jb_store jb)"
  by (simp add: hide_node_store)

lemma hash_in_del: "hash_in n h \<Longrightarrow> hash_in n (hash_del h k)"
  by (auto simp: hash_in_def hash_del_ok split: if_splits)

lemma hide_node_wf:
  assumes "jb_wf jb" and "n < length (jb_store jb)"
  shows "jb_wf (hide_node pop n jb)"
proof -
  have n: "nodes_ok (jb_store jb) (jb_node_list jb) (jb_visible_nodes jb)" "n \<in> set (jb_node_list jb)"
    using assms by (simp_all add: jb_wf_def nodes_ok_def)
  have "nodes_ok (jb_store (hide_node pop n jb)) (jb_node_list (hide_node pop n jb)) (jb_visible_nodes (hide_node pop n jb))"
  proof (cases "nd_visible jb n")
    case True
    then have "nodes_ok (jb_store (hide_node pop n jb)) (jb_node_list jb) (jb_visible_nodes (hide_node pop n jb))"
      using nodes_hide [OF n(1) assms(2)] by (simp add: hide_node_store hide_node_visible nd_def)
    moreover have "mset (jb_node_list (hide_node pop n jb)) = mset (jb_node_list jb)" using n(2) by (simp add: hide_node_list)
    ultimately show ?thesis by (rule nodes_perm)
  qed (use n(1) in \<open>simp add: hide_node_changes\<close>)
  moreover have "hash_in (length (jb_store jb)) (jb_node_hash (hide_node pop n jb))"
    using assms by (simp add: jb_wf_def hide_node_hash hash_in_del)
  moreover have "\<forall>h. jb_node_hash_ts (hide_node pop n jb) = Some h \<longrightarrow> hash_in (length (jb_store jb)) h"
    using assms by (auto simp: jb_wf_def hide_node_hash_ts hash_in_del)
  ultimately show ?thesis using assms(1) by (simp add: jb_wf_def)
qed

text \<open>Fields that hiding nodes keeps.\<close>

definition same_shape :: "switch_jb \<Rightarrow> switch_jb \<Rightarrow> bool" where
  "same_shape jb jb' \<longleftrightarrow> length (jb_store jb') = length (jb_store jb) \<and> mset (jb_node_list jb') = mset (jb_node_list jb) \<and> jb_type jb' = jb_type jb \<and>
     jb_missing_seq_hash jb' = jb_missing_seq_hash jb \<and> jb_samples_per_frame jb' = jb_samples_per_frame jb \<and> jb_frame_len jb' = jb_frame_len jb \<and>
     jb_min_frame_len jb' = jb_min_frame_len jb \<and> jb_max_frame_len jb' = jb_max_frame_len jb \<and> jb_flags jb' = jb_flags jb \<and>
     jb_allocated_nodes jb' = jb_allocated_nodes jb \<and> (jb_node_hash_ts jb' = None \<longleftrightarrow> jb_node_hash_ts jb = None)"

lemma same_shape_refl [simp]: "same_shape jb jb"
  by (simp add: same_shape_def)

lemma same_shape_trans: "same_shape a b \<Longrightarrow> same_shape b c \<Longrightarrow> same_shape a c"
  by (simp add: same_shape_def)

lemma hide_node_shape: "n < length (jb_store jb) \<Longrightarrow> n \<in> set (jb_node_list jb) \<Longrightarrow> same_shape jb (hide_node pop n jb)"
  by (simp add: same_shape_def hide_node_changes)

lemma sort_free_mset: "mset (jb_node_list (sort_free_nodes jb)) = mset (jb_node_list jb)"
  by (simp add: sort_free_nodes_def nodes.sort_nodes_sorts)

text \<open>What hiding listed nodes and sorting the list keep is kept by every operation that drops packets.\<close>

locale hiding_stable =
  fixes P :: "switch_jb \<Rightarrow> bool"
  assumes hide_law: "P jb \<Longrightarrow> n \<in> set (jb_node_list jb) \<Longrightarrow> P (hide_node False n jb)"
    and sort_law: "P jb \<Longrightarrow> P (sort_free_nodes jb)"
begin

lemma hide_fold: "P jb \<Longrightarrow> set l \<subseteq> set (jb_node_list jb) \<Longrightarrow> P (fold (hide_node False) l jb)"
  by (induction l arbitrary: jb) (simp_all add: hide_law hide_node_list)

lemma hide_all: "P jb \<Longrightarrow> P (hide_nodes jb)"
  unfolding hide_nodes_def by (rule hide_fold) simp_all

lemma drop_ts_loop: "P jb \<Longrightarrow> set l \<subseteq> set (jb_node_list jb) \<Longrightarrow> P (snd (drop_ts_loop ts l x jb))"
  by (induction ts l x jb rule: drop_ts_loop.induct) (simp_all add: hide_law hide_node_list)

lemma drop: "P jb \<Longrightarrow> P (drop_ts ts jb)"
  using drop_ts_loop [of jb "jb_node_list jb" ts 0] by (auto simp: drop_ts_def sort_law split: prod.split)

lemma thin_loop: "P jb \<Longrightarrow> P (thin_loop f most l i d jb)"
  by (induction f most l i d jb rule: thin_loop.induct) (simp_all add: drop Let_def)

lemma thin: "P jb \<Longrightarrow> P (thin_frames f most jb)"
  unfolding thin_frames_def by (intro sort_law thin_loop)

end

interpretation wf_hiding: hiding_stable "\<lambda>x. jb_wf x \<and> same_shape jb x" for jb
proof
  fix x n assume x: "jb_wf x \<and> same_shape jb x" "n \<in> set (jb_node_list x)"
  then have n: "n < length (jb_store x)" by (simp add: jb_wf_def nodes_ok_def)
  show "jb_wf (hide_node False n x) \<and> same_shape jb (hide_node False n x)"
    using x hide_node_wf [OF _ n] hide_node_shape [OF n] same_shape_trans by blast
next
  fix x assume x: "jb_wf x \<and> same_shape jb x"
  have "jb_wf (sort_free_nodes x)" using x nodes_perm [of "jb_store x" "jb_node_list x" "jb_visible_nodes x" "jb_node_list (sort_free_nodes x)"] sort_free_mset [of x]
    by (simp add: jb_wf_def) (simp add: sort_free_nodes_def)
  moreover have "same_shape x (sort_free_nodes x)" using sort_free_mset [of x] by (simp add: same_shape_def) (simp add: sort_free_nodes_def)
  ultimately show "jb_wf (sort_free_nodes x) \<and> same_shape jb (sort_free_nodes x)" using x same_shape_trans by blast
qed

lemma hide_nodes_ok: "jb_wf jb \<Longrightarrow> jb_wf (hide_nodes jb) \<and> same_shape jb (hide_nodes jb)"
  by (rule wf_hiding.hide_all) simp

lemma drop_ts_ok: "jb_wf jb \<Longrightarrow> jb_wf (drop_ts ts jb) \<and> same_shape jb (drop_ts ts jb)"
  by (rule wf_hiding.drop) simp

lemma thin_frames_ok: "jb_wf jb \<Longrightarrow> jb_wf (thin_frames f most jb) \<and> same_shape jb (thin_frames f most jb)"
  by (rule wf_hiding.thin) simp

lemma wf_fields:
  "jb_wf jb \<Longrightarrow> jb_store jb' = jb_store jb \<Longrightarrow> jb_node_list jb' = jb_node_list jb \<Longrightarrow> jb_visible_nodes jb' = jb_visible_nodes jb \<Longrightarrow>
   jb_node_hash jb' = jb_node_hash jb \<Longrightarrow> jb_node_hash_ts jb' = jb_node_hash_ts jb \<Longrightarrow> jb_type jb' = jb_type jb \<Longrightarrow>
   jb_missing_seq_hash jb' = jb_missing_seq_hash jb \<Longrightarrow> jb_wf jb'"
  by (simp add: jb_wf_def)

lemma video_refresh_fields [simp]:
  "jb_store (video_refresh jb) = jb_store jb" "jb_node_list (video_refresh jb) = jb_node_list jb" "jb_visible_nodes (video_refresh jb) = jb_visible_nodes jb"
  "jb_node_hash (video_refresh jb) = jb_node_hash jb" "jb_node_hash_ts (video_refresh jb) = jb_node_hash_ts jb" "jb_type (video_refresh jb) = jb_type jb"
  "jb_missing_seq_hash (video_refresh jb) = jb_missing_seq_hash jb" "jb_frame_len (video_refresh jb) = jb_frame_len jb"
  "jb_min_frame_len (video_refresh jb) = jb_min_frame_len jb" "jb_max_frame_len (video_refresh jb) = jb_max_frame_len jb"
  "jb_samples_per_frame (video_refresh jb) = jb_samples_per_frame jb" "jb_flags (video_refresh jb) = jb_flags jb"
  "jb_allocated_nodes (video_refresh jb) = jb_allocated_nodes jb" "jb_target_seq (video_refresh jb) = jb_target_seq jb"
  "jb_dropped (video_refresh jb) = jb_dropped jb" "jb_complete_frames (video_refresh jb) = jb_complete_frames jb"
  by (simp_all add: video_refresh_def jb_emit_def)

text \<open>What survives a reset.\<close>

definition reset_shape :: "switch_jb \<Rightarrow> switch_jb \<Rightarrow> bool" where
  "reset_shape jb jb' \<longleftrightarrow> length (jb_store jb') = length (jb_store jb) \<and> jb_type jb' = jb_type jb \<and> jb_samples_per_frame jb' = jb_samples_per_frame jb \<and>
     jb_frame_len jb' = jb_frame_len jb \<and> jb_min_frame_len jb' = jb_min_frame_len jb \<and> jb_max_frame_len jb' = jb_max_frame_len jb \<and>
     jb_flags jb' = jb_flags jb \<and> jb_allocated_nodes jb' = jb_allocated_nodes jb \<and> (jb_node_hash_ts jb' = None \<longleftrightarrow> jb_node_hash_ts jb = None)"

definition cleared :: "switch_jb \<Rightarrow> switch_jb" where
  "cleared jb = jb\<lparr>jb_drop_flag := 0, jb_last_target_seq := 0, jb_target_seq := 0, jb_write_init := False, jb_highest_wrote_seq := 0,
         jb_highest_wrote_ts := 0, jb_next_seq := 0, jb_highest_read_ts := 0, jb_highest_read_seq := 0, jb_read_init := False, jb_complete_frames := 0,
         jb_period_miss_count := 0, jb_consec_miss_count := 0, jb_period_good_count := 0, jb_consec_good_count := 0, jb_period_count := 0,
         jb_period_miss_inc := 0, jb_target_ts := 0, jb_last_target_ts := 0\<rparr>"

lemma cleared_fields [simp]:
  "jb_store (cleared jb) = jb_store jb" "jb_node_list (cleared jb) = jb_node_list jb" "jb_visible_nodes (cleared jb) = jb_visible_nodes jb"
  "jb_node_hash (cleared jb) = jb_node_hash jb" "jb_node_hash_ts (cleared jb) = jb_node_hash_ts jb" "jb_type (cleared jb) = jb_type jb"
  "jb_missing_seq_hash (cleared jb) = jb_missing_seq_hash jb" "jb_frame_len (cleared jb) = jb_frame_len jb"
  "jb_min_frame_len (cleared jb) = jb_min_frame_len jb" "jb_max_frame_len (cleared jb) = jb_max_frame_len jb"
  "jb_samples_per_frame (cleared jb) = jb_samples_per_frame jb" "jb_flags (cleared jb) = jb_flags jb"
  "jb_allocated_nodes (cleared jb) = jb_allocated_nodes jb" "jb_target_seq (cleared jb) = 0" "jb_complete_frames (cleared jb) = 0"
  by (simp_all add: cleared_def)

text \<open>The buffer whose nodes a reset hides.\<close>

lemma reset_eq:
  assumes "jb_wf jb"
  obtains jb1 where "switch_jb_reset jb = Inr (hide_nodes jb1)" "jb_wf jb1" "jb_store jb1 = jb_store jb" "jb_node_list jb1 = jb_node_list jb"
    "reset_shape jb jb1" "jb_complete_frames jb1 = 0" "jb_node_hash jb1 = jb_node_hash jb" "jb_target_seq jb1 = 0" "jb_visible_nodes jb1 = jb_visible_nodes jb"
proof (cases "is_video jb")
  case True
  then obtain m where m: "jb_missing_seq_hash jb = Some m" using assms by (auto simp: jb_wf_def)
  obtain h where h: "switch_core_inthash_init True = Inr (SWITCH_STATUS_SUCCESS, Some h)" "missing_ok h" by (rule missing_init_ok)
  let ?jb = "cleared (video_refresh (jb\<lparr>jb_missing_seq_hash := Some h\<rparr>))"
  have "switch_jb_reset jb = Inr (hide_nodes ?jb)"
    using True m h(1) by (simp add: switch_jb_reset_def cleared_def switch_core_inthash_destroy_def)
  moreover have "jb_wf ?jb" using assms True h(2) by (simp add: jb_wf_def)
  ultimately show ?thesis using that [of ?jb] by (simp add: reset_shape_def)
next
  case False
  have "switch_jb_reset jb = Inr (hide_nodes (cleared jb))" using False by (simp add: switch_jb_reset_def cleared_def)
  moreover have "jb_wf (cleared jb)" using assms by (rule wf_fields) simp_all
  ultimately show ?thesis using that [of "cleared jb"] by (simp add: reset_shape_def)
qed

lemma reset_ok:
  assumes "jb_wf jb"
  obtains jb' where "switch_jb_reset jb = Inr jb'" "jb_wf jb'" "reset_shape jb jb'"
proof (rule reset_eq [OF assms])
  fix jb1 assume j: "switch_jb_reset jb = Inr (hide_nodes jb1)" "jb_wf jb1" "reset_shape jb jb1"
  have "reset_shape jb (hide_nodes jb1)" using j(3) hide_nodes_ok [OF j(2)] by (simp add: reset_shape_def same_shape_def)
  then show ?thesis using that j hide_nodes_ok [OF j(2)] by blast
qed

lemma reset_shape_refl [simp]: "reset_shape jb jb"
  by (simp add: reset_shape_def)

lemma reset_shape_trans: "reset_shape a b \<Longrightarrow> reset_shape b c \<Longrightarrow> reset_shape a c"
  by (simp add: reset_shape_def)

lemma same_reset_shape: "same_shape a b \<Longrightarrow> reset_shape a b"
  by (simp add: reset_shape_def same_shape_def)

definition show_node :: "nat \<Rightarrow> switch_jb \<Rightarrow> switch_jb" where
  "show_node np jb = (upd_nd np (\<lambda>n. n\<lparr>jn_bad_hits := 0, jn_visible := True\<rparr>) jb)\<lparr>jb_visible_nodes := jb_visible_nodes jb + 1\<rparr>"

lemma show_node_wf:
  assumes "jb_wf jb" and "np < length (jb_store jb)" and "\<not> nd_visible jb np"
  shows "jb_wf (show_node np jb)"
  using assms nodes_show [of "jb_store jb" "jb_node_list jb" "jb_visible_nodes jb" np]
  by (simp add: jb_wf_def show_node_def upd_nd_def nd_def)

lemma hash_in_mono: "hash_in n h \<Longrightarrow> n \<le> m \<Longrightarrow> hash_in m h"
  by (meson hash_in_def less_le_trans)

lemma alloc_node_wf:
  assumes "jb_wf jb"
  shows "jb_wf (snd (alloc_node jb))"
  using assms nodes_new [of "jb_store jb" "jb_node_list jb" "jb_visible_nodes jb"] hash_in_mono [of "length (jb_store jb)" _ "Suc (length (jb_store jb))"]
  by (auto simp: jb_wf_def alloc_node_def)

text \<open>The three outcomes of \<^verbatim>\<open>new_node\<close>: a hidden node is shown, a node is allocated, or there are too many.\<close>

lemma new_node_cases:
  assumes "jb_wf jb"
  obtains (found) np where "new_node jb = Inr (Some np, show_node np jb)" "np \<in> set (jb_node_list jb)" "np < length (jb_store jb)" "\<not> nd_visible jb np"
  | (alloc) "new_node jb = Inr (Some (length (jb_store jb)), show_node (length (jb_store jb)) (snd (alloc_node jb)))"
      "jb_allocated_nodes jb \<le> node_limit jb" "\<forall>np < length (jb_store jb). nd_visible jb np"
  | (full) jb' where "new_node jb = Inr (None, jb')" "switch_jb_reset jb = Inr jb'"
proof (cases "List.find (\<lambda>np. \<not> nd_visible jb np) (jb_node_list jb)")
  case (Some np)
  then have np: "np \<in> set (jb_node_list jb)" "\<not> nd_visible jb np" by (auto simp: find_Some_iff)
  then have "np < length (jb_store jb)" using assms by (simp add: jb_wf_def nodes_ok_def)
  then show ?thesis using found [of np] np Some by (simp add: new_node_def show_node_def upd_nd_def Let_def)
next
  case None
  show ?thesis
  proof (cases "jb_allocated_nodes jb > node_limit jb")
    case True
    obtain jb' where "switch_jb_reset jb = Inr jb'" using reset_ok [OF assms] by blast
    then show ?thesis using full None True by (simp add: new_node_def)
  next
    case False
    have "\<forall>np < length (jb_store jb). nd_visible jb np" using None assms by (auto simp: find_None_iff jb_wf_def nodes_ok_def)
    then show ?thesis using alloc None False by (simp add: new_node_def show_node_def alloc_node_def upd_nd_def Let_def)
  qed
qed

section \<open>The configuration is kept\<close>

definition frame_ok :: "switch_jb \<Rightarrow> bool" where
  "frame_ok jb \<longleftrightarrow> 0 < jb_min_frame_len jb \<and> jb_min_frame_len jb \<le> jb_frame_len jb \<and> jb_frame_len jb \<le> jb_max_frame_len jb \<and> jb_max_frame_len jb < 0xFFFFFFFF"

definition jb_keeps :: "switch_jb \<Rightarrow> switch_jb \<Rightarrow> bool" where
  "jb_keeps jb jb' \<longleftrightarrow> jb_type jb' = jb_type jb \<and> jb_samples_per_frame jb' = jb_samples_per_frame jb \<and> jb_min_frame_len jb' = jb_min_frame_len jb \<and>
     jb_max_frame_len jb' = jb_max_frame_len jb \<and> jb_flags jb' = jb_flags jb \<and> (jb_node_hash_ts jb' = None \<longleftrightarrow> jb_node_hash_ts jb = None) \<and>
     (frame_ok jb \<longrightarrow> frame_ok jb')"

lemma jb_keeps_refl [simp]: "jb_keeps jb jb"
  by (simp add: jb_keeps_def)

lemma jb_keeps_trans [trans]: "jb_keeps a b \<Longrightarrow> jb_keeps b c \<Longrightarrow> jb_keeps a c"
  by (simp add: jb_keeps_def)

lemma reset_keeps: "reset_shape a b \<Longrightarrow> jb_keeps a b"
  by (simp add: jb_keeps_def reset_shape_def frame_ok_def)

lemma same_keeps: "same_shape a b \<Longrightarrow> jb_keeps a b"
  by (simp add: reset_keeps same_reset_shape)

lemma keeps_fields:
  "jb_type jb' = jb_type jb \<Longrightarrow> jb_samples_per_frame jb' = jb_samples_per_frame jb \<Longrightarrow> jb_min_frame_len jb' = jb_min_frame_len jb \<Longrightarrow>
   jb_max_frame_len jb' = jb_max_frame_len jb \<Longrightarrow> jb_flags jb' = jb_flags jb \<Longrightarrow> jb_frame_len jb' = jb_frame_len jb \<Longrightarrow>
   (jb_node_hash_ts jb' = None \<longleftrightarrow> jb_node_hash_ts jb = None) \<Longrightarrow> jb_keeps jb jb'"
  by (simp add: jb_keeps_def frame_ok_def)

lemma frame_inc_fields [simp]:
  "jb_store (jb_frame_inc i jb) = jb_store jb" "jb_node_list (jb_frame_inc i jb) = jb_node_list jb" "jb_visible_nodes (jb_frame_inc i jb) = jb_visible_nodes jb"
  "jb_node_hash (jb_frame_inc i jb) = jb_node_hash jb" "jb_node_hash_ts (jb_frame_inc i jb) = jb_node_hash_ts jb" "jb_type (jb_frame_inc i jb) = jb_type jb"
  "jb_missing_seq_hash (jb_frame_inc i jb) = jb_missing_seq_hash jb" "jb_min_frame_len (jb_frame_inc i jb) = jb_min_frame_len jb"
  "jb_max_frame_len (jb_frame_inc i jb) = jb_max_frame_len jb" "jb_samples_per_frame (jb_frame_inc i jb) = jb_samples_per_frame jb"
  "jb_flags (jb_frame_inc i jb) = jb_flags jb" "jb_allocated_nodes (jb_frame_inc i jb) = jb_allocated_nodes jb"
  "jb_target_seq (jb_frame_inc i jb) = jb_target_seq jb" "jb_complete_frames (jb_frame_inc i jb) = jb_complete_frames jb"
  by (simp_all add: jb_frame_inc_def Let_def)

lemma frame_inc_up:
  assumes "frame_ok jb"
  shows "jb_min_frame_len jb \<le> jb_frame_len (jb_frame_inc 1 jb) \<and> jb_frame_len (jb_frame_inc 1 jb) \<le> jb_max_frame_len jb"
proof -
  have "1 + jb_frame_len jb \<noteq> 0"
  proof
    assume "1 + jb_frame_len jb = 0"
    then have "jb_frame_len jb = - 1" by (simp add: eq_neg_iff_add_eq_0 add.commute)
    then have "jb_frame_len jb = 0xFFFFFFFF" by simp
    moreover have "jb_frame_len jb < 0xFFFFFFFF" using assms unfolding frame_ok_def by (blast intro: order.strict_trans1)
    ultimately show False by simp
  qed
  then have "jb_frame_len jb \<le> jb_frame_len jb + 1" by (simp add: word_le_nat_alt unatSuc add.commute [of _ 1])
  then show ?thesis using assms by (auto simp: frame_ok_def jb_frame_inc_def Let_def)
qed

lemma frame_inc_down:
  assumes "frame_ok jb"
  shows "jb_min_frame_len jb \<le> jb_frame_len (jb_frame_inc (- 1) jb) \<and> jb_frame_len (jb_frame_inc (- 1) jb) \<le> jb_frame_len jb"
proof -
  have "0 < jb_frame_len jb" using assms unfolding frame_ok_def by (auto dest: order.strict_trans2)
  then have "jb_frame_len jb - 1 \<le> jb_frame_len jb" by (simp add: word_le_nat_alt unat_minus_one word_gt_0)
  then show ?thesis using assms by (auto simp: frame_ok_def jb_frame_inc_def Let_def)
qed

lemma frame_inc_keeps: "i = 1 \<or> i = - 1 \<Longrightarrow> jb_keeps jb (jb_frame_inc i jb)"
  using frame_inc_up [of jb] frame_inc_down [of jb] by (auto simp: jb_keeps_def frame_ok_def)

lemma frame_inc_wf: "jb_wf jb \<Longrightarrow> jb_wf (jb_frame_inc i jb)"
  by (erule wf_fields) simp_all

section \<open>Putting a packet\<close>

lemma fill_node_wf:
  assumes "jb_wf jb" and "node < length (jb_store jb)" and "len \<le> body_len"
  shows "jb_wf (upd_nd node (\<lambda>n. n\<lparr>jn_packet := packet, jn_len := of_nat len\<rparr>) jb)"
proof -
  have "unat (of_nat len :: uint32_t) = len" using assms(3) by (simp add: unat_of_nat body_len_def SWITCH_RTP_MAX_BUF_LEN_def)
  then show ?thesis
    using assms nodes_update [of "jb_store jb" "jb_node_list jb" "jb_visible_nodes jb" node] by (simp add: jb_wf_def upd_nd_def nd_def)
qed

lemma hash_in_insert:
  assumes "hash_in n h" and "alloc_ok a" and "v < n"
  obtains st eff h' where "switch_core_inthash_insert a h x (Some v) = Inr (st, eff, h')" "hash_in n h'"
    "\<And>k. switch_core_inthash_find h' k = (if k = x then (if entry_ok a then Some v else None) else switch_core_inthash_find h k)"
proof -
  have h: "hash_ok h" using assms(1) by (simp add: hash_in_def)
  obtain st eff h' where r: "switch_core_inthash_insert a h x (Some v) = Inr (st, eff, h')" "hash_ok h'"
    "\<And>k. switch_core_inthash_find h' k = (if k = x then (if entry_ok a then Some v else None) else switch_core_inthash_find h k)"
    by (rule hash_insert_ok [OF h assms(2), of x "Some v"]) blast
  have "hash_in n h'" using assms(1,3) r by (auto simp: hash_in_def split: if_splits)
  then show ?thesis using that r by blast
qed

lemma enter_node_ok:
  assumes "jb_wf jb" and "alloc_ok a" and "node < length (jb_store jb)"
  obtains h t where "enter_node a packet node jb = Inr (jb\<lparr>jb_node_hash := h, jb_node_hash_ts := t\<rparr>)" "jb_wf (jb\<lparr>jb_node_hash := h, jb_node_hash_ts := t\<rparr>)"
    "\<And>k. switch_core_inthash_find h k = (if k = hash_key (pk_seq packet) then (if entry_ok a then Some node else None) else switch_core_inthash_find (jb_node_hash jb) k)"
    "t = None \<longleftrightarrow> jb_node_hash_ts jb = None"
proof -
  have i: "hash_in (length (jb_store jb)) (jb_node_hash jb)" using assms(1) by (simp add: jb_wf_def)
  obtain s e h where h: "switch_core_inthash_insert a (jb_node_hash jb) (hash_key (pk_seq packet)) (Some node) = Inr (s, e, h)" "hash_in (length (jb_store jb)) h"
    "\<And>k. switch_core_inthash_find h k = (if k = hash_key (pk_seq packet) then (if entry_ok a then Some node else None) else switch_core_inthash_find (jb_node_hash jb) k)"
    by (rule hash_in_insert [OF i assms(2,3)]) blast
  show ?thesis
  proof (cases "jb_node_hash_ts jb")
    case None
    then have "jb\<lparr>jb_node_hash := h, jb_node_hash_ts := None\<rparr> = jb\<lparr>jb_node_hash := h\<rparr>" by simp
    then show ?thesis using that [where h = h and t = None] None h assms(1) by (simp add: enter_node_def jb_wf_def)
  next
    case (Some t)
    then have "hash_in (length (jb_store jb)) t" using assms(1) by (simp add: jb_wf_def)
    then obtain s' e' t' where t: "switch_core_inthash_insert a t (pk_ts packet) (Some node) = Inr (s', e', t')" "hash_in (length (jb_store jb)) t'"
      by (rule hash_in_insert [OF _ assms(2,3)]) blast
    then show ?thesis using that [where h = h and t = "Some t'"] Some h assms(1) by (simp add: enter_node_def jb_wf_def)
  qed
qed

lemma upd_version_wf: 
  assumes "jb_wf jb" and "n < length (jb_store jb)"
  shows "jb_wf (upd_nd n (\<lambda>x. x\<lparr>jn_packet := f (jn_packet x)\<rparr>) jb)"
proof -
  have "unat (jn_len (jb_store jb ! n)) \<le> body_len" using assms by (simp add: jb_wf_def nodes_ok_def)
  then show ?thesis using assms nodes_update [of "jb_store jb" "jb_node_list jb" "jb_visible_nodes jb" n] by (simp add: jb_wf_def upd_nd_def nd_def)
qed

lemma upd_nd_fields [simp]:
  "jb_type (upd_nd n f jb) = jb_type jb" "jb_samples_per_frame (upd_nd n f jb) = jb_samples_per_frame jb" "jb_min_frame_len (upd_nd n f jb) = jb_min_frame_len jb"
  "jb_max_frame_len (upd_nd n f jb) = jb_max_frame_len jb" "jb_flags (upd_nd n f jb) = jb_flags jb" "jb_frame_len (upd_nd n f jb) = jb_frame_len jb"
  "jb_node_hash_ts (upd_nd n f jb) = jb_node_hash_ts jb" "length (jb_store (upd_nd n f jb)) = length (jb_store jb)" "jb_node_list (upd_nd n f jb) = jb_node_list jb"
  "jb_node_hash (upd_nd n f jb) = jb_node_hash jb" "jb_visible_nodes (upd_nd n f jb) = jb_visible_nodes jb" "jb_allocated_nodes (upd_nd n f jb) = jb_allocated_nodes jb"
  "jb_complete_frames (upd_nd n f jb) = jb_complete_frames jb" "jb_write_init (upd_nd n f jb) = jb_write_init jb"
  by (simp_all add: upd_nd_def)

lemma note_complete_ok:
  assumes "jb_wf jb" and "n < length (jb_store jb)"
  shows "jb_wf (note_complete n packet jb) \<and> jb_keeps jb (note_complete n packet jb)"
proof -
  have "jb_wf jb'" if "jb_store jb' = jb_store jb" "jb_node_list jb' = jb_node_list jb" "jb_visible_nodes jb' = jb_visible_nodes jb" "jb_node_hash jb' = jb_node_hash jb"
    "jb_node_hash_ts jb' = jb_node_hash_ts jb" "jb_type jb' = jb_type jb" "jb_missing_seq_hash jb' = jb_missing_seq_hash jb" for jb'
    using wf_fields [OF assms(1)] that by blast
  then have "jb_wf (note_complete n packet jb)" using assms(2) by (auto simp: note_complete_def Let_def intro!: upd_version_wf)
  moreover have "jb_keeps jb (note_complete n packet jb)" by (rule keeps_fields) (simp_all add: note_complete_def Let_def)
  ultimately show ?thesis by simp
qed

lemma account_ok:
  assumes "jb_wf jb" and "n < length (jb_store jb)"
  obtains jb' where "account_packet n packet jb = Inr jb'" "jb_wf jb'" "jb_keeps jb jb'"
proof -
  obtain jb1 where r: "(if jb_write_init jb \<and> is_video jb \<and> (seq_diff jb packet \<ge> 100 \<or> ts_diff jb packet > 900000 * 5)
      then switch_jb_reset jb else Inr jb) = Inr jb1" "jb_wf jb1" "reset_shape jb jb1"
  proof (cases "jb_write_init jb \<and> is_video jb \<and> (seq_diff jb packet \<ge> 100 \<or> ts_diff jb packet > 900000 * 5)")
    case True
    then show ?thesis using that reset_ok [OF assms(1)] by metis
  next
    case False
    then show ?thesis using that [of jb] assms(1) by (simp only: if_False reset_shape_refl)
  qed
  let ?jb2 = "if \<not> jb_write_init jb1 \<or> ntohs (pk_seq packet) > ntohs (jb_highest_wrote_seq jb1) \<or> ntohs (jb_highest_wrote_seq jb1) > 65535 - 100 \<and> ntohs (pk_seq packet) < 100
      then jb1\<lparr>jb_highest_wrote_seq := pk_seq packet\<rparr> else jb1"
  have w2: "jb_wf ?jb2" using r(2) by (rule wf_fields) simp_all
  have k2: "jb_keeps jb1 ?jb2" by (rule keeps_fields) simp_all
  have n2: "n < length (jb_store ?jb2)" using assms(2) r(3) by (simp add: reset_shape_def)
  note c = note_complete_ok [OF w2 n2, of packet]
  have "jb_wf ((note_complete n packet ?jb2)\<lparr>jb_write_init := True\<rparr>)" using conjunct1 [OF c] by (rule wf_fields) simp_all
  moreover have k3: "jb_keeps (note_complete n packet ?jb2) ((note_complete n packet ?jb2)\<lparr>jb_write_init := True\<rparr>)" by (rule keeps_fields) simp_all
  moreover have "account_packet n packet jb = Inr ((note_complete n packet ?jb2)\<lparr>jb_write_init := True\<rparr>)"
    unfolding account_packet_def r(1) by (simp only: and_then_simps Let_def)
  ultimately show ?thesis
    using that jb_keeps_trans [OF jb_keeps_trans [OF jb_keeps_trans [OF reset_keeps [OF r(3)] k2] conjunct2 [OF c]] k3] by blast
qed

lemma show_node_fields [simp]:
  "jb_type (show_node n jb) = jb_type jb" "jb_samples_per_frame (show_node n jb) = jb_samples_per_frame jb" "jb_min_frame_len (show_node n jb) = jb_min_frame_len jb"
  "jb_max_frame_len (show_node n jb) = jb_max_frame_len jb" "jb_flags (show_node n jb) = jb_flags jb" "jb_frame_len (show_node n jb) = jb_frame_len jb"
  "jb_node_hash_ts (show_node n jb) = jb_node_hash_ts jb" "length (jb_store (show_node n jb)) = length (jb_store jb)" "jb_node_list (show_node n jb) = jb_node_list jb"
  "jb_node_hash (show_node n jb) = jb_node_hash jb" "jb_allocated_nodes (show_node n jb) = jb_allocated_nodes jb"
  "jb_complete_frames (show_node n jb) = jb_complete_frames jb" "jb_write_init (show_node n jb) = jb_write_init jb"
  by (simp_all add: show_node_def)

lemma new_node_ok:
  assumes "jb_wf jb"
  obtains np jb' where "new_node jb = Inr (np, jb')" "jb_wf jb'" "jb_keeps jb jb'" "\<And>n. np = Some n \<Longrightarrow> n < length (jb_store jb')"
proof (rule new_node_cases [OF assms])
  fix np assume n: "new_node jb = Inr (Some np, show_node np jb)" "np < length (jb_store jb)" "\<not> nd_visible jb np"
  have "jb_keeps jb (show_node np jb)" by (rule keeps_fields) simp_all
  then show ?thesis using that n show_node_wf [OF assms n(2,3)] by simp
next
  assume n: "new_node jb = Inr (Some (length (jb_store jb)), show_node (length (jb_store jb)) (snd (alloc_node jb)))"
  have "jb_keeps jb (show_node (length (jb_store jb)) (snd (alloc_node jb)))" by (rule keeps_fields) (simp_all add: alloc_node_def)
  moreover have "jb_wf (show_node (length (jb_store jb)) (snd (alloc_node jb)))"
    by (rule show_node_wf [OF alloc_node_wf [OF assms]]) (simp_all add: alloc_node_def nd_def zero_node_def)
  ultimately show ?thesis using that n by (simp add: alloc_node_def)
next
  fix jb' assume "new_node jb = Inr (None, jb')" "switch_jb_reset jb = Inr jb'"
  then show ?thesis using that reset_ok [OF assms] reset_keeps by (metis Inr_inject option.distinct(1))
qed

lemma add_node_ok:
  assumes "jb_wf jb" and "alloc_ok a" and "len \<le> body_len"
  obtains jb' where "add_node a packet len jb = Inr jb'" "jb_wf jb'" "jb_keeps jb jb'"
proof (rule new_node_ok [OF assms(1)])
  fix np jb1 assume n: "new_node jb = Inr (np, jb1)" "jb_wf jb1" "jb_keeps jb jb1" "\<And>n. np = Some n \<Longrightarrow> n < length (jb_store jb1)"
  show ?thesis
  proof (cases np)
    case None
    then show ?thesis using that n by (simp add: add_node_def)
  next
    case (Some node)
    let ?f = "\<lambda>n. n\<lparr>jn_packet := packet, jn_len := of_nat len\<rparr>"
    have node: "node < length (jb_store jb1)" using n(4) Some by simp
    have w: "jb_wf (upd_nd node ?f jb1)" using fill_node_wf [OF n(2) node assms(3)] .
    have node': "node < length (jb_store (upd_nd node ?f jb1))" using node by simp
    obtain h t where e: "enter_node a packet node (upd_nd node ?f jb1) = Inr ((upd_nd node ?f jb1)\<lparr>jb_node_hash := h, jb_node_hash_ts := t\<rparr>)"
      "jb_wf ((upd_nd node ?f jb1)\<lparr>jb_node_hash := h, jb_node_hash_ts := t\<rparr>)" "t = None \<longleftrightarrow> jb_node_hash_ts jb1 = None"
      by (rule enter_node_ok [OF w assms(2) node', of packet]) auto
    let ?jb2 = "(upd_nd node ?f jb1)\<lparr>jb_node_hash := h, jb_node_hash_ts := t\<rparr>"
    have n2: "node < length (jb_store ?jb2)" using node by simp
    have k2: "jb_keeps jb1 ?jb2" using e(3) by (intro keeps_fields) simp_all
    obtain jb' where j: "account_packet node packet ?jb2 = Inr jb'" "jb_wf jb'" "jb_keeps ?jb2 jb'"
      by (rule account_ok [OF e(2) n2, of packet]) blast
    have "add_node a packet len jb = Inr jb'" using n(1) Some e(1) j(1) assms(3) by (simp add: add_node_def)
    then show ?thesis using that j(2) jb_keeps_trans [OF jb_keeps_trans [OF n(3) k2] j(3)] by blast
  qed
qed

lemma key_bound: "hash_key s < 65536"
  using unsigned_less [of s, where 'a = nat] by (simp add: word_less_nat_alt unsigned_ucast_eq take_bit_nat_eq_self)

lemma mark_missing_ok:
  assumes "missing_ok h" and "alloc_ok a"
  obtains h' where "mark_missing a is h = Inr h'" "missing_ok h'"
proof -
  have "\<exists>h'. mark_missing a is h = Inr h' \<and> missing_ok h'"
    using assms(1)
  proof (induction "is" arbitrary: h)
    case (Cons i "is")
    obtain s e h1 where i: "switch_core_inthash_insert a h (hash_key (htons (of_nat i))) (ptr_of 1) = Inr (s, e, h1)" "missing_ok h1"
      by (rule missing_insert_ok [OF Cons.prems assms(2) key_bound, of "htons (of_nat i)" "ptr_of 1"]) blast
    then show ?case using Cons.IH [of h1] i by simp
  qed simp
  then show ?thesis using that by blast
qed

lemma wf_keeps_fields:
  assumes "jb_wf jb" and "jb_store jb' = jb_store jb" "jb_node_list jb' = jb_node_list jb" "jb_visible_nodes jb' = jb_visible_nodes jb"
    "jb_node_hash jb' = jb_node_hash jb" "jb_node_hash_ts jb' = jb_node_hash_ts jb" "jb_type jb' = jb_type jb" "jb_missing_seq_hash jb' = jb_missing_seq_hash jb"
    "jb_samples_per_frame jb' = jb_samples_per_frame jb" "jb_min_frame_len jb' = jb_min_frame_len jb" "jb_max_frame_len jb' = jb_max_frame_len jb"
    "jb_flags jb' = jb_flags jb" "jb_frame_len jb' = jb_frame_len jb"
  shows "jb_wf jb' \<and> jb_keeps jb jb'"
  using wf_fields [OF assms(1-8)] keeps_fields [of jb' jb] assms by simp

lemma expect_seq_ok:
  assumes "jb_wf jb" and "is_video jb" and "alloc_ok a"
  obtains jb' where "expect_seq a want got jb = Inr jb'" "jb_wf jb'" "jb_keeps jb jb'"
proof -
  obtain m where m: "jb_missing_seq_hash jb = Some m" "missing_ok m" using assms(1,2) by (auto simp: jb_wf_def)
  obtain eff h where d: "switch_core_inthash_delete m (hash_key (htons got)) = (switch_core_inthash_find m (hash_key (htons got)), eff, h)" and h: "missing_ok h"
    using missing_delete_ok [OF m(2), of "hash_key (htons got)"] by blast
  define jb1 where "jb1 = jb\<lparr>jb_missing_seq_hash := Some h\<rparr>"
  have w1: "jb_wf jb1" using assms(1,2) h by (simp add: jb1_def jb_wf_def)
  have k1: "jb_keeps jb jb1" by (rule keeps_fields) (simp_all add: jb1_def)
  define late where "late \<longleftrightarrow> switch_core_inthash_find m (hash_key (htons got)) \<noteq> None \<and> got < ntohs (jb_target_seq jb1)"
  define jb2 where "jb2 = (if late then jb_frame_inc 1 jb1 else jb1)"
  have w2: "jb_wf jb2" using w1 frame_inc_wf by (simp add: jb2_def)
  have k2: "jb_keeps jb1 jb2" by (simp add: jb2_def frame_inc_keeps)
  define rest where "rest = (if got > want then
         (if ucast (got - want) > jb_max_frame_len jb2 \<and> got - want > 17 then switch_jb_reset jb2
          else
            (let jb = (if jb_frame_len jb2 < ucast (got - want) then jb_frame_inc 1 jb2 else jb2)
             in and_then (mark_missing a [unat want..<unat got] h) (\<lambda>h. Inr (jb\<lparr>jb_missing_seq_hash := Some h\<rparr>))))
       else Inr jb2)"
  have e: "expect_seq a want got jb = and_then rest (\<lambda>jb. Inr (if got \<ge> want \<or> want - got > 1000 then jb\<lparr>jb_next_seq := htons (got + 1)\<rparr> else jb))"
    by (simp add: expect_seq_def m(1) d rest_def jb2_def late_def jb1_def Let_def cong: if_cong)
  have "\<exists>jb3. rest = Inr jb3 \<and> jb_wf jb3 \<and> jb_keeps jb2 jb3"
  proof (cases "got > want \<and> \<not> (ucast (got - want) > jb_max_frame_len jb2 \<and> got - want > 17)")
    case True
    let ?jb = "if jb_frame_len jb2 < ucast (got - want) then jb_frame_inc 1 jb2 else jb2"
    obtain h' where h': "mark_missing a [unat want..<unat got] h = Inr h'" "missing_ok h'" by (rule mark_missing_ok [OF h assms(3)]) blast
    have "rest = Inr (?jb\<lparr>jb_missing_seq_hash := Some h'\<rparr>)" using True h'(1) by (auto simp: rest_def Let_def)
    moreover have "jb_wf ?jb" "jb_keeps jb2 ?jb" using w2 frame_inc_wf frame_inc_keeps by simp_all
    moreover have "jb_wf (?jb\<lparr>jb_missing_seq_hash := Some h'\<rparr>)" using \<open>jb_wf ?jb\<close> h'(2) unfolding jb_wf_def by simp
    moreover have "jb_keeps ?jb (?jb\<lparr>jb_missing_seq_hash := Some h'\<rparr>)" by (rule keeps_fields) simp_all
    ultimately show ?thesis using jb_keeps_trans by blast
  next
    case False
    obtain jb3 where "switch_jb_reset jb2 = Inr jb3" "jb_wf jb3" "jb_keeps jb2 jb3" by (rule reset_ok [OF w2]) (blast intro: reset_keeps)
    then show ?thesis using False w2 by (auto simp: rest_def)
  qed
  then obtain jb3 where r: "rest = Inr jb3" "jb_wf jb3" "jb_keeps jb2 jb3" by blast
  let ?jb = "if got \<ge> want \<or> want - got > 1000 then jb3\<lparr>jb_next_seq := htons (got + 1)\<rparr> else jb3"
  have "jb_wf ?jb \<and> jb_keeps jb3 ?jb" using r(2) by (rule wf_keeps_fields) simp_all
  then show ?thesis using that [of ?jb] e r(1) jb_keeps_trans [OF jb_keeps_trans [OF jb_keeps_trans [OF k1 k2] r(3)]] by simp
qed

lemma put_packet_ok:
  assumes "jb_wf jb" and "alloc_ok a" and "len \<le> body_len"
  obtains jb' where "switch_jb_put_packet a packet len jb = Inr (SWITCH_STATUS_SUCCESS, jb')" "jb_wf jb'" "jb_keeps jb jb'"
proof (cases "jb_highest_dropped_ts jb \<noteq> 0 \<and> ntohl (pk_ts packet) < jb_highest_dropped_ts jb")
  case True
  then show ?thesis using that [of jb] assms(1) by (simp add: switch_jb_put_packet_def)
next
  case False
  define got where "got = ntohs (pk_seq packet)"
  define want where "want = (if ntohs (jb_next_seq jb) = 0 then got else ntohs (jb_next_seq jb))"
  define jb1 where "jb1 = jb\<lparr>jb_highest_dropped_ts := 0\<rparr>"
  have j1: "jb_wf jb1 \<and> jb_keeps jb jb1" using assms(1) by (rule wf_keeps_fields) (simp_all add: jb1_def)
  define seqs where "seqs = (if queue_only jb1 \<or> jb_type jb1 = SJB_AUDIO then Inr (jb1\<lparr>jb_next_seq := htons (got + 1)\<rparr>) else expect_seq a want got jb1)"
  have "\<exists>jb2. seqs = Inr jb2 \<and> jb_wf jb2 \<and> jb_keeps jb1 jb2"
  proof (cases "queue_only jb1 \<or> jb_type jb1 = SJB_AUDIO")
    case True
    have "jb_wf (jb1\<lparr>jb_next_seq := htons (got + 1)\<rparr>) \<and> jb_keeps jb1 (jb1\<lparr>jb_next_seq := htons (got + 1)\<rparr>)" using conjunct1 [OF j1] by (rule wf_keeps_fields) simp_all
    then show ?thesis using True by (simp add: seqs_def)
  next
    case False
    then have v: "is_video jb1" by (cases "jb_type jb1") auto
    show ?thesis using False expect_seq_ok [OF conjunct1 [OF j1] v assms(2), of want got] by (metis seqs_def)
  qed
  then obtain jb2 where j2: "seqs = Inr jb2" "jb_wf jb2" "jb_keeps jb1 jb2" by blast
  obtain jb3 where j3: "add_node a packet len jb2 = Inr jb3" "jb_wf jb3" "jb_keeps jb2 jb3" by (rule add_node_ok [OF j2(2) assms(2,3)]) blast
  let ?jb = "if queue_only jb3 \<and> jb_complete_frames jb3 > jb_max_frame_len jb3 then drop_oldest_frame jb3 else jb3"
  have "jb_wf ?jb" "jb_keeps jb3 ?jb" using j3(2) drop_ts_ok [OF j3(2)] by (simp_all add: drop_oldest_frame_def same_keeps)
  moreover have "(if len \<ge> sizeof_packet then sizeof_packet else len) = len" using assms(3) by (simp add: sizeof_packet_def)
  then have "switch_jb_put_packet a packet len jb = Inr (SWITCH_STATUS_SUCCESS, ?jb)"
    using False j2(1) j3(1) by (auto simp: switch_jb_put_packet_def seqs_def jb1_def want_def got_def Let_def cong: if_cong)
  ultimately show ?thesis using that [of ?jb] jb_keeps_trans [OF jb_keeps_trans [OF jb_keeps_trans [OF conjunct2 [OF j1] j2(3)] j3(3)]] by blast
qed

section \<open>Getting a packet\<close>

lemma lowest_seq_in:
  "lowest_seq_loop jb ts l lowest = Some n \<Longrightarrow> lowest = Some n \<or> n \<in> set l \<and> nd_visible jb n"
  by (induction jb ts l lowest rule: lowest_seq_loop.induct) (auto split: if_splits option.splits)

lemma lowest_node_in:
  "lowest_node_loop jb l lowest = Some n \<Longrightarrow> lowest = Some n \<or> n \<in> set l \<and> nd_visible jb n"
  by (induction jb l lowest rule: lowest_node_loop.induct) (auto split: if_splits option.splits)

lemma seq_find_valid: "jb_wf jb \<Longrightarrow> seq_find jb s = Some n \<Longrightarrow> n < length (jb_store jb)"
  by (auto simp: jb_wf_def hash_in_def seq_find_def)

lemma listed_valid: "jb_wf jb \<Longrightarrow> n \<in> set (jb_node_list jb) \<Longrightarrow> n < length (jb_store jb)"
  by (simp add: jb_wf_def nodes_ok_def)

lemma hit_ok: "jb_wf jb \<Longrightarrow> jb_wf (jb_hit jb) \<and> jb_keeps jb (jb_hit jb)"
  by (erule wf_keeps_fields) (simp_all add: jb_hit_def)

lemma miss_ok: "jb_wf jb \<Longrightarrow> jb_wf (jb_miss jb) \<and> jb_keeps jb (jb_miss jb)"
  by (erule wf_keeps_fields) (simp_all add: jb_miss_def)

lemma increment_ok: "jb_wf jb \<Longrightarrow> jb_wf (increment_seq jb) \<and> jb_keeps jb (increment_seq jb)"
  by (erule wf_keeps_fields) (simp_all add: increment_seq_def)

lemma resync_ok: "jb_wf jb \<Longrightarrow> jb_wf (jb_resync jb) \<and> jb_keeps jb (jb_resync jb)"
  by (erule wf_keeps_fields) (simp_all add: jb_resync_def)

lemma miss_video_ok:
  assumes "jb_wf jb"
  shows "jb_wf (miss_video jb) \<and> jb_keeps jb (miss_video jb)"
proof -
  define jb1 where "jb1 = jb\<lparr>jb_period_miss_inc := jb_period_miss_inc jb + 1\<rparr>"
  have j1: "jb_wf jb1 \<and> jb_keeps jb jb1" using assms by (rule wf_keeps_fields) (simp_all add: jb1_def)
  define jb2 where "jb2 = (if jb_period_miss_count jb > 1 \<and> jb_period_miss_inc jb = 0 then jb_frame_inc 1 jb1 else jb)"
  have j2: "jb_wf jb2" "jb_keeps jb jb2" using assms j1 frame_inc_wf frame_inc_keeps [of 1 jb1] jb_keeps_trans by (auto simp: jb2_def)
  have "jb_wf (video_refresh jb2) \<and> jb_keeps jb2 (video_refresh jb2)" using j2(1) by (rule wf_keeps_fields) simp_all
  then show ?thesis using j2 jb_keeps_trans [of jb jb2] unfolding miss_video_def jb2_def jb1_def by blast
qed

lemma seek_ok:
  "jb_wf jb \<Longrightarrow> jb_seek x jb = (np, jb') \<Longrightarrow> jb_wf jb' \<and> jb_keeps jb jb' \<and> (\<forall>n. np = Some n \<longrightarrow> n < length (jb_store jb'))"
proof (induction x jb arbitrary: np jb' rule: jb_seek.induct)
  case (2 x jb)
  note i = increment_ok [OF 2(2)]
  show ?case
  proof (cases "seq_find (increment_seq jb) (jb_target_seq (increment_seq jb))")
    case None
    then have "jb_wf jb' \<and> jb_keeps (increment_seq jb) jb' \<and> (\<forall>n. np = Some n \<longrightarrow> n < length (jb_store jb'))" using 2 i by simp
    then show ?thesis using i jb_keeps_trans by blast
  next
    case (Some n)
    then show ?thesis using 2(3) i seq_find_valid [OF conjunct1 [OF i] Some] by auto
  qed
qed simp

lemma drop_frame_ok:
  assumes "jb_wf jb"
  shows "jb_wf (drop_frame n jb) \<and> jb_keeps jb (drop_frame n jb)"
proof -
  define jb1 where "jb1 = jb\<lparr>jb_dropped := jb_dropped jb + 1\<rparr>"
  have j1: "jb_wf jb1 \<and> jb_keeps jb jb1" using assms by (rule wf_keeps_fields) (simp_all add: jb1_def)
  define jb2 where "jb2 = drop_ts (nd_ts jb n) jb1"
  have j2: "jb_wf jb2 \<and> same_shape jb1 jb2" using drop_ts_ok j1 by (simp add: jb2_def)
  have "jb_wf (jb2\<lparr>jb_highest_dropped_ts := ntohl (nd_ts jb n)\<rparr>) \<and> jb_keeps jb2 (jb2\<lparr>jb_highest_dropped_ts := ntohl (nd_ts jb n)\<rparr>)"
    using conjunct1 [OF j2] by (rule wf_keeps_fields) simp_all
  then show ?thesis using j1 j2 same_keeps jb_keeps_trans unfolding drop_frame_def jb2_def jb1_def by blast
qed

lemma next_by_seq_ok:
  "jb_wf jb \<Longrightarrow> next_node_by_seq jb = (np, jb') \<Longrightarrow> jb_wf jb' \<and> jb_keeps jb jb' \<and> (\<forall>n. np = Some n \<longrightarrow> n < length (jb_store jb'))"
proof (induction jb arbitrary: np jb' rule: next_node_by_seq.induct)
  case (1 jb0)
  define jb where "jb = jb_resync jb0"
  have r: "jb_wf jb" "jb_keeps jb0 jb" using resync_ok [OF 1(2)] by (simp_all add: jb_def)
  have len: "length (jb_store (jb_hit jb)) = length (jb_store jb)" by (simp add: jb_hit_def)
  consider (start) "jb_target_seq jb = 0" | (hit) n where "jb_target_seq jb \<noteq> 0" "seq_find jb (jb_target_seq jb) = Some n"
    | (audio) "jb_target_seq jb \<noteq> 0" "seq_find jb (jb_target_seq jb) = None" "\<not> is_video jb"
    | (video) "jb_target_seq jb \<noteq> 0" "seq_find jb (jb_target_seq jb) = None" "is_video jb" by blast
  then show ?case
  proof cases
    case start
    let ?np = "case seq_find jb (jb_target_seq jb) of Some node \<Rightarrow> Some node | None \<Rightarrow> jb_find_lowest_seq jb 0"
    have "np = ?np" "jb' = jb_hit jb" using 1(3) start by (simp_all add: next_node_by_seq.simps [of jb0] jb_def [symmetric])
    moreover have "n < length (jb_store jb)" if "?np = Some n" for n
      using that seq_find_valid [OF r(1)] lowest_seq_in [of jb 0 "jb_node_list jb" None n] listed_valid [OF r(1)]
      by (auto simp: jb_find_lowest_seq_def split: option.splits)
    ultimately show ?thesis using hit_ok [OF r(1)] jb_keeps_trans [OF r(2)] len by auto
  next
    case (hit n)
    then have "np = Some n" "jb' = jb_hit jb" using 1(3) by (simp_all add: next_node_by_seq.simps [of jb0] jb_def [symmetric])
    then show ?thesis using hit_ok [OF r(1)] jb_keeps_trans [OF r(2)] len seq_find_valid [OF r(1) hit(2)] by auto
  next
    case audio
    then have "np = None" "jb' = increment_seq (jb_miss jb)" using 1(3) by (simp_all add: next_node_by_seq.simps [of jb0] jb_def [symmetric])
    then show ?thesis using miss_ok [OF r(1)] increment_ok [of "jb_miss jb"] jb_keeps_trans r(2) by blast
  next
    case video
    obtain p jb1 where s: "jb_seek 10 (miss_video (jb_miss jb)) = (p, jb1)" by fastforce
    have m: "jb_wf (miss_video (jb_miss jb))" "jb_keeps jb0 (miss_video (jb_miss jb))"
      using miss_ok [OF r(1)] miss_video_ok [of "jb_miss jb"] jb_keeps_trans r(2) by blast+
    have k: "jb_wf jb1" "jb_keeps jb0 jb1" "\<forall>n. p = Some n \<longrightarrow> n < length (jb_store jb1)"
      using seek_ok [OF m(1) s] jb_keeps_trans [OF m(2)] by blast+
    show ?thesis
    proof (cases "\<exists>n. p = Some n \<and> (pk_m (jn_packet (nd jb1 n)) \<or> nd_ts jb1 n = jb_highest_read_ts jb1)")
      case True
      then obtain n where n: "p = Some n" "pk_m (jn_packet (nd jb1 n)) \<or> nd_ts jb1 n = jb_highest_read_ts jb1" by blast
      then have e: "next_node_by_seq (drop_frame n jb1) = (np, jb')" using 1(3) video s by (simp add: next_node_by_seq.simps [of jb0] jb_def [symmetric])
      have d: "jb_wf (drop_frame n jb1)" "jb_keeps jb0 (drop_frame n jb1)" using drop_frame_ok [OF k(1), of n] jb_keeps_trans [OF k(2)] by blast+
      show ?thesis using 1(1) [OF jb_def video(1,2,3) s [symmetric] n(1) n(2) d(1) e] jb_keeps_trans [OF d(2)] by blast
    next
      case False
      then have "np = p \<and> jb' = jb1" using 1(3) video s by (auto simp: next_node_by_seq.simps [of jb0] jb_def [symmetric] split: option.splits)
      then show ?thesis using k by blast
    qed
  qed
qed

lemma next_packet_ok:
  assumes "jb_wf jb" and "jb_next_packet jb = (st, np, jb')"
  shows "jb_wf jb' \<and> jb_keeps jb jb' \<and> (\<forall>n. np = Some n \<longrightarrow> n < length (jb_store jb')) \<and> st = (if np = None then SWITCH_STATUS_NOTFOUND else SWITCH_STATUS_SUCCESS)"
proof (cases "jb_samples_per_frame jb = 0")
  case True
  obtain p jb1 where n: "next_node_by_seq jb = (p, jb1)" by fastforce
  note o = next_by_seq_ok [OF assms(1) n]
  have s: "jb_wf (set_read_seq s jb1) \<and> jb_keeps jb1 (set_read_seq s jb1)" for s using conjunct1 [OF o] by (rule wf_keeps_fields) (simp_all add: set_read_seq_def)
  have l: "jb_store (set_read_seq s jb1) = jb_store jb1" for s by (simp add: set_read_seq_def)
  show ?thesis
    using assms(2) True n o s l jb_keeps_trans [of jb jb1] by (cases p) (auto simp: jb_next_packet_def jb_next_packet_by_seq_def)
next
  case False
  obtain p jb1 where n: "next_node_by_ts jb = (p, jb1)" by fastforce
  have o: "jb_wf jb1 \<and> jb_keeps jb jb1 \<and> (\<forall>n. p = Some n \<longrightarrow> n < length (jb_store jb1))"
  proof (cases "jb_target_ts jb = 0")
    case True
    then have "p = jb_find_lowest_node jb" "jb1 = jb_hit jb" using n by (simp_all add: next_node_by_ts_def)
    then show ?thesis
      using hit_ok [OF assms(1)] lowest_node_in [of jb "jb_node_list jb" None] listed_valid [OF assms(1)] by (auto simp: jb_find_lowest_node_def jb_hit_def)
  next
    case False
    define f where "f = (case jb_node_hash_ts jb of None \<Rightarrow> None | Some h \<Rightarrow> switch_core_inthash_find h (jb_target_ts jb))"
    have v: "n < length (jb_store jb)" if "f = Some n" for n using that assms(1) by (auto simp: f_def jb_wf_def hash_in_def split: option.splits)
    have i: "jb_wf (increment_ts (jb_miss jb)) \<and> jb_keeps (jb_miss jb) (increment_ts (jb_miss jb))"
      using conjunct1 [OF miss_ok [OF assms(1)]] by (rule wf_keeps_fields) (simp_all add: increment_ts_def)
    show ?thesis
    proof (cases f)
      case None
      then have "p = None" "jb1 = increment_ts (jb_miss jb)" using n False by (simp_all add: next_node_by_ts_def f_def [symmetric])
      then show ?thesis using i miss_ok [OF assms(1)] jb_keeps_trans by blast
    next
      case (Some n)
      then have "p = Some n" "jb1 = jb_hit jb" using \<open>next_node_by_ts jb = (p, jb1)\<close> False by (simp_all add: next_node_by_ts_def f_def [symmetric])
      then show ?thesis using hit_ok [OF assms(1)] v [OF Some] by (simp add: jb_hit_def)
    qed
  qed
  show ?thesis
  proof (cases p)
    case None
    then show ?thesis using assms(2) False n o by (simp add: jb_next_packet_def jb_next_packet_by_ts_def)
  next
    case (Some node)
    define jb2 where "jb2 = set_read_ts (nd_ts jb1 node) jb1"
    have j2: "jb_wf jb2 \<and> jb_keeps jb1 jb2" using conjunct1 [OF o] by (rule wf_keeps_fields) (simp_all add: jb2_def set_read_ts_def)
    have node: "node < length (jb_store jb2)" using o Some by (simp add: jb2_def set_read_ts_def)
    let ?jb = "upd_nd node (\<lambda>n. n\<lparr>jn_packet := (jn_packet n)\<lparr>pk_seq := htons (jb_psuedo_seq jb2)\<rparr>\<rparr>) jb2"
    have "jb_wf ?jb" using j2 node upd_version_wf [of jb2 node "\<lambda>p. p\<lparr>pk_seq := htons (jb_psuedo_seq jb2)\<rparr>"] by simp
    moreover have "jb_keeps jb2 ?jb" by (rule keeps_fields) simp_all
    then have "jb_keeps jb ?jb" using jb_keeps_trans [OF jb_keeps_trans] o j2 by blast
    moreover have "st = SWITCH_STATUS_SUCCESS" "np = Some node" "jb' = ?jb"
      using assms(2) False n Some by (simp_all add: jb_next_packet_def jb_next_packet_by_ts_def jb2_def Let_def)
    ultimately show ?thesis using node by simp
  qed
qed

lemma read_node_ok: "jb_wf jb \<Longrightarrow> jb_wf (read_node n jb) \<and> jb_keeps jb (read_node n jb)"
  by (erule wf_keeps_fields) (simp_all add: read_node_def Let_def)

lemma read_node_store [simp]: "jb_store (read_node n jb) = jb_store jb"
  by (simp add: read_node_def Let_def)

lemma not_found_ok:
  assumes "jb_wf jb"
  obtains st' plc jb' where "jb_not_found st jb = Inr (st', plc, jb')" "jb_wf jb'" "jb_keeps jb jb'"
proof -
  obtain jb1 where r: "switch_jb_reset jb = Inr jb1" "jb_wf jb1" "jb_keeps jb jb1" by (rule reset_ok [OF assms]) (blast intro: reset_keeps)
  have i: "jb_wf (jb_frame_inc 1 jb1)" "jb_keeps jb (jb_frame_inc 1 jb1)" using frame_inc_wf [OF r(2)] jb_keeps_trans [OF r(3) frame_inc_keeps] by simp_all
  consider "is_video jb \<or> st = SWITCH_STATUS_RESTART" | "\<not> (is_video jb \<or> st = SWITCH_STATUS_RESTART)" "jb_consec_miss_count jb > jb_frame_len jb"
    | "\<not> (is_video jb \<or> st = SWITCH_STATUS_RESTART)" "\<not> jb_consec_miss_count jb > jb_frame_len jb" by blast
  then show ?thesis
  proof cases
    case 1
    then show ?thesis using that [of _ False jb1] r by (cases "is_video jb") (auto simp add: jb_not_found_def)
  next
    case 2
    then show ?thesis using that [of _ False] r(1) i by (auto simp add: jb_not_found_def)
  next
    case 3
    then show ?thesis using that [of _ True jb] assms by (auto simp add: jb_not_found_def)
  qed
qed

lemma take_packet_ok:
  assumes "jb_wf jb"
  obtains st p l jb' where "take_packet packet len jb = Inr (st, p, l, jb')" "jb_wf jb'" "jb_keeps jb jb'"
proof -
  obtain st np jb1 where n: "jb_next_packet jb = (st, np, jb1)" by (metis prod_cases3)
  note o = next_packet_ok [OF assms n]
  show ?thesis
  proof (cases np)
    case None
    obtain st' plc jb2 where f: "jb_not_found st jb1 = Inr (st', plc, jb2)" "jb_wf jb2" "jb_keeps jb1 jb2" by (rule not_found_ok [of jb1 st]) (use o in auto)
    have "jb_keeps jb jb2" using o f(3) jb_keeps_trans by blast
    then show ?thesis using that [OF _ f(2)] n None f(1) by (simp add: take_packet_def)
  next
    case (Some node)
    define jb2 where "jb2 = read_node node jb1"
    have j2: "jb_wf jb2" "jb_keeps jb1 jb2" "node < length (jb_store jb2)" using read_node_ok o Some by (auto simp: jb2_def)
    have len: "unat (jn_len (nd jb2 node)) \<le> body_len" using j2(1,3) by (simp add: jb_wf_def nodes_ok_def nd_def)
    define jb3 where "jb3 = jb2\<lparr>jb_last_len := unat (jn_len (nd jb2 node))\<rparr>"
    have j3: "jb_wf jb3 \<and> jb_keeps jb2 jb3" using j2(1) by (rule wf_keeps_fields) (simp_all add: jb3_def)
    have n3: "node < length (jb_store jb3)" using j2(3) by (simp add: jb3_def)
    have "jb_wf (hide_node True node jb3)" "jb_keeps jb3 (hide_node True node jb3)"
      using hide_node_wf [OF conjunct1 [OF j3] n3] hide_node_shape [OF n3] conjunct1 [OF j3] same_keeps n3 by (auto simp: jb_wf_def nodes_ok_def)
    moreover have "take_packet packet len jb =
        Inr (SWITCH_STATUS_SUCCESS, (jn_packet (nd jb2 node))\<lparr>pk_version := 2\<rparr>, unat (jn_len (nd jb2 node)), hide_node True node jb3)"
      using n Some len by (simp add: take_packet_def jb3_def jb2_def [symmetric] Let_def)
    ultimately show ?thesis using that o j2(2) j3 jb_keeps_trans by blast
  qed
qed

lemma flag_recursive_ok:
  "\<exists>ch'. switch_channel_set_flag_recursive CF_VIDEO_BITRATE_UNMANAGABLE ch = Inr ch'"
  "\<exists>ch'. switch_channel_clear_flag_recursive CF_VIDEO_BITRATE_UNMANAGABLE ch = Inr ch'"
  by (simp_all add: switch_channel_set_flag_recursive_def switch_channel_clear_flag_recursive_def CF_VIDEO_BITRATE_UNMANAGABLE_def cf_defs Let_def)

lemma period_ok:
  assumes "jb_wf jb"
  obtains jb' where "jb_period jb = Inr jb'" "jb_wf jb'" "jb_keeps jb jb'"
proof -
  define jb1 where "jb1 = jb\<lparr>jb_period_count := jb_period_count jb + 1\<rparr>"
  have j1: "jb_wf jb1 \<and> jb_keeps jb jb1" using assms by (rule wf_keeps_fields) (simp_all add: jb1_def)
  define jb2 where "jb2 = (if jb_consec_good_count jb1 \<ge> PERIOD_LEN - 5 then jb_frame_inc (- 1) jb1 else jb1)"
  have j2: "jb_wf jb2" "jb_keeps jb jb2" using j1 frame_inc_wf frame_inc_keeps [of "- 1" jb1] jb_keeps_trans by (auto simp: jb2_def)
  define jb3 where "jb3 = jb2\<lparr>jb_period_count := 1, jb_period_miss_inc := 0, jb_period_miss_count := 0, jb_period_good_count := 0, jb_consec_miss_count := 0, jb_consec_good_count := 0\<rparr>"
  have "jb_wf jb3 \<and> jb_keeps jb2 jb3" using j2(1) by (rule wf_keeps_fields) (simp_all add: jb3_def)
  then have j3: "jb_wf jb3" "jb_keeps jb jb3" using j2(2) jb_keeps_trans by blast+
  have c: "\<exists>jb'. control_bitrate ch jb3 = Inr jb' \<and> jb_wf jb' \<and> jb_keeps jb3 jb'" for ch
  proof -
    obtain ch1 ch2 where f: "switch_channel_set_flag_recursive CF_VIDEO_BITRATE_UNMANAGABLE ch = Inr ch1" "switch_channel_clear_flag_recursive CF_VIDEO_BITRATE_UNMANAGABLE ch = Inr ch2"
      using flag_recursive_ok by blast
    have "jb_wf jb' \<and> jb_keeps jb3 jb'" if "jb' = jb3 \<or> jb' = video_refresh (jb3\<lparr>jb_channel := Some ch2, jb_bitrate_control := 0\<rparr>) \<or>
        jb' = video_refresh (jb_emit (Jb_Bitrate_Req (jb_video_low_bitrate jb3 * 1024)) (jb3\<lparr>jb_channel := Some ch1, jb_bitrate_control := jb_video_low_bitrate jb3\<rparr>))" for jb'
      using that j3(1) by (elim disjE; intro wf_keeps_fields [of jb3]) (simp_all add: jb_emit_def)
    then show ?thesis using f by (simp add: control_bitrate_def)
  qed
  have "\<exists>jb'. jb_period jb = Inr jb' \<and> jb_wf jb' \<and> jb_keeps jb jb'"
  proof (cases "jb_period_count jb1 \<ge> PERIOD_LEN")
    case False
    then show ?thesis using j1 by (simp add: jb_period_def jb1_def [symmetric] Let_def)
  next
    case True
    have e: "jb_period jb = (case jb_channel jb3 of Some ch \<Rightarrow> if is_video jb3 \<and> jb_video_low_bitrate jb3 \<noteq> 0 then control_bitrate ch jb3 else Inr jb3 | None \<Rightarrow> Inr jb3)"
      unfolding jb_period_def jb1_def [symmetric] Let_def jb2_def [symmetric] jb3_def [symmetric] by (simp only: True if_True)
    show ?thesis using e j3 c jb_keeps_trans by (cases "jb_channel jb3") (auto, blast)
  qed
  then show ?thesis using that by blast
qed

lemma shrink_ok:
  assumes "jb_wf jb"
  obtains jb' where "shrink jb = Inr jb'" "jb_wf jb'" "jb_keeps jb jb'"
proof -
  define jb1 where "jb1 = (if jb_complete_frames jb > jb_max_frame_len jb then thin_frames 8 25 jb else jb)"
  have j1: "jb_wf jb1" "jb_keeps jb jb1" using assms thin_frames_ok [OF assms, of 8 25] same_keeps by (simp_all add: jb1_def)
  obtain jb2 where "switch_jb_reset jb1 = Inr jb2" "jb_wf jb2" "jb_keeps jb1 jb2" by (rule reset_ok [OF j1(1)]) (blast intro: reset_keeps)
  then show ?thesis using that [of jb1] that [of jb2] j1 jb_keeps_trans [of jb jb1 jb2]
    by (cases "jb_complete_frames jb1 > jb_max_frame_len jb1 * 2") (simp_all add: shrink_def jb1_def [symmetric] Let_def)
qed

lemma get_packet_ok:
  assumes "jb_wf jb"
  obtains st p l jb' where "switch_jb_get_packet packet len jb = Inr (st, p, l, jb')" "jb_wf jb'" "jb_keeps jb jb'"
proof -
  define body where "body = (if jb_complete_frames jb = 0 then Inr (SWITCH_STATUS_BREAK, packet, len, jb\<lparr>jb_flush := 0\<rparr>)
        else if jb_complete_frames jb < jb_frame_len jb \<and> jb_flush jb = 0 then Inr (SWITCH_STATUS_MORE_DATA, packet, len, jb)
        else
          and_then (jb_period jb) (\<lambda>jb.
          and_then (if too_many_misses jb then switch_jb_reset jb else Inr jb) (\<lambda>jb.
            take_packet packet len jb)))"
  have "\<exists>st p l jb'. body = Inr (st, p, l, jb') \<and> jb_wf jb' \<and> jb_keeps jb jb'"
  proof (cases "jb_complete_frames jb = 0 \<or> jb_complete_frames jb < jb_frame_len jb \<and> jb_flush jb = 0")
    case True
    have "jb_wf (jb\<lparr>jb_flush := 0\<rparr>) \<and> jb_keeps jb (jb\<lparr>jb_flush := 0\<rparr>)" using assms by (rule wf_keeps_fields) simp_all
    then show ?thesis using True assms by (auto simp: body_def)
  next
    case False
    obtain jb1 where j1: "jb_period jb = Inr jb1" "jb_wf jb1" "jb_keeps jb jb1" by (rule period_ok [OF assms]) blast
    obtain jb2 where j2: "(if too_many_misses jb1 then switch_jb_reset jb1 else Inr jb1) = Inr jb2" "jb_wf jb2" "jb_keeps jb1 jb2"
    proof (cases "too_many_misses jb1")
      case True
      then show ?thesis using that reset_ok [OF j1(2)] reset_keeps by (metis (full_types))
    qed (use that j1(2) in auto)
    obtain st p l jb3 where j3: "take_packet packet len jb2 = Inr (st, p, l, jb3)" "jb_wf jb3" "jb_keeps jb2 jb3" by (rule take_packet_ok [OF j2(2)]) blast
    have "body = Inr (st, p, l, jb3)" using False j1(1) j2(1) j3(1) by (auto simp: body_def)
    then show ?thesis using j3(2) jb_keeps_trans [OF jb_keeps_trans [OF j1(3) j2(3)] j3(3)] by blast
  qed
  then obtain st p l jb1 where b: "body = Inr (st, p, l, jb1)" "jb_wf jb1" "jb_keeps jb jb1" by blast
  obtain jb2 where "shrink jb1 = Inr jb2" "jb_wf jb2" "jb_keeps jb1 jb2" by (rule shrink_ok [OF b(2)]) blast
  then show ?thesis using that b jb_keeps_trans [OF b(3)] by (simp add: switch_jb_get_packet_def body_def [symmetric])
qed

section \<open>Byte order\<close>

lemma ntohs_ntohs [simp]: "ntohs (ntohs w) = w"
  by (rule bit_word_eqI) (auto simp: ntohs_def bit_simps)

lemma ntohs_inject [simp]: "ntohs v = ntohs w \<longleftrightarrow> v = w"
  by (metis ntohs_ntohs)

lemma ntohs_0 [simp]: "ntohs 0 = 0"
  by (simp add: ntohs_def)

lemma ntohs_eq_0 [simp]: "ntohs w = 0 \<longleftrightarrow> w = 0"
  by (metis ntohs_0 ntohs_inject)

lemma unat_key: "unat (hash_key v) = unat v"
  using unsigned_less [of v, where 'a = nat] by (simp add: unsigned_ucast_eq take_bit_nat_eq_self)

lemma hash_key_inject [simp]: "hash_key v = hash_key w \<longleftrightarrow> v = w"
  by (simp add: word_unat_eq_iff unat_key)

section \<open>Asking again for missing packets\<close>

lemma key_of_low: "k < 65536 \<Longrightarrow> hash_key (ucast k) = k"
proof -
  assume "k < 65536"
  then have "unat k < 65536" by (simp add: word_less_nat_alt)
  then show ?thesis by (intro word_unat_eq_iff [THEN iffD2]) (simp add: unsigned_ucast_eq unsigned_take_bit_eq take_bit_nat_eq_self)
qed

lemma nack_walk_in: "nack_walk now jb es least = Expired seq l \<Longrightarrow> \<exists>var val. (var, val) \<in> set es \<and> seq = ntohs (ucast var)"
proof (induction es arbitrary: least)
  case (Cons e es)
  obtain var val where e: "e = (var, val)" by fastforce
  show ?case
  proof (cases "\<exists>l'. nack_walk now jb es l' = Expired seq l")
    case True
    then show ?thesis using Cons.IH by fastforce
  next
    case False
    then have "seq = ntohs (ucast var)" using Cons.prems e by (auto simp: Let_def split: if_splits)
    then show ?thesis using e by auto
  qed
qed simp

lemma count_distinct: "(\<And>k. count (mset xs) k \<le> 1) \<Longrightarrow> distinct xs"
proof (induction xs)
  case (Cons x xs)
  have "count (mset xs) k \<le> 1" for k using Cons.prems [of k] by (auto simp: count_mset_0_iff [THEN iffD2] split: if_splits)
  moreover have "x \<notin> set xs" using Cons.prems [of x] by (simp add: count_mset_0_iff)
  ultimately show ?case using Cons.IH by simp
qed simp

lemma table_size:
  assumes "table_rep switch_hash_default_int switch_hash_equalkeys_int h bs" and "\<forall>b\<in>set bs. fst b < (65536 :: uint32_t)"
  shows "length bs \<le> 65536" "size (ht_entries h) = length bs" "unat (switch_hashtable_count h) = length bs"
proof -
  have h: "ht_inv h" "ht_eqfn h = switch_hash_equalkeys_int" "image_mset binding_of (ht_entries h) = mset bs" using assms(1) by (auto simp: table_rep_def)
  show sz: "size (ht_entries h) = length bs" using h(3) by (metis size_image_mset size_mset)
  have keys: "image_mset e_k (ht_entries h) = mset (map fst bs)"
  proof -
    have "image_mset fst (image_mset binding_of (ht_entries h)) = mset (map fst bs)" using h(3) by simp
    then show ?thesis by (simp add: image_mset.compositionality comp_def)
  qed
  have c: "count (mset (map fst bs)) k \<le> 1" for k
  proof -
    have "size (filter_mset (\<lambda>e. k = e_k e) (ht_entries h)) \<le> 1" using h(1,2) by (simp add: ht_inv_def ht_unique_def switch_hash_equalkeys_int_def)
    moreover have "count (mset (map fst bs)) k = size (filter_mset (\<lambda>e. k = e_k e) (ht_entries h))"
      unfolding keys [symmetric] by (simp add: count_conv_size_mset filter_mset_image_mset eq_commute)
    ultimately show ?thesis by simp
  qed
  then have "distinct (map fst bs)" by (rule count_distinct)
  moreover have "set (map fst bs) \<subseteq> (\<lambda>n. of_nat n) ` {..<65536}"
  proof
    fix k assume "k \<in> set (map fst bs)"
    then have "unat k < 65536" using assms(2) by (auto simp: word_less_nat_alt)
    then show "k \<in> (\<lambda>n. of_nat n) ` {..<65536}" by (intro image_eqI [of _ _ "unat k"]) simp_all
  qed
  then have "card (set (map fst bs)) \<le> 65536"
    using card_mono [of "(\<lambda>n. of_nat n :: uint32_t) ` {..<65536}" "set (map fst bs)"] card_image_le [of "{..<65536}" "\<lambda>n. of_nat n :: uint32_t"] by simp
  ultimately show len: "length bs \<le> 65536" using distinct_card [of "map fst bs"] by simp
  have "ht_entrycount h = of_nat (length bs)" using h(1) sz by (simp add: ht_inv_def)
  then show "unat (switch_hashtable_count h) = length bs" using len by (simp add: switch_hashtable_count_def unat_of_nat)
qed

lemma nack_scan_ok:
  "table_rep switch_hash_default_int switch_hash_equalkeys_int h bs \<Longrightarrow> \<forall>b\<in>set bs. snd (snd b) = None \<and> fst b < 65536 \<Longrightarrow> length bs < fuel \<Longrightarrow>
   \<exists>l h'. nack_scan fuel now jb h least = Some (l, h') \<and> missing_ok h'"
proof (induction fuel arbitrary: h bs least)
  case (Suc fuel)
  note t = table_size [OF Suc.prems(1)]
  have st: "ht_struct h" using Suc.prems(1) by (simp add: table_rep_def ht_inv_def)
  have k: "\<forall>b\<in>set bs. fst b < 65536" using Suc.prems(2) by blast
  let ?es = "map kv (concat (ht_table h))"
  have w: "ht_walk (unat (switch_hashtable_count h)) h (switch_hashtable_first_iter h) = Some ?es"
    using walk_entries [OF st] t(2,3) [OF k] by simp
  show ?case
  proof (cases "nack_walk now jb ?es least")
    case (Least l)
    then show ?thesis using w Suc.prems(1,2) by (auto simp: missing_ok_def)
  next
    case (Expired seq l)
    then obtain var val where v: "(var, val) \<in> set ?es" "seq = ntohs (ucast var)" using nack_walk_in by blast
    then obtain e where e: "e \<in># ht_entries h" "e_k e = var" by (auto simp: kv_def ht_entries_def)
    then have "binding_of e \<in> set bs" using Suc.prems(1) unfolding table_rep_def by (metis image_eqI set_image_mset set_mset_mset)
    then have b: "\<exists>b\<in>set bs. fst b = var" using e(2) by force
    then have "var < 65536" using k by blast
    then have key: "hash_key (htons seq) = var" using v(2) key_of_low by simp
    let ?bs = "bindings_without switch_hash_equalkeys_int var bs"
    have "table_rep switch_hash_default_int switch_hash_equalkeys_int (hash_del h var) ?bs"
      using hash_int.delete_law [OF Suc.prems(1), of var] by (auto simp: hash_del_def)
    moreover have "\<forall>b\<in>set ?bs. snd (snd b) = None \<and> fst b < 65536" using Suc.prems(2) by (simp add: bindings_without_def)
    moreover have "length ?bs < length bs"
      using b length_filter_less [of _ bs "\<lambda>b. \<not> switch_hash_equalkeys_int var (fst b)"] by (auto simp: bindings_without_def switch_hash_equalkeys_int_def)
    then have "length ?bs < fuel" using Suc.prems(3) by simp
    ultimately have "\<exists>l' h'. nack_scan fuel now jb (hash_del h var) l = Some (l', h') \<and> missing_ok h'" by (rule Suc.IH)
    then show ?thesis using w Expired key by (simp add: hash_del_def)
  qed
qed simp

lemma nack_more_ok:
  assumes "missing_ok h" and "alloc_ok a"
  shows "\<exists>blp' h'. nack_more a now least is blp h = Inr (blp', h') \<and> missing_ok h'"
  using assms(1)
proof (induction "is" arbitrary: blp h)
  case (Cons i "is")
  let ?key = "hash_key (htons (least + of_nat i + 1))"
  note d = missing_delete_ok [OF Cons.prems, of ?key]
  obtain st eff h1 where i: "switch_core_inthash_insert a (hash_del h ?key) ?key (ptr_of now) = Inr (st, eff, h1)" "missing_ok h1"
    by (rule missing_insert_ok [OF d(1) assms(2) key_bound, of "htons (least + of_nat i + 1)" "ptr_of now"]) blast
  show ?case
  proof (cases "switch_core_inthash_find h ?key")
    case None
    then have "switch_core_inthash_delete h ?key = (None, fst (snd (switch_core_inthash_delete h ?key)), hash_del h ?key)" using d(2) by simp
    then show ?thesis using Cons.IH [OF d(1)] by (metis (no_types, lifting) nack_more.simps(2) option.case(1) prod.case)
  next
    case (Some v)
    then have e: "switch_core_inthash_delete h ?key = (Some v, fst (snd (switch_core_inthash_delete h ?key)), hash_del h ?key)" using d(2) by simp
    have "nack_more a now least (i # is) blp h = nack_more a now least is (blp OR push_bit i 1) h1"
      unfolding nack_more.simps Let_def by (subst e) (simp add: i(1))
    then show ?thesis using Cons.IH [OF i(2)] by simp
  qed
qed simp

lemma pop_nack_ok:
  assumes "jb_wf jb" and "alloc_ok a"
  obtains n jb' where "switch_jb_pop_nack a now jb = Inr (Some (n, jb'))" "jb_wf jb'" "jb_keeps jb jb'"
proof (cases "is_video jb")
  case False
  then show ?thesis using that assms(1) by (simp add: switch_jb_pop_nack_def)
next
  case True
  then obtain m where m: "jb_missing_seq_hash jb = Some m" "missing_ok m" using assms(1) by (auto simp: jb_wf_def)
  then obtain bs where bs: "table_rep switch_hash_default_int switch_hash_equalkeys_int m bs" "\<forall>b\<in>set bs. snd (snd b) = None \<and> fst b < 65536"
    by (auto simp: missing_ok_def)
  then have "unat (switch_hashtable_count m) = length bs" using table_size(3) by blast
  then obtain least h where s: "nack_scan (Suc (unat (switch_hashtable_count m))) now jb m 0 = Some (least, h)" "missing_ok h"
    using nack_scan_ok [OF bs] by (metis lessI)
  have ok: "jb_wf (jb\<lparr>jb_missing_seq_hash := Some h'\<rparr>) \<and> jb_keeps jb (jb\<lparr>jb_missing_seq_hash := Some h'\<rparr>)" if "missing_ok h'" for h'
    using assms(1) that keeps_fields [of "jb\<lparr>jb_missing_seq_hash := Some h'\<rparr>" jb] by (simp add: jb_wf_def)
  let ?key = "hash_key (htons least)"
  note d = missing_delete_ok [OF s(2), of ?key]
  obtain eff0 where d2: "switch_core_inthash_delete h ?key = (switch_core_inthash_find h ?key, eff0, hash_del h ?key)" using d(2) by blast
  obtain st eff h1 where i: "switch_core_inthash_insert a (hash_del h ?key) ?key (ptr_of now) = Inr (st, eff, h1)" "missing_ok h1"
    by (rule missing_insert_ok [OF d(1) assms(2) key_bound, of "htons least" "ptr_of now"]) blast
  obtain blp h2 where r: "nack_more a now least [0..<16] 0 h1 = Inr (blp, h2)" "missing_ok h2" using nack_more_ok [OF i(2) assms(2)] by blast
  have "switch_jb_pop_nack a now jb =
      (if least = 0 then Inr (Some (0, jb\<lparr>jb_missing_seq_hash := Some h\<rparr>))
       else if switch_core_inthash_find h ?key = None then Inr (Some (0, jb\<lparr>jb_missing_seq_hash := Some (hash_del h ?key)\<rparr>))
       else Inr (Some (?key OR push_bit 16 (ucast (htons blp)), jb\<lparr>jb_missing_seq_hash := Some h2\<rparr>)))"
    using True i(1) r(1) by (simp add: switch_jb_pop_nack_def m(1) s(1) d2 Let_def cong: if_cong del: nack_scan.simps nack_more.simps upt_rec_numeral)
  then show ?thesis using that ok [OF s(2)] ok [OF d(1)] ok [OF r(2)] by (auto split: if_splits)
qed

section \<open>All calls\<close>

datatype jb_call =
    Jb_Put hash_alloc switch_rtp_packet nat
  | Jb_Get switch_rtp_packet nat
  | Jb_Get_By_Seq uint16_t switch_rtp_packet nat
  | Jb_Peek uint32_t uint16_t int jb_frame
  | Jb_Reset
  | Jb_Set_Frames uint32_t uint32_t
  | Jb_Set_Flag uint32_t
  | Jb_Clear_Flag uint32_t
  | Jb_Ts_Mode uint32_t uint32_t
  | Jb_Pop_Nack hash_alloc int
  | Jb_Set_Session chan_env switch_channel

text \<open>A search for missing packets that did not end would count as a fault.\<close>

fun jb_step :: "jb_call \<Rightarrow> switch_jb \<Rightarrow> switch_jb c_result" where
  "jb_step (Jb_Put a packet len) jb = and_then (switch_jb_put_packet a packet len jb) (\<lambda>(_, jb). Inr jb)"
| "jb_step (Jb_Get packet len) jb = and_then (switch_jb_get_packet packet len jb) (\<lambda>(_, _, _, jb). Inr jb)"
| "jb_step (Jb_Get_By_Seq seq packet len) jb = and_then (switch_jb_get_packet_by_seq seq packet len jb) (\<lambda>_. Inr jb)"
| "jb_step (Jb_Peek ts seq peek frame) jb = and_then (switch_jb_peek_frame ts seq peek frame jb) (\<lambda>_. Inr jb)"
| "jb_step Jb_Reset jb = switch_jb_reset jb"
| "jb_step (Jb_Set_Frames mn mx) jb = Inr (switch_jb_set_frames mn mx jb)"
| "jb_step (Jb_Set_Flag flag) jb = Inr (switch_jb_set_flag flag jb)"
| "jb_step (Jb_Clear_Flag flag) jb = Inr (switch_jb_clear_flag flag jb)"
| "jb_step (Jb_Ts_Mode frame second) jb = switch_jb_ts_mode frame second jb"
| "jb_step (Jb_Pop_Nack a now) jb = and_then (switch_jb_pop_nack a now jb) (\<lambda>r. case r of None \<Rightarrow> Inl Aborted | Some (_, jb) \<Rightarrow> Inr jb)"
| "jb_step (Jb_Set_Session env channel) jb = switch_jb_set_session env channel jb"

fun jb_run :: "jb_call list \<Rightarrow> switch_jb \<Rightarrow> switch_jb c_result" where
  "jb_run [] jb = Inr jb"
| "jb_run (c # cs) jb = and_then (jb_step c jb) (jb_run cs)"

definition limits_ok :: "uint32_t \<Rightarrow> uint32_t \<Rightarrow> bool" where
  "limits_ok mn mx \<longleftrightarrow> 0 < mn \<and> mn \<le> mx \<and> mx < 0xFFFFFFFF"

text \<open>Packets that fit a node, tables that do not grow by \<^verbatim>\<open>realloc\<close>, buffers below four gigabytes and sensible limits.\<close>

fun call_ok :: "string set \<Rightarrow> jb_call \<Rightarrow> bool" where
  "call_ok V (Jb_Put a packet len) \<longleftrightarrow> alloc_ok a \<and> len \<le> body_len"
| "call_ok V (Jb_Peek ts seq peek frame) \<longleftrightarrow> fr_buflen frame < 0xFFFFFFF0"
| "call_ok V (Jb_Set_Frames mn mx) \<longleftrightarrow> limits_ok mn mx"
| "call_ok V (Jb_Pop_Nack a now) \<longleftrightarrow> alloc_ok a"
| "call_ok V (Jb_Set_Session env channel) \<longleftrightarrow> chan_ok V channel"
| "call_ok V c \<longleftrightarrow> True"

lemma node_len: "jb_wf jb \<Longrightarrow> n < length (jb_store jb) \<Longrightarrow> unat (jn_len (nd jb n)) \<le> body_len"
  by (simp add: jb_wf_def nodes_ok_def nd_def)

lemma peek_ok:
  assumes "jb_wf jb" and "fr_buflen frame < 0xFFFFFFF0"
  shows "\<exists>r. switch_jb_peek_frame ts seq peek frame jb = Inr r"
proof (cases "peek_node jb ts seq peek")
  case (Some node)
  then consider s where "seq_find jb s = Some node" | h k where "jb_node_hash_ts jb = Some h" "switch_core_inthash_find h k = Some node"
    by (auto simp: peek_node_def split: if_splits option.splits)
  then have n: "node < length (jb_store jb)"
  proof cases
    case 1
    then show ?thesis by (rule seq_find_valid [OF assms(1)])
  next
    case 2
    then show ?thesis using assms(1) by (simp add: jb_wf_def hash_in_def)
  qed
  have fit: "unat (jn_len (nd jb node) - 12) \<le> body_len" if "jn_len (nd jb node) - 12 < fr_buflen frame"
  proof -
    have "unat (jn_len (nd jb node) - 12) < 0xFFFFFFF0" using that assms(2) by (simp add: word_less_nat_alt)
    moreover have "unat (jn_len (nd jb node) - 12) = (if 12 \<le> unat (jn_len (nd jb node)) then unat (jn_len (nd jb node)) - 12 else 2 ^ 32 + unat (jn_len (nd jb node)) - 12)"
      by (simp add: unat_sub_if' word_le_nat_alt)
    ultimately show ?thesis using node_len [OF assms(1) n] by (auto split: if_splits)
  qed
  show ?thesis
  proof (cases "fr_data frame")
    case None
    then show ?thesis using Some by (simp add: switch_jb_peek_frame_def Let_def)
  next
    case (Some d)
    then show ?thesis using fit \<open>peek_node jb ts seq peek = _\<close> by (auto simp: switch_jb_peek_frame_def Let_def not_less [symmetric])
  qed
qed (simp add: switch_jb_peek_frame_def)

lemma set_frames_ok:
  assumes "jb_wf jb" and "limits_ok mn mx"
  shows "jb_wf (switch_jb_set_frames mn mx jb) \<and> frame_ok (switch_jb_set_frames mn mx jb)"
proof
  show "jb_wf (switch_jb_set_frames mn mx jb)" using assms(1) by (rule wf_fields) (simp_all add: switch_jb_set_frames_def Let_def)
  show "frame_ok (switch_jb_set_frames mn mx jb)" using assms(2) by (auto simp: frame_ok_def switch_jb_set_frames_def limits_ok_def Let_def)
qed

lemma keeps_frame: "jb_keeps jb jb' \<Longrightarrow> frame_ok jb \<Longrightarrow> frame_ok jb'"
  by (simp add: jb_keeps_def)

lemma jb_step_ok:
  assumes "jb_wf jb" and "frame_ok jb" and "call_ok V c"
  shows "\<exists>jb'. jb_step c jb = Inr jb' \<and> jb_wf jb' \<and> frame_ok jb'"
proof (cases c)
  case (Jb_Put a packet len)
  obtain jb' where "switch_jb_put_packet a packet len jb = Inr (SWITCH_STATUS_SUCCESS, jb')" "jb_wf jb'" "jb_keeps jb jb'"
    by (rule put_packet_ok [OF assms(1), of a len packet]) (use Jb_Put assms(3) in auto)
  then show ?thesis using Jb_Put keeps_frame assms(2) by simp
next
  case (Jb_Get packet len)
  obtain st p l jb' where "switch_jb_get_packet packet len jb = Inr (st, p, l, jb')" "jb_wf jb'" "jb_keeps jb jb'" by (rule get_packet_ok [OF assms(1)]) blast
  then show ?thesis using Jb_Get keeps_frame assms(2) by simp
next
  case (Jb_Get_By_Seq seq packet len)
  have "\<exists>r. switch_jb_get_packet_by_seq seq packet len jb = Inr r"
    using node_len [OF assms(1)] seq_find_valid [OF assms(1)] by (auto simp: switch_jb_get_packet_by_seq_def not_less [symmetric] split: option.split)
  then show ?thesis using Jb_Get_By_Seq assms by auto
next
  case (Jb_Peek ts seq peek frame)
  then show ?thesis using peek_ok [OF assms(1), of frame ts seq peek] assms by auto
next
  case Jb_Reset
  obtain jb' where "switch_jb_reset jb = Inr jb'" "jb_wf jb'" "reset_shape jb jb'" by (rule reset_ok [OF assms(1)])
  then show ?thesis using Jb_Reset keeps_frame [OF reset_keeps] assms(2) by simp
next
  case (Jb_Set_Frames mn mx)
  then show ?thesis using set_frames_ok [OF assms(1)] assms(3) by simp
next
  case (Jb_Set_Flag f)
  have "jb_wf (switch_jb_set_flag f jb)" using assms(1) by (rule wf_fields) (simp_all add: switch_jb_set_flag_def)
  then show ?thesis using Jb_Set_Flag assms(2) by (simp add: switch_jb_set_flag_def frame_ok_def)
next
  case (Jb_Clear_Flag f)
  have "jb_wf (switch_jb_clear_flag f jb)" using assms(1) by (rule wf_fields) (simp_all add: switch_jb_clear_flag_def)
  then show ?thesis using Jb_Clear_Flag assms(2) by (simp add: switch_jb_clear_flag_def frame_ok_def)
next
  case (Jb_Ts_Mode f s)
  obtain h :: "(uint32_t, nat) switch_hashtable" where h: "switch_core_inthash_init True = Inr (SWITCH_STATUS_SUCCESS, Some h)" "hash_ok h" "\<And>k. switch_core_inthash_find h k = None"
    by (rule hash_init_ok) blast
  then have "hash_in n h" for n by (simp add: hash_in_def)
  then show ?thesis using Jb_Ts_Mode h(1) assms by (simp add: switch_jb_ts_mode_def jb_wf_def frame_ok_def)
next
  case (Jb_Pop_Nack a now)
  obtain n jb' where "switch_jb_pop_nack a now jb = Inr (Some (n, jb'))" "jb_wf jb'" "jb_keeps jb jb'" by (rule pop_nack_ok [OF assms(1), of a now]) (use Jb_Pop_Nack assms(3) in auto)
  then show ?thesis using Jb_Pop_Nack keeps_frame assms(2) by simp
next
  case (Jb_Set_Session env ch)
  obtain v where v: "switch_channel_get_variable_dup env ch (Some ''jb_video_low_bitrate'') (- 1) = Inr v"
    using get_variable_dup_ok [of V ch] Jb_Set_Session assms(3) by fastforce
  let ?jb = "jb\<lparr>jb_session := True, jb_channel := Some ch\<rparr>"
  have ok1: "jb_wf ?jb \<and> jb_keeps jb ?jb" using assms(1) by (rule wf_keeps_fields) simp_all
  have ok2: "jb_wf (?jb\<lparr>jb_video_low_bitrate := x\<rparr>) \<and> jb_keeps jb (?jb\<lparr>jb_video_low_bitrate := x\<rparr>)" for x using assms(1) by (rule wf_keeps_fields) simp_all
  have "switch_jb_set_session env ch jb =
      Inr (if is_video jb \<and> \<not> queue_only jb \<and> v \<noteq> None \<and> 128 \<le> c_atoi (the v) \<and> c_atoi (the v) \<le> 10240
           then ?jb\<lparr>jb_video_low_bitrate := of_int (c_atoi (the v))\<rparr> else ?jb)"
    using v by (cases v) (auto simp: switch_jb_set_session_def Let_def)
  then have "\<exists>jb'. switch_jb_set_session env ch jb = Inr jb' \<and> jb_wf jb' \<and> jb_keeps jb jb'" using ok1 ok2 [of "of_int (c_atoi (the v))"] by (simp split: if_split)
  then show ?thesis using Jb_Set_Session keeps_frame assms(2) by auto
qed

lemma jb_run_ok:
  "jb_wf jb \<Longrightarrow> frame_ok jb \<Longrightarrow> list_all (call_ok V) cs \<Longrightarrow> \<exists>jb'. jb_run cs jb = Inr jb' \<and> jb_wf jb' \<and> frame_ok jb'"
proof (induction cs arbitrary: jb)
  case (Cons c cs)
  obtain jb1 where "jb_step c jb = Inr jb1" "jb_wf jb1" "frame_ok jb1" using jb_step_ok [of jb V c] Cons.prems by auto
  then show ?case using Cons by simp
qed simp

lemma create_ok:
  assumes "limits_ok mn mx"
  obtains jb where "switch_jb_create type mn mx = Inr jb" "jb_wf jb" "frame_ok jb" "jb_store jb = []" "jb_type jb = type" "jb_node_list jb = []"
    "\<And>s. seq_find jb s = None" "jb_samples_per_frame jb = 0" "jb_flags jb = 0" "jb_max_frame_len jb = mx" "jb_frame_len jb = mn" "jb_node_hash_ts jb = None"
    "jb_complete_frames jb = 0" "jb_allocated_nodes jb = 0" "jb_highest_dropped_ts jb = 0" "jb_target_seq jb = 0" "jb_period_count jb = 0" "jb_period_miss_count jb = 0"
    "jb_min_frame_len jb = mn" "jb_flush jb = 0"
proof -
  obtain h :: "(uint32_t, nat) switch_hashtable" where h: "switch_core_inthash_init True = Inr (SWITCH_STATUS_SUCCESS, Some h)" "hash_ok h" "\<And>k. switch_core_inthash_find h k = None"
    by (rule hash_init_ok) blast
  obtain m where m: "switch_core_inthash_init True = Inr (SWITCH_STATUS_SUCCESS, Some m)" "missing_ok m" by (rule missing_init_ok)
  have "nodes_ok [] [] 0" by (simp add: nodes_ok_def)
  moreover have "hash_in 0 h" using h by (simp add: hash_in_def)
  ultimately show ?thesis
    using that h(1,3) m assms by (cases type) (simp_all add: switch_jb_create_def jb_wf_def frame_ok_def limits_ok_def seq_find_def)
qed

section \<open>Resets of a video buffer\<close>

lemma hide_nd: "n < length (jb_store jb) \<Longrightarrow>
    nd (hide_node pop n jb) m = (if m = n \<and> nd_visible jb n then (nd jb n)\<lparr>jn_visible := False, jn_bad_hits := 0\<rparr> else nd jb m)"
  by (auto simp: nd_def hide_node_store nth_list_update)

lemma hide_find: "jb_wf jb \<Longrightarrow> n < length (jb_store jb) \<Longrightarrow> seq_find (hide_node pop n jb) s = (if s = nd_seq jb n then None else seq_find jb s)"
  by (simp add: seq_find_def hide_node_hash hash_del_ok jb_wf_def hash_in_def)

lemma hide_list_complete:
  "jb_wf jb \<Longrightarrow> is_video jb \<Longrightarrow> set l \<subseteq> set (jb_node_list jb) \<Longrightarrow> distinct l \<Longrightarrow> inj_on (nd_seq jb) (set l) \<Longrightarrow>
   jb_complete_frames (fold (hide_node False) l jb) =
     jb_complete_frames jb - of_nat (length (filter (\<lambda>n. seq_find jb (nd_seq jb n) \<noteq> None \<and> pk_version (jn_packet (nd jb n)) = 1) l))"
proof (induction l arbitrary: jb)
  case (Cons n l)
  let ?jb = "hide_node False n jb"
  have n: "n < length (jb_store jb)" using Cons.prems by (auto simp: jb_wf_def nodes_ok_def)
  have w: "jb_wf ?jb" using hide_node_wf [OF Cons.prems(1) n] .
  have nd: "jn_packet (nd ?jb m) = jn_packet (nd jb m)" for m using hide_nd [OF n] by auto
  have sf: "seq_find ?jb (nd_seq ?jb m) = seq_find jb (nd_seq jb m)" if "m \<in> set l" for m
    using hide_find [OF Cons.prems(1) n] nd Cons.prems(4,5) that by (auto simp: inj_on_def)
  have ty: "jb_type ?jb = jb_type jb" using hide_node_shape [OF n] Cons.prems(3) by (simp add: same_shape_def)
  have "jb_complete_frames (fold (hide_node False) l ?jb) =
     jb_complete_frames ?jb - of_nat (length (filter (\<lambda>n. seq_find ?jb (nd_seq ?jb n) \<noteq> None \<and> pk_version (jn_packet (nd ?jb n)) = 1) l))"
    using Cons.prems w ty nd by (intro Cons.IH) (simp_all add: hide_node_list inj_on_def)
  also have "filter (\<lambda>n. seq_find ?jb (nd_seq ?jb n) \<noteq> None \<and> pk_version (jn_packet (nd ?jb n)) = 1) l =
     filter (\<lambda>n. seq_find jb (nd_seq jb n) \<noteq> None \<and> pk_version (jn_packet (nd jb n)) = 1) l"
    using sf nd by (intro filter_cong) simp_all
  finally show ?case using hide_node_complete [OF n] Cons.prems(1,2) by (simp add: jb_wf_def hash_in_def algebra_simps)
qed simp

section \<open>Properties\<close>

definition demo_packet :: "uint16_t \<Rightarrow> switch_rtp_packet" where
  "demo_packet s = \<lparr>pk_version = 2, pk_m = False, pk_seq = htons s, pk_ts = 0, pk_body = [1, 2, 3]\<rparr>"

abbreviation demo_jb_alloc :: hash_alloc where
  "demo_jb_alloc \<equiv> \<lparr>key_ok = True, expand_mem = Malloc_Ok, entry_ok = True\<rparr>"

text \<open>C11: No call faults. From a buffer just created with limits \<open>0 < min \<le> max < 2 ^ 32 - 1\<close>, any sequence of puts, gets, lookups, peeks, resets, changes of the limits,
  flags and time stamp mode, requests for missing packets and session changes runs to its end, provided that packets fit the body of a node, peek buffers
  are shorter than \<open>2 ^ 32 - 16\<close> bytes, new limits are such again, a session that is set has a well-formed channel and the tables get memory for their keys and do not grow by \<^verbatim>\<open>realloc\<close>. Then the node list names
  every allocated node once, the count of visible nodes is right, every entry of the tables of sequence numbers and of time stamps names an allocated node
  (which may have been hidden since), no length exceeds a node's body and the frame length is between its limits.\<close>

theorem jb_calls_safe:
  assumes "limits_ok mn mx" and "list_all (call_ok V) cs"
  shows "\<exists>jb0 jb. switch_jb_create type mn mx = Inr jb0 \<and> jb_run cs jb0 = Inr jb \<and>
    distinct (jb_node_list jb) \<and> set (jb_node_list jb) = {..<length (jb_store jb)} \<and>
    jb_visible_nodes jb = of_nat (length (filter jn_visible (jb_store jb))) \<and>
    (\<forall>seq n. seq_find jb seq = Some n \<longrightarrow> n < length (jb_store jb)) \<and>
    (\<forall>h k n. jb_node_hash_ts jb = Some h \<longrightarrow> switch_core_inthash_find h k = Some n \<longrightarrow> n < length (jb_store jb)) \<and>
    (\<forall>n < length (jb_store jb). unat (jn_len (nd jb n)) \<le> body_len) \<and>
    jb_min_frame_len jb \<le> jb_frame_len jb \<and> jb_frame_len jb \<le> jb_max_frame_len jb"
proof -
  obtain jb0 where c: "switch_jb_create type mn mx = Inr jb0" "jb_wf jb0" "frame_ok jb0" by (rule create_ok [OF assms(1)]) blast
  obtain jb where j: "jb_run cs jb0 = Inr jb" "jb_wf jb" "frame_ok jb" using jb_run_ok [OF c(2,3) assms(2)] by blast
  have "nodes_ok (jb_store jb) (jb_node_list jb) (jb_visible_nodes jb)" using j(2) by (simp add: jb_wf_def)
  moreover have "\<forall>h k n. jb_node_hash_ts jb = Some h \<longrightarrow> switch_core_inthash_find h k = Some n \<longrightarrow> n < length (jb_store jb)"
    using j(2) by (simp add: jb_wf_def hash_in_def)
  ultimately show ?thesis using c(1) j node_len [OF j(2)] seq_find_valid [OF j(2)] by (simp add: nodes_ok_def frame_ok_def)
qed

theorem jb_calls_safe_witness:
  "\<exists>jb0 jb. switch_jb_create SJB_VIDEO 1 10 = Inr jb0 \<and>
    jb_run [Jb_Set_Session \<lparr>ce_now = 1, ce_globals = (\<lambda>_. None)\<rparr> demo_channel, Jb_Put demo_jb_alloc (demo_packet 7) 15, Jb_Pop_Nack demo_jb_alloc 5, Jb_Get (demo_packet 0) 0,
      Jb_Reset] jb0 = Inr jb \<and> distinct (jb_node_list jb)"
  using jb_calls_safe [of 1 10 "{}" "[Jb_Set_Session \<lparr>ce_now = 1, ce_globals = (\<lambda>_. None)\<rparr> demo_channel, Jb_Put demo_jb_alloc (demo_packet 7) 15,
      Jb_Pop_Nack demo_jb_alloc 5, Jb_Get (demo_packet 0) 0, Jb_Reset]" SJB_VIDEO]
  by (auto simp: limits_ok_def alloc_ok_def body_len_def SWITCH_RTP_MAX_BUF_LEN_def demo_channel_ok)

text \<open>C34: A video buffer's reset miscounts. It sets the number of complete frames to zero and only then hides the nodes, and hiding one that holds a
  complete frame takes one off: the counter ends at minus the number of complete frames that were waiting, which as an unsigned number is close to
  \<open>2 ^ 32\<close> unless there were none.\<close>

theorem jb_video_reset_count:
  assumes "jb_wf jb" and "jb_type jb = SJB_VIDEO" and "inj_on (nd_seq jb) (set (jb_node_list jb))"
  shows "\<exists>jb'. switch_jb_reset jb = Inr jb' \<and>
    jb_complete_frames jb' = - of_nat (length (filter (\<lambda>n. seq_find jb (nd_seq jb n) \<noteq> None \<and> pk_version (jn_packet (nd jb n)) = 1) (jb_node_list jb)))"
proof (rule reset_eq [OF assms(1)])
  fix jb1 assume j: "switch_jb_reset jb = Inr (hide_nodes jb1)" "jb_wf jb1" "jb_store jb1 = jb_store jb" "jb_node_list jb1 = jb_node_list jb"
    "reset_shape jb jb1" "jb_complete_frames jb1 = 0" "jb_node_hash jb1 = jb_node_hash jb"
  have f: "nd jb1 m = nd jb m" "seq_find jb1 s = seq_find jb s" for m s using j(3,7) by (simp_all add: nd_def seq_find_def)
  have "is_video jb1" using j(5) assms(2) by (simp add: reset_shape_def)
  moreover have "distinct (jb_node_list jb1)" using j(2) by (simp add: jb_wf_def nodes_ok_def)
  ultimately have "jb_complete_frames (hide_nodes jb1) = - of_nat (length (filter (\<lambda>n. seq_find jb (nd_seq jb n) \<noteq> None \<and> pk_version (jn_packet (nd jb n)) = 1) (jb_node_list jb)))"
    using hide_list_complete [OF j(2), of "jb_node_list jb1"] assms(3) j(4,6) f by (simp add: hide_nodes_def)
  then show ?thesis using j(1) by blast
qed

theorem jb_video_reset_count_witness:
  "\<exists>jb jb'. jb_wf jb \<and> jb_type jb = SJB_VIDEO \<and> switch_jb_reset jb = Inr jb' \<and> jb_complete_frames jb' = 0xFFFFFFFF"
proof -
  obtain jb0 where c: "switch_jb_create SJB_VIDEO 1 10 = Inr jb0" "jb_wf jb0" "jb_store jb0 = []" "jb_type jb0 = SJB_VIDEO"
    by (rule create_ok [of 1 10 SJB_VIDEO]) (simp_all add: limits_ok_def)
  have h0: "hash_ok (jb_node_hash jb0)" "hash_in 0 (jb_node_hash jb0)" using c(2,3) by (simp_all add: jb_wf_def hash_in_def)
  obtain h where h: "hash_ok h" "\<And>k. switch_core_inthash_find h k = (if k = hash_key 0 then Some 0 else switch_core_inthash_find (jb_node_hash jb0) k)"
    by (rule hash_insert_ok [OF h0(1), of demo_jb_alloc "hash_key 0" "Some 0"]) (simp_all add: alloc_ok_def)
  define jb where "jb = jb0\<lparr>jb_store := [zero_node\<lparr>jn_packet := (demo_packet 0)\<lparr>pk_version := 1\<rparr>, jn_visible := True\<rparr>], jb_node_list := [0],
    jb_visible_nodes := 1, jb_node_hash := h\<rparr>"
  have w: "jb_wf jb" using c(2-4) h h0(2) by (auto simp: jb_def jb_wf_def nodes_ok_def hash_in_def zero_node_def split: if_splits)
  have s: "jb_type jb = SJB_VIDEO" "nd_seq jb 0 = 0" "pk_version (jn_packet (nd jb 0)) = 1" "seq_find jb 0 = Some 0" "jb_node_list jb = [0]"
    using c(4) h(2) by (simp_all add: jb_def nd_def demo_packet_def seq_find_def)
  show ?thesis using jb_video_reset_count [OF w s(1)] w s by auto
qed

end
