(* ===== verification/FS_Jitterbuffer_Audio.thy ===== *)
theory FS_Jitterbuffer_Audio
  imports FS_Jitterbuffer_Safe
begin

text \<open>
  Audio buffers, which count a frame per packet and read by sequence number: their invariant (how many nodes and frames there can be,
  and that the table of sequence numbers leads to waiting packets), what a put adds and a get takes away, and that packets come out in order.
\<close>

section \<open>Audio\<close>

definition vis :: "switch_jb \<Rightarrow> nat" where
  "vis jb = length (filter jn_visible (jb_store jb))"

text \<open>The table of sequence numbers points to nodes that are visible and have the number.\<close>

definition seq_sound :: "switch_jb \<Rightarrow> bool" where
  "seq_sound jb \<longleftrightarrow> (\<forall>s n. seq_find jb s = Some n \<longrightarrow> n < length (jb_store jb) \<and> nd_visible jb n \<and> nd_seq jb n = s)"

lemma hide_vis: "n < length (jb_store jb) \<Longrightarrow> vis (hide_node pop n jb) = (if nd_visible jb n then vis jb - 1 else vis jb)"
  using filter_update(1) [of n "jb_store jb" jn_visible "(nd jb n)\<lparr>jn_visible := False, jn_bad_hits := 0\<rparr>"] by (auto simp: vis_def hide_node_store nd_def)

lemma hide_sound:
  assumes "jb_wf jb" and "n < length (jb_store jb)" and "seq_sound jb"
  shows "seq_sound (hide_node pop n jb)"
  using assms by (auto simp: seq_sound_def hide_find hide_nd split: if_splits)

lemma vis_pos: "n < length (jb_store jb) \<Longrightarrow> nd_visible jb n \<Longrightarrow> 0 < vis jb"
  by (auto simp: vis_def nd_def filter_empty_conv intro!: nth_mem)

text \<open>What dropping packets does to an audio buffer: the number of frames stays.\<close>

definition thinner :: "switch_jb \<Rightarrow> switch_jb \<Rightarrow> bool" where
  "thinner jb x \<longleftrightarrow> jb_wf x \<and> same_shape jb x \<and> jb_type x = SJB_AUDIO \<and> seq_sound x \<and> vis x \<le> vis jb \<and> jb_complete_frames x = jb_complete_frames jb \<and>
     jb_period_miss_count x = jb_period_miss_count jb \<and> jb_highest_dropped_ts x = jb_highest_dropped_ts jb"

lemma hide_more_fields [simp]: "jb_highest_dropped_ts (hide_node pop n jb) = jb_highest_dropped_ts jb"
  by (simp add: hide_node_def push_to_top_def upd_nd_def Let_def split: prod.split option.split)

interpretation thinning: hiding_stable "thinner jb" for jb
proof
  fix x n assume x: "thinner jb x" "n \<in> set (jb_node_list x)"
  then have n: "n < length (jb_store x)" by (simp add: thinner_def jb_wf_def nodes_ok_def)
  have "jb_complete_frames (hide_node False n x) = jb_complete_frames x"
    using x n hide_node_complete [OF n] by (simp add: thinner_def jb_wf_def hash_in_def)
  moreover have "vis (hide_node False n x) \<le> vis x" using hide_vis [OF n] by simp
  ultimately show "thinner jb (hide_node False n x)"
    using x n hide_node_wf [OF _ n] hide_node_shape [OF n x(2)] hide_sound [OF _ n] same_shape_trans by (auto simp: thinner_def)
next
  fix x assume x: "thinner jb x"
  have "jb_wf (sort_free_nodes x)" "same_shape jb (sort_free_nodes x)" using wf_hiding.sort_law [of x jb] x by (simp_all add: thinner_def)
  moreover have "seq_sound (sort_free_nodes x) = seq_sound x" by (simp add: seq_sound_def sort_free_nodes_def seq_find_def nd_def)
  ultimately show "thinner jb (sort_free_nodes x)" using x by (simp add: thinner_def) (simp add: sort_free_nodes_def vis_def)
qed

lemma thinner_refl: "jb_wf jb \<Longrightarrow> jb_type jb = SJB_AUDIO \<Longrightarrow> seq_sound jb \<Longrightarrow> thinner jb jb"
  by (simp add: thinner_def)

text \<open>Hiding every node leaves none.\<close>

lemma hide_list_vis:
  "jb_wf jb \<Longrightarrow> set l \<subseteq> set (jb_node_list jb) \<Longrightarrow> m < length (jb_store jb) \<Longrightarrow>
   nd_visible (fold (hide_node False) l jb) m \<longleftrightarrow> m \<notin> set l \<and> nd_visible jb m"
proof (induction l arbitrary: jb)
  case (Cons n l)
  have n: "n < length (jb_store jb)" using Cons.prems by (auto simp: jb_wf_def nodes_ok_def)
  have "jb_wf (hide_node False n jb)" using hide_node_wf [OF Cons.prems(1) n] .
  then show ?case using Cons n by (auto simp: hide_nd hide_node_list)
qed simp

lemma hide_nodes_vis: "jb_wf jb \<Longrightarrow> vis (hide_nodes jb) = 0"
proof -
  assume w: "jb_wf jb"
  have len: "length (jb_store (hide_nodes jb)) = length (jb_store jb)" using hide_nodes_ok [OF w] by (simp add: same_shape_def)
  have "\<not> nd_visible (hide_nodes jb) m" if "m < length (jb_store jb)" for m
    using hide_list_vis [OF w order_refl that] w that by (auto simp: hide_nodes_def jb_wf_def nodes_ok_def)
  then show ?thesis using len by (auto simp: vis_def filter_empty_conv nd_def in_set_conv_nth)
qed

text \<open>The invariant of an audio buffer that works with sequence numbers, where no more than \<open>M\<close> frames are ever allowed.\<close>

definition audio_ok :: "nat \<Rightarrow> switch_jb \<Rightarrow> bool" where
  "audio_ok M jb \<longleftrightarrow> jb_wf jb \<and> frame_ok jb \<and> jb_type jb = SJB_AUDIO \<and> \<not> queue_only jb \<and> jb_samples_per_frame jb = 0 \<and> jb_node_hash_ts jb = None \<and>
     seq_sound jb \<and> unat (jb_max_frame_len jb) \<le> M \<and> unat (jb_allocated_nodes jb) = length (jb_store jb) \<and> length (jb_store jb) \<le> 2 * M + 1 \<and>
     vis jb \<le> unat (jb_complete_frames jb) \<and> unat (jb_complete_frames jb) \<le> 2 * M + vis jb"

lemma vis_le: "vis jb \<le> length (jb_store jb)"
  by (simp add: vis_def)

lemma audio_fields:
  assumes "audio_ok M jb" and "jb_wf jb'" and "jb_keeps jb jb'" and "jb_store jb' = jb_store jb" and "jb_node_hash jb' = jb_node_hash jb"
    and "jb_allocated_nodes jb' = jb_allocated_nodes jb" and "jb_complete_frames jb' = jb_complete_frames jb"
  shows "audio_ok M jb'"
proof -
  have "seq_sound jb' = seq_sound jb" using assms by (simp add: seq_sound_def seq_find_def nd_def)
  moreover have "vis jb' = vis jb" using assms by (simp add: vis_def)
  ultimately show ?thesis using assms by (simp add: audio_ok_def jb_keeps_def)
qed

lemma audio_thinner:
  assumes "audio_ok M jb" and "thinner jb jb'" and "unat (jb_complete_frames jb) \<le> 2 * M"
  shows "audio_ok M jb'"
  using assms by (auto simp: audio_ok_def thinner_def same_shape_def frame_ok_def)

lemma audio_reset:
  assumes "audio_ok M jb"
  obtains jb' where "switch_jb_reset jb = Inr jb'" "audio_ok M jb'" "vis jb' = 0" "jb_complete_frames jb' = 0" "jb_frame_len jb' = jb_frame_len jb"
proof -
  have w: "jb_wf jb" "jb_type jb = SJB_AUDIO" using assms by (simp_all add: audio_ok_def)
  have e: "switch_jb_reset jb = Inr (hide_nodes (cleared jb))" using w(2) by (simp add: switch_jb_reset_def cleared_def)
  have c: "jb_wf (cleared jb)" using w(1) by (rule wf_fields) simp_all
  have "seq_sound (cleared jb)" using assms by (simp add: audio_ok_def seq_sound_def seq_find_def nd_def)
  then have t: "thinner (cleared jb) (hide_nodes (cleared jb))" using c w(2) by (intro thinning.hide_all thinner_refl) simp_all
  have "audio_ok M (hide_nodes (cleared jb))"
    using assms t hide_nodes_vis [OF c] by (auto simp: audio_ok_def thinner_def same_shape_def frame_ok_def)
  then show ?thesis using that [OF e] hide_nodes_vis [OF c] t by (simp add: thinner_def same_shape_def)
qed

text \<open>The fields that reading looks at and that putting a packet leaves alone.\<close>

definition same_reader :: "switch_jb \<Rightarrow> switch_jb \<Rightarrow> bool" where
  "same_reader jb jb' \<longleftrightarrow> jb_target_seq jb' = jb_target_seq jb \<and> jb_period_count jb' = jb_period_count jb \<and> jb_period_miss_count jb' = jb_period_miss_count jb \<and>
     jb_frame_len jb' = jb_frame_len jb \<and> jb_flush jb' = jb_flush jb \<and> jb_dropped jb' = jb_dropped jb"

lemma same_reader_trans: "same_reader a b \<Longrightarrow> same_reader b c \<Longrightarrow> same_reader a c"
  by (simp add: same_reader_def)

lemma account_audio:
  assumes "jb_type jb = SJB_AUDIO"
  obtains jb' where "account_packet n packet jb = Inr jb'" "jb_store jb' = jb_store jb" "jb_node_list jb' = jb_node_list jb" "jb_visible_nodes jb' = jb_visible_nodes jb"
    "jb_node_hash jb' = jb_node_hash jb" "jb_node_hash_ts jb' = jb_node_hash_ts jb" "jb_allocated_nodes jb' = jb_allocated_nodes jb"
    "jb_complete_frames jb' = jb_complete_frames jb + 1" "same_reader jb jb'" "jb_highest_dropped_ts jb' = jb_highest_dropped_ts jb"
  using assms by (simp add: account_packet_def note_complete_def same_reader_def Let_def)

text \<open>What adding a packet to an audio buffer does when there is a node for it.\<close>

definition added :: "switch_rtp_packet \<Rightarrow> nat \<Rightarrow> bool \<Rightarrow> nat \<Rightarrow> switch_jb \<Rightarrow> switch_jb \<Rightarrow> bool" where
  "added packet len entered np jb jb' \<longleftrightarrow>
     (np < length (jb_store jb) \<and> \<not> nd_visible jb np \<and> length (jb_store jb') = length (jb_store jb) \<and> jb_allocated_nodes jb' = jb_allocated_nodes jb \<or>
      np = length (jb_store jb) \<and> length (jb_store jb') = Suc (length (jb_store jb)) \<and> jb_allocated_nodes jb' = jb_allocated_nodes jb + 1 \<and>
        jb_allocated_nodes jb \<le> node_limit jb \<and> (\<forall>n < length (jb_store jb). nd_visible jb n)) \<and>
     nd jb' np = \<lparr>jn_packet = packet, jn_len = of_nat len, jn_visible = True, jn_bad_hits = 0\<rparr> \<and>
     (\<forall>m < length (jb_store jb). m \<noteq> np \<longrightarrow> nd jb' m = nd jb m) \<and>
     (\<forall>s. seq_find jb' s = (if s = pk_seq packet then (if entered then Some np else None) else seq_find jb s)) \<and>
     jb_complete_frames jb' = jb_complete_frames jb + 1 \<and> vis jb' = Suc (vis jb) \<and> same_reader jb jb'"

lemma added_put:
  "added packet len e np (jb\<lparr>jb_highest_dropped_ts := x, jb_next_seq := y\<rparr>) jb' = added packet len e np jb jb'"
proof -
  let ?jb = "jb\<lparr>jb_highest_dropped_ts := x, jb_next_seq := y\<rparr>"
  have "nd ?jb m = nd jb m" "seq_find ?jb s = seq_find jb s" "node_limit ?jb = node_limit jb" "vis ?jb = vis jb" "same_reader ?jb jb' = same_reader jb jb'" for m s
    by (simp_all add: nd_def seq_find_def node_limit_def vis_def same_reader_def cong: if_cong)
  then show ?thesis by (simp add: added_def)
qed

lemma fill_shown:
  assumes "jb_wf jb" and "np < length (jb_store jb)" and "\<not> nd_visible jb np" and "jb_type jb = SJB_AUDIO" and "alloc_ok a" and "len \<le> body_len"
  obtains jb' where
    "and_then (enter_node a packet np (upd_nd np (\<lambda>n. n\<lparr>jn_packet := packet, jn_len := of_nat len\<rparr>) (show_node np jb))) (account_packet np packet) = Inr jb'"
    "nd jb' np = \<lparr>jn_packet = packet, jn_len = of_nat len, jn_visible = True, jn_bad_hits = 0\<rparr>" "\<And>m. m \<noteq> np \<Longrightarrow> nd jb' m = nd jb m"
    "\<And>s. seq_find jb' s = (if s = pk_seq packet then (if entry_ok a then Some np else None) else seq_find jb s)"
    "length (jb_store jb') = length (jb_store jb)" "jb_allocated_nodes jb' = jb_allocated_nodes jb" "jb_complete_frames jb' = jb_complete_frames jb + 1"
    "vis jb' = Suc (vis jb)" "same_reader jb jb'" "jb_highest_dropped_ts jb' = jb_highest_dropped_ts jb"
proof -
  let ?fill = "\<lambda>n. n\<lparr>jn_packet := packet, jn_len := of_nat len\<rparr>"
  let ?jb1 = "upd_nd np ?fill (show_node np jb)"
  have w: "jb_wf ?jb1" using show_node_wf [OF assms(1-3)] assms(2,6) by (intro fill_node_wf) simp_all
  have np: "np < length (jb_store ?jb1)" using assms(2) by simp
  obtain h t where e: "enter_node a packet np ?jb1 = Inr (?jb1\<lparr>jb_node_hash := h, jb_node_hash_ts := t\<rparr>)"
    "\<And>k. switch_core_inthash_find h k = (if k = hash_key (pk_seq packet) then (if entry_ok a then Some np else None) else switch_core_inthash_find (jb_node_hash ?jb1) k)"
    by (rule enter_node_ok [OF w assms(5) np, of packet]) blast
  let ?jb2 = "?jb1\<lparr>jb_node_hash := h, jb_node_hash_ts := t\<rparr>"
  have a2: "jb_type ?jb2 = SJB_AUDIO" using assms(4) by simp
  obtain jb' where j: "account_packet np packet ?jb2 = Inr jb'" "jb_store jb' = jb_store ?jb2" "jb_node_hash jb' = jb_node_hash ?jb2" "jb_allocated_nodes jb' = jb_allocated_nodes ?jb2"
    "jb_complete_frames jb' = jb_complete_frames ?jb2 + 1" "same_reader ?jb2 jb'" "jb_highest_dropped_ts jb' = jb_highest_dropped_ts ?jb2"
    by (rule account_audio [OF a2, of np packet]) blast
  let ?node = "\<lparr>jn_packet = packet, jn_len = of_nat len, jn_visible = True, jn_bad_hits = 0\<rparr> :: switch_jb_node"
  have st: "jb_store ?jb2 = (jb_store jb)[np := ?node]" using assms(2) by (cases "jb_store jb ! np") (simp add: show_node_def upd_nd_def nd_def)
  show ?thesis
  proof (rule that [of jb'])
    show "and_then (enter_node a packet np ?jb1) (account_packet np packet) = Inr jb'" using e(1) j(1) by simp
    show "nd jb' np = ?node" "\<And>m. m \<noteq> np \<Longrightarrow> nd jb' m = nd jb m" using j(2) st assms(2) by (simp_all add: nd_def)
    show "\<And>s. seq_find jb' s = (if s = pk_seq packet then (if entry_ok a then Some np else None) else seq_find jb s)" using j(3) e(2) by (simp add: seq_find_def)
    show "length (jb_store jb') = length (jb_store jb)" using j(2) st by simp
    show "vis jb' = Suc (vis jb)" using j(2) st filter_update(2) [of np "jb_store jb" jn_visible ?node] assms(2,3) by (simp add: vis_def nd_def)
    show "jb_allocated_nodes jb' = jb_allocated_nodes jb" "jb_complete_frames jb' = jb_complete_frames jb + 1" using j(4,5) by simp_all
    show "same_reader jb jb'" using j(6) by (simp add: same_reader_def show_node_def upd_nd_def)
    show "jb_highest_dropped_ts jb' = jb_highest_dropped_ts jb" using j(7) by (simp add: show_node_def upd_nd_def)
  qed
qed

lemma audio_add:
  assumes "jb_wf jb" and "jb_type jb = SJB_AUDIO" and "alloc_ok a" and "len \<le> body_len"
  obtains (added) np jb' where "add_node a packet len jb = Inr jb'" "added packet len (entry_ok a) np jb jb'" "jb_highest_dropped_ts jb' = jb_highest_dropped_ts jb"
  | (full) jb' where "add_node a packet len jb = Inr jb'" "switch_jb_reset jb = Inr jb'" "jb_allocated_nodes jb > node_limit jb" 
proof (rule new_node_cases [OF assms(1)])
  fix np assume n: "new_node jb = Inr (Some np, show_node np jb)" "np < length (jb_store jb)" "\<not> nd_visible jb np"
  obtain jb' where j:
    "and_then (enter_node a packet np (upd_nd np (\<lambda>n. n\<lparr>jn_packet := packet, jn_len := of_nat len\<rparr>) (show_node np jb))) (account_packet np packet) = Inr jb'"
    "nd jb' np = \<lparr>jn_packet = packet, jn_len = of_nat len, jn_visible = True, jn_bad_hits = 0\<rparr>" "\<And>m. m \<noteq> np \<Longrightarrow> nd jb' m = nd jb m"
    "\<And>s. seq_find jb' s = (if s = pk_seq packet then (if entry_ok a then Some np else None) else seq_find jb s)"
    "length (jb_store jb') = length (jb_store jb)" "jb_allocated_nodes jb' = jb_allocated_nodes jb" "jb_complete_frames jb' = jb_complete_frames jb + 1"
    "vis jb' = Suc (vis jb)" "same_reader jb jb'" "jb_highest_dropped_ts jb' = jb_highest_dropped_ts jb"
    by (rule fill_shown [OF assms(1) n(2,3) assms(2-4), of packet]) blast
  have "add_node a packet len jb = Inr jb'" using n(1) j(1) assms(4) by (simp add: add_node_def)
  moreover have "added packet len (entry_ok a) np jb jb'" unfolding added_def using j(2-) n(2,3) by (intro conjI disjI1) simp_all
  ultimately show ?thesis using j(10) by (rule added)
next
  let ?np = "length (jb_store jb)" and ?jb = "snd (alloc_node jb)"
  assume n: "new_node jb = Inr (Some ?np, show_node ?np ?jb)" "jb_allocated_nodes jb \<le> node_limit jb" "\<forall>np < length (jb_store jb). nd_visible jb np"
  have w: "jb_wf ?jb" using alloc_node_wf [OF assms(1)] .
  have f: "?np < length (jb_store ?jb)" "\<not> nd_visible ?jb ?np" "jb_type ?jb = SJB_AUDIO" "\<And>m. m < ?np \<Longrightarrow> nd ?jb m = nd jb m" "vis ?jb = vis jb"
    using assms(2) by (simp_all add: alloc_node_def nd_def zero_node_def nth_append vis_def)
  have g: "seq_find ?jb s = seq_find jb s" "same_reader jb ?jb" "jb_complete_frames ?jb = jb_complete_frames jb" "jb_allocated_nodes ?jb = jb_allocated_nodes jb + 1"
    "length (jb_store ?jb) = Suc ?np" "jb_highest_dropped_ts ?jb = jb_highest_dropped_ts jb" for s
    by (simp_all add: alloc_node_def seq_find_def same_reader_def)
  obtain jb' where j:
    "and_then (enter_node a packet ?np (upd_nd ?np (\<lambda>n. n\<lparr>jn_packet := packet, jn_len := of_nat len\<rparr>) (show_node ?np ?jb))) (account_packet ?np packet) = Inr jb'"
    "nd jb' ?np = \<lparr>jn_packet = packet, jn_len = of_nat len, jn_visible = True, jn_bad_hits = 0\<rparr>" "\<And>m. m \<noteq> ?np \<Longrightarrow> nd jb' m = nd ?jb m"
    "\<And>s. seq_find jb' s = (if s = pk_seq packet then (if entry_ok a then Some ?np else None) else seq_find ?jb s)"
    "length (jb_store jb') = length (jb_store ?jb)" "jb_allocated_nodes jb' = jb_allocated_nodes ?jb" "jb_complete_frames jb' = jb_complete_frames ?jb + 1"
    "vis jb' = Suc (vis ?jb)" "same_reader ?jb jb'" "jb_highest_dropped_ts jb' = jb_highest_dropped_ts ?jb"
    by (rule fill_shown [OF w f(1-3) assms(3,4), of packet]) blast
  have "add_node a packet len jb = Inr jb'" using n(1) j(1) assms(4) by (simp add: add_node_def)
  moreover have "added packet len (entry_ok a) ?np jb jb'"
    unfolding added_def using j(2-) f(4,5) g n(2,3) same_reader_trans [OF g(2) j(9)] by (intro conjI disjI2) simp_all
  moreover have "jb_highest_dropped_ts jb' = jb_highest_dropped_ts jb" using j(10) g(6) by simp
  ultimately show ?thesis by (rule added)
next
  fix jb' assume n: "new_node jb = Inr (None, jb')" "switch_jb_reset jb = Inr jb'"
  have "jb_allocated_nodes jb > node_limit jb" using n(1) by (auto simp: new_node_def Let_def split: option.splits if_splits prod.splits)
  then show ?thesis using full n by (simp add: add_node_def)
qed

lemma audio_added:
  assumes "audio_ok M jb" and "added packet len entered np jb jb'" and "jb_wf jb'" and "jb_keeps jb jb'" and "M < 2 ^ 29"
  shows "audio_ok M jb'"
proof -
  have a: "unat (jb_max_frame_len jb) \<le> M" "unat (jb_allocated_nodes jb) = length (jb_store jb)" "length (jb_store jb) \<le> 2 * M + 1" "vis jb \<le> unat (jb_complete_frames jb)"
    "unat (jb_complete_frames jb) \<le> 2 * M + vis jb" using assms(1) by (simp_all add: audio_ok_def)
  have "unat (jb_complete_frames jb) + 1 < 2 ^ 32" using a vis_le [of jb] assms(5) by simp
  then have c: "unat (jb_complete_frames jb') = unat (jb_complete_frames jb) + 1"
    using assms(2) by (simp add: added_def unat_word_ariths)
  have al: "unat (jb_allocated_nodes jb') = length (jb_store jb')" "length (jb_store jb') \<le> 2 * M + 1"
  proof -
    have "unat (node_limit jb) = 2 * unat (jb_max_frame_len jb)"
      using assms(1,5) a(1) by (simp add: node_limit_def audio_ok_def unat_word_ariths)
    then have "jb_allocated_nodes jb \<le> node_limit jb \<Longrightarrow> length (jb_store jb) \<le> 2 * M" using a by (simp add: word_le_nat_alt)
    moreover have "unat (jb_allocated_nodes jb + 1) = Suc (length (jb_store jb))" using a assms(5) by (simp add: unat_word_ariths)
    ultimately show "unat (jb_allocated_nodes jb') = length (jb_store jb')" "length (jb_store jb') \<le> 2 * M + 1"
      using assms(2) a by (auto simp: added_def)
  qed
  have snd: "seq_sound jb" using assms(1) by (simp add: audio_ok_def)
  have "seq_sound jb'"
    unfolding seq_sound_def
  proof (intro allI impI)
    fix s n assume f: "seq_find jb' s = Some n"
    have len: "length (jb_store jb) \<le> length (jb_store jb')" "np < length (jb_store jb')" using assms(2) by (auto simp: added_def)
    show "n < length (jb_store jb') \<and> nd_visible jb' n \<and> nd_seq jb' n = s"
    proof (cases "s = pk_seq packet")
      case True
      then have "n = np" using f assms(2) by (auto simp: added_def split: if_splits)
      then show ?thesis using True len assms(2) by (simp add: added_def)
    next
      case False
      then have o: "n < length (jb_store jb)" "nd_visible jb n" "nd_seq jb n = s" using f assms(2) snd by (auto simp: added_def seq_sound_def)
      then have "n \<noteq> np" using assms(2) by (auto simp: added_def)
      then show ?thesis using o len assms(2) by (auto simp: added_def)
    qed
  qed
  moreover have "vis jb' = Suc (vis jb)" using assms(2) by (simp add: added_def)
  ultimately show ?thesis using assms(1,3,4) c al by (simp add: audio_ok_def jb_keeps_def)
qed

lemma audio_put:
  assumes "audio_ok M jb" and "alloc_ok a" and "len \<le> body_len" and "M < 2 ^ 29"
  obtains jb' where "switch_jb_put_packet a packet len jb = Inr (SWITCH_STATUS_SUCCESS, jb')" "audio_ok M jb'"
    "jb_highest_dropped_ts jb = 0 \<and> jb_allocated_nodes jb \<le> node_limit jb \<longrightarrow>
      jb_highest_dropped_ts jb' = 0 \<and> (\<exists>np. added packet len (entry_ok a) np jb jb')"
proof (cases "jb_highest_dropped_ts jb \<noteq> 0 \<and> ntohl (pk_ts packet) < jb_highest_dropped_ts jb")
  case True
  then show ?thesis using that [of jb] assms(1) by (simp add: switch_jb_put_packet_def)
next
  case False
  have ty: "jb_type jb = SJB_AUDIO" "\<not> queue_only jb" "jb_wf jb" using assms(1) by (simp_all add: audio_ok_def)
  define jb1 where "jb1 = jb\<lparr>jb_highest_dropped_ts := 0, jb_next_seq := htons (ntohs (pk_seq packet) + 1)\<rparr>"
  have j1: "jb_wf jb1 \<and> jb_keeps jb jb1" using ty(3) by (rule wf_keeps_fields) (simp_all add: jb1_def)
  have a1: "audio_ok M jb1" using assms(1) j1 by (intro audio_fields [of M jb jb1]) (simp_all add: jb1_def)
  have t1: "jb_type jb1 = SJB_AUDIO" using ty by (simp add: jb1_def)
  obtain jb2 where j2: "add_node a packet len jb1 = Inr jb2" "jb_wf jb2" "jb_keeps jb1 jb2" by (rule add_node_ok [OF conjunct1 [OF j1] assms(2,3)]) blast
  have trunc: "(if len \<ge> sizeof_packet then sizeof_packet else len) = len" using assms(3) by (simp add: sizeof_packet_def)
  have q: "\<not> queue_only jb2" using j2(3) ty(2) by (simp add: jb_keeps_def jb1_def)
  have e: "switch_jb_put_packet a packet len jb = Inr (SWITCH_STATUS_SUCCESS, jb2)"
    using False ty(1) j2(1) q trunc by (auto simp: switch_jb_put_packet_def jb1_def Let_def)
  show ?thesis
  proof (rule audio_add [OF conjunct1 [OF j1] t1 assms(2,3), of packet])
    fix np jb' assume ad: "add_node a packet len jb1 = Inr jb'" "added packet len (entry_ok a) np jb1 jb'" "jb_highest_dropped_ts jb' = jb_highest_dropped_ts jb1"
    then have j': "jb' = jb2" using j2(1) by simp
    have a2: "audio_ok M jb2" using audio_added [OF a1 _ j2(2,3) assms(4)] ad(2) j' by blast
    have "added packet len (entry_ok a) np jb jb2" using ad(2) j' by (simp add: jb1_def added_put)
    moreover have "jb_highest_dropped_ts jb2 = 0" using ad(3) j' by (simp add: jb1_def)
    ultimately show ?thesis using that [OF e a2] by blast
  next
    fix jb' assume f: "add_node a packet len jb1 = Inr jb'" "switch_jb_reset jb1 = Inr jb'" "node_limit jb1 < jb_allocated_nodes jb1"
    then have "audio_ok M jb2" using audio_reset [OF a1] j2(1) by (metis Inr_inject)
    moreover have "\<not> jb_allocated_nodes jb \<le> node_limit jb" using f(3) ty(1) by (simp add: jb1_def node_limit_def not_le)
    ultimately show ?thesis using that [OF e] by blast
  qed
qed

text \<open>The node an audio buffer reads next.\<close>

definition first_node :: "switch_jb \<Rightarrow> nat option" where
  "first_node jb = (if jb_target_seq jb = 0 then (case seq_find jb 0 of Some node \<Rightarrow> Some node | None \<Rightarrow> jb_find_lowest_seq jb 0) else seq_find jb (jb_target_seq jb))"

lemma first_node_visible:
  assumes "jb_wf jb" and "seq_sound jb" and "first_node jb = Some n"
  shows "n < length (jb_store jb) \<and> nd_visible jb n"
proof (cases "jb_target_seq jb = 0 \<and> seq_find jb 0 = None")
  case True
  then have "lowest_seq_loop jb 0 (jb_node_list jb) None = Some n" using assms(3) by (simp add: first_node_def jb_find_lowest_seq_def)
  then show ?thesis using lowest_seq_in [of jb 0 "jb_node_list jb" None n] listed_valid [OF assms(1)] by auto
next
  case False
  then show ?thesis using assms(2,3) by (auto simp: first_node_def seq_sound_def split: if_splits option.splits)
qed

lemma audio_next:
  assumes "jb_type jb = SJB_AUDIO" and "jb_samples_per_frame jb = 0"
  shows "jb_next_packet jb =
    (case first_node jb of
       Some n \<Rightarrow> (SWITCH_STATUS_SUCCESS, Some n, set_read_seq (nd_seq jb n) (jb_hit jb))
     | None \<Rightarrow> (SWITCH_STATUS_NOTFOUND, None, if jb_target_seq jb = 0 then jb_hit jb else increment_seq (jb_miss jb)))"
proof -
  have r: "jb_resync jb = jb" using assms(1) by (simp add: jb_resync_def)
  have s: "nd_seq (jb_hit jb) n = nd_seq jb n" for n by (simp add: jb_hit_def nd_def)
  have "next_node_by_seq jb = (first_node jb, if first_node jb = None \<and> jb_target_seq jb \<noteq> 0 then increment_seq (jb_miss jb) else jb_hit jb)"
    using assms(1) by (subst next_node_by_seq.simps) (auto simp: r Let_def first_node_def split: option.split)
  then show ?thesis using assms(2) s by (auto simp: jb_next_packet_def jb_next_packet_by_seq_def split: option.split)
qed

text \<open>Reading a node.\<close>

definition taken :: "nat \<Rightarrow> switch_jb \<Rightarrow> switch_jb" where
  "taken n jb = hide_node True n ((read_node n (set_read_seq (nd_seq jb n) (jb_hit jb)))\<lparr>jb_last_len := unat (jn_len (nd jb n))\<rparr>)"

lemma taken_parts:
  assumes "audio_ok M jb" and "n < length (jb_store jb)" and "nd_visible jb n"
  obtains jb1 where "taken n jb = hide_node True n jb1" "jb_wf jb1" "jb_keeps jb jb1" "jb_store jb1 = jb_store jb" "jb_node_hash jb1 = jb_node_hash jb"
    "jb_allocated_nodes jb1 = jb_allocated_nodes jb" "jb_complete_frames jb1 = jb_complete_frames jb - 1" "jb_target_seq jb1 = htons (ntohs (nd_seq jb n) + 1)"
    "jb_period_miss_count jb1 = jb_period_miss_count jb" "jb_frame_len jb1 = jb_frame_len jb" "jb_flush jb1 = jb_flush jb" "jb_node_list jb1 = jb_node_list jb"
    "jb_max_frame_len jb1 = jb_max_frame_len jb"
proof -
  let ?jb = "(read_node n (set_read_seq (nd_seq jb n) (jb_hit jb)))\<lparr>jb_last_len := unat (jn_len (nd jb n))\<rparr>"
  have ty: "jb_wf jb" "\<not> is_video jb" using assms(1) by (simp_all add: audio_ok_def)
  have "jb_wf ?jb \<and> jb_keeps jb ?jb" using ty(1) by (rule wf_keeps_fields) (simp_all add: read_node_def set_read_seq_def jb_hit_def Let_def)
  moreover have "jb_complete_frames ?jb = jb_complete_frames jb - 1" using ty(2) by (simp add: read_node_def set_read_seq_def jb_hit_def Let_def)
  moreover have "jb_store ?jb = jb_store jb" "jb_node_hash ?jb = jb_node_hash jb" "jb_allocated_nodes ?jb = jb_allocated_nodes jb"
    "jb_target_seq ?jb = htons (ntohs (nd_seq jb n) + 1)" "jb_period_miss_count ?jb = jb_period_miss_count jb" "jb_frame_len ?jb = jb_frame_len jb" "jb_flush ?jb = jb_flush jb"
    "jb_node_list ?jb = jb_node_list jb" "jb_max_frame_len ?jb = jb_max_frame_len jb"
    by (simp_all add: read_node_def set_read_seq_def jb_hit_def Let_def)
  ultimately show ?thesis using that [of ?jb] unfolding taken_def by blast
qed

lemma taken_ok:
  assumes "audio_ok M jb" and "n < length (jb_store jb)" and "nd_visible jb n"
  shows "audio_ok M (taken n jb)" "vis (taken n jb) = vis jb - 1" "unat (jb_complete_frames (taken n jb)) = unat (jb_complete_frames jb) - 1"
    "\<And>s. seq_find (taken n jb) s = (if s = nd_seq jb n then None else seq_find jb s)" "\<And>m. m \<noteq> n \<Longrightarrow> nd (taken n jb) m = nd jb m"
    "\<not> nd_visible (taken n jb) n" "jb_target_seq (taken n jb) = htons (ntohs (nd_seq jb n) + 1)" "jb_period_miss_count (taken n jb) = jb_period_miss_count jb"
    "jb_frame_len (taken n jb) = jb_frame_len jb" "jb_flush (taken n jb) = jb_flush jb" "length (jb_store (taken n jb)) = length (jb_store jb)"
    "jb_max_frame_len (taken n jb) = jb_max_frame_len jb" "jb_min_frame_len (taken n jb) = jb_min_frame_len jb"
proof -
  obtain jb1 where j: "taken n jb = hide_node True n jb1" "jb_wf jb1" "jb_keeps jb jb1" "jb_store jb1 = jb_store jb" "jb_node_hash jb1 = jb_node_hash jb"
    "jb_allocated_nodes jb1 = jb_allocated_nodes jb" "jb_complete_frames jb1 = jb_complete_frames jb - 1" "jb_target_seq jb1 = htons (ntohs (nd_seq jb n) + 1)"
    "jb_period_miss_count jb1 = jb_period_miss_count jb" "jb_frame_len jb1 = jb_frame_len jb" "jb_flush jb1 = jb_flush jb" "jb_node_list jb1 = jb_node_list jb"
    "jb_max_frame_len jb1 = jb_max_frame_len jb"
    by (rule taken_parts [OF assms]) blast
  have n1: "n < length (jb_store jb1)" "nd_visible jb1 n" "n \<in> set (jb_node_list jb1)" using assms j(2,4) by (simp_all add: nd_def jb_wf_def nodes_ok_def)
  have nd1: "nd jb1 m = nd jb m" and sf: "seq_find jb1 s = seq_find jb s" and v1: "vis jb1 = vis jb" for m s using j(4,5) by (simp_all add: nd_def seq_find_def vis_def)
  have w: "jb_wf (hide_node True n jb1)" using hide_node_wf [OF j(2) n1(1)] .
  have k: "jb_keeps jb (hide_node True n jb1)" using jb_keeps_trans [OF j(3) same_keeps [OF hide_node_shape [OF n1(1,3)]]] .
  have s1: "seq_sound jb1" using assms(1) sf nd1 j(4) by (simp add: audio_ok_def seq_sound_def)
  have au: "\<not> is_video jb1" using assms(1) j(3) by (simp add: jb_keeps_def audio_ok_def)
  have c: "jb_complete_frames (hide_node True n jb1) = jb_complete_frames jb - 1" using hide_node_complete [OF n1(1)] j(2,7) au by (simp add: jb_wf_def hash_in_def)
  have pos: "0 < vis jb" using vis_pos [OF assms(2,3)] .
  then have "jb_complete_frames jb \<noteq> 0" using assms(1) by (auto simp: audio_ok_def)
  then show u: "unat (jb_complete_frames (taken n jb)) = unat (jb_complete_frames jb) - 1" using c j(1) by (simp add: unat_minus_one)
  show vt: "vis (taken n jb) = vis jb - 1" using hide_vis [OF n1(1)] n1(2) v1 j(1) by simp
  show "seq_find (taken n jb) s = (if s = nd_seq jb n then None else seq_find jb s)" for s using hide_find [OF j(2) n1(1)] nd1 sf j(1) by simp
  show "m \<noteq> n \<Longrightarrow> nd (taken n jb) m = nd jb m" "\<not> nd_visible (taken n jb) n" for m using hide_nd [OF n1(1)] n1(2) nd1 j(1) by simp_all
  show "jb_target_seq (taken n jb) = htons (ntohs (nd_seq jb n) + 1)" "jb_period_miss_count (taken n jb) = jb_period_miss_count jb" "jb_frame_len (taken n jb) = jb_frame_len jb"
    "jb_flush (taken n jb) = jb_flush jb" "length (jb_store (taken n jb)) = length (jb_store jb)" "jb_max_frame_len (taken n jb) = jb_max_frame_len jb"
    using j by simp_all
  show "jb_min_frame_len (taken n jb) = jb_min_frame_len jb" using k j(1) by (simp add: jb_keeps_def)
  have "seq_sound (taken n jb)" using hide_sound [OF j(2) n1(1) s1] j(1) by simp
  then show "audio_ok M (taken n jb)"
    using assms(1) w k u vt pos j(1,4,6) by (auto simp: audio_ok_def jb_keeps_def)
qed

lemma take_found:
  assumes "audio_ok M jb" and "first_node jb = Some n"
  shows "take_packet packet len jb = Inr (SWITCH_STATUS_SUCCESS, (jn_packet (nd jb n))\<lparr>pk_version := 2\<rparr>, unat (jn_len (nd jb n)), taken n jb)"
proof -
  have a: "jb_wf jb" "jb_type jb = SJB_AUDIO" "jb_samples_per_frame jb = 0" "seq_sound jb" using assms(1) by (simp_all add: audio_ok_def)
  have n: "n < length (jb_store jb)" using first_node_visible [OF a(1,4) assms(2)] by simp
  let ?jb = "read_node n (set_read_seq (nd_seq jb n) (jb_hit jb))"
  have "nd ?jb n = nd jb n" by (simp add: nd_def set_read_seq_def jb_hit_def)
  then show ?thesis
    using audio_next [OF a(2,3)] assms(2) node_len [OF a(1) n] by (simp add: take_packet_def taken_def Let_def)
qed

lemma audio_period:
  assumes "audio_ok M jb"
  obtains jb' where "jb_period jb = Inr jb'" "audio_ok M jb'" "jb_store jb' = jb_store jb" "jb_node_list jb' = jb_node_list jb" "jb_node_hash jb' = jb_node_hash jb"
    "jb_complete_frames jb' = jb_complete_frames jb" "jb_target_seq jb' = jb_target_seq jb" "jb_flush jb' = jb_flush jb" "jb_max_frame_len jb' = jb_max_frame_len jb"
    "jb_min_frame_len jb' = jb_min_frame_len jb" "jb_frame_len jb' \<le> jb_frame_len jb" "jb_period_miss_count jb = 0 \<longrightarrow> jb_period_miss_count jb' = 0"
proof -
  have a: "jb_wf jb" "frame_ok jb" "\<not> is_video jb" using assms by (simp_all add: audio_ok_def)
  obtain jb' where p: "jb_period jb = Inr jb'" "jb_wf jb'" "jb_keeps jb jb'" by (rule period_ok [OF a(1)]) blast
  define jb1 where "jb1 = jb\<lparr>jb_period_count := jb_period_count jb + 1\<rparr>"
  define jb2 where "jb2 = (if jb_consec_good_count jb1 \<ge> PERIOD_LEN - 5 then jb_frame_inc (- 1) jb1 else jb1)"
  define jb3 where "jb3 = jb2\<lparr>jb_period_count := 1, jb_period_miss_inc := 0, jb_period_miss_count := 0, jb_period_good_count := 0, jb_consec_miss_count := 0, jb_consec_good_count := 0\<rparr>"
  have e: "jb' = (if jb_period_count jb1 \<ge> PERIOD_LEN then jb3 else jb1)"
  proof -
    have t: "jb_type jb3 = jb_type jb" by (simp add: jb3_def jb2_def jb1_def)
    have "jb_period jb = (if jb_period_count jb1 \<ge> PERIOD_LEN then
        (case jb_channel jb3 of Some ch \<Rightarrow> if is_video jb3 \<and> jb_video_low_bitrate jb3 \<noteq> 0 then control_bitrate ch jb3 else Inr jb3 | None \<Rightarrow> Inr jb3) else Inr jb1)"
      unfolding jb_period_def jb1_def [symmetric] Let_def jb2_def [symmetric] jb3_def [symmetric] by (rule refl)
    then show ?thesis using p(1) t a(3) by (simp split: if_splits option.splits)
  qed
  have fi: "jb_flush (jb_frame_inc (- 1) jb1) = jb_flush jb" by (simp add: jb_frame_inc_def jb1_def Let_def)
  have f: "jb_store jb' = jb_store jb" "jb_node_list jb' = jb_node_list jb" "jb_node_hash jb' = jb_node_hash jb" "jb_complete_frames jb' = jb_complete_frames jb"
    "jb_target_seq jb' = jb_target_seq jb" "jb_flush jb' = jb_flush jb" "jb_max_frame_len jb' = jb_max_frame_len jb" "jb_min_frame_len jb' = jb_min_frame_len jb"
    "jb_allocated_nodes jb' = jb_allocated_nodes jb" "jb_period_miss_count jb = 0 \<longrightarrow> jb_period_miss_count jb' = 0"
    by (simp_all add: e jb3_def jb2_def jb1_def fi [unfolded jb1_def])
  have "frame_ok jb1" using a(2) by (simp add: jb1_def frame_ok_def)
  then have "jb_frame_len (jb_frame_inc (- 1) jb1) \<le> jb_frame_len jb" using frame_inc_down [of jb1] by (simp add: jb1_def)
  then have "jb_frame_len jb' \<le> jb_frame_len jb" by (simp add: e jb3_def jb2_def) (simp add: jb1_def)
  moreover have "audio_ok M jb'" using audio_fields [OF assms p(2,3)] f by simp
  ultimately show ?thesis using that [OF p(1)] f by blast
qed

lemma audio_shrink:
  assumes "audio_ok M jb" and "M < 2 ^ 29"
  obtains jb' where "shrink jb = Inr jb'" "audio_ok M jb'" "jb_complete_frames jb \<le> jb_max_frame_len jb \<longrightarrow> jb' = jb"
proof -
  have m: "unat (jb_max_frame_len jb) \<le> M" using assms(1) by (simp add: audio_ok_def)
  have two: "unat (jb_max_frame_len jb * 2) = 2 * unat (jb_max_frame_len jb)" using m assms(2) by (simp add: unat_word_ariths)
  have le: "jb_complete_frames jb \<le> jb_max_frame_len jb \<Longrightarrow> jb_complete_frames jb \<le> jb_max_frame_len jb * 2" using two by (simp add: word_le_nat_alt)
  have t: "thinner jb (thin_frames 8 25 jb)" using assms(1) by (intro thinning.thin thinner_refl) (simp_all add: audio_ok_def)
  define jb1 where "jb1 = (if jb_complete_frames jb > jb_max_frame_len jb then thin_frames 8 25 jb else jb)"
  have j1: "jb_complete_frames jb1 = jb_complete_frames jb" "jb_max_frame_len jb1 = jb_max_frame_len jb" using t by (simp_all add: jb1_def thinner_def same_shape_def)
  show ?thesis
  proof (cases "jb_complete_frames jb > jb_max_frame_len jb * 2")
    case True
    then have gt: "\<not> jb_complete_frames jb \<le> jb_max_frame_len jb" using le by auto
    have w: "jb_wf jb1" "jb_type jb1 = SJB_AUDIO" "reset_shape jb jb1" using t assms(1) by (simp_all add: jb1_def thinner_def audio_ok_def same_reset_shape)
    have "seq_sound jb1" using t assms(1) by (simp add: jb1_def thinner_def audio_ok_def)
    have e: "switch_jb_reset jb1 = Inr (hide_nodes (cleared jb1))" using w(2) by (simp add: switch_jb_reset_def cleared_def)
    have c: "jb_wf (cleared jb1)" using w(1) by (rule wf_fields) simp_all
    have "seq_sound (cleared jb1)" using \<open>seq_sound jb1\<close> by (simp add: seq_sound_def seq_find_def nd_def)
    then have t2: "thinner (cleared jb1) (hide_nodes (cleared jb1))" using c w(2) by (intro thinning.hide_all thinner_refl) simp_all
    have "audio_ok M (hide_nodes (cleared jb1))"
      using assms(1) w(3) t2 hide_nodes_vis [OF c] by (auto simp: audio_ok_def thinner_def same_shape_def reset_shape_def frame_ok_def)
    moreover have "shrink jb = Inr (hide_nodes (cleared jb1))" using True j1 e by (simp add: shrink_def jb1_def [symmetric] Let_def)
    ultimately show ?thesis using that gt by blast
  next
    case False
    then have "unat (jb_complete_frames jb) \<le> 2 * M" using two m by (simp add: word_less_nat_alt)
    then have "audio_ok M jb1" using audio_thinner [OF assms(1) t] assms(1) by (simp add: jb1_def)
    moreover have "shrink jb = Inr jb1" using False j1 by (simp add: shrink_def jb1_def [symmetric] Let_def)
    ultimately show ?thesis using that by (simp add: jb1_def not_less [symmetric])
  qed
qed

lemma audio_take:
  assumes "audio_ok M jb"
  obtains st p l jb' where "take_packet packet len jb = Inr (st, p, l, jb')" "audio_ok M jb'"
proof (cases "first_node jb")
  case (Some n)
  have "n < length (jb_store jb) \<and> nd_visible jb n" using assms first_node_visible [OF _ _ Some] by (simp add: audio_ok_def)
  then show ?thesis using that take_found [OF assms Some] taken_ok(1) [OF assms] by blast
next
  case None
  have a: "jb_wf jb" "jb_type jb = SJB_AUDIO" "jb_samples_per_frame jb = 0" using assms by (simp_all add: audio_ok_def)
  define jb1 where "jb1 = (if jb_target_seq jb = 0 then jb_hit jb else increment_seq (jb_miss jb))"
  have "jb_wf jb1 \<and> jb_keeps jb jb1" using a(1) by (rule wf_keeps_fields) (simp_all add: jb1_def jb_hit_def jb_miss_def increment_seq_def)
  then have a1: "audio_ok M jb1" using assms by (intro audio_fields [of M jb jb1]) (simp_all add: jb1_def jb_hit_def jb_miss_def increment_seq_def)
  have n: "jb_next_packet jb = (SWITCH_STATUS_NOTFOUND, None, jb1)" using audio_next [OF a(2,3)] None by (simp add: jb1_def)
  obtain jb2 where r: "switch_jb_reset jb1 = Inr jb2" "audio_ok M jb2" by (rule audio_reset [OF a1]) blast
  have a3: "audio_ok M (jb_frame_inc 1 jb2)"
    using r(2) frame_inc_keeps [of 1 jb2] frame_inc_wf [of jb2 1] by (intro audio_fields [OF r(2)]) (simp_all add: audio_ok_def)
  have v: "\<not> is_video jb1" using a1 by (simp add: audio_ok_def)
  show ?thesis
  proof (cases "jb_consec_miss_count jb1 > jb_frame_len jb1")
    case True
    then have "jb_not_found SWITCH_STATUS_NOTFOUND jb1 = Inr (SWITCH_STATUS_RESTART, False, jb_frame_inc 1 jb2)" using v r(1) by (simp add: jb_not_found_def)
    then show ?thesis using that a3 n by (simp add: take_packet_def)
  next
    case False
    then have "jb_not_found SWITCH_STATUS_NOTFOUND jb1 = Inr (SWITCH_STATUS_NOTFOUND, True, jb1)" using v by (simp add: jb_not_found_def)
    then show ?thesis using that a1 n by (simp add: take_packet_def)
  qed
qed

lemma audio_get:
  assumes "audio_ok M jb" and "M < 2 ^ 29"
  obtains st p l jb' where "switch_jb_get_packet packet len jb = Inr (st, p, l, jb')" "audio_ok M jb'"
proof -
  define body where "body = (if jb_complete_frames jb = 0 then Inr (SWITCH_STATUS_BREAK, packet, len, jb\<lparr>jb_flush := 0\<rparr>)
        else if jb_complete_frames jb < jb_frame_len jb \<and> jb_flush jb = 0 then Inr (SWITCH_STATUS_MORE_DATA, packet, len, jb)
        else
          and_then (jb_period jb) (\<lambda>jb.
          and_then (if too_many_misses jb then switch_jb_reset jb else Inr jb) (\<lambda>jb.
            take_packet packet len jb)))"
  have w: "jb_wf jb" using assms(1) by (simp add: audio_ok_def)
  have "\<exists>st p l jb'. body = Inr (st, p, l, jb') \<and> audio_ok M jb'"
  proof (cases "jb_complete_frames jb = 0 \<or> jb_complete_frames jb < jb_frame_len jb \<and> jb_flush jb = 0")
    case True
    have "jb_wf (jb\<lparr>jb_flush := 0\<rparr>) \<and> jb_keeps jb (jb\<lparr>jb_flush := 0\<rparr>)" using w by (rule wf_keeps_fields) simp_all
    then have "audio_ok M (jb\<lparr>jb_flush := 0\<rparr>)" by (intro audio_fields [OF assms(1)]) simp_all
    then show ?thesis using True assms(1) by (auto simp: body_def)
  next
    case False
    obtain jb1 where j1: "jb_period jb = Inr jb1" "audio_ok M jb1" by (rule audio_period [OF assms(1)]) blast
    obtain jr where jr: "switch_jb_reset jb1 = Inr jr" "audio_ok M jr" by (rule audio_reset [OF j1(2)]) blast
    define jb2 where "jb2 = (if too_many_misses jb1 then jr else jb1)"
    have a2: "audio_ok M jb2" using jr j1 by (simp add: jb2_def)
    obtain st p l jb3 where j3: "take_packet packet len jb2 = Inr (st, p, l, jb3)" "audio_ok M jb3" by (rule audio_take [OF a2]) blast
    have "body = Inr (st, p, l, jb3)" using False j1(1) jr(1) j3(1) by (auto simp: body_def jb2_def)
    then show ?thesis using j3(2) by blast
  qed
  then obtain st p l jb1 where b: "body = Inr (st, p, l, jb1)" "audio_ok M jb1" by blast
  obtain jb2 where "shrink jb1 = Inr jb2" "audio_ok M jb2" by (rule audio_shrink [OF b(2) assms(2)]) blast
  then show ?thesis using that b by (simp add: switch_jb_get_packet_def body_def [symmetric])
qed

section \<open>Delivery in order\<close>

text \<open>The packets a buffer holds, with their lengths.\<close>

definition holds :: "switch_jb \<Rightarrow> (switch_rtp_packet \<times> nat) list \<Rightarrow> bool" where
  "holds jb ps \<longleftrightarrow>
     (\<forall>(p, l)\<in>set ps. \<exists>n. seq_find jb (pk_seq p) = Some n \<and> jn_packet (nd jb n) = p \<and> unat (jn_len (nd jb n)) = l) \<and>
     (\<forall>n<length (jb_store jb). nd_visible jb n \<longrightarrow> (\<exists>(p, l)\<in>set ps. seq_find jb (pk_seq p) = Some n)) \<and>
     (\<forall>s. seq_find jb s \<noteq> None \<longrightarrow> s \<in> (\<lambda>(p, l). pk_seq p) ` set ps) \<and> unat (jb_complete_frames jb) = length ps"

lemma holds_find:
  "holds jb ps \<Longrightarrow> (p, l) \<in> set ps \<Longrightarrow> \<exists>n. seq_find jb (pk_seq p) = Some n \<and> jn_packet (nd jb n) = p \<and> unat (jn_len (nd jb n)) = l"
  by (auto simp: holds_def)

lemma holds_visible: "holds jb ps \<Longrightarrow> n < length (jb_store jb) \<Longrightarrow> nd_visible jb n \<Longrightarrow> \<exists>p l. (p, l) \<in> set ps \<and> seq_find jb (pk_seq p) = Some n"
  unfolding holds_def by fast

lemma holds_put:
  assumes "audio_ok M jb" and "holds jb ps" and "added packet len True np jb jb'" and "pk_seq packet \<notin> (\<lambda>(p, l). pk_seq p) ` set ps" and "len \<le> body_len"
    and "Suc (length ps) < 2 ^ 32"
  shows "holds jb' ((packet, len) # ps)"
proof -
  have snd: "seq_find jb s = Some n \<Longrightarrow> n < length (jb_store jb) \<and> nd_visible jb n" for s n using assms(1) by (simp add: audio_ok_def seq_sound_def)
  have f: "seq_find jb' s = (if s = pk_seq packet then Some np else seq_find jb s)" for s using assms(3) by (simp add: added_def)
  have nodes: "nd jb' np = \<lparr>jn_packet = packet, jn_len = of_nat len, jn_visible = True, jn_bad_hits = 0\<rparr>" "\<And>m. m < length (jb_store jb) \<Longrightarrow> m \<noteq> np \<Longrightarrow> nd jb' m = nd jb m"
    using assms(3) by (simp_all add: added_def)
  have hid: "np < length (jb_store jb) \<Longrightarrow> \<not> nd_visible jb np" using assms(3) by (auto simp: added_def)
  have len: "unat (of_nat len :: uint32_t) = len" using assms(5) by (simp add: unat_of_nat body_len_def SWITCH_RTP_MAX_BUF_LEN_def)
  have old: "pk_seq p \<noteq> pk_seq packet" if "(p, l) \<in> set ps" for p l using that assms(4) by force
  have "\<exists>n. seq_find jb' (pk_seq p) = Some n \<and> jn_packet (nd jb' n) = p \<and> unat (jn_len (nd jb' n)) = l" if "(p, l) \<in> set ((packet, len) # ps)" for p l
  proof (cases "(p, l) \<in> set ps")
    case True
    then obtain n where n: "seq_find jb (pk_seq p) = Some n" "jn_packet (nd jb n) = p" "unat (jn_len (nd jb n)) = l" using assms(2) by (auto simp: holds_def)
    then have "n \<noteq> np" "n < length (jb_store jb)" using snd hid by blast+
    then show ?thesis using n nodes(2) f old [OF True] by auto
  next
    case False
    then show ?thesis using that f nodes(1) len by auto
  qed
  moreover have "\<exists>(p, l)\<in>set ((packet, len) # ps). seq_find jb' (pk_seq p) = Some n" if n: "n < length (jb_store jb')" "nd_visible jb' n" for n
  proof (cases "n = np")
    case False
    then have "n < length (jb_store jb)" using n(1) assms(3) by (auto simp: added_def)
    then obtain p l where "(p, l) \<in> set ps" "seq_find jb (pk_seq p) = Some n" using assms(2) n(2) nodes(2) False by (fastforce simp: holds_def)
    then show ?thesis using f old by fastforce
  qed (use f in auto)
  moreover have "s \<in> (\<lambda>(p, l). pk_seq p) ` set ((packet, len) # ps)" if "seq_find jb' s \<noteq> None" for s
    using that f assms(2) by (auto simp: holds_def split: if_splits)
  moreover have "unat (jb_complete_frames jb') = Suc (length ps)"
  proof -
    have "unat (jb_complete_frames jb) = length ps" using assms(2) by (simp add: holds_def)
    then show ?thesis using assms(3,6) by (simp add: added_def unat_word_ariths)
  qed
  ultimately show ?thesis unfolding holds_def by auto
qed

lemma holds_taken:
  assumes "audio_ok M jb" and "holds jb ((p, l) # ps)" and "seq_find jb (pk_seq p) = Some n" and "pk_seq p \<notin> (\<lambda>(p, l). pk_seq p) ` set ps"
  shows "holds (taken n jb) ps"
proof -
  have n: "n < length (jb_store jb)" "nd_visible jb n" "nd_seq jb n = pk_seq p" using assms(1,3) by (auto simp: audio_ok_def seq_sound_def)
  note t = taken_ok [OF assms(1) n(1,2)]
  have old: "pk_seq q \<noteq> pk_seq p" if "(q, k) \<in> set ps" for q k using that assms(4) by force
  have "\<exists>m. seq_find (taken n jb) (pk_seq q) = Some m \<and> jn_packet (nd (taken n jb) m) = q \<and> unat (jn_len (nd (taken n jb) m)) = k" if q: "(q, k) \<in> set ps" for q k
  proof -
    obtain m where m: "seq_find jb (pk_seq q) = Some m" "jn_packet (nd jb m) = q" "unat (jn_len (nd jb m)) = k" using holds_find [OF assms(2), of q k] q by auto
    then have "m \<noteq> n" using n(3) old [OF q] by auto
    then show ?thesis using m t(4,5) n(3) old [OF q] by auto
  qed
  moreover have "\<exists>(q, k)\<in>set ps. seq_find (taken n jb) (pk_seq q) = Some m" if m: "m < length (jb_store (taken n jb))" "nd_visible (taken n jb) m" for m
  proof -
    have "m \<noteq> n" using m(2) t(6) by blast
    then have "m < length (jb_store jb)" "nd_visible jb m" using m t(5,11) by auto
    then obtain q k where q: "(q, k) \<in> set ((p, l) # ps)" "seq_find jb (pk_seq q) = Some m" using holds_visible [OF assms(2)] by blast
    then have "pk_seq q \<noteq> pk_seq p" using assms(3) \<open>m \<noteq> n\<close> by auto
    then show ?thesis using q t(4) n(3) by fastforce
  qed
  moreover have "s \<in> (\<lambda>(p, l). pk_seq p) ` set ps" if "seq_find (taken n jb) s \<noteq> None" for s
  proof -
    have "seq_find jb s \<noteq> None" "s \<noteq> pk_seq p" using that t(4) n(3) by (auto split: if_splits)
    then show ?thesis using assms(2) by (auto simp: holds_def)
  qed
  ultimately show ?thesis using assms(2) t(3) unfolding holds_def by auto
qed

text \<open>The lowest sequence number among visible nodes.\<close>

lemma lowest_seq_least:
  "lowest_seq_loop jb 0 l lowest = r \<Longrightarrow>
   (\<forall>m\<in>set l. nd_visible jb m \<longrightarrow> (\<exists>n. r = Some n \<and> ntohs (nd_seq jb n) \<le> ntohs (nd_seq jb m))) \<and>
   (\<forall>m. lowest = Some m \<longrightarrow> (\<exists>n. r = Some n \<and> ntohs (nd_seq jb n) \<le> ntohs (nd_seq jb m)))"
proof (induction l arbitrary: lowest)
  case (Cons x l)
  show ?case
  proof (cases "nd_visible jb x")
    case False
    then show ?thesis using Cons by simp
  next
    case True
    define low where "low = (case lowest of None \<Rightarrow> Some x | Some l \<Rightarrow> if ntohs (nd_seq jb l) > ntohs (nd_seq jb x) then Some x else Some l)"
    have r: "lowest_seq_loop jb 0 l low = r" using Cons.prems True by (simp add: low_def)
    note ih = Cons.IH [OF r]
    obtain y where y: "low = Some y" "ntohs (nd_seq jb y) \<le> ntohs (nd_seq jb x)" "\<forall>m. lowest = Some m \<longrightarrow> ntohs (nd_seq jb y) \<le> ntohs (nd_seq jb m)"
      by (cases lowest; cases "ntohs (nd_seq jb (the lowest)) > ntohs (nd_seq jb x)") (auto simp: low_def)
    then obtain n where n: "r = Some n" "ntohs (nd_seq jb n) \<le> ntohs (nd_seq jb y)" using ih by blast
    then show ?thesis using y ih by (auto intro: order_trans)
  qed
qed simp

text \<open>Calls that leave an audio buffer one: it neither becomes a bare queue nor reads by time stamp, and holds at most so many frames.\<close>

fun audio_call :: "nat \<Rightarrow> jb_call \<Rightarrow> bool" where
  "audio_call M (Jb_Set_Frames mn mx) \<longleftrightarrow> unat mx \<le> M"
| "audio_call M (Jb_Set_Flag flag) \<longleftrightarrow> False"
| "audio_call M (Jb_Ts_Mode frame second) \<longleftrightarrow> False"
| "audio_call M c \<longleftrightarrow> True"

lemma still_audio:
  assumes "audio_ok M jb" and "jb_wf jb'" and "frame_ok jb'" and "jb_store jb' = jb_store jb" and "jb_node_hash jb' = jb_node_hash jb"
    and "jb_allocated_nodes jb' = jb_allocated_nodes jb" and "jb_complete_frames jb' = jb_complete_frames jb" and "jb_type jb' = jb_type jb"
    and "jb_samples_per_frame jb' = jb_samples_per_frame jb" and "jb_node_hash_ts jb' = jb_node_hash_ts jb" and "unat (jb_max_frame_len jb') \<le> M" and "\<not> queue_only jb'"
  shows "audio_ok M jb'"
proof -
  have "seq_sound jb' = seq_sound jb" using assms by (simp add: seq_sound_def seq_find_def nd_def)
  moreover have "vis jb' = vis jb" using assms by (simp add: vis_def)
  ultimately show ?thesis using assms by (simp add: audio_ok_def)
qed

lemma set_frames_fields [simp]:
  "jb_store (switch_jb_set_frames mn mx jb) = jb_store jb" "jb_node_hash (switch_jb_set_frames mn mx jb) = jb_node_hash jb"
  "jb_allocated_nodes (switch_jb_set_frames mn mx jb) = jb_allocated_nodes jb" "jb_complete_frames (switch_jb_set_frames mn mx jb) = jb_complete_frames jb"
  "jb_type (switch_jb_set_frames mn mx jb) = jb_type jb" "jb_samples_per_frame (switch_jb_set_frames mn mx jb) = jb_samples_per_frame jb"
  "jb_node_hash_ts (switch_jb_set_frames mn mx jb) = jb_node_hash_ts jb" "jb_max_frame_len (switch_jb_set_frames mn mx jb) = mx"
  "jb_flags (switch_jb_set_frames mn mx jb) = jb_flags jb"
  by (simp_all add: switch_jb_set_frames_def Let_def)

lemma cleared_flag: "\<not> test_flag fl b \<Longrightarrow> \<not> test_flag (fl AND NOT f) b"
  for fl :: uint32_t
  by (simp add: test_flag_def) (metis and.left_commute and.assoc and_zero_eq)

lemma audio_step:
  assumes "audio_ok M jb" and "call_ok V c" and "audio_call M c" and "M < 2 ^ 29"
  shows "\<exists>jb'. jb_step c jb = Inr jb' \<and> audio_ok M jb'"
proof -
  have w: "jb_wf jb" "frame_ok jb" "\<not> is_video jb" using assms(1) by (simp_all add: audio_ok_def)
  obtain jb' where s: "jb_step c jb = Inr jb'" "jb_wf jb'" "frame_ok jb'" using jb_step_ok [OF w(1,2) assms(2)] by blast
  note same = still_audio [OF assms(1) s(2,3)]
  show ?thesis
  proof (cases c)
    case (Jb_Put a packet len)
    obtain jb1 where "switch_jb_put_packet a packet len jb = Inr (SWITCH_STATUS_SUCCESS, jb1)" "audio_ok M jb1"
      by (rule audio_put [OF assms(1), of a len packet]) (use Jb_Put assms in auto)
    then show ?thesis using Jb_Put by simp
  next
    case (Jb_Get packet len)
    obtain st p l jb1 where "switch_jb_get_packet packet len jb = Inr (st, p, l, jb1)" "audio_ok M jb1" by (rule audio_get [OF assms(1,4)]) blast
    then show ?thesis using Jb_Get by simp
  next
    case (Jb_Get_By_Seq seq packet len)
    then have "jb' = jb" using s(1) by (auto simp: and_then_eq_Inr)
    then show ?thesis using s assms(1) by simp
  next
    case (Jb_Peek ts seq peek frame)
    then have "jb' = jb" using s(1) by (auto simp: and_then_eq_Inr)
    then show ?thesis using s assms(1) by simp
  next
    case Jb_Reset
    obtain jb1 where "switch_jb_reset jb = Inr jb1" "audio_ok M jb1" by (rule audio_reset [OF assms(1)])
    then show ?thesis using Jb_Reset by simp
  next
    case (Jb_Set_Frames mn mx)
    then have "jb' = switch_jb_set_frames mn mx jb" "unat mx \<le> M" using s(1) assms(3) by simp_all
    then have "audio_ok M jb'" using assms(1) by (intro same) (simp_all add: audio_ok_def)
    then show ?thesis using s by simp
  next
    case (Jb_Clear_Flag f)
    then have e: "jb' = switch_jb_clear_flag f jb" using s(1) by simp
    then have "audio_ok M jb'" using assms(1) by (intro same) (simp_all add: switch_jb_clear_flag_def audio_ok_def cleared_flag)
    then show ?thesis using s by simp
  next
    case (Jb_Pop_Nack a now)
    then show ?thesis using assms(1) w(3) by (simp add: switch_jb_pop_nack_def)
  next
    case (Jb_Set_Session env ch)
    then have e: "jb' = jb\<lparr>jb_session := True, jb_channel := Some ch\<rparr>" using s(1) w(3) by (auto simp: switch_jb_set_session_def Let_def)
    then have "audio_ok M jb'" using assms(1) by (intro same) (simp_all add: audio_ok_def)
    then show ?thesis using s by simp
  qed (use assms(3) in simp_all)
qed

lemma audio_run:
  "audio_ok M jb \<Longrightarrow> list_all (call_ok V) cs \<Longrightarrow> list_all (audio_call M) cs \<Longrightarrow> M < 2 ^ 29 \<Longrightarrow> \<exists>jb'. jb_run cs jb = Inr jb' \<and> audio_ok M jb'"
proof (induction cs arbitrary: jb)
  case (Cons c cs)
  obtain jb1 where "jb_step c jb = Inr jb1" "audio_ok M jb1" using audio_step [of M jb V c] Cons.prems by auto
  then show ?case using Cons by simp
qed simp

lemma audio_create:
  assumes "limits_ok mn mx" and "unat mx \<le> M"
  obtains jb where "switch_jb_create SJB_AUDIO mn mx = Inr jb" "audio_ok M jb" "holds jb []" "jb_target_seq jb = 0" "jb_flush jb = 0" "jb_frame_len jb = mn"
    "jb_max_frame_len jb = mx" "jb_period_miss_count jb = 0" "jb_highest_dropped_ts jb = 0" "jb_store jb = []" "jb_min_frame_len jb = mn"
proof (rule create_ok [OF assms(1), of SJB_AUDIO])
  fix jb assume c: "switch_jb_create SJB_AUDIO mn mx = Inr jb" "jb_wf jb" "frame_ok jb" "jb_store jb = []" "jb_type jb = SJB_AUDIO" "jb_node_list jb = []"
    "\<And>s. seq_find jb s = None" "jb_samples_per_frame jb = 0" "jb_flags jb = 0" "jb_max_frame_len jb = mx" "jb_frame_len jb = mn" "jb_node_hash_ts jb = None"
    "jb_complete_frames jb = 0" "jb_allocated_nodes jb = 0" "jb_highest_dropped_ts jb = 0" "jb_target_seq jb = 0" "jb_period_count jb = 0" "jb_period_miss_count jb = 0"
    "jb_min_frame_len jb = mn" "jb_flush jb = 0"
  have "audio_ok M jb" using c assms(2) by (simp add: audio_ok_def seq_sound_def vis_def test_flag_def)
  moreover have "holds jb []" using c by (simp add: holds_def)
  ultimately show ?thesis using that c by blast
qed

definition seq_no :: "switch_rtp_packet \<times> nat \<Rightarrow> nat" where
  "seq_no x = unat (ntohs (pk_seq (fst x)))"

fun jb_puts :: "hash_alloc \<Rightarrow> (switch_rtp_packet \<times> nat) list \<Rightarrow> switch_jb \<Rightarrow> switch_jb c_result" where
  "jb_puts a [] jb = Inr jb"
| "jb_puts a ((packet, len) # ps) jb = and_then (switch_jb_put_packet a packet len jb) (\<lambda>(_, jb). jb_puts a ps jb)"

fun jb_gets :: "nat \<Rightarrow> switch_rtp_packet \<Rightarrow> nat \<Rightarrow> switch_jb \<Rightarrow> ((switch_status_t \<times> switch_rtp_packet \<times> nat) list \<times> switch_jb) c_result" where
  "jb_gets 0 packet len jb = Inr ([], jb)"
| "jb_gets (Suc k) packet len jb =
     and_then (switch_jb_get_packet packet len jb) (\<lambda>(status, p, l, jb).
     and_then (jb_gets k packet len jb) (\<lambda>(rs, jb). Inr ((status, p, l) # rs, jb)))"

lemma seq_no_inject: "seq_no (p, l) = seq_no (q, k) \<longleftrightarrow> pk_seq p = pk_seq q"
  by (auto simp: seq_no_def simp flip: word_unat_eq_iff)

lemma holds_mset: "holds jb ps \<Longrightarrow> mset ps = mset qs \<Longrightarrow> holds jb qs"
proof -
  assume h: "holds jb ps" and m: "mset ps = mset qs"
  have "set ps = set qs" "length ps = length qs" using m by (metis set_mset_mset, metis size_mset)
  then show "holds jb qs" using h by (simp add: holds_def)
qed

lemma fresh_seq: "distinct (map seq_no ((p, l) # ps)) \<Longrightarrow> pk_seq p \<notin> (\<lambda>(p, l). pk_seq p) ` set ps"
  by (force simp: seq_no_def)

text \<open>Filling a buffer.\<close>

lemma puts_held:
  assumes "audio_ok M jb" and "holds jb ds" and "same_reader jb0 jb" and "jb_highest_dropped_ts jb = 0" and "length (jb_store jb) \<le> length ds"
    and "jb_max_frame_len jb = mx" and "distinct (map seq_no (ds @ ps))" and "length ds + length ps \<le> unat mx" and "\<forall>(p, l)\<in>set ps. l \<le> body_len"
    and "alloc_ok a" and "entry_ok a" and "M < 2 ^ 29"
  shows "\<exists>jb'. jb_puts a ps jb = Inr jb' \<and> audio_ok M jb' \<and> holds jb' (rev ps @ ds) \<and> same_reader jb0 jb' \<and> jb_max_frame_len jb' = mx"
  using assms
proof (induction ps arbitrary: jb ds)
  case (Cons x ps)
  obtain p l where x: "x = (p, l)" by (cases x)
  have len: "l \<le> body_len" using Cons.prems(9) x by simp
  have mx: "unat mx \<le> M" using Cons.prems(1,6) by (simp add: audio_ok_def)
  have lim: "jb_allocated_nodes jb \<le> node_limit jb"
  proof -
    have "unat (node_limit jb) = 2 * unat mx" using Cons.prems(1,6,12) mx by (simp add: node_limit_def audio_ok_def unat_word_ariths)
    then show ?thesis using Cons.prems(1,5,8) by (simp add: word_le_nat_alt audio_ok_def)
  qed
  obtain jb1 where put: "switch_jb_put_packet a p l jb = Inr (SWITCH_STATUS_SUCCESS, jb1)" "audio_ok M jb1"
    "jb_highest_dropped_ts jb = 0 \<and> jb_allocated_nodes jb \<le> node_limit jb \<longrightarrow> jb_highest_dropped_ts jb1 = 0 \<and> (\<exists>np. added p l (entry_ok a) np jb jb1)"
    by (rule audio_put [OF Cons.prems(1,10) len Cons.prems(12)])
  then obtain np where ad: "jb_highest_dropped_ts jb1 = 0" "added p l True np jb jb1" using Cons.prems(4,11) lim by auto
  obtain jb2 where "switch_jb_put_packet a p l jb = Inr (SWITCH_STATUS_SUCCESS, jb2)" "jb_keeps jb jb2"
    by (rule put_packet_ok [of jb a l p]) (use Cons.prems(1,10) len in \<open>auto simp: audio_ok_def\<close>)
  then have mx1: "jb_max_frame_len jb1 = mx" using put(1) Cons.prems(6) by (simp add: jb_keeps_def)
  have "pk_seq p \<notin> (\<lambda>(p, l). pk_seq p) ` set ds" using Cons.prems(7) x by (intro fresh_seq [of p l]) auto
  then have h: "holds jb1 (x # ds)" using holds_put [OF Cons.prems(1,2) ad(2) _ len] Cons.prems(8,12) mx x by simp
  have "same_reader jb0 jb1" using same_reader_trans [OF Cons.prems(3)] ad(2) by (simp add: added_def)
  moreover have "length (jb_store jb1) \<le> length (x # ds)" using ad(2) Cons.prems(5) by (auto simp: added_def)
  moreover have "distinct (map seq_no ((x # ds) @ ps))" using Cons.prems(7) by auto
  moreover have "length (x # ds) + length ps \<le> unat mx" "\<forall>(p, l)\<in>set ps. l \<le> body_len" using Cons.prems(8,9) by simp_all
  ultimately have "\<exists>jb'. jb_puts a ps jb1 = Inr jb' \<and> audio_ok M jb' \<and> holds jb' (rev ps @ x # ds) \<and> same_reader jb0 jb' \<and> jb_max_frame_len jb' = mx"
    by (rule Cons.IH [OF put(2) h _ ad(1) _ mx1 _ _ _ Cons.prems(10-12)])
  then show ?case using put(1) x by simp
qed simp

text \<open>The packet with the lowest sequence number is read first.\<close>

lemma first_held:
  assumes "audio_ok M jb" and "holds jb ((p, l) # ps)" and "sorted (map seq_no ((p, l) # ps))" and "0 < seq_no (p, l)" and "jb_target_seq jb \<in> {0, pk_seq p}"
  obtains n where "first_node jb = Some n" "seq_find jb (pk_seq p) = Some n" "jn_packet (nd jb n) = p" "unat (jn_len (nd jb n)) = l"
proof -
  obtain n where n: "seq_find jb (pk_seq p) = Some n" "jn_packet (nd jb n) = p" "unat (jn_len (nd jb n)) = l" using holds_find [OF assms(2)] by force
  have s: "jb_wf jb" "seq_sound jb" using assms(1) by (simp_all add: audio_ok_def)
  have p: "pk_seq p \<noteq> 0" using assms(4) by (auto simp: seq_no_def)
  have "first_node jb = Some n"
  proof (cases "jb_target_seq jb = 0")
    case False
    then show ?thesis using assms(5) n by (simp add: first_node_def)
  next
    case True
    have no: "seq_find jb 0 = None"
    proof (rule ccontr)
      assume "seq_find jb 0 \<noteq> None"
      then have "0 \<in> (\<lambda>(p, l). pk_seq p) ` set ((p, l) # ps)" using assms(2) unfolding holds_def by blast
      then obtain q k where "(q, k) \<in> set ((p, l) # ps)" "pk_seq q = 0" by force
      then have "seq_no (p, l) \<le> seq_no (q, k)" "seq_no (q, k) = 0" using assms(3) by (auto simp: seq_no_def)
      then show False using assms(4) by simp
    qed
    have nv: "n \<in> set (jb_node_list jb)" "nd_visible jb n" using n(1) s by (auto simp: seq_sound_def jb_wf_def nodes_ok_def)
    then obtain m where m: "lowest_seq_loop jb 0 (jb_node_list jb) None = Some m" "ntohs (nd_seq jb m) \<le> ntohs (nd_seq jb n)" using lowest_seq_least [OF refl] by blast
    then have fm: "first_node jb = Some m" using True no by (simp add: first_node_def jb_find_lowest_seq_def)
    then have "m < length (jb_store jb)" "nd_visible jb m" using first_node_visible [OF s] by blast+
    then obtain q k where q: "(q, k) \<in> set ((p, l) # ps)" "seq_find jb (pk_seq q) = Some m" using holds_visible [OF assms(2)] by blast
    then have sq: "nd_seq jb m = pk_seq q" using s(2) by (simp add: seq_sound_def)
    have "seq_no (p, l) \<le> seq_no (q, k)" using assms(3) q(1) by auto
    moreover have "seq_no (q, k) \<le> seq_no (p, l)" using m(2) sq n(2) by (simp add: seq_no_def word_le_nat_alt)
    ultimately have "pk_seq q = pk_seq p" using seq_no_inject by (metis order_antisym)
    then show ?thesis using fm q(2) n(1) by simp
  qed
  then show ?thesis using that n by blast
qed

lemma holds_fields:
  "jb_store jb' = jb_store jb \<Longrightarrow> jb_node_hash jb' = jb_node_hash jb \<Longrightarrow> jb_complete_frames jb' = jb_complete_frames jb \<Longrightarrow> holds jb' ps = holds jb ps"
  by (simp add: holds_def seq_find_def nd_def)

lemma get_held:
  assumes "audio_ok M jb" and "M < 2 ^ 29" and "holds jb ((p, l) # ps)" and "sorted (map seq_no ((p, l) # ps))" and "distinct (map seq_no ((p, l) # ps))"
    and "0 < seq_no (p, l)" and "jb_target_seq jb \<in> {0, pk_seq p}" and "jb_period_miss_count jb = 0" and "unat (jb_frame_len jb) \<le> Suc (length ps)"
    and "Suc (length ps) \<le> unat (jb_max_frame_len jb)"
  obtains jb' where "switch_jb_get_packet packet len jb = Inr (SWITCH_STATUS_SUCCESS, p\<lparr>pk_version := 2\<rparr>, l, jb')" "audio_ok M jb'" "holds jb' ps"
    "jb_target_seq jb' = htons (ntohs (pk_seq p) + 1)" "jb_period_miss_count jb' = 0" "jb_frame_len jb' \<le> jb_frame_len jb" "jb_max_frame_len jb' = jb_max_frame_len jb"
proof -
  have c: "unat (jb_complete_frames jb) = Suc (length ps)" using assms(3) by (simp add: holds_def)
  then have go: "jb_complete_frames jb \<noteq> 0" "\<not> jb_complete_frames jb < jb_frame_len jb" using assms(9) by (auto simp: word_less_nat_alt)
  obtain jb1 where j1: "jb_period jb = Inr jb1" "audio_ok M jb1" "jb_store jb1 = jb_store jb" "jb_node_hash jb1 = jb_node_hash jb" "jb_complete_frames jb1 = jb_complete_frames jb"
    "jb_target_seq jb1 = jb_target_seq jb" "jb_max_frame_len jb1 = jb_max_frame_len jb" "jb_frame_len jb1 \<le> jb_frame_len jb" "jb_period_miss_count jb1 = 0"
    by (rule audio_period [OF assms(1)]) (use assms(8) in blast)
  have h1: "holds jb1 ((p, l) # ps)" using holds_fields [OF j1(3-5)] assms(3) by blast
  have t1: "jb_target_seq jb1 \<in> {0, pk_seq p}" using j1(6) assms(7) by simp
  have fine: "\<not> too_many_misses jb1" using j1(9) by (simp add: too_many_misses_def)
  obtain n where n: "first_node jb1 = Some n" "seq_find jb1 (pk_seq p) = Some n" "jn_packet (nd jb1 n) = p" "unat (jn_len (nd jb1 n)) = l"
    by (rule first_held [OF j1(2) h1 assms(4,6) t1])
  have v: "n < length (jb_store jb1)" "nd_visible jb1 n" using first_node_visible [OF _ _ n(1)] j1(2) by (simp_all add: audio_ok_def)
  note t = taken_ok [OF j1(2) v]
  have tk: "take_packet packet len jb1 = Inr (SWITCH_STATUS_SUCCESS, p\<lparr>pk_version := 2\<rparr>, l, taken n jb1)" using take_found [OF j1(2) n(1)] n(3,4) by simp
  have h2: "holds (taken n jb1) ps" using holds_taken [OF j1(2) h1 n(2) fresh_seq [OF assms(5)]] .
  have small: "jb_complete_frames (taken n jb1) \<le> jb_max_frame_len (taken n jb1)" using t(3,12) j1(5,7) c assms(10) by (simp add: word_le_nat_alt)
  obtain jb2 where sh: "shrink (taken n jb1) = Inr jb2" "jb_complete_frames (taken n jb1) \<le> jb_max_frame_len (taken n jb1) \<longrightarrow> jb2 = taken n jb1"
    by (rule audio_shrink [OF t(1) assms(2)]) blast
  have "switch_jb_get_packet packet len jb = Inr (SWITCH_STATUS_SUCCESS, p\<lparr>pk_version := 2\<rparr>, l, taken n jb1)"
    using go j1(1) fine tk sh small by (simp add: switch_jb_get_packet_def)
  then show ?thesis using that [OF _ t(1) h2] t(7,8,9,12) j1 n(3) by simp
qed

lemma gets_held:
  assumes "audio_ok M jb" and "M < 2 ^ 29" and "holds jb qs" and "map seq_no qs = [s..<s + length qs]" and "0 < s"
    and "jb_target_seq jb = 0 \<or> unat (ntohs (jb_target_seq jb)) = s" and "jb_period_miss_count jb = 0" and "k + unat (jb_frame_len jb) \<le> Suc (length qs)"
    and "k \<le> length qs" and "length qs \<le> unat (jb_max_frame_len jb)"
  shows "\<exists>jb'. jb_gets k packet len jb = Inr (map (\<lambda>(p, l). (SWITCH_STATUS_SUCCESS, p\<lparr>pk_version := 2\<rparr>, l)) (take k qs), jb')"
  using assms
proof (induction k arbitrary: jb qs s)
  case (Suc k)
  obtain p l ps where qs: "qs = (p, l) # ps" using Suc.prems(9) by (cases qs) auto
  have u: "[s..<s + length qs] = s # [Suc s..<Suc s + length ps]" using qs by (simp add: upt_conv_Cons del: upt_Suc)
  have sp: "seq_no (p, l) = s" "map seq_no ps = [Suc s..<Suc s + length ps]" using Suc.prems(4) qs u by simp_all
  have so: "sorted (map seq_no ((p, l) # ps))" "distinct (map seq_no ((p, l) # ps))" using Suc.prems(4) qs by (metis sorted_upt, metis distinct_upt)
  have tg: "jb_target_seq jb \<in> {0, pk_seq p}" using Suc.prems(6) sp(1) seq_no_inject [of "p\<lparr>pk_seq := jb_target_seq jb\<rparr>" l p l] by (auto simp: seq_no_def)
  obtain jb' where g: "switch_jb_get_packet packet len jb = Inr (SWITCH_STATUS_SUCCESS, p\<lparr>pk_version := 2\<rparr>, l, jb')" "audio_ok M jb'" "holds jb' ps"
    "jb_target_seq jb' = htons (ntohs (pk_seq p) + 1)" "jb_period_miss_count jb' = 0" "jb_frame_len jb' \<le> jb_frame_len jb" "jb_max_frame_len jb' = jb_max_frame_len jb"
    by (rule get_held [OF Suc.prems(1,2) _ so _ tg Suc.prems(7)]) (use Suc.prems qs sp in simp_all)
  have fl: "unat (jb_frame_len jb') \<le> unat (jb_frame_len jb)" using g(6) by (simp add: word_le_nat_alt)
  have "jb_target_seq jb' = 0 \<or> unat (ntohs (jb_target_seq jb')) = Suc s"
    using g(4) sp(1) unatSuc [of "ntohs (pk_seq p)"] by (auto simp: seq_no_def add.commute)
  then have "\<exists>jb2. jb_gets k packet len jb' = Inr (map (\<lambda>(p, l). (SWITCH_STATUS_SUCCESS, p\<lparr>pk_version := 2\<rparr>, l)) (take k ps), jb2)"
    by (intro Suc.IH [OF g(2) Suc.prems(2) g(3) sp(2) _ _ g(5)]) (use Suc.prems qs fl g(7) in simp_all)
  then show ?case using g(1) qs by auto
qed simp

section \<open>Properties\<close>

text \<open>C10: The buffer puts packets in order. Into a new audio buffer go packets in any order, whose sequence numbers are some consecutive ones
  above zero, not more than the limit. As long as at least the minimum number of frames is waiting, each get succeeds, and the gets return the packets
  with their lengths by sequence number, the version set to 2.\<close>

theorem jb_delivers_in_order:
  assumes "limits_ok mn mx" and "mx < 2 ^ 29" and "alloc_ok a" and "entry_ok a"
    and "mset ps = mset qs" and "map seq_no qs = [s..<s + length qs]" and "0 < s" and "\<forall>(p, l)\<in>set qs. l \<le> body_len"
    and "length qs \<le> unat mx" and "k + unat mn \<le> Suc (length qs)"
  shows "\<exists>jb0 jb jb'. switch_jb_create SJB_AUDIO mn mx = Inr jb0 \<and> jb_puts a ps jb0 = Inr jb \<and>
    jb_gets k packet len jb = Inr (map (\<lambda>(p, l). (SWITCH_STATUS_SUCCESS, p\<lparr>pk_version := 2\<rparr>, l)) (take k qs), jb')"
proof -
  have M: "unat mx < 2 ^ 29" using assms(2) by (simp add: word_less_nat_alt)
  have mn: "0 < unat mn" using assms(1) by (simp add: limits_ok_def unat_gt_0 word_neq_0_conv)
  have same: "set ps = set qs" "length ps = length qs" using assms(5) by (metis set_mset_mset, metis size_mset)
  have d: "distinct (map seq_no ([] @ ps))" using assms(5,6) mset_map [of seq_no] by (metis append_Nil distinct_upt mset_eq_imp_distinct_iff)
  obtain jb0 where c: "switch_jb_create SJB_AUDIO mn mx = Inr jb0" "audio_ok (unat mx) jb0" "holds jb0 []" "jb_target_seq jb0 = 0" "jb_frame_len jb0 = mn"
    "jb_max_frame_len jb0 = mx" "jb_period_miss_count jb0 = 0" "jb_highest_dropped_ts jb0 = 0" "jb_store jb0 = []"
    by (rule audio_create [OF assms(1) order_refl]) blast
  have "\<exists>jb. jb_puts a ps jb0 = Inr jb \<and> audio_ok (unat mx) jb \<and> holds jb (rev ps @ []) \<and> same_reader jb0 jb \<and> jb_max_frame_len jb = mx"
    by (rule puts_held [OF c(2,3) _ c(8) _ c(6) d _ _ assms(3,4) M]) (use same assms(8,9) c(9) in \<open>simp_all add: same_reader_def\<close>)
  then obtain jb where j: "jb_puts a ps jb0 = Inr jb" "audio_ok (unat mx) jb" "holds jb (rev ps)" "same_reader jb0 jb" "jb_max_frame_len jb = mx" by auto
  have "holds jb qs" using holds_mset [OF j(3)] assms(5) by simp
  then have "\<exists>jb'. jb_gets k packet len jb = Inr (map (\<lambda>(p, l). (SWITCH_STATUS_SUCCESS, p\<lparr>pk_version := 2\<rparr>, l)) (take k qs), jb')"
    using j(4,5) c mn assms(7,9,10) by (intro gets_held [OF j(2) M _ assms(6)]) (simp_all add: same_reader_def)
  then show ?thesis using c(1) j(1) by blast
qed

theorem jb_delivers_in_order_witness:
  "\<exists>jb0 jb jb'. switch_jb_create SJB_AUDIO 2 5 = Inr jb0 \<and>
    jb_puts demo_jb_alloc [(demo_packet 9, 15), (demo_packet 8, 15), (demo_packet 10, 14)] jb0 = Inr jb \<and>
    jb_gets 2 (demo_packet 0) 0 jb = Inr ([(SWITCH_STATUS_SUCCESS, demo_packet 8, 15), (SWITCH_STATUS_SUCCESS, demo_packet 9, 15)], jb')"
  using jb_delivers_in_order [of 2 5 demo_jb_alloc "[(demo_packet 9, 15), (demo_packet 8, 15), (demo_packet 10, 14)]" "[(demo_packet 8, 15), (demo_packet 9, 15), (demo_packet 10, 14)]" 8 2
      "demo_packet 0" 0]
  by (simp add: limits_ok_def alloc_ok_def body_len_def SWITCH_RTP_MAX_BUF_LEN_def seq_no_def demo_packet_def upt_rec add_mset_commute)

text \<open>C25: How much an audio buffer can hold. While the limit on frames stays at or below \<open>M\<close>, it allocates no more than \<open>2 M + 1\<close> nodes whatever is
  put; its frame counter is never below the number of packets that are waiting and never more than \<open>2 M\<close> above it (dropping packets to catch up does
  not lower it), and a sequence number is only ever looked up to the waiting packet that has it.\<close>

theorem jb_audio_bounds:
  assumes "limits_ok mn mx" and "unat mx \<le> M" and "M < 2 ^ 29" and "list_all (call_ok V) cs" and "list_all (audio_call M) cs"
  shows "\<exists>jb0 jb. switch_jb_create SJB_AUDIO mn mx = Inr jb0 \<and> jb_run cs jb0 = Inr jb \<and>
    length (jb_store jb) \<le> 2 * M + 1 \<and> unat (jb_allocated_nodes jb) = length (jb_store jb) \<and>
    vis jb \<le> unat (jb_complete_frames jb) \<and> unat (jb_complete_frames jb) \<le> 2 * M + vis jb \<and>
    (\<forall>seq n. seq_find jb seq = Some n \<longrightarrow> nd_visible jb n \<and> nd_seq jb n = seq)"
proof -
  obtain jb0 where c: "switch_jb_create SJB_AUDIO mn mx = Inr jb0" "audio_ok M jb0" by (rule audio_create [OF assms(1,2)]) blast
  obtain jb where "jb_run cs jb0 = Inr jb" "audio_ok M jb" using audio_run [OF c(2) assms(4,5,3)] by blast
  then show ?thesis using c(1) by (auto simp: audio_ok_def seq_sound_def)
qed

theorem jb_audio_bounds_witness:
  "\<exists>jb0 jb. switch_jb_create SJB_AUDIO 1 3 = Inr jb0 \<and>
    jb_run [Jb_Put demo_jb_alloc (demo_packet 7) 15, Jb_Set_Frames 2 5, Jb_Get (demo_packet 0) 0, Jb_Put demo_jb_alloc (demo_packet 8) 15] jb0 = Inr jb \<and> length (jb_store jb) \<le> 11"
  using jb_audio_bounds [of 1 3 5 "{}" "[Jb_Put demo_jb_alloc (demo_packet 7) 15, Jb_Set_Frames 2 5, Jb_Get (demo_packet 0) 0, Jb_Put demo_jb_alloc (demo_packet 8) 15]"]
  by (auto simp: limits_ok_def alloc_ok_def body_len_def SWITCH_RTP_MAX_BUF_LEN_def)

end
