(* ===== verification/Spec2Isabelle.thy ===== *)
theory Spec2Isabelle
  imports FS_Buffer FS_Core_Hash FS_Base64 FS_Strings FS_Port_Allocator FS_Network FS_Dtmf FS_Scheduler FS_Session_Life
    FS_Jitterbuffer_Audio
begin

text \<open>
  A verification of the core library of FreeSWITCH 1.6.19, as this repository cross-compiles it for Android
  (\<^verbatim>\<open>armv7-a\<close>: 32-bit \<^verbatim>\<open>size_t\<close>, \<^verbatim>\<open>int\<close> and \<^verbatim>\<open>long\<close>, unsigned plain \<^verbatim>\<open>char\<close>). All paths below are relative to
  \<^verbatim>\<open>src/freeswitch-1.6.19/src\<close>.

  \<^bold>\<open>The program.\<close> A call is a \<^emph>\<open>session\<close> with a \<^emph>\<open>channel\<close>. The channel has a state, flags, variables and a caller profile;
  a thread of the session runs the handlers of each state it enters. Everything that happens is published as
  \<^emph>\<open>events\<close>, which also serve as the dictionaries of the program: channel variables are the headers of an event.
  Below these are the data structures and services every part uses: byte buffers between media and files, hash
  tables, string routines, the allocator of RTP ports, the jitter buffer of incoming media and the scheduler of timed tasks.

  \<^bold>\<open>How C is modelled.\<close> Functions are HOL functions with the names of the source. A function that can fail a
  \<^verbatim>\<open>switch_assert\<close>, follow a null pointer or leave an object returns a \<open>c_result\<close>, whose left values are these
  faults (\<^verbatim>\<open>FS_Prelude\<close>). Structures are records, linked lists are lists (with the tail pointer kept as a position where the
  code maintains one), strings are character lists without the terminator, possibly null strings are options.
  Counters that can wrap are words or carry the modulus. Allocation outcomes, the clock, random numbers, socket
  tests and callbacks are arguments; calls into other parts of the program whose effect is not modelled are recorded
  in logs, in their order. Mutexes are not modelled as data: operations that run under one mutex are atomic, and where threads
  interleave inside an operation it is cut into steps of an inductive relation.

  \<^bold>\<open>The theories.\<close>
  \<^item> \<^verbatim>\<open>FS_Prelude\<close>: faults, results, memory objects, sizes, flag words and shared lemmas.
  \<^item> \<^verbatim>\<open>FS_Buffer\<close>: \<^verbatim>\<open>switch_buffer.c\<close>. Buffers implement the locale \<open>byte_fifo\<close>: no byte is lost, repeated or reordered and
    no access leaves the object, for all interleavings of calls.
  \<^item> \<^verbatim>\<open>FS_Ctype\<close>: the case conversions of \<^verbatim>\<open>include/switch_utils.h\<close> that work on four packed characters, shown equal to
    the byte-wise conversion, and rounding to steps.
  \<^item> \<^verbatim>\<open>FS_Hashtable\<close> and \<^verbatim>\<open>FS_Core_Hash\<close>: \<^verbatim>\<open>switch_hashtable.c\<close> and \<^verbatim>\<open>switch_core_hash.c\<close>. The locale \<open>key_class\<close> is what a
    table needs of its key functions, \<open>eq_map\<close> the contract of a map up to a key equality; tables with exact, case
    insensitive and integer keys implement it, iteration is complete, and every key copy and destructor is released once.
  \<^item> \<^verbatim>\<open>FS_Strings\<close> and \<^verbatim>\<open>FS_Base64\<close>: parts of \<^verbatim>\<open>switch_utils.c\<close>. Round trips of URL and base64 coding and of argument separation, bounds
    of the encoders, termination of string replacement.
  \<^item> \<^verbatim>\<open>FS_Event\<close>: \<^verbatim>\<open>switch_event.c\<close>, the headers of events. Any sequence of up to a million calls keeps an event
    well-formed (the bound is the one the code asserts); variable events implement the locale \<open>variable_store\<close>; arrays, copies
    and the text form, whose buffer sizes wrap around at the width of \<^verbatim>\<open>size_t\<close>, are characterised.
  \<^item> \<^verbatim>\<open>FS_Port_Allocator\<close>: \<^verbatim>\<open>switch_core_port_allocator.c\<close>, shown to implement the locale \<open>lease_pool\<close>: no port is out twice. A
    request is a loop that need not end; it is a function of fuel, and five turns are enough when no test fails, because
    the cool-down of a cell ends after at most four.
  \<^item> \<^verbatim>\<open>FS_Network\<close>: the access lists of \<^verbatim>\<open>switch_utils.c\<close> and \<^verbatim>\<open>switch_core.c\<close>. The longest prefix that covers an address decides; entries with
    netmasks decide IPv4 addresses as CIDR entries do.
  \<^item> \<^verbatim>\<open>FS_Scheduler\<close>: \<^verbatim>\<open>switch_scheduler.c\<close> with all its threads as a step relation; invariants by rule induction show which
    interleavings are safe, and two reachable states show which are not. A turn of its loop that nobody disturbs is compared with what it makes of each task.
  \<^item> \<^verbatim>\<open>FS_Caller\<close>: \<^verbatim>\<open>switch_caller.c\<close>, caller profiles and the applications of an extension, with the loop of
    \<^verbatim>\<open>switch_core_standard_on_execute\<close> that executes them. That loop is a function of fuel; one more than the number of applications is enough when they
    leave the extension alone.
  \<^item> \<^verbatim>\<open>FS_Channel\<close>: parts of \<^verbatim>\<open>switch_channel.c\<close>: the state of a channel and its changes, call states, flags, the table of state handlers, variables
    and scopes, holding, and the charts of names.
  \<^item> \<^verbatim>\<open>FS_Dtmf\<close>: the touch tones of \<^verbatim>\<open>switch_channel.c\<close> and \<^verbatim>\<open>switch_core_io.c\<close>. The queue implements the locale \<open>bounded_fifo\<close>; the
    records of the digits have addresses, and every one is accounted for when the channel is destroyed.
  \<^item> \<^verbatim>\<open>FS_Session\<close>: \<^verbatim>\<open>switch_core_state_machine.c\<close>, \<^verbatim>\<open>switch_channel_perform_hangup\<close> and the core's state handlers. A handler is
    a function from the session to the calls it makes and its answer. The order in which \<^verbatim>\<open>STATE_MACRO\<close> runs handlers, and what a veto stops.
    A turn of the thread while \<^verbatim>\<open>CF_BLOCK_STATE\<close> is set on a channel that is up is a round of its waiting loop and changes nothing.
  \<^item> \<^verbatim>\<open>FS_Session_End\<close> and \<^verbatim>\<open>FS_Session_Life\<close>: the locale \<open>handler_runs\<close> is what the handlers of a state keep; it is interpreted for sessions
    that are hung up and for those that live. The relation \<open>life\<close> interleaves turns of the session's thread, calls
    of other threads and hangups cut into their parts: a call ends exactly once, and a session that is hung up, or unused and not blocked, comes
    to its end after a known number of turns.

  \<^item> \<^verbatim>\<open>FS_Jitterbuffer\<close>: \<^verbatim>\<open>switch_jitterbuffer.c\<close>, the buffer that puts packets of a stream in order, on top of the tables of
    \<^verbatim>\<open>FS_Core_Hash\<close>. Nodes are indices into a store, their doubly linked list is a list. The locale \<open>key_order\<close> is what the merge sort needs
    of its comparison: then it is a stable sort. The search for missing packets is a function of fuel; one more than the number of entries is enough.
  \<^item> \<^verbatim>\<open>FS_Jitterbuffer_Safe\<close> and \<^verbatim>\<open>FS_Jitterbuffer_Audio\<close>: the invariant of a buffer, kept by all calls, and the locale \<open>hiding_stable\<close>
    for what dropping frames keeps; no call faults. Audio buffers: how much they hold, and that packets come out in order. Video buffers: what a
    reset does to their counter.

  \<^bold>\<open>Not modelled.\<close> Media, RTP, codecs and signal processing (sockets, real time, floating point and third-party libraries);
  the interactive voice response code and the modules under \<^verbatim>\<open>mod\<close>, which are long procedures over live calls; the XML
  and JSON parsers, which are derived from other projects; databases, dynamic loading, process
  start-up and logging, which consist of calls to the operating system and to libraries; and everything under \<^verbatim>\<open>libs\<close>.
  Of the events, the dispatch threads, the JSON and XML forms and the expansion of variables are left out; of the
  channel, device records, presence and the answering of calls. Events that a channel fires are recorded
  by their type, without their headers.
\<close>

end
